(* ===== verification/Prelude.thy ===== *)
theory Prelude
  imports Main "HOL-Library.Word"
begin

text \<open>
  What every component shares: the machine integer types, the outcome of a Rust
  computation (a value, an \<open>Err\<close>, or a panic), the checked accesses and checked
  arithmetic the compiler inserts, and generic lemmas on lists and words.

  The model is the crate as built with debug assertions: an index out of range, a
  slice with bad bounds, a failed \<open>debug_assert\<close> and an overflowing \<open>+\<close> or \<open>-\<close> are
  \<open>Panic\<close>.  A computation that is proved not to panic here computes the same value in
  a release build.  A \<open>usize\<close> is a \<open>nat\<close>; the target is 64-bit, so \<open>usize::MAX\<close> is
  \<open>2 ^ 64 - 1\<close>.
\<close>

unbundle bit_operations_syntax

section \<open>Machine integers\<close>

type_synonym u8 = "8 word"
type_synonym u32 = "32 word"
type_synonym u64 = "64 word"
type_synonym usize = nat

text \<open>Floating-point values are their IEEE bit patterns; the code only moves them.\<close>

type_synonym f32 = "32 word"
type_synonym f64 = "64 word"

definition usize_max :: usize where
  "usize_max = 2 ^ 64 - 1"

definition u32_max :: nat where
  "u32_max = 2 ^ 32 - 1"

section \<open>Outcomes\<close>

datatype ('e, 'a) res = Ok 'a | Err 'e | Panic

fun bind_res :: "('e, 'a) res \<Rightarrow> ('a \<Rightarrow> ('e, 'b) res) \<Rightarrow> ('e, 'b) res" where
  "bind_res (Ok x) f = f x"
| "bind_res (Err e) f = Err e"
| "bind_res Panic f = Panic"

fun map_res :: "('a \<Rightarrow> 'b) \<Rightarrow> ('e, 'a) res \<Rightarrow> ('e, 'b) res" where
  "map_res f (Ok x) = Ok (f x)"
| "map_res f (Err e) = Err e"
| "map_res f Panic = Panic"

fun is_Ok :: "('e, 'a) res \<Rightarrow> bool" where
  "is_Ok (Ok x) = True"
| "is_Ok (Err e) = False"
| "is_Ok Panic = False"

text \<open>A \<open>for\<close> loop whose body may return early or panic.\<close>

fun fold_res :: "('s \<Rightarrow> 'a \<Rightarrow> ('e, 's) res) \<Rightarrow> 's \<Rightarrow> 'a list \<Rightarrow> ('e, 's) res" where
  "fold_res f s [] = Ok s"
| "fold_res f s (x # xs) = bind_res (f s x) (\<lambda>s'. fold_res f s' xs)"

text \<open>A loop that collects one result per element.\<close>

fun map_list_res :: "('a \<Rightarrow> ('e, 'b) res) \<Rightarrow> 'a list \<Rightarrow> ('e, 'b list) res" where
  "map_list_res f [] = Ok []"
| "map_list_res f (x # xs) = bind_res (f x) (\<lambda>y. map_res (Cons y) (map_list_res f xs))"

section \<open>Checked accesses and arithmetic\<close>

definition index_vec :: "'a list \<Rightarrow> usize \<Rightarrow> ('e, 'a) res" where
  "index_vec xs i = (if i < length xs then Ok (xs ! i) else Panic)"

definition get_vec :: "'a list \<Rightarrow> usize \<Rightarrow> 'a option" where
  "get_vec xs i = (if i < length xs then Some (xs ! i) else None)"

definition set_vec :: "'a list \<Rightarrow> usize \<Rightarrow> 'a \<Rightarrow> ('e, 'a list) res" where
  "set_vec xs i x = (if i < length xs then Ok (xs[i := x]) else Panic)"

definition slice_vec :: "'a list \<Rightarrow> usize \<Rightarrow> usize \<Rightarrow> ('e, 'a list) res" where
  "slice_vec xs a b =
     (if a \<le> b \<and> b \<le> length xs then Ok (take (b - a) (drop a xs)) else Panic)"

definition sub_usize :: "usize \<Rightarrow> usize \<Rightarrow> ('e, usize) res" where
  "sub_usize a b = (if b \<le> a then Ok (a - b) else Panic)"

definition add_word :: "'w::len word \<Rightarrow> 'w word \<Rightarrow> ('e, 'w word) res" where
  "add_word a b = (if unat a + unat b < 2 ^ LENGTH('w) then Ok (a + b) else Panic)"

definition sub_word :: "'w::len word \<Rightarrow> 'w word \<Rightarrow> ('e, 'w word) res" where
  "sub_word a b = (if b \<le> a then Ok (a - b) else Panic)"

definition add_usize :: "usize \<Rightarrow> usize \<Rightarrow> ('e, usize) res" where
  "add_usize a b = (if a + b \<le> usize_max then Ok (a + b) else Panic)"

definition checked_add :: "'w::len word \<Rightarrow> 'w word \<Rightarrow> 'w word option" where
  "checked_add a b = (if unat a + unat b < 2 ^ LENGTH('w) then Some (a + b) else None)"

definition saturating_mul :: "usize \<Rightarrow> usize \<Rightarrow> usize" where
  "saturating_mul a b = min (a * b) usize_max"

definition saturating_add :: "usize \<Rightarrow> usize \<Rightarrow> usize" where
  "saturating_add a b = min (a + b) usize_max"

definition div_ceil :: "usize \<Rightarrow> usize \<Rightarrow> usize" where
  "div_ceil a b = (a + b - 1) div b"

definition usize_of_u64 :: "u64 \<Rightarrow> usize option" where
  "usize_of_u64 x = (if unat x \<le> usize_max then Some (unat x) else None)"

definition u64_of_usize :: "usize \<Rightarrow> u64 option" where
  "u64_of_usize n = (if n < 2 ^ 64 then Some (of_nat n) else None)"

definition u32_of_u64 :: "u64 \<Rightarrow> u32 option" where
  "u32_of_u64 x = (if unat x \<le> u32_max then Some (ucast x) else None)"

fun ok_or :: "'a option \<Rightarrow> 'e \<Rightarrow> ('e, 'a) res" where
  "ok_or (Some x) e = Ok x"
| "ok_or None e = Err e"

section \<open>Decimal and hexadecimal display\<close>

fun show_digits :: "nat \<Rightarrow> nat \<Rightarrow> nat \<Rightarrow> string" where
  "show_digits base 0 n = []"
| "show_digits base (Suc fuel) n =
     (if n < base then [''0123456789abcdef'' ! n]
      else show_digits base fuel (n div base) @ [''0123456789abcdef'' ! (n mod base)])"

text \<open>A number below \<open>2 ^ 64\<close> has at most twenty decimal and sixteen hexadecimal digits.\<close>

definition show_nat :: "nat \<Rightarrow> string" where
  "show_nat n = show_digits 10 20 n"

definition show_hex :: "nat \<Rightarrow> string" where
  "show_hex n = show_digits 16 16 n"

section \<open>Lemmas on outcomes\<close>

named_theorems checked_defs \<open>checked accesses and arithmetic\<close>

lemmas [checked_defs] =
  index_vec_def get_vec_def set_vec_def slice_vec_def sub_usize_def add_word_def
  sub_word_def checked_add_def

lemma bind_res_Ok_iff:
  "bind_res m f = Ok y \<longleftrightarrow> (\<exists>x. m = Ok x \<and> f x = Ok y)"
  by (cases m) auto

lemma bind_res_cong [fundef_cong]:
  "m = m' \<Longrightarrow> (\<And>x. m' = Ok x \<Longrightarrow> f x = f' x) \<Longrightarrow> bind_res m f = bind_res m' f'"
  by (cases m') auto

lemma bind_res_assoc: "bind_res (bind_res m f) g = bind_res m (\<lambda>x. bind_res (f x) g)"
  by (cases m) auto

lemma bind_res_Ok_right [simp]: "bind_res m Ok = m"
  by (cases m) auto

lemma map_res_Ok_iff: "map_res f m = Ok y \<longleftrightarrow> (\<exists>x. m = Ok x \<and> y = f x)"
  by (cases m) auto

lemma is_Ok_iff: "is_Ok m \<longleftrightarrow> (\<exists>x. m = Ok x)"
  by (cases m) auto

lemma fold_res_append:
  "fold_res f s (xs @ ys) = bind_res (fold_res f s xs) (\<lambda>s'. fold_res f s' ys)"
  by (induction xs arbitrary: s) (auto simp: bind_res_assoc)

lemma fold_res_cong [fundef_cong]:
  "s = s' \<Longrightarrow> xs = ys \<Longrightarrow> (\<And>t x. x \<in> set ys \<Longrightarrow> f t x = g t x) \<Longrightarrow>
   fold_res f s xs = fold_res g s' ys"
proof (induction ys arbitrary: s s' xs)
  case (Cons y ys)
  then show ?case by (auto intro!: bind_res_cong)
qed simp

text \<open>The loop rule: an invariant over the processed prefix, every step of which succeeds.\<close>

lemma fold_res_invariant:
  assumes "I [] s"
    and "\<And>pre x s. I pre s \<Longrightarrow> x \<in> set xs \<Longrightarrow> pre @ [x] = take (Suc (length pre)) xs \<Longrightarrow>
           \<exists>s'. f s x = Ok s' \<and> I (pre @ [x]) s'"
  shows "\<exists>t. fold_res f s xs = Ok t \<and> I xs t"
proof -
  have "\<exists>t. fold_res f s ys = Ok t \<and> I (pre @ ys) t" if "I pre s" "pre @ ys = xs" for pre ys s
    using that
  proof (induction ys arbitrary: pre s)
    case (Cons y ys)
    then have "y \<in> set xs" "pre @ [y] = take (Suc (length pre)) xs" by auto
    with assms(2) [OF Cons.prems(1)] obtain s' where s': "f s y = Ok s'" "I (pre @ [y]) s'"
      by blast
    with Cons.IH [of "pre @ [y]" s'] Cons.prems(2) show ?case by auto
  qed simp
  from this [of "[]" s xs] assms(1) show ?thesis by simp
qed

lemma map_list_res_Ok:
  "(\<And>x. x \<in> set xs \<Longrightarrow> f x = Ok (g x)) \<Longrightarrow> map_list_res f xs = Ok (map g xs)"
  by (induction xs) auto

section \<open>Lemmas on checked operations\<close>

lemma index_vec_Ok [simp]: "i < length xs \<Longrightarrow> index_vec xs i = Ok (xs ! i)"
  by (simp add: index_vec_def)

lemma index_vec_eq_Ok: "index_vec xs i = Ok x \<longleftrightarrow> i < length xs \<and> x = xs ! i"
  by (auto simp: index_vec_def)

lemma set_vec_Ok [simp]: "i < length xs \<Longrightarrow> set_vec xs i x = Ok (xs[i := x])"
  by (simp add: set_vec_def)

lemma slice_vec_Ok [simp]:
  "a \<le> b \<Longrightarrow> b \<le> length xs \<Longrightarrow> slice_vec xs a b = Ok (take (b - a) (drop a xs))"
  by (simp add: slice_vec_def)

lemma sub_usize_Ok [simp]: "b \<le> a \<Longrightarrow> sub_usize a b = Ok (a - b)"
  by (simp add: sub_usize_def)

lemma unat_add_fits:
  "unat a + unat b < 2 ^ LENGTH('w) \<Longrightarrow> unat (a + b) = unat a + unat b"
  for a b :: "'w::len word"
  by (simp add: unat_word_ariths)

lemma usize_of_u64_Some [simp]: "usize_of_u64 x = Some (unat x)"
  using unsigned_less [of x, where 'a = nat] by (simp add: usize_of_u64_def usize_max_def)

lemma u64_of_usize_Some: "n < 2 ^ 64 \<Longrightarrow> u64_of_usize n = Some (of_nat n)"
  by (simp add: u64_of_usize_def)

lemma u64_of_usize_eq_Some: "u64_of_usize n = Some w \<longleftrightarrow> unat w = n"
  using unsigned_less [of w, where 'a = nat]
  by (auto simp: u64_of_usize_def unsigned_of_nat take_bit_nat_eq_self simp del: unsigned_less)

lemma u32_of_u64_eq_Some: "u32_of_u64 x = Some c \<longleftrightarrow> ucast c = x"
proof -
  have "x = ucast (ucast x :: u32)" if "unat x < 2 ^ 32"
    using that by (intro word_unat_eq_iff [THEN iffD2])
      (simp add: unsigned_ucast_eq unsigned_take_bit_eq take_bit_nat_eq_self)
  moreover have "unat (ucast c :: u64) < 2 ^ 32"
    using unsigned_less [of c, where 'a = nat]
    by (simp add: unsigned_ucast_eq take_bit_nat_eq_self)
  moreover have "ucast (ucast c :: u64) = c"
    by (rule bit_word_eqI) (simp add: bit_simps)
  ultimately show ?thesis by (auto simp: u32_of_u64_def u32_max_def)
qed

lemma ucast_u32_roundtrip [simp]: "ucast (ucast (n :: u32) :: u64) = n"
  by (rule bit_word_eqI) (simp add: bit_simps)

lemma unat_ucast_u32_u64 [simp]: "unat (ucast (n :: u32) :: u64) = unat n"
  by (simp add: unsigned_ucast_eq take_bit_nat_eq_self_iff order_less_trans [OF unsigned_less])

lemma div_ceil_le_mult: "0 < b \<Longrightarrow> a \<le> div_ceil a b * b"
proof -
  assume b: "0 < b"
  have "a + b - 1 = (a + b - 1) div b * b + (a + b - 1) mod b" by simp
  moreover have "(a + b - 1) mod b \<le> b - 1"
    using mod_less_divisor [OF b, of "a + b - 1"] by linarith
  ultimately show ?thesis using b unfolding div_ceil_def by linarith
qed

lemma less_div_ceil_iff: "0 < b \<Longrightarrow> i div b < div_ceil a b \<longleftrightarrow> i div b * b < a"
proof -
  assume b: "0 < b"
  have "i div b < (a + b - 1) div b \<longleftrightarrow> Suc (i div b) * b \<le> a + b - 1"
    using b by (metis Suc_le_eq less_eq_div_iff_mult_less_eq)
  also have "\<dots> \<longleftrightarrow> i div b * b < a" using b by auto
  finally show ?thesis by (simp add: div_ceil_def)
qed

lemma div_less_div_ceil: "0 < b \<Longrightarrow> i < a \<Longrightarrow> i div b < div_ceil a b"
  using less_div_ceil_iff [of b i a] by (meson div_times_less_eq_dividend le_less_trans)

section \<open>Lemmas on lists\<close>

lemma take_drop_snoc:
  "a + n < length xs \<Longrightarrow> take (Suc n) (drop a xs) = take n (drop a xs) @ [xs ! (a + n)]"
  by (simp add: take_Suc_conv_app_nth)

lemma take_drop_update_same:
  "a + n < length xs \<Longrightarrow>
   take (Suc n) (drop a (xs[a + n := x])) = take n (drop a xs) @ [x]"
  by (simp add: take_Suc_conv_app_nth drop_update_swap)

lemma take_drop_update_other:
  "p < a \<or> a + n \<le> p \<Longrightarrow> take n (drop a (xs[p := x])) = take n (drop a xs)"
  by (rule nth_equalityI) (auto simp: nth_list_update)

lemma filter_takeWhile_sorted_prefix:
  "sorted (map f xs) \<Longrightarrow> i < length xs \<Longrightarrow>
   (i < length (takeWhile (\<lambda>x. f x \<le> k) xs)) = (f (xs ! i) \<le> (k :: 'b::linorder))"
proof (induction xs arbitrary: i)
  case (Cons y ys)
  show ?case
  proof (cases i)
    case 0
    then show ?thesis by simp
  next
    case (Suc j)
    with Cons.prems have "f y \<le> f (ys ! j)" by auto
    with Suc Cons show ?thesis by (auto dest: order_trans)
  qed
qed simp

end
