(* ===== verification/Errors.thy ===== *)
theory Errors
  imports Prelude
begin

text \<open>
  The identifier types of \<open>types.rs\<close> and the error taxonomy of \<open>error.rs\<close> (crate
  \<open>fusiongraph-core\<close>): the error values, their code, subsystem, severity, retry class
  and display text.
\<close>

section \<open>Identifiers and plain data (types.rs)\<close>

datatype node_id = NodeId (as_u64: u64)

datatype edge_id = EdgeId (edge_as_u64: u64)

definition node_new :: "u64 \<Rightarrow> node_id" where
  "node_new i = NodeId i"

definition edge_new :: "u64 \<Rightarrow> edge_id" where
  "edge_new i = EdgeId i"

definition node_of_u64 :: "u64 \<Rightarrow> node_id" where
  "node_of_u64 i = NodeId i"

definition node_of_u32 :: "u32 \<Rightarrow> node_id" where
  "node_of_u32 i = NodeId (ucast i)"

definition node_display :: "node_id \<Rightarrow> string" where
  "node_display n = ''Node('' @ show_nat (unat (as_u64 n)) @ '')''"

definition edge_display :: "edge_id \<Rightarrow> string" where
  "edge_display e = ''Edge('' @ show_nat (unat (edge_as_u64 e)) @ '')''"

record edge_data =
  weight :: "f64 option"
  label :: "string option"

definition edge_data_default :: edge_data where
  "edge_data_default = \<lparr>weight = None, label = None\<rparr>"

record graph_statistics =
  st_node_count :: usize
  st_edge_count :: usize
  st_shard_count :: usize
  st_memory_bytes :: usize
  st_delta_entries :: usize

text \<open>\<open>#[derive(PartialOrd, Ord)]\<close> on \<open>NodeId\<close> compares the wrapped integer.\<close>

instantiation node_id :: linorder
begin

definition less_eq_node_id :: "node_id \<Rightarrow> node_id \<Rightarrow> bool" where
  "less_eq_node_id a b \<longleftrightarrow> as_u64 a \<le> as_u64 b"

definition less_node_id :: "node_id \<Rightarrow> node_id \<Rightarrow> bool" where
  "less_node_id a b \<longleftrightarrow> as_u64 a < as_u64 b"

instance
  by standard (auto simp: less_eq_node_id_def less_node_id_def node_id.expand)

end

instance node_id :: finite
proof
  have "(UNIV :: node_id set) = NodeId ` UNIV"
    by (metis UNIV_I node_id.collapse surjI)
  then show "finite (UNIV :: node_id set)"
    by (metis finite_code finite_imageI)
qed

section \<open>Severities and errors (error.rs)\<close>

datatype severity = Fatal | ErrorSeverity | Warning

fun severity_code :: "severity \<Rightarrow> char" where
  "severity_code Fatal = CHR ''F''"
| "severity_code ErrorSeverity = CHR ''E''"
| "severity_code Warning = CHR ''W''"

fun severity_as_str :: "severity \<Rightarrow> string" where
  "severity_as_str Fatal = ''fatal''"
| "severity_as_str ErrorSeverity = ''error''"
| "severity_as_str Warning = ''warning''"

datatype graph_error =
    OutOfMemory usize usize
  | InvalidEdge node_id node_id
  | UnsupportedGraphSize string
  | ShardCorruption u32 u64 u64
  | DeltaOverflow usize usize
  | CompactionFailed string
  | NodeNotFound node_id
  | InvalidTraversal string
  | TraversalTimeout u64 usize
  | CycleLimitExceeded node_id usize
  | MemoryLimitExceeded usize usize
  | CircuitOpen
  | Internal string

type_synonym 'a result = "(graph_error, 'a) res"

fun error_display :: "graph_error \<Rightarrow> string" where
  "error_display (OutOfMemory requested available) =
     ''FG-CSR-E001: Out of memory (requested '' @ show_nat requested @
     '' bytes, available '' @ show_nat available @ '')''"
| "error_display (InvalidEdge from to) =
     ''FG-CSR-E002: Invalid edge: source '' @ node_display from @
     '' or target '' @ node_display to @ '' out of range''"
| "error_display (UnsupportedGraphSize reason) =
     ''FG-CSR-E003: Unsupported graph size: '' @ reason"
| "error_display (ShardCorruption shard_id expected actual) =
     ''FG-CSR-F001: Memory corruption in shard '' @ show_nat (unat shard_id) @
     '' (checksum '' @ show_hex (unat expected) @ '' != '' @ show_hex (unat actual) @ '')''"
| "error_display (DeltaOverflow count threshold) =
     ''FG-DLT-E001: Delta layer overflow ('' @ show_nat count @
     '' entries exceed threshold '' @ show_nat threshold @ '')''"
| "error_display (CompactionFailed reason) =
     ''FG-DLT-E002: Delta compaction failed: '' @ reason"
| "error_display (NodeNotFound node) =
     ''FG-TRV-E001: Node '' @ node_display node @ '' not found in graph''"
| "error_display (InvalidTraversal reason) =
     ''FG-TRV-E002: Invalid traversal: '' @ reason"
| "error_display (TraversalTimeout duration_ms nodes_visited) =
     ''FG-TRV-E003: Traversal timed out after '' @ show_nat (unat duration_ms) @
     ''ms (visited '' @ show_nat nodes_visited @ '' nodes)''"
| "error_display (CycleLimitExceeded node visit_count) =
     ''FG-TRV-E004: Cycle limit exceeded at node '' @ node_display node @
     '' (visited '' @ show_nat visit_count @ '' times)''"
| "error_display (MemoryLimitExceeded limit requested) =
     ''FG-MEM-E001: Memory limit exceeded (limit '' @ show_nat limit @
     '' bytes, requested '' @ show_nat requested @ '')''"
| "error_display CircuitOpen = ''FG-SYS-E001: Circuit breaker open, failing fast''"
| "error_display (Internal message) = ''FG-SYS-E002: Internal error: '' @ message"

fun error_code :: "graph_error \<Rightarrow> string" where
  "error_code (OutOfMemory _ _) = ''FG-CSR-E001''"
| "error_code (InvalidEdge _ _) = ''FG-CSR-E002''"
| "error_code (UnsupportedGraphSize _) = ''FG-CSR-E003''"
| "error_code (ShardCorruption _ _ _) = ''FG-CSR-F001''"
| "error_code (DeltaOverflow _ _) = ''FG-DLT-E001''"
| "error_code (CompactionFailed _) = ''FG-DLT-E002''"
| "error_code (NodeNotFound _) = ''FG-TRV-E001''"
| "error_code (InvalidTraversal _) = ''FG-TRV-E002''"
| "error_code (TraversalTimeout _ _) = ''FG-TRV-E003''"
| "error_code (CycleLimitExceeded _ _) = ''FG-TRV-E004''"
| "error_code (MemoryLimitExceeded _ _) = ''FG-MEM-E001''"
| "error_code CircuitOpen = ''FG-SYS-E001''"
| "error_code (Internal _) = ''FG-SYS-E002''"

fun error_subsystem :: "graph_error \<Rightarrow> string" where
  "error_subsystem (OutOfMemory _ _) = ''CSR''"
| "error_subsystem (InvalidEdge _ _) = ''CSR''"
| "error_subsystem (UnsupportedGraphSize _) = ''CSR''"
| "error_subsystem (ShardCorruption _ _ _) = ''CSR''"
| "error_subsystem (DeltaOverflow _ _) = ''DLT''"
| "error_subsystem (CompactionFailed _) = ''DLT''"
| "error_subsystem (NodeNotFound _) = ''TRV''"
| "error_subsystem (InvalidTraversal _) = ''TRV''"
| "error_subsystem (TraversalTimeout _ _) = ''TRV''"
| "error_subsystem (CycleLimitExceeded _ _) = ''TRV''"
| "error_subsystem (MemoryLimitExceeded _ _) = ''MEM''"
| "error_subsystem CircuitOpen = ''SYS''"
| "error_subsystem (Internal _) = ''SYS''"

fun error_severity :: "graph_error \<Rightarrow> severity" where
  "error_severity (ShardCorruption _ _ _) = Fatal"
| "error_severity _ = ErrorSeverity"

definition error_is_fatal :: "graph_error \<Rightarrow> bool" where
  "error_is_fatal e \<longleftrightarrow> error_severity e = Fatal"

fun error_is_retryable :: "graph_error \<Rightarrow> bool" where
  "error_is_retryable (OutOfMemory _ _) = True"
| "error_is_retryable (TraversalTimeout _ _) = True"
| "error_is_retryable CircuitOpen = True"
| "error_is_retryable (MemoryLimitExceeded _ _) = True"
| "error_is_retryable _ = False"

section \<open>The taxonomy is consistent\<close>

text \<open>
  for every error value the code is \<open>FG-\<close>, the subsystem, a dash, the severity
  letter and a three-digit number; the displayed message starts with the code and a
  colon; and no fatal error is retryable.
\<close>

theorem error_taxonomy:
  "(\<exists>digits. error_code e =
       ''FG-'' @ error_subsystem e @ ''-'' @ [severity_code (error_severity e)] @ digits \<and>
       length digits = 3 \<and> set digits \<subseteq> set ''0123456789'') \<and>
   take (Suc (length (error_code e))) (error_display e) = error_code e @ '':'' \<and>
   \<not> (error_is_fatal e \<and> error_is_retryable e)"
  by (cases e) (simp_all add: error_is_fatal_def)

text \<open>Node display is injective: distinct identifiers are shown differently.\<close>

end
