(* ===== verification/Delta.thy ===== *)
theory Delta
  imports Errors "HOL-Library.AList"
begin

text \<open>
  The delta layer (\<open>delta.rs\<close>): edge insertions and tombstones on top of the base CSR.

  The two containers come from the \<open>dashmap\<close> crate, which is not part of the sources:
  their operations are a parameter \<open>D\<close> of every definition, and \<open>dash_laws\<close> states the
  documented behaviour the code relies on, that of a map and a set whose iteration visits
  every entry once in an unspecified order.
\<close>

type_synonym edge_key = "node_id \<times> node_id"

record ('m, 's) dash =
  dm_new :: 'm
  dm_insert :: "edge_key \<Rightarrow> edge_data \<Rightarrow> 'm \<Rightarrow> 'm"
  dm_remove :: "edge_key \<Rightarrow> 'm \<Rightarrow> 'm"
  dm_contains_key :: "'m \<Rightarrow> edge_key \<Rightarrow> bool"
  dm_iter :: "'m \<Rightarrow> (edge_key \<times> edge_data) list"
  dm_len :: "'m \<Rightarrow> usize"
  dm_is_empty :: "'m \<Rightarrow> bool"
  dm_clear :: "'m \<Rightarrow> 'm"
  ds_new :: 's
  ds_insert :: "edge_key \<Rightarrow> 's \<Rightarrow> 's"
  ds_remove :: "edge_key \<Rightarrow> 's \<Rightarrow> 's"
  ds_contains :: "'s \<Rightarrow> edge_key \<Rightarrow> bool"
  ds_iter :: "'s \<Rightarrow> edge_key list"
  ds_len :: "'s \<Rightarrow> usize"
  ds_is_empty :: "'s \<Rightarrow> bool"
  ds_clear :: "'s \<Rightarrow> 's"

definition dash_map_laws :: "('m, 's) dash \<Rightarrow> bool" where
  "dash_map_laws D \<longleftrightarrow>
     dm_iter D (dm_new D) = [] \<and>
     (\<forall>m. distinct (map fst (dm_iter D m)) \<and>
        dm_len D m = length (dm_iter D m) \<and>
        (dm_is_empty D m \<longleftrightarrow> dm_iter D m = []) \<and>
        dm_iter D (dm_clear D m) = [] \<and>
        (\<forall>k. dm_contains_key D m k \<longleftrightarrow> k \<in> fst ` set (dm_iter D m)) \<and>
        (\<forall>k d. map_of (dm_iter D (dm_insert D k d m)) = (map_of (dm_iter D m))(k \<mapsto> d)) \<and>
        (\<forall>k. map_of (dm_iter D (dm_remove D k m)) = (map_of (dm_iter D m))(k := None)))"

definition dash_set_laws :: "('m, 's) dash \<Rightarrow> bool" where
  "dash_set_laws D \<longleftrightarrow>
     ds_iter D (ds_new D) = [] \<and>
     (\<forall>s. distinct (ds_iter D s) \<and>
        ds_len D s = length (ds_iter D s) \<and>
        (ds_is_empty D s \<longleftrightarrow> ds_iter D s = []) \<and>
        ds_iter D (ds_clear D s) = [] \<and>
        (\<forall>k. ds_contains D s k \<longleftrightarrow> k \<in> set (ds_iter D s)) \<and>
        (\<forall>k. set (ds_iter D (ds_insert D k s)) = insert k (set (ds_iter D s))) \<and>
        (\<forall>k. set (ds_iter D (ds_remove D k s)) = set (ds_iter D s) - {k}))"

definition dash_laws :: "('m, 's) dash \<Rightarrow> bool" where
  "dash_laws D \<longleftrightarrow> dash_map_laws D \<and> dash_set_laws D"

section \<open>State and operations\<close>

record ('m, 's) delta_layer =
  insertions :: 'm
  deletions :: 's

definition delta_new :: "('m, 's) dash \<Rightarrow> ('m, 's) delta_layer" where
  "delta_new D = \<lparr>insertions = dm_new D, deletions = ds_new D\<rparr>"

definition delta_insert ::
  "('m, 's) dash \<Rightarrow> node_id \<Rightarrow> node_id \<Rightarrow> edge_data \<Rightarrow> ('m, 's) delta_layer \<Rightarrow>
   ('m, 's) delta_layer" where
  "delta_insert D from to data d =
     (let d1 = d\<lparr>deletions := ds_remove D (from, to) (deletions d)\<rparr>
      in d1\<lparr>insertions := dm_insert D (from, to) data (insertions d1)\<rparr>)"

definition delta_delete ::
  "('m, 's) dash \<Rightarrow> node_id \<Rightarrow> node_id \<Rightarrow> ('m, 's) delta_layer \<Rightarrow> ('m, 's) delta_layer" where
  "delta_delete D from to d =
     (let d1 = d\<lparr>insertions := dm_remove D (from, to) (insertions d)\<rparr>
      in d1\<lparr>deletions := ds_insert D (from, to) (deletions d1)\<rparr>)"

definition delta_is_deleted ::
  "('m, 's) dash \<Rightarrow> ('m, 's) delta_layer \<Rightarrow> node_id \<Rightarrow> node_id \<Rightarrow> bool" where
  "delta_is_deleted D d from to = ds_contains D (deletions d) (from, to)"

definition delta_has_insertion ::
  "('m, 's) dash \<Rightarrow> ('m, 's) delta_layer \<Rightarrow> node_id \<Rightarrow> node_id \<Rightarrow> bool" where
  "delta_has_insertion D d from to = dm_contains_key D (insertions d) (from, to)"

definition delta_insertion_count_for ::
  "('m, 's) dash \<Rightarrow> ('m, 's) delta_layer \<Rightarrow> node_id \<Rightarrow> usize" where
  "delta_insertion_count_for D d from =
     length (filter (\<lambda>e. fst (fst e) = from) (dm_iter D (insertions d)))"

definition delta_deletion_count_for ::
  "('m, 's) dash \<Rightarrow> ('m, 's) delta_layer \<Rightarrow> node_id \<Rightarrow> usize" where
  "delta_deletion_count_for D d from =
     length (filter (\<lambda>e. fst e = from) (ds_iter D (deletions d)))"

definition delta_neighbors ::
  "('m, 's) dash \<Rightarrow> ('m, 's) delta_layer \<Rightarrow> node_id \<Rightarrow> node_id list" where
  "delta_neighbors D d from =
     List.map_filter (\<lambda>e. if fst (fst e) = from then Some (snd (fst e)) else None)
       (dm_iter D (insertions d))"

definition delta_len :: "('m, 's) dash \<Rightarrow> ('m, 's) delta_layer \<Rightarrow> usize" where
  "delta_len D d = dm_len D (insertions d) + ds_len D (deletions d)"

definition delta_is_empty :: "('m, 's) dash \<Rightarrow> ('m, 's) delta_layer \<Rightarrow> bool" where
  "delta_is_empty D d \<longleftrightarrow> dm_is_empty D (insertions d) \<and> ds_is_empty D (deletions d)"

definition delta_insertion_count :: "('m, 's) dash \<Rightarrow> ('m, 's) delta_layer \<Rightarrow> usize" where
  "delta_insertion_count D d = dm_len D (insertions d)"

definition delta_deletion_count :: "('m, 's) dash \<Rightarrow> ('m, 's) delta_layer \<Rightarrow> usize" where
  "delta_deletion_count D d = ds_len D (deletions d)"

definition delta_clear ::
  "('m, 's) dash \<Rightarrow> ('m, 's) delta_layer \<Rightarrow> ('m, 's) delta_layer" where
  "delta_clear D d = \<lparr>insertions = dm_clear D (insertions d), deletions = ds_clear D (deletions d)\<rparr>"

text \<open>The three sizes are \<open>size_of\<close> of the key pair, of \<open>EdgeData\<close> and of the layer.\<close>

definition delta_memory_usage ::
  "usize \<Rightarrow> usize \<Rightarrow> usize \<Rightarrow> ('m, 's) dash \<Rightarrow> ('m, 's) delta_layer \<Rightarrow> usize" where
  "delta_memory_usage key_size data_size self_size D d =
     dm_len D (insertions d) * (key_size + data_size) +
     ds_len D (deletions d) * key_size + self_size"

definition delta_snapshot_insertions ::
  "('m, 's) dash \<Rightarrow> ('m, 's) delta_layer \<Rightarrow> (edge_key \<times> edge_data) list" where
  "delta_snapshot_insertions D d = dm_iter D (insertions d)"

definition delta_snapshot_deletions ::
  "('m, 's) dash \<Rightarrow> ('m, 's) delta_layer \<Rightarrow> edge_key list" where
  "delta_snapshot_deletions D d = ds_iter D (deletions d)"

definition delta_drain_insertions ::
  "('m, 's) dash \<Rightarrow> ('m, 's) delta_layer \<Rightarrow>
   (edge_key \<times> edge_data) list \<times> ('m, 's) delta_layer" where
  "delta_drain_insertions D d =
     (let entries = dm_iter D (insertions d)
      in (entries, d\<lparr>insertions := fold (\<lambda>e m. dm_remove D (fst e) m) entries (insertions d)\<rparr>))"

definition delta_drain_deletions ::
  "('m, 's) dash \<Rightarrow> ('m, 's) delta_layer \<Rightarrow> edge_key list \<times> ('m, 's) delta_layer" where
  "delta_drain_deletions D d =
     (let entries = ds_iter D (deletions d)
      in (entries, d\<lparr>deletions := fold (ds_remove D) entries (deletions d)\<rparr>))"

section \<open>What the layer holds\<close>

text \<open>The insertions as a finite map, the tombstones as a set.\<close>

definition inserted :: "('m, 's) dash \<Rightarrow> ('m, 's) delta_layer \<Rightarrow> edge_key \<rightharpoonup> edge_data" where
  "inserted D d = map_of (dm_iter D (insertions d))"

definition deleted :: "('m, 's) dash \<Rightarrow> ('m, 's) delta_layer \<Rightarrow> edge_key set" where
  "deleted D d = set (ds_iter D (deletions d))"

text \<open>The invariant the comments of the source rely on: no edge is both.\<close>

definition wf_delta :: "('m, 's) dash \<Rightarrow> ('m, 's) delta_layer \<Rightarrow> bool" where
  "wf_delta D d \<longleftrightarrow> dash_laws D \<and> dom (inserted D d) \<inter> deleted D d = {}"

named_theorems delta_defs \<open>the delta layer's operations and views\<close>

lemmas [delta_defs] =
  delta_new_def delta_insert_def delta_delete_def delta_is_deleted_def delta_has_insertion_def
  delta_clear_def inserted_def deleted_def dash_laws_def dash_map_laws_def dash_set_laws_def
  Let_def

lemma dash_lawsD:
  assumes "dash_laws D"
  shows "distinct (map fst (dm_iter D m))" "dm_len D m = length (dm_iter D m)"
    "dm_is_empty D m \<longleftrightarrow> dm_iter D m = []" "dm_iter D (dm_new D) = []"
    "dm_contains_key D m k \<longleftrightarrow> k \<in> fst ` set (dm_iter D m)"
    "map_of (dm_iter D (dm_remove D k m)) = (map_of (dm_iter D m))(k := None)"
    "distinct (ds_iter D s)" "ds_len D s = length (ds_iter D s)"
    "ds_is_empty D s \<longleftrightarrow> ds_iter D s = []" "ds_iter D (ds_new D) = []"
    "ds_contains D s k \<longleftrightarrow> k \<in> set (ds_iter D s)"
    "set (ds_iter D (ds_remove D k s)) = set (ds_iter D s) - {k}"
    "map_of (dm_iter D (dm_insert D k x m)) = (map_of (dm_iter D m))(k \<mapsto> x)"
    "set (ds_iter D (ds_insert D k s)) = insert k (set (ds_iter D s))"
    "map_of (dm_iter D m) = Map.empty \<longleftrightarrow> dm_iter D m = []"
  using assms by (cases k, simp_all add: dash_laws_def dash_map_laws_def dash_set_laws_def)+

lemma inserted_new [simp]: "dash_laws D \<Longrightarrow> inserted D (delta_new D) = Map.empty"
  by (simp add: delta_defs)

lemma deleted_new [simp]: "dash_laws D \<Longrightarrow> deleted D (delta_new D) = {}"
  by (simp add: delta_defs)

lemma inserted_insert [simp]:
  "dash_laws D \<Longrightarrow>
   inserted D (delta_insert D a b x d) = (inserted D d)((a, b) \<mapsto> x)"
  by (simp add: delta_defs)

lemma deleted_insert [simp]:
  "dash_laws D \<Longrightarrow> deleted D (delta_insert D a b x d) = deleted D d - {(a, b)}"
  by (simp add: delta_defs)

lemma inserted_delete [simp]:
  "dash_laws D \<Longrightarrow> inserted D (delta_delete D a b d) = (inserted D d)((a, b) := None)"
  by (simp add: delta_defs)

lemma deleted_delete [simp]:
  "dash_laws D \<Longrightarrow> deleted D (delta_delete D a b d) = insert (a, b) (deleted D d)"
  by (simp add: delta_defs)

lemma delta_is_deleted_iff:
  "dash_laws D \<Longrightarrow> delta_is_deleted D d a b \<longleftrightarrow> (a, b) \<in> deleted D d"
  by (simp add: delta_defs)

lemma delta_has_insertion_iff:
  "dash_laws D \<Longrightarrow> delta_has_insertion D d a b \<longleftrightarrow> (a, b) \<in> dom (inserted D d)"
  by (simp add: delta_defs dom_map_of_conv_image_fst)

lemma inserted_clear [simp]: "dash_laws D \<Longrightarrow> inserted D (delta_clear D d) = Map.empty"
  by (simp add: delta_defs)

lemma deleted_clear [simp]: "dash_laws D \<Longrightarrow> deleted D (delta_clear D d) = {}"
  by (simp add: delta_defs)

lemma wf_delta_laws [dest]: "wf_delta D d \<Longrightarrow> dash_laws D"
  by (simp add: wf_delta_def)

lemma delta_is_empty_iff:
  "dash_laws D \<Longrightarrow> delta_is_empty D d \<longleftrightarrow> inserted D d = Map.empty \<and> deleted D d = {}"
  by (simp add: delta_is_empty_def dash_lawsD inserted_def deleted_def)

lemma delta_len_eq:
  "dash_laws D \<Longrightarrow> delta_len D d = card (dom (inserted D d)) + card (deleted D d)"
proof -
  assume D: "dash_laws D"
  then have "card (dom (inserted D d)) = length (dm_iter D (insertions d))"
    by (simp add: inserted_def dom_map_of_conv_image_fst dash_lawsD(1)
        distinct_card [symmetric] flip: set_map)
      (metis D dash_lawsD(1) distinct_card length_map)
  moreover from D have "card (deleted D d) = length (ds_iter D (deletions d))"
    by (simp add: deleted_def dash_lawsD(7) distinct_card)
  ultimately show ?thesis using D by (simp add: delta_len_def dash_lawsD)
qed

lemma set_delta_neighbors:
  "set (delta_neighbors D d a) = {b. (a, b) \<in> dom (inserted D d)}"
  by (force simp: delta_neighbors_def inserted_def dom_map_of_conv_image_fst
      List.map_filter_def split: if_splits)

section \<open>The interface the graph relies on\<close>

text \<open>
  An overlay records inserted edges with their data and deleted edges; the two operations
  override each other edge by edge, and no edge is ever both.
\<close>

datatype delta_op = Insert node_id node_id edge_data | Delete node_id node_id

fun op_key :: "delta_op \<Rightarrow> edge_key" where
  "op_key (Insert a b x) = (a, b)"
| "op_key (Delete a b) = (a, b)"

definition last_op :: "delta_op list \<Rightarrow> edge_key \<Rightarrow> delta_op option" where
  "last_op ops k = (case rev (filter (\<lambda>p. op_key p = k) ops) of [] \<Rightarrow> None | p # _ \<Rightarrow> Some p)"

lemma last_op_Nil [simp]: "last_op [] k = None"
  by (simp add: last_op_def)

lemma last_op_snoc [simp]:
  "last_op (ops @ [p]) k = (if op_key p = k then Some p else last_op ops k)"
  by (simp add: last_op_def)

lemma op_key_last_op: "last_op ops k = Some p \<Longrightarrow> op_key p = k"
  by (induction ops rule: rev_induct) (auto split: if_splits)

text \<open>The abstract specification: a finite map of insertions and a set of tombstones.\<close>

fun spec_step ::
  "delta_op \<Rightarrow> (edge_key \<rightharpoonup> edge_data) \<times> edge_key set \<Rightarrow> (edge_key \<rightharpoonup> edge_data) \<times> edge_key set"
where
  "spec_step (Insert a b x) (I, X) = (I((a, b) \<mapsto> x), X - {(a, b)})"
| "spec_step (Delete a b) (I, X) = (I((a, b) := None), insert (a, b) X)"

lemma spec_run_last_op:
  "case fold spec_step ops (I, X) of (I', X') \<Rightarrow>
     (case last_op ops k of
        None \<Rightarrow> I' k = I k \<and> (k \<in> X' \<longleftrightarrow> k \<in> X)
      | Some (Insert a b x) \<Rightarrow> I' k = Some x \<and> k \<notin> X'
      | Some (Delete a b) \<Rightarrow> I' k = None \<and> k \<in> X')"
proof (induction ops rule: rev_induct)
  case (snoc p ops)
  obtain I' X' where r: "fold spec_step ops (I, X) = (I', X')" by fastforce
  show ?case
  proof (cases "op_key p = k")
    case True
    then show ?thesis using r by (cases p) auto
  next
    case False
    then show ?thesis using snoc.IH r by (cases p) (auto split: option.splits delta_op.splits)
  qed
qed simp

definition overlay_run ::
  "(node_id \<Rightarrow> node_id \<Rightarrow> edge_data \<Rightarrow> 'd \<Rightarrow> 'd) \<Rightarrow> (node_id \<Rightarrow> node_id \<Rightarrow> 'd \<Rightarrow> 'd) \<Rightarrow>
   delta_op list \<Rightarrow> 'd \<Rightarrow> 'd" where
  "overlay_run put erase =
     fold (\<lambda>p. case p of Insert a b x \<Rightarrow> put a b x | Delete a b \<Rightarrow> erase a b)"

locale edge_overlay =
  fixes inv :: "'d \<Rightarrow> bool"
    and ins :: "'d \<Rightarrow> edge_key \<rightharpoonup> edge_data"
    and del :: "'d \<Rightarrow> edge_key set"
    and put :: "node_id \<Rightarrow> node_id \<Rightarrow> edge_data \<Rightarrow> 'd \<Rightarrow> 'd"
    and erase :: "node_id \<Rightarrow> node_id \<Rightarrow> 'd \<Rightarrow> 'd"
  assumes inv_put: "inv d \<Longrightarrow> inv (put a b x d)"
    and inv_erase: "inv d \<Longrightarrow> inv (erase a b d)"
    and ins_put: "inv d \<Longrightarrow> ins (put a b x d) = (ins d)((a, b) \<mapsto> x)"
    and del_put: "inv d \<Longrightarrow> del (put a b x d) = del d - {(a, b)}"
    and ins_erase: "inv d \<Longrightarrow> ins (erase a b d) = (ins d)((a, b) := None)"
    and del_erase: "inv d \<Longrightarrow> del (erase a b d) = insert (a, b) (del d)"
    and inv_disjoint: "inv d \<Longrightarrow> dom (ins d) \<inter> del d = {}"
begin

lemma run_refines_spec:
  "inv d \<Longrightarrow> inv (overlay_run put erase ops d) \<and>
   (ins (overlay_run put erase ops d), del (overlay_run put erase ops d)) =
     fold spec_step ops (ins d, del d)"
proof (induction ops arbitrary: d)
  case (Cons p ops)
  have "inv (case p of Insert a b x \<Rightarrow> put a b x d | Delete a b \<Rightarrow> erase a b d)"
    using Cons.prems by (cases p) (auto simp: inv_put inv_erase)
  from Cons.IH [OF this] Cons.prems show ?case
    by (cases p) (auto simp: overlay_run_def ins_put del_put ins_erase del_erase
        simp del: fun_upd_apply)
qed (simp add: overlay_run_def)

lemma run_last_op:
  assumes "inv d"
  shows "case last_op ops k of
      None \<Rightarrow> ins (overlay_run put erase ops d) k = ins d k \<and>
             (k \<in> del (overlay_run put erase ops d) \<longleftrightarrow> k \<in> del d)
    | Some (Insert a b x) \<Rightarrow> ins (overlay_run put erase ops d) k = Some x \<and>
             k \<notin> del (overlay_run put erase ops d)
    | Some (Delete a b) \<Rightarrow> ins (overlay_run put erase ops d) k = None \<and>
             k \<in> del (overlay_run put erase ops d)"
  using spec_run_last_op [where ops = ops and I = "ins d" and X = "del d" and k = k]
    run_refines_spec [OF assms, of ops]
  by (auto split: prod.splits option.splits delta_op.splits)

lemma run_disjoint:
  "inv d \<Longrightarrow> dom (ins (overlay_run put erase ops d)) \<inter> del (overlay_run put erase ops d) = {}"
  using run_refines_spec inv_disjoint by blast

end

fun delta_step ::
  "('m, 's) dash \<Rightarrow> delta_op \<Rightarrow> ('m, 's) delta_layer \<Rightarrow> ('m, 's) delta_layer" where
  "delta_step D (Insert a b x) = delta_insert D a b x"
| "delta_step D (Delete a b) = delta_delete D a b"

lemma wf_delta_new [simp]: "dash_laws D \<Longrightarrow> wf_delta D (delta_new D)"
  by (simp add: wf_delta_def)

lemma wf_delta_insert: "wf_delta D d \<Longrightarrow> wf_delta D (delta_insert D a b x d)"
  by (auto simp: wf_delta_def)

lemma wf_delta_delete: "wf_delta D d \<Longrightarrow> wf_delta D (delta_delete D a b d)"
  by (auto simp: wf_delta_def)

interpretation overlay: edge_overlay "wf_delta D" "inserted D" "deleted D" "delta_insert D"
  "delta_delete D" for D
  by unfold_locales
    (simp_all add: wf_delta_insert wf_delta_delete wf_delta_laws, simp add: wf_delta_def)

lemma delta_step_fold:
  "fold (delta_step D) ops d = overlay_run (delta_insert D) (delta_delete D) ops d"
proof -
  have "delta_step D = (\<lambda>p. case p of Insert a b x \<Rightarrow> delta_insert D a b x
      | Delete a b \<Rightarrow> delta_delete D a b)"
    by (rule ext) (auto split: delta_op.splits)
  then show ?thesis by (simp only: overlay_run_def)
qed

section \<open>A list-backed container, to exhibit the laws\<close>

definition list_dash :: "((edge_key \<times> edge_data) list, edge_key list) dash" where
  "list_dash = \<lparr>dm_new = [], dm_insert = AList.update, dm_remove = AList.delete,
     dm_contains_key = (\<lambda>m k. map_of m k \<noteq> None), dm_iter = AList.clearjunk,
     dm_len = (\<lambda>m. length (AList.clearjunk m)), dm_is_empty = (\<lambda>m. m = []),
     dm_clear = (\<lambda>m. []),
     ds_new = [], ds_insert = (\<lambda>k s. s @ [k]), ds_remove = removeAll,
     ds_contains = (\<lambda>s k. k \<in> set s), ds_iter = remdups,
     ds_len = (\<lambda>s. length (remdups s)), ds_is_empty = (\<lambda>s. s = []), ds_clear = (\<lambda>s. [])\<rparr>"

lemma clearjunk_Nil_iff [simp]: "AList.clearjunk m = [] \<longleftrightarrow> m = []"
  by (cases m) auto

lemma list_dash_laws: "dash_laws list_dash"
  by (auto simp: dash_laws_def dash_map_laws_def dash_set_laws_def list_dash_def
      map_of_clearjunk distinct_clearjunk update_conv' delete_conv' clearjunk_update
      domIff map_of_eq_None_iff dom_clearjunk image_iff simp del: fun_upd_apply)

section \<open>Properties of the sequential layer\<close>

text \<open>
  C23: after any sequence of inserts and deletes on a new layer, an edge is reported
  deleted exactly when the last operation on it was a delete, and inserted, with the data
  of that operation, exactly when it was an insert; so it is never both, and the layer is
  empty only if nothing was recorded.
\<close>

theorem delta_last_writer_wins:
  assumes "dash_laws D"
  defines "d \<equiv> \<lambda>ops. fold (delta_step D) ops (delta_new D)"
  shows "(delta_is_deleted D (d ops) a b \<longleftrightarrow> last_op ops (a, b) = Some (Delete a b)) \<and>
    (delta_has_insertion D (d ops) a b \<longleftrightarrow>
       (\<exists>x. last_op ops (a, b) = Some (Insert a b x))) \<and>
    (\<forall>x. last_op ops (a, b) = Some (Insert a b x) \<longrightarrow> inserted D (d ops) (a, b) = Some x) \<and>
    (delta_is_empty D (d ops) \<longleftrightarrow> ops = [])"
proof -
  note run = overlay.run_last_op [OF wf_delta_new [OF assms(1)], of ops]
  have "ops = []" if "inserted D (d ops) = Map.empty" "deleted D (d ops) = {}"
  proof (rule ccontr)
    assume "ops \<noteq> []"
    then obtain ops' p where "ops = ops' @ [p]" by (metis rev_exhaust)
    then have "last_op ops (op_key p) = Some p" by simp
    with run [of "op_key p"] that show False
      by (cases p) (auto simp: d_def delta_step_fold)
  qed
  then have empty: "delta_is_empty D (d ops) \<longleftrightarrow> ops = []"
    using assms(1) by (auto simp: delta_is_empty_iff d_def)
  have "last_op ops (a, b) = Some p \<Longrightarrow> p = Delete a b \<or> (\<exists>x. p = Insert a b x)" for p
    using op_key_last_op [of ops "(a, b)" p] by (cases p) auto
  with run [of "(a, b)"] assms(1) empty show ?thesis
    by (fastforce simp: delta_is_deleted_iff delta_has_insertion_iff d_def delta_step_fold
        split: option.splits)
qed

theorem delta_last_writer_wins_witness:
  "delta_is_deleted list_dash
     (fold (delta_step list_dash)
        [Insert (NodeId 0) (NodeId 1) edge_data_default, Delete (NodeId 0) (NodeId 1)]
        (delta_new list_dash)) (NodeId 0) (NodeId 1)"
  using delta_last_writer_wins [OF list_dash_laws,
      of "[Insert (NodeId 0) (NodeId 1) edge_data_default, Delete (NodeId 0) (NodeId 1)]"
        "NodeId 0" "NodeId 1"]
  by (simp add: last_op_def)

text \<open>Draining returns every entry and leaves the container empty.\<close>

lemma fold_dm_remove:
  "dash_laws D \<Longrightarrow>
   map_of (dm_iter D (fold (\<lambda>e m. dm_remove D (fst e) m) es m)) =
   (map_of (dm_iter D m)) |` (- fst ` set es)"
  by (induction es arbitrary: m)
    (auto simp: dash_lawsD(6) restrict_map_def fun_eq_iff)

lemma fold_ds_remove:
  "dash_laws D \<Longrightarrow>
   set (ds_iter D (fold (ds_remove D) es s)) = set (ds_iter D s) - set es"
  by (induction es arbitrary: s) (auto simp: dash_lawsD(12))

lemma drain_insertions:
  assumes "dash_laws D" "delta_drain_insertions D d = (es, d')"
  shows "es = dm_iter D (insertions d) \<and> inserted D d' = Map.empty \<and>
    dm_iter D (insertions d') = [] \<and> deletions d' = deletions d"
proof -
  let ?m = "insertions d"
  have "map_of (dm_iter D ?m) |` (- fst ` set (dm_iter D ?m)) = Map.empty"
    by (auto simp: restrict_map_def fun_eq_iff map_of_eq_None_iff)
  then have "map_of (dm_iter D (fold (\<lambda>e m. dm_remove D (fst e) m) (dm_iter D ?m) ?m)) = Map.empty"
    by (simp only: fold_dm_remove [OF assms(1)])
  moreover have "insertions d' = fold (\<lambda>e m. dm_remove D (fst e) m) (dm_iter D ?m) ?m"
    using assms(2) by (auto simp: delta_drain_insertions_def Let_def)
  ultimately have e: "inserted D d' = Map.empty" by (simp only: inserted_def)
  then have "dm_iter D (insertions d') = []"
    using dash_lawsD(15) [OF assms(1)] by (simp add: inserted_def)
  moreover have "es = dm_iter D (insertions d)" "deletions d' = deletions d"
    using assms(2) by (auto simp: delta_drain_insertions_def Let_def)
  ultimately show ?thesis using e by blast
qed

lemma drain_deletions:
  assumes "dash_laws D" "delta_drain_deletions D d = (es, d')"
  shows "es = ds_iter D (deletions d) \<and> deleted D d' = {} \<and> ds_iter D (deletions d') = [] \<and>
    insertions d' = insertions d"
proof -
  have "deletions d' = fold (ds_remove D) (ds_iter D (deletions d)) (deletions d)"
    using assms(2) by (auto simp: delta_drain_deletions_def Let_def)
  then have e: "deleted D d' = {}"
    using fold_ds_remove [OF assms(1)] by (simp only: deleted_def Diff_cancel)
  then have "ds_iter D (deletions d') = []" by (simp add: deleted_def)
  moreover have "es = ds_iter D (deletions d)" "insertions d' = insertions d"
    using assms(2) by (auto simp: delta_drain_deletions_def Let_def)
  ultimately show ?thesis using e by blast
qed

section \<open>Concurrent inserts and deletes\<close>

text \<open>
  \<open>insert\<close> and \<open>delete\<close> each make two container calls, and a container call is what is
  atomic.  A concurrent execution is a shuffle of their steps.
\<close>

datatype delta_micro =
    RemoveTombstone edge_key
  | AddInsertion edge_key edge_data
  | RemoveInsertion edge_key
  | AddTombstone edge_key

fun micro_step ::
  "('m, 's) dash \<Rightarrow> delta_micro \<Rightarrow> ('m, 's) delta_layer \<Rightarrow> ('m, 's) delta_layer" where
  "micro_step D (RemoveTombstone k) d = d\<lparr>deletions := ds_remove D k (deletions d)\<rparr>"
| "micro_step D (AddInsertion k x) d = d\<lparr>insertions := dm_insert D k x (insertions d)\<rparr>"
| "micro_step D (RemoveInsertion k) d = d\<lparr>insertions := dm_remove D k (insertions d)\<rparr>"
| "micro_step D (AddTombstone k) d = d\<lparr>deletions := ds_insert D k (deletions d)\<rparr>"

fun op_micros :: "delta_op \<Rightarrow> delta_micro list" where
  "op_micros (Insert a b x) = [RemoveTombstone (a, b), AddInsertion (a, b) x]"
| "op_micros (Delete a b) = [RemoveInsertion (a, b), AddTombstone (a, b)]"

lemma op_micros_step: "fold (micro_step D) (op_micros p) d = delta_step D p d"
  by (cases p) (simp_all add: delta_insert_def delta_delete_def)

lemma inserted_micro:
  "dash_laws D \<Longrightarrow> inserted D (micro_step D m d) =
     (case m of AddInsertion k x \<Rightarrow> (inserted D d)(k \<mapsto> x)
      | RemoveInsertion k \<Rightarrow> (inserted D d)(k := None) | _ \<Rightarrow> inserted D d)"
  by (cases m) (simp_all add: inserted_def dash_lawsD)

lemma deleted_micro:
  "dash_laws D \<Longrightarrow> deleted D (micro_step D m d) =
     (case m of RemoveTombstone k \<Rightarrow> deleted D d - {k}
      | AddTombstone k \<Rightarrow> insert k (deleted D d) | _ \<Rightarrow> deleted D d)"
  by (cases m) (simp_all add: deleted_def dash_lawsD)

text \<open>
  C31: when two operations on different edges run concurrently, every interleaving of
  their steps leaves the layer holding what running them one after the other leaves, and
  keeps the no-edge-is-both invariant.
\<close>

theorem delta_distinct_edges_linearize:
  assumes "wf_delta D d" "op_key p \<noteq> op_key q" "ms \<in> shuffles (op_micros p) (op_micros q)"
  shows "inserted D (fold (micro_step D) ms d) = inserted D (delta_step D q (delta_step D p d)) \<and>
    deleted D (fold (micro_step D) ms d) = deleted D (delta_step D q (delta_step D p d)) \<and>
    wf_delta D (fold (micro_step D) ms d)"
proof -
  have D: "dash_laws D" using assms(1) by blast
  have *: "inserted D (fold (micro_step D) ms d) = inserted D (delta_step D q (delta_step D p d)) \<and>
      deleted D (fold (micro_step D) ms d) = deleted D (delta_step D q (delta_step D p d))"
    using assms(2,3)
    by (cases p; cases q)
      (simp_all add: shuffles.simps D del: micro_step.simps, safe,
       auto simp: inserted_micro deleted_micro D simp del: micro_step.simps)
  moreover have "wf_delta D (delta_step D q (delta_step D p d))"
    using assms(1) by (cases p; cases q) (auto intro: wf_delta_insert wf_delta_delete)
  ultimately show ?thesis by (simp add: wf_delta_def)
qed

theorem delta_distinct_edges_linearize_witness:
  "wf_delta list_dash (fold (micro_step list_dash)
     [RemoveTombstone (NodeId 0, NodeId 1), RemoveInsertion (NodeId 1, NodeId 2),
      AddTombstone (NodeId 1, NodeId 2), AddInsertion (NodeId 0, NodeId 1) edge_data_default]
     (delta_new list_dash))"
  by (rule delta_distinct_edges_linearize [THEN conjunct2, THEN conjunct2,
        of list_dash "delta_new list_dash" "Insert (NodeId 0) (NodeId 1) edge_data_default"
          "Delete (NodeId 1) (NodeId 2)"])
    (simp_all add: list_dash_laws shuffles.simps)

text \<open>
  the invariant is not kept when an insert and a delete of one edge race: some
  interleaving of the two leaves the edge both inserted and tombstoned, from any state of
  the layer.
\<close>

theorem delta_insert_delete_race:
  assumes "dash_laws D"
  shows "\<exists>ms \<in> shuffles (op_micros (Insert a b x)) (op_micros (Delete a b)).
    delta_is_deleted D (fold (micro_step D) ms d) a b \<and>
    delta_has_insertion D (fold (micro_step D) ms d) a b \<and>
    \<not> wf_delta D (fold (micro_step D) ms d)"
proof -
  let ?ms = "[RemoveTombstone (a, b), RemoveInsertion (a, b), AddTombstone (a, b),
      AddInsertion (a, b) x]"
  have "?ms \<in> shuffles (op_micros (Insert a b x)) (op_micros (Delete a b))"
    by (simp add: shuffles.simps)
  moreover have "(a, b) \<in> deleted D (fold (micro_step D) ?ms d)"
    and "(a, b) \<in> dom (inserted D (fold (micro_step D) ?ms d))"
    using assms by (simp_all add: inserted_micro deleted_micro del: micro_step.simps)
  ultimately show ?thesis
    using assms
    by (intro bexI [of _ ?ms])
      (auto simp: delta_is_deleted_iff delta_has_insertion_iff wf_delta_def
         simp del: micro_step.simps fold_simps)
qed

theorem delta_insert_delete_race_witness:
  "\<exists>ms \<in> shuffles (op_micros (Insert (NodeId 0) (NodeId 1) edge_data_default))
      (op_micros (Delete (NodeId 0) (NodeId 1))).
    delta_is_deleted list_dash (fold (micro_step list_dash) ms (delta_new list_dash))
      (NodeId 0) (NodeId 1) \<and>
    delta_has_insertion list_dash (fold (micro_step list_dash) ms (delta_new list_dash))
      (NodeId 0) (NodeId 1) \<and>
    \<not> wf_delta list_dash (fold (micro_step list_dash) ms (delta_new list_dash))"
  by (rule delta_insert_delete_race [OF list_dash_laws])

end
