(* ===== verification/Shard.thy ===== *)
theory Shard
  imports Errors
begin

text \<open>
  One CSR shard (\<open>csr/shard.rs\<close>): row pointers, column indices and optional weights of a
  contiguous range of nodes, its accessors with their index checks, and the
  well-formedness under which no accessor panics.
\<close>

record csr_shard =
  shard_id :: u32
  node_range :: "usize \<times> usize"
  row_ptrs :: "u32 list"
  col_indices :: "u32 list"
  shard_weights :: "f32 list option"

text \<open>\<open>Range::len\<close> is zero for an empty range, \<open>Range::contains\<close> is half-open.\<close>

definition shard_node_count :: "csr_shard \<Rightarrow> usize" where
  "shard_node_count sh = snd (node_range sh) - fst (node_range sh)"

definition shard_edge_count :: "csr_shard \<Rightarrow> usize" where
  "shard_edge_count sh = length (col_indices sh)"

definition shard_contains :: "csr_shard \<Rightarrow> usize \<Rightarrow> bool" where
  "shard_contains sh i \<longleftrightarrow> fst (node_range sh) \<le> i \<and> i < snd (node_range sh)"

definition shard_new ::
  "u32 \<Rightarrow> usize \<times> usize \<Rightarrow> u32 list \<Rightarrow> u32 list \<Rightarrow> f32 list option \<Rightarrow> csr_shard result" where
  "shard_new i rng rows cols ws =
     (if length rows \<noteq> snd rng - fst rng + 1 then Panic
      else if (case ws of None \<Rightarrow> False | Some w \<Rightarrow> length w \<noteq> length cols) then Panic
      else Ok \<lparr>shard_id = i, node_range = rng, row_ptrs = rows, col_indices = cols,
               shard_weights = ws\<rparr>)"

definition shard_neighbor_range :: "csr_shard \<Rightarrow> usize \<Rightarrow> (usize \<times> usize) result" where
  "shard_neighbor_range sh local_offset =
     (if shard_node_count sh \<le> local_offset then Ok (0, 0)
      else bind_res (index_vec (row_ptrs sh) local_offset) (\<lambda>start.
           bind_res (index_vec (row_ptrs sh) (local_offset + 1)) (\<lambda>end.
           Ok (unat start, unat end))))"

definition shard_out_degree :: "csr_shard \<Rightarrow> usize \<Rightarrow> usize result" where
  "shard_out_degree sh local_offset =
     (if shard_node_count sh \<le> local_offset then Ok 0
      else bind_res (index_vec (row_ptrs sh) local_offset) (\<lambda>start.
           bind_res (index_vec (row_ptrs sh) (local_offset + 1)) (\<lambda>end.
           sub_usize (unat end) (unat start))))"

definition shard_neighbor_slice :: "csr_shard \<Rightarrow> usize \<Rightarrow> u32 list result" where
  "shard_neighbor_slice sh local_offset =
     bind_res (shard_neighbor_range sh local_offset) (\<lambda>(start, end).
       slice_vec (col_indices sh) start end)"

definition shard_col_index :: "csr_shard \<Rightarrow> usize \<Rightarrow> u32 option" where
  "shard_col_index sh idx = get_vec (col_indices sh) idx"

definition shard_has_weights :: "csr_shard \<Rightarrow> bool" where
  "shard_has_weights sh \<longleftrightarrow> shard_weights sh \<noteq> None"

definition shard_weight :: "csr_shard \<Rightarrow> usize \<Rightarrow> f32 option" where
  "shard_weight sh idx =
     (case shard_weights sh of None \<Rightarrow> None | Some w \<Rightarrow> get_vec w idx)"

text \<open>\<open>self_size\<close> is \<open>size_of::<CsrShard>()\<close>, which the compiler's layout decides.\<close>

definition shard_memory_usage :: "usize \<Rightarrow> csr_shard \<Rightarrow> usize" where
  "shard_memory_usage self_size sh =
     length (row_ptrs sh) * 4 + length (col_indices sh) * 4 +
     (case shard_weights sh of None \<Rightarrow> 0 | Some w \<Rightarrow> length w * 4) + self_size"

text \<open>
  The values fed to the standard library's \<open>DefaultHasher\<close>, in order; \<open>finish\<close> is the
  hash function, which the library leaves unspecified.
\<close>

datatype hash_write = HashU32 u32 | HashUsize usize

definition shard_hash_input :: "csr_shard \<Rightarrow> hash_write list" where
  "shard_hash_input sh =
     [HashU32 (shard_id sh), HashUsize (fst (node_range sh)), HashUsize (snd (node_range sh))] @
     map HashU32 (row_ptrs sh) @ map HashU32 (col_indices sh)"

definition shard_checksum :: "(hash_write list \<Rightarrow> u64) \<Rightarrow> csr_shard \<Rightarrow> u64" where
  "shard_checksum finish sh = finish (shard_hash_input sh)"

section \<open>Well-formed shards\<close>

definition wf_shard :: "csr_shard \<Rightarrow> bool" where
  "wf_shard sh \<longleftrightarrow>
     fst (node_range sh) \<le> snd (node_range sh) \<and>
     length (row_ptrs sh) = Suc (shard_node_count sh) \<and>
     sorted (map unat (row_ptrs sh)) \<and>
     unat (row_ptrs sh ! 0) = 0 \<and>
     unat (row_ptrs sh ! shard_node_count sh) = length (col_indices sh) \<and>
     (case shard_weights sh of None \<Rightarrow> True | Some w \<Rightarrow> length w = length (col_indices sh))"

text \<open>The neighbours of a local node as the data says, with no checks.\<close>

definition shard_row :: "csr_shard \<Rightarrow> usize \<Rightarrow> u32 list" where
  "shard_row sh i =
     (if i < shard_node_count sh
      then take (unat (row_ptrs sh ! Suc i) - unat (row_ptrs sh ! i))
             (drop (unat (row_ptrs sh ! i)) (col_indices sh))
      else [])"

lemma wf_shard_rows:
  assumes "wf_shard sh" "i < shard_node_count sh"
  shows "unat (row_ptrs sh ! i) \<le> unat (row_ptrs sh ! Suc i)"
    and "unat (row_ptrs sh ! Suc i) \<le> length (col_indices sh)"
proof -
  from assms have len: "length (row_ptrs sh) = Suc (shard_node_count sh)"
    and s: "sorted (map unat (row_ptrs sh))" by (auto simp: wf_shard_def)
  show "unat (row_ptrs sh ! i) \<le> unat (row_ptrs sh ! Suc i)"
    using sorted_nth_mono [OF s, of i "Suc i"] len assms(2) by simp
  have "unat (row_ptrs sh ! Suc i) \<le> unat (row_ptrs sh ! shard_node_count sh)"
    using sorted_nth_mono [OF s, of "Suc i" "shard_node_count sh"] len assms(2) by simp
  with assms(1) show "unat (row_ptrs sh ! Suc i) \<le> length (col_indices sh)"
    by (simp add: wf_shard_def)
qed

lemma shard_neighbor_range_Ok:
  "wf_shard sh \<Longrightarrow> shard_neighbor_range sh i =
     Ok (if i < shard_node_count sh then (unat (row_ptrs sh ! i), unat (row_ptrs sh ! Suc i))
         else (0, 0))"
  by (auto simp: shard_neighbor_range_def wf_shard_def)

lemma shard_neighbor_slice_Ok: "wf_shard sh \<Longrightarrow> shard_neighbor_slice sh i = Ok (shard_row sh i)"
  using wf_shard_rows [of sh i]
  by (auto simp: shard_neighbor_slice_def shard_neighbor_range_Ok shard_row_def)

lemma shard_out_degree_Ok:
  "wf_shard sh \<Longrightarrow> shard_out_degree sh i = Ok (length (shard_row sh i))"
  using wf_shard_rows [of sh i]
  by (auto simp: shard_out_degree_def shard_row_def wf_shard_def)

lemma length_shard_row:
  "wf_shard sh \<Longrightarrow> i < shard_node_count sh \<Longrightarrow>
   length (shard_row sh i) = unat (row_ptrs sh ! Suc i) - unat (row_ptrs sh ! i)"
  using wf_shard_rows [of sh i] by (simp add: shard_row_def)

lemma nth_shard_row:
  "wf_shard sh \<Longrightarrow> i < shard_node_count sh \<Longrightarrow> j < length (shard_row sh i) \<Longrightarrow>
   shard_row sh i ! j = col_indices sh ! (unat (row_ptrs sh ! i) + j)"
  using wf_shard_rows [of sh i] by (simp add: shard_row_def)

lemma concat_rows:
  assumes "sorted (map unat rows)" "length rows = Suc n" "unat (rows ! 0) = 0"
    "unat (rows ! n) = length cols"
  shows "concat (map (\<lambda>i. take (unat (rows ! Suc i) - unat (rows ! i))
           (drop (unat (rows ! i)) cols)) [0..<n]) = cols"
proof -
  have "concat (map (\<lambda>i. take (unat (rows ! Suc i) - unat (rows ! i))
           (drop (unat (rows ! i)) cols)) [0..<k]) = take (unat (rows ! k)) cols" if "k \<le> n" for k
    using that
  proof (induction k)
    case (Suc k)
    have "unat (rows ! k) \<le> unat (rows ! Suc k)"
      using sorted_nth_mono [OF assms(1), of k "Suc k"] assms(2) Suc.prems by simp
    then have "take (unat (rows ! Suc k)) cols =
        take (unat (rows ! k)) cols @
        take (unat (rows ! Suc k) - unat (rows ! k)) (drop (unat (rows ! k)) cols)"
      by (metis le_add_diff_inverse take_add)
    with Suc show ?case by simp
  qed (simp add: assms(3))
  from this [of n] assms(4) show ?thesis by simp
qed

text \<open>The rows of a shard, in order, are all its column indices.\<close>

lemma concat_shard_rows:
  "wf_shard sh \<Longrightarrow> concat (map (shard_row sh) [0..<shard_node_count sh]) = col_indices sh"
proof -
  assume "wf_shard sh"
  then have "concat (map (\<lambda>i. take (unat (row_ptrs sh ! Suc i) - unat (row_ptrs sh ! i))
      (drop (unat (row_ptrs sh ! i)) (col_indices sh))) [0..<shard_node_count sh]) =
      col_indices sh"
    by (intro concat_rows) (simp_all add: wf_shard_def)
  moreover have "map (shard_row sh) [0..<shard_node_count sh] =
      map (\<lambda>i. take (unat (row_ptrs sh ! Suc i) - unat (row_ptrs sh ! i))
        (drop (unat (row_ptrs sh ! i)) (col_indices sh))) [0..<shard_node_count sh]"
    by (simp add: shard_row_def)
  ultimately show ?thesis by (simp only:)
qed

lemma shard_row_subset: "set (shard_row sh i) \<subseteq> set (col_indices sh)"
  by (auto simp: shard_row_def dest: in_set_takeD in_set_dropD)

section \<open>Properties\<close>

text \<open>
  on a well-formed shard no accessor panics: for every local offset, in range or not,
  \<open>neighbor_slice\<close> returns the row, \<open>out_degree\<close> its length, and \<open>neighbor_range\<close> bounds
  that \<open>col_index\<close> reads the row through, position by position.
\<close>

theorem shard_accessors_total:
  assumes "wf_shard sh"
  shows "\<exists>row start. shard_neighbor_slice sh i = Ok row \<and>
     shard_out_degree sh i = Ok (length row) \<and>
     shard_neighbor_range sh i = Ok (start, start + length row) \<and>
     (\<forall>j < length row. shard_col_index sh (start + j) = Some (row ! j)) \<and>
     (shard_node_count sh \<le> i \<longrightarrow> row = [])"
proof (cases "i < shard_node_count sh")
  case True
  have "shard_neighbor_range sh i =
      Ok (unat (row_ptrs sh ! i), unat (row_ptrs sh ! i) + length (shard_row sh i))"
    using True assms wf_shard_rows [OF assms True]
    by (simp add: shard_neighbor_range_Ok length_shard_row)
  moreover have "\<forall>j < length (shard_row sh i).
      shard_col_index sh (unat (row_ptrs sh ! i) + j) = Some (shard_row sh i ! j)"
    using True assms wf_shard_rows [OF assms True]
    by (auto simp: shard_col_index_def get_vec_def nth_shard_row length_shard_row)
  ultimately show ?thesis
    using True assms by (auto simp: shard_neighbor_slice_Ok shard_out_degree_Ok)
next
  case False
  with assms show ?thesis
    by (auto simp: shard_neighbor_slice_Ok shard_out_degree_Ok shard_neighbor_range_Ok
        shard_row_def)
qed

definition example_shard :: csr_shard where
  "example_shard = \<lparr>shard_id = 0, node_range = (0, 3), row_ptrs = [0, 2, 3, 3],
     col_indices = [1, 2, 2], shard_weights = None\<rparr>"

lemma wf_example_shard: "wf_shard example_shard"
  by (simp add: wf_shard_def example_shard_def shard_node_count_def)

theorem shard_accessors_total_witness:
  "\<exists>row start. shard_neighbor_slice example_shard 0 = Ok row \<and>
     shard_out_degree example_shard 0 = Ok (length row) \<and>
     shard_neighbor_range example_shard 0 = Ok (start, start + length row) \<and>
     (\<forall>j < length row. shard_col_index example_shard (start + j) = Some (row ! j)) \<and>
     (shard_node_count example_shard \<le> 0 \<longrightarrow> row = [])"
  using wf_example_shard by (rule shard_accessors_total)

text \<open>
  the checksum depends on the identifier, the range, the row pointers and the column
  indices (for an injective hash two shards with one checksum agree on identifier and
  range) but not on the weights: replacing or dropping the weights never changes it.
\<close>

theorem shard_checksum_ignores_weights:
  "shard_checksum finish (sh\<lparr>shard_weights := ws\<rparr>) = shard_checksum finish sh \<and>
   (shard_hash_input sh = shard_hash_input sh' \<longrightarrow>
      shard_id sh = shard_id sh' \<and> node_range sh = node_range sh' \<and>
      row_ptrs sh @ col_indices sh = row_ptrs sh' @ col_indices sh')"
proof (intro conjI impI)
  show "shard_checksum finish (sh\<lparr>shard_weights := ws\<rparr>) = shard_checksum finish sh"
    by (simp add: shard_checksum_def shard_hash_input_def)
  assume h: "shard_hash_input sh = shard_hash_input sh'"
  then show "shard_id sh = shard_id sh'" by (simp add: shard_hash_input_def)
  from h show "node_range sh = node_range sh'" by (simp add: shard_hash_input_def prod_eq_iff)
  from h have "map HashU32 (row_ptrs sh @ col_indices sh) =
      map HashU32 (row_ptrs sh' @ col_indices sh')"
    by (simp only: shard_hash_input_def append.simps list.inject map_append)
  then show "row_ptrs sh @ col_indices sh = row_ptrs sh' @ col_indices sh'"
    by (rule map_injective) (simp add: inj_def)
qed

theorem shard_checksum_ignores_weights_witness:
  "shard_checksum (\<lambda>ws. of_nat (length ws)) (example_shard\<lparr>shard_weights := Some [1, 2, 3]\<rparr>) =
   shard_checksum (\<lambda>ws. of_nat (length ws)) example_shard"
  using shard_checksum_ignores_weights [where finish = "\<lambda>ws. of_nat (length ws)"
      and sh = example_shard and ws = "Some [1, 2, 3]"] by blast

end
