(* ===== verification/Floats.thy ===== *)
theory Floats
  imports Prelude
begin

text \<open>
  The IEEE 754 operations of the language that the graph code uses on its weights and
  ratios, on bit patterns: \<open>usize as f64\<close>, \<open>*\<close> and \<open>>=\<close> on \<open>f64\<close>, \<open>f64 as f32\<close> and
  \<open>f32 as f64\<close>, all rounding to nearest, ties to even.  The pattern of a resulting NaN is
  not specified by the language; the model returns a quiet one.
\<close>

datatype float_class = Fnan | Finf bool | Ffin bool nat int

text \<open>A finite value is \<open>(-1)^s * m * 2^e\<close>.\<close>

definition decode_float :: "nat \<Rightarrow> nat \<Rightarrow> nat \<Rightarrow> float_class" where
  "decode_float p w x =
     (let s = (2 ^ (p + w) \<le> x); y = x mod 2 ^ (p + w); ex = y div 2 ^ p; m = y mod 2 ^ p;
          bias = 2 ^ (w - 1) - 1 + int p
      in if ex = 2 ^ w - 1 then (if m = 0 then Finf s else Fnan)
         else if ex = 0 then Ffin s m (1 - bias)
         else Ffin s (2 ^ p + m) (int ex - bias))"

fun bit_length :: "nat \<Rightarrow> nat" where
  "bit_length n = (if n = 0 then 0 else Suc (bit_length (n div 2)))"

declare bit_length.simps [simp del]

definition round_shift :: "nat \<Rightarrow> nat \<Rightarrow> nat" where
  "round_shift m k =
     (let q = m div 2 ^ k; r = m mod 2 ^ k
      in if 2 * r < 2 ^ k \<or> (2 * r = 2 ^ k \<and> even q) then q else q + 1)"

text \<open>
  Rounding \<open>m * 2 ^ e\<close> to a pattern with \<open>p\<close> stored mantissa bits and \<open>w\<close> exponent bits:
  the mantissa is rounded at the exponent \<open>q\<close> and added to the shifted exponent field, so
  that a carry out of the mantissa steps the exponent.
\<close>

definition encode_float :: "nat \<Rightarrow> nat \<Rightarrow> bool \<Rightarrow> nat \<Rightarrow> int \<Rightarrow> nat" where
  "encode_float p w s m e =
     (let lo = 2 - 2 ^ (w - 1) - int p;
          q = max (e + int (bit_length m) - int p - 1) lo;
          m' = (if q \<le> e then m * 2 ^ nat (e - q) else round_shift m (nat (q - e)));
          inf = (2 ^ w - 1) * 2 ^ p
      in (if s then 2 ^ (p + w) else 0) +
         (if m = 0 then 0 else min inf (nat (q - lo) * 2 ^ p + m')))"

definition decode_f64 :: "f64 \<Rightarrow> float_class" where
  "decode_f64 x = decode_float 52 11 (unat x)"

definition decode_f32 :: "f32 \<Rightarrow> float_class" where
  "decode_f32 x = decode_float 23 8 (unat x)"

definition f64_nan :: f64 where
  "f64_nan = 0x7FF8000000000000"

fun f64_of_class :: "float_class \<Rightarrow> f64" where
  "f64_of_class Fnan = f64_nan"
| "f64_of_class (Finf s) = (if s then 0xFFF0000000000000 else 0x7FF0000000000000)"
| "f64_of_class (Ffin s m e) = of_nat (encode_float 52 11 s m e)"

fun f32_of_class :: "float_class \<Rightarrow> f32" where
  "f32_of_class Fnan = 0x7FC00000"
| "f32_of_class (Finf s) = (if s then 0xFF800000 else 0x7F800000)"
| "f32_of_class (Ffin s m e) = of_nat (encode_float 23 8 s m e)"

definition f64_of_usize :: "usize \<Rightarrow> f64" where
  "f64_of_usize n = f64_of_class (Ffin False n 0)"

definition f32_of_f64 :: "f64 \<Rightarrow> f32" where
  "f32_of_f64 x = f32_of_class (decode_f64 x)"

definition f64_of_f32 :: "f32 \<Rightarrow> f64" where
  "f64_of_f32 x = f64_of_class (decode_f32 x)"

fun mul_class :: "float_class \<Rightarrow> float_class \<Rightarrow> float_class" where
  "mul_class (Ffin s m e) (Ffin t n f) = Ffin (s \<noteq> t) (m * n) (e + f)"
| "mul_class (Finf s) (Finf t) = Finf (s \<noteq> t)"
| "mul_class (Finf s) (Ffin t n f) = (if n = 0 then Fnan else Finf (s \<noteq> t))"
| "mul_class (Ffin s m e) (Finf t) = (if m = 0 then Fnan else Finf (s \<noteq> t))"
| "mul_class _ _ = Fnan"

definition f64_mul :: "f64 \<Rightarrow> f64 \<Rightarrow> f64" where
  "f64_mul x y = f64_of_class (mul_class (decode_f64 x) (decode_f64 y))"

fun signed_mantissa :: "bool \<Rightarrow> nat \<Rightarrow> int" where
  "signed_mantissa s m = (if s then - int m else int m)"

fun ge_class :: "float_class \<Rightarrow> float_class \<Rightarrow> bool" where
  "ge_class (Ffin s m e) (Ffin t n f) \<longleftrightarrow>
     signed_mantissa t n * 2 ^ nat (f - min e f) \<le> signed_mantissa s m * 2 ^ nat (e - min e f)"
| "ge_class (Finf s) (Finf t) \<longleftrightarrow> \<not> s \<or> t"
| "ge_class (Finf s) (Ffin t n f) \<longleftrightarrow> \<not> s"
| "ge_class (Ffin s m e) (Finf t) \<longleftrightarrow> t"
| "ge_class _ _ \<longleftrightarrow> False"

definition f64_ge :: "f64 \<Rightarrow> f64 \<Rightarrow> bool" where
  "f64_ge x y \<longleftrightarrow> ge_class (decode_f64 x) (decode_f64 y)"

definition f32_one :: f32 where
  "f32_one = 0x3F800000"

definition f64_one_percent :: f64 where
  "f64_one_percent = 0x3F847AE147AE147B"

lemmas float_compute =
  f32_of_f64_def f64_of_f32_def f64_of_usize_def f64_mul_def f64_ge_def decode_f64_def
  decode_f32_def decode_float_def encode_float_def round_shift_def bit_length.simps Let_def

lemma f32_of_f64_one: "f32_of_f64 0x3FF0000000000000 = f32_one"
  by (simp add: float_compute f32_one_def)

lemma f64_of_f32_one: "f64_of_f32 f32_one = 0x3FF0000000000000"
  by (simp add: float_compute f32_one_def)

lemma f64_of_usize_rounds: "f64_of_usize (2 ^ 53 + 1) = f64_of_usize (2 ^ 53)"
  by (simp add: float_compute)

lemma f64_one_percent_of_1000:
  "f64_ge (f64_of_usize 10) (f64_mul (f64_of_usize 1000) f64_one_percent)"
  "\<not> f64_ge (f64_of_usize 9) (f64_mul (f64_of_usize 1000) f64_one_percent)"
  by (simp_all add: float_compute f64_one_percent_def)

end
