(* ===== verification/Graph.thy ===== *)
theory Graph
  imports Delta Shard Floats
begin

text \<open>
  The CSR graph (\<open>csr.rs\<close>): the shards of the base layer and the delta layer on top, the
  lookup of a node's shard, the neighbour iterators and the queries built on them.
  Building and compaction are in the theories \<open>Builder\<close> and \<open>Compaction\<close>.
\<close>

section \<open>State and operations\<close>

record compaction_policy =
  max_delta_entries :: usize
  max_delta_ratio :: f64

definition compaction_policy_default :: compaction_policy where
  "compaction_policy_default =
     \<lparr>max_delta_entries = 100000, max_delta_ratio = f64_one_percent\<rparr>"

record ('m, 's) csr_graph =
  shards :: "csr_shard list"
  node_count :: usize
  edge_count :: usize
  delta :: "('m, 's) delta_layer"

definition node_index :: "node_id \<Rightarrow> usize option" where
  "node_index n = usize_of_u64 (as_u64 n)"

definition graph_empty :: "('m, 's) dash \<Rightarrow> ('m, 's) csr_graph" where
  "graph_empty D = \<lparr>shards = [], node_count = 0, edge_count = 0, delta = delta_new D\<rparr>"

definition graph_shard_count :: "('m, 's) csr_graph \<Rightarrow> usize" where
  "graph_shard_count g = length (shards g)"

definition graph_contains :: "('m, 's) csr_graph \<Rightarrow> node_id \<Rightarrow> bool" where
  "graph_contains g n =
     (case node_index n of None \<Rightarrow> False | Some i \<Rightarrow> i < node_count g)"

text \<open>
  \<open>partition_point\<close> of a slice whose prefix satisfies the predicate and whose rest does
  not is the length of that prefix.
\<close>

definition partition_point :: "('a \<Rightarrow> bool) \<Rightarrow> 'a list \<Rightarrow> usize" where
  "partition_point P xs = length (takeWhile P xs)"

definition global_to_shard :: "('m, 's) csr_graph \<Rightarrow> node_id \<Rightarrow> (usize \<times> usize) option" where
  "global_to_shard g n =
     (case node_index n of None \<Rightarrow> None | Some i \<Rightarrow>
        (case partition_point (\<lambda>sh. fst (node_range sh) \<le> i) (shards g) of
           0 \<Rightarrow> None
         | Suc shard_idx \<Rightarrow>
             (case get_vec (shards g) shard_idx of None \<Rightarrow> None | Some sh \<Rightarrow>
                if shard_contains sh i then Some (shard_idx, i - fst (node_range sh))
                else None)))"

definition shard_for :: "('m, 's) csr_graph \<Rightarrow> node_id \<Rightarrow> csr_shard option" where
  "shard_for g n =
     (case global_to_shard g n of None \<Rightarrow> None
      | Some (shard_idx, _) \<Rightarrow> get_vec (shards g) shard_idx)"

definition shard_to_global :: "('m, 's) csr_graph \<Rightarrow> usize \<Rightarrow> usize \<Rightarrow> node_id option" where
  "shard_to_global g shard_idx offset =
     (case get_vec (shards g) shard_idx of None \<Rightarrow> None | Some sh \<Rightarrow>
        if shard_node_count sh \<le> offset then None
        else map_option node_new (u64_of_usize (fst (node_range sh) + offset)))"

definition base_neighbor_slice :: "('m, 's) csr_graph \<Rightarrow> node_id \<Rightarrow> u32 list result" where
  "base_neighbor_slice g n =
     (case global_to_shard g n of None \<Rightarrow> Ok []
      | Some (shard_idx, offset) \<Rightarrow>
          (case get_vec (shards g) shard_idx of None \<Rightarrow> Ok []
           | Some sh \<Rightarrow> shard_neighbor_slice sh offset))"

subsection \<open>The neighbour iterators\<close>

record base_iter =
  bi_shard :: "csr_shard option"
  bi_current :: usize
  bi_end :: usize

definition base_iter_new :: "csr_shard \<Rightarrow> usize \<Rightarrow> base_iter result" where
  "base_iter_new sh offset =
     map_res (\<lambda>(start, end). \<lparr>bi_shard = Some sh, bi_current = start, bi_end = end\<rparr>)
       (shard_neighbor_range sh offset)"

definition base_iter_empty :: base_iter where
  "base_iter_empty = \<lparr>bi_shard = None, bi_current = 0, bi_end = 0\<rparr>"

definition base_next :: "base_iter \<Rightarrow> node_id option \<times> base_iter" where
  "base_next it =
     (if bi_current it < bi_end it then
        (case bi_shard it of None \<Rightarrow> (None, it) | Some sh \<Rightarrow>
           (case shard_col_index sh (bi_current it) of None \<Rightarrow> (None, it) | Some c \<Rightarrow>
              (Some (node_of_u32 c), it\<lparr>bi_current := bi_current it + 1\<rparr>)))
      else (None, it))"

definition base_size_hint :: "base_iter \<Rightarrow> usize \<times> usize option" where
  "base_size_hint it = (let remaining = bi_end it - bi_current it in (remaining, Some remaining))"

definition base_neighbors :: "('m, 's) csr_graph \<Rightarrow> node_id \<Rightarrow> base_iter result" where
  "base_neighbors g n =
     (case global_to_shard g n of None \<Rightarrow> Ok base_iter_empty
      | Some (shard_idx, offset) \<Rightarrow>
          (case get_vec (shards g) shard_idx of None \<Rightarrow> Ok base_iter_empty
           | Some sh \<Rightarrow> base_iter_new sh offset))"

record neighbor_iter =
  ni_node :: node_id
  ni_base :: base_iter
  ni_delta :: "node_id list"
  ni_seen :: "node_id set"

lemma base_next_decreases:
  "base_next it = (Some v, it') \<Longrightarrow> bi_end it' - bi_current it' < bi_end it - bi_current it"
  by (auto simp: base_next_def split: if_splits option.splits)

text \<open>The \<open>for\<close> loop of \<open>NeighborIter::next\<close>: the next base neighbour without a tombstone.\<close>

function base_find ::
  "('m, 's) dash \<Rightarrow> ('m, 's) delta_layer \<Rightarrow> node_id \<Rightarrow> base_iter \<Rightarrow> node_id option \<times> base_iter"
where
  "base_find D d n it =
     (case base_next it of
        (None, it') \<Rightarrow> (None, it')
      | (Some v, it') \<Rightarrow>
          if \<not> delta_is_deleted D d n v then (Some v, it') else base_find D d n it')"
  by pat_completeness auto
termination
  by (relation "measure (\<lambda>(D, d, n, it). bi_end it - bi_current it)")
    (auto dest: base_next_decreases [OF sym])

declare base_find.simps [simp del]

fun find_unseen :: "node_id set \<Rightarrow> node_id list \<Rightarrow> node_id option \<times> node_id list" where
  "find_unseen seen [] = (None, [])"
| "find_unseen seen (v # vs) = (if v \<notin> seen then (Some v, vs) else find_unseen seen vs)"

definition neighbor_next ::
  "('m, 's) dash \<Rightarrow> ('m, 's) delta_layer \<Rightarrow> neighbor_iter \<Rightarrow> node_id option \<times> neighbor_iter"
where
  "neighbor_next D d it =
     (case base_find D d (ni_node it) (ni_base it) of
        (Some v, b) \<Rightarrow> (Some v, it\<lparr>ni_base := b, ni_seen := insert v (ni_seen it)\<rparr>)
      | (None, b) \<Rightarrow>
          (case find_unseen (ni_seen it) (ni_delta it) of
             (r, rest) \<Rightarrow> (r, it\<lparr>ni_base := b, ni_delta := rest\<rparr>)))"

definition neighbors_iter ::
  "('m, 's) dash \<Rightarrow> ('m, 's) csr_graph \<Rightarrow> node_id \<Rightarrow> neighbor_iter result" where
  "neighbors_iter D g n =
     map_res (\<lambda>b. \<lparr>ni_node = n, ni_base = b, ni_delta = delta_neighbors D (delta g) n,
                 ni_seen = {}\<rparr>)
       (base_neighbors g n)"

lemma base_find_decreases:
  "base_find D d n it = (r, it') \<Longrightarrow>
   bi_end it' - bi_current it' \<le> bi_end it - bi_current it \<and>
   (r \<noteq> None \<longrightarrow> bi_end it' - bi_current it' < bi_end it - bi_current it)"
proof (induction D d n it rule: base_find.induct)
  case (1 D d n it)
  show ?case
  proof (cases "base_next it")
    case (Pair o1 it1)
    show ?thesis
    proof (cases o1)
      case None
      with Pair have "it1 = it" by (auto simp: base_next_def split: if_splits option.splits)
      with 1(2) Pair None show ?thesis by (simp add: base_find.simps [of D d n it])
    next
      case (Some v)
      then have dec: "bi_end it1 - bi_current it1 < bi_end it - bi_current it"
        using Pair base_next_decreases by simp
      show ?thesis
      proof (cases "delta_is_deleted D d n v")
        case True
        with 1(2) Pair Some have "base_find D d n it1 = (r, it')"
          by (simp add: base_find.simps [of D d n it])
        from 1(1) [OF Pair [symmetric] Some _ this] True dec show ?thesis by linarith
      next
        case False
        with 1(2) Pair Some dec show ?thesis by (auto simp: base_find.simps [of D d n it])
      qed
    qed
  qed
qed

lemma find_unseen_decreases:
  "find_unseen seen vs = (r, rest) \<Longrightarrow>
   length rest \<le> length vs \<and> (r \<noteq> None \<longrightarrow> length rest < length vs)"
  by (induction vs) (auto split: if_splits)

lemma neighbor_next_decreases:
  "neighbor_next D d it = (Some v, it') \<Longrightarrow>
   (bi_end (ni_base it') - bi_current (ni_base it')) + length (ni_delta it') <
   (bi_end (ni_base it) - bi_current (ni_base it)) + length (ni_delta it)"
  by (auto simp: neighbor_next_def split: prod.splits option.splits
      dest!: base_find_decreases find_unseen_decreases)

text \<open>Running an iterator to its end, as \<open>collect\<close>, \<open>count\<close> and \<open>any\<close> do.\<close>

function neighbor_collect ::
  "('m, 's) dash \<Rightarrow> ('m, 's) delta_layer \<Rightarrow> neighbor_iter \<Rightarrow> node_id list" where
  "neighbor_collect D d it =
     (case neighbor_next D d it of
        (None, it') \<Rightarrow> []
      | (Some v, it') \<Rightarrow> v # neighbor_collect D d it')"
  by pat_completeness auto
termination
  by (relation "measure (\<lambda>(D, d, it).
        (bi_end (ni_base it) - bi_current (ni_base it)) + length (ni_delta it))")
    (auto dest: neighbor_next_decreases [OF sym])

declare neighbor_collect.simps [simp del]

definition neighbors ::
  "('m, 's) dash \<Rightarrow> ('m, 's) csr_graph \<Rightarrow> node_id \<Rightarrow> node_id list result" where
  "neighbors D g n = map_res (neighbor_collect D (delta g)) (neighbors_iter D g n)"

subsection \<open>Queries\<close>

definition out_degree :: "('m, 's) dash \<Rightarrow> ('m, 's) csr_graph \<Rightarrow> node_id \<Rightarrow> usize result" where
  "out_degree D g n = map_res length (neighbors D g n)"

definition has_edge ::
  "('m, 's) dash \<Rightarrow> ('m, 's) csr_graph \<Rightarrow> node_id \<Rightarrow> node_id \<Rightarrow> bool result" where
  "has_edge D g from to =
     (if delta_is_deleted D (delta g) from to then Ok False
      else if delta_has_insertion D (delta g) from to then Ok True
      else map_res (list_ex (\<lambda>n. n = to)) (neighbors D g from))"

text \<open>The \<open>size_of\<close> values the layout of the compiler decides.\<close>

record layout =
  size_of_shard :: usize
  size_of_edge_key :: usize
  size_of_edge_data :: usize
  size_of_delta_layer :: usize

definition graph_memory_usage ::
  "layout \<Rightarrow> ('m, 's) dash \<Rightarrow> ('m, 's) csr_graph \<Rightarrow> usize" where
  "graph_memory_usage L D g =
     sum_list (map (shard_memory_usage (size_of_shard L)) (shards g)) +
     delta_memory_usage (size_of_edge_key L) (size_of_edge_data L) (size_of_delta_layer L)
       D (delta g)"

definition should_compact ::
  "('m, 's) dash \<Rightarrow> ('m, 's) csr_graph \<Rightarrow> compaction_policy \<Rightarrow> bool" where
  "should_compact D g policy =
     (let len = delta_len D (delta g)
      in if len = 0 then False
         else if max_delta_entries policy \<le> len then True
         else 0 < edge_count g \<and>
           f64_ge (f64_of_usize len) (f64_mul (f64_of_usize (edge_count g)) (max_delta_ratio policy)))"

definition statistics ::
  "layout \<Rightarrow> ('m, 's) dash \<Rightarrow> ('m, 's) csr_graph \<Rightarrow> graph_statistics" where
  "statistics L D g =
     \<lparr>st_node_count = node_count g, st_edge_count = edge_count g,
      st_shard_count = length (shards g), st_memory_bytes = graph_memory_usage L D g,
      st_delta_entries = delta_len D (delta g)\<rparr>"

definition base_contains :: "('m, 's) csr_graph \<Rightarrow> node_id \<Rightarrow> node_id \<Rightarrow> bool result" where
  "base_contains g from to =
     (case u32_of_u64 (as_u64 to) of None \<Rightarrow> Ok False
      | Some t \<Rightarrow> map_res (\<lambda>slice. t \<in> set slice) (base_neighbor_slice g from))"

section \<open>Well-formed graphs\<close>

text \<open>The shards from identifier \<open>i\<close> on cover the nodes from \<open>s\<close> to \<open>n\<close> without gaps.\<close>

fun shards_cover :: "nat \<Rightarrow> nat \<Rightarrow> csr_shard list \<Rightarrow> nat \<Rightarrow> bool" where
  "shards_cover i s [] n \<longleftrightarrow> s = n"
| "shards_cover i s (sh # shs) n \<longleftrightarrow>
     unat (shard_id sh) = i \<and> fst (node_range sh) = s \<and> s < snd (node_range sh) \<and>
     wf_shard sh \<and> shards_cover (Suc i) (snd (node_range sh)) shs n"

definition shards_rows :: "csr_shard list \<Rightarrow> u32 list list" where
  "shards_rows shs = concat (map (\<lambda>sh. map (shard_row sh) [0..<shard_node_count sh]) shs)"

definition wf_base :: "csr_shard list \<Rightarrow> nat \<Rightarrow> bool" where
  "wf_base shs n \<longleftrightarrow>
     shards_cover 0 0 shs n \<and> n \<le> 2 ^ 32 \<and>
     (\<forall>sh \<in> set shs. \<forall>c \<in> set (col_indices sh). unat c < n)"

definition wf_graph :: "('m, 's) dash \<Rightarrow> ('m, 's) csr_graph \<Rightarrow> bool" where
  "wf_graph D g \<longleftrightarrow>
     wf_base (shards g) (node_count g) \<and>
     edge_count g = sum_list (map shard_edge_count (shards g)) \<and>
     wf_delta D (delta g)"

text \<open>The base neighbours of a node, and all its neighbours, as the data says.\<close>

definition base_row :: "('m, 's) csr_graph \<Rightarrow> node_id \<Rightarrow> u32 list" where
  "base_row g n =
     (let v = unat (as_u64 n) in if v < node_count g then shards_rows (shards g) ! v else [])"

definition live_base_row ::
  "('m, 's) dash \<Rightarrow> ('m, 's) csr_graph \<Rightarrow> node_id \<Rightarrow> node_id list" where
  "live_base_row D g n =
     filter (\<lambda>v. \<not> delta_is_deleted D (delta g) n v) (map node_of_u32 (base_row g n))"

definition neighbor_list ::
  "('m, 's) dash \<Rightarrow> ('m, 's) csr_graph \<Rightarrow> node_id \<Rightarrow> node_id list" where
  "neighbor_list D g n =
     live_base_row D g n @
     filter (\<lambda>v. v \<notin> set (live_base_row D g n)) (delta_neighbors D (delta g) n)"

subsection \<open>Finding the shard of a node\<close>

lemma shards_cover_le: "shards_cover i s shs n \<Longrightarrow> s \<le> n"
  by (induction shs arbitrary: i s) (auto dest: less_imp_le order_trans)

lemma length_shards_rows: "shards_cover i s shs n \<Longrightarrow> length (shards_rows shs) = n - s"
proof (induction shs arbitrary: i s)
  case (Cons sh shs)
  then have "snd (node_range sh) \<le> n" using shards_cover_le by auto
  with Cons show ?case by (auto simp: shards_rows_def shard_node_count_def)
qed (simp add: shards_rows_def)

lemma shards_cover_nth:
  "shards_cover i s shs n \<Longrightarrow> k < length shs \<Longrightarrow>
   wf_shard (shs ! k) \<and> unat (shard_id (shs ! k)) = i + k \<and> s \<le> fst (node_range (shs ! k)) \<and>
   fst (node_range (shs ! k)) < snd (node_range (shs ! k)) \<and> snd (node_range (shs ! k)) \<le> n"
proof (induction shs arbitrary: i s k)
  case (Cons sh shs)
  show ?case
  proof (cases k)
    case 0
    then show ?thesis using Cons.prems shards_cover_le by auto
  next
    case (Suc j)
    then show ?thesis using Cons.prems Cons.IH [of "Suc i" "snd (node_range sh)" j] by auto
  qed
qed simp

lemma partition_point_before:
  "shards_cover i s shs n \<Longrightarrow> v < s \<Longrightarrow>
   partition_point (\<lambda>sh. fst (node_range sh) \<le> v) shs = 0"
  by (cases shs) (auto simp: partition_point_def)

lemma shards_cover_lookup:
  "shards_cover i s shs n \<Longrightarrow> s \<le> v \<Longrightarrow> v < n \<Longrightarrow>
   \<exists>k < length shs. partition_point (\<lambda>sh. fst (node_range sh) \<le> v) shs = Suc k \<and>
     fst (node_range (shs ! k)) \<le> v \<and> v < snd (node_range (shs ! k)) \<and>
     shards_rows shs ! (v - s) = shard_row (shs ! k) (v - fst (node_range (shs ! k)))"
proof (induction shs arbitrary: i s)
  case (Cons sh shs)
  let ?e = "snd (node_range sh)"
  have sh: "fst (node_range sh) = s" "s < ?e" "shards_cover (Suc i) ?e shs n"
    using Cons.prems(1) by auto
  have rows: "shards_rows (sh # shs) = map (shard_row sh) [0..<?e - s] @ shards_rows shs"
    using sh by (simp add: shards_rows_def shard_node_count_def)
  show ?case
  proof (cases "v < ?e")
    case True
    with Cons.prems(2) have "v - s < ?e - s" by linarith
    with True show ?thesis
      using sh Cons.prems(2) rows partition_point_before [OF sh(3) True]
      by (intro exI [of _ 0]) (simp add: partition_point_def nth_append)
  next
    case False
    with Cons.IH [OF sh(3)] Cons.prems obtain k where k: "k < length shs"
      "partition_point (\<lambda>sh. fst (node_range sh) \<le> v) shs = Suc k"
      "fst (node_range (shs ! k)) \<le> v" "v < snd (node_range (shs ! k))"
      "shards_rows shs ! (v - ?e) = shard_row (shs ! k) (v - fst (node_range (shs ! k)))"
      by auto
    have "shards_rows (sh # shs) ! (v - s) = shards_rows shs ! (v - ?e)"
      using False sh rows by (auto simp: nth_append not_less intro!: arg_cong [of _ _ "nth _"])
    then show ?thesis
      using k sh Cons.prems(2)
      by (intro exI [of _ "Suc k"]) (simp add: partition_point_def)
  qed
qed simp

lemma partition_point_le: "partition_point P xs \<le> length xs"
  by (simp add: partition_point_def length_takeWhile_le)

lemma node_index_eq [simp]: "node_index n = Some (unat (as_u64 n))"
  by (simp add: node_index_def)

lemma graph_contains_iff: "graph_contains g n \<longleftrightarrow> unat (as_u64 n) < node_count g"
  by (simp add: graph_contains_def)

lemma global_to_shard_Some:
  assumes "wf_base (shards g) (node_count g)" "unat (as_u64 n) < node_count g"
  shows "\<exists>k off. global_to_shard g n = Some (k, off) \<and> k < length (shards g) \<and>
    off < shard_node_count (shards g ! k) \<and>
    fst (node_range (shards g ! k)) + off = unat (as_u64 n) \<and>
    shard_row (shards g ! k) off = base_row g n"
proof -
  from assms(1) have "shards_cover 0 0 (shards g) (node_count g)" by (simp add: wf_base_def)
  from shards_cover_lookup [OF this _ assms(2)] obtain k where k: "k < length (shards g)"
    "partition_point (\<lambda>sh. fst (node_range sh) \<le> unat (as_u64 n)) (shards g) = Suc k"
    "fst (node_range (shards g ! k)) \<le> unat (as_u64 n)"
    "unat (as_u64 n) < snd (node_range (shards g ! k))"
    "shards_rows (shards g) ! unat (as_u64 n) =
       shard_row (shards g ! k) (unat (as_u64 n) - fst (node_range (shards g ! k)))"
    by auto
  then show ?thesis using assms(2)
    by (intro exI [of _ k] exI [of _ "unat (as_u64 n) - fst (node_range (shards g ! k))"])
      (auto simp: global_to_shard_def get_vec_def shard_contains_def shard_node_count_def
        base_row_def)
qed

lemma global_to_shard_bounds:
  "global_to_shard g n = Some (k, off) \<Longrightarrow>
   k < length (shards g) \<and> off < shard_node_count (shards g ! k) \<and>
   fst (node_range (shards g ! k)) + off = unat (as_u64 n)"
  by (auto simp: global_to_shard_def get_vec_def shard_contains_def shard_node_count_def
      split: nat.splits if_splits)

lemma global_to_shard_None:
  assumes "wf_base (shards g) (node_count g)" "\<not> unat (as_u64 n) < node_count g"
  shows "global_to_shard g n = None"
proof (rule ccontr)
  assume "global_to_shard g n \<noteq> None"
  then obtain k off where "global_to_shard g n = Some (k, off)" by auto
  from global_to_shard_bounds [OF this] assms show False
    using shards_cover_nth [of 0 0 "shards g" "node_count g" k]
    by (auto simp: wf_base_def shard_node_count_def)
qed

lemma wf_base_nth: "wf_base shs n \<Longrightarrow> k < length shs \<Longrightarrow> wf_shard (shs ! k)"
  using shards_cover_nth by (auto simp: wf_base_def)

lemma base_neighbor_slice_Ok:
  assumes "wf_base (shards g) (node_count g)"
  shows "base_neighbor_slice g n = Ok (base_row g n)"
proof (cases "unat (as_u64 n) < node_count g")
  case True
  from global_to_shard_Some [OF assms True] obtain k off where
    "global_to_shard g n = Some (k, off)" "k < length (shards g)"
    "shard_row (shards g ! k) off = base_row g n" by auto
  then show ?thesis
    using wf_base_nth [OF assms] by (simp add: base_neighbor_slice_def get_vec_def shard_neighbor_slice_Ok)
next
  case False
  then show ?thesis
    using global_to_shard_None [OF assms False] by (simp add: base_neighbor_slice_def base_row_def)
qed

subsection \<open>What the iterators yield\<close>

definition base_rest :: "base_iter \<Rightarrow> node_id list" where
  "base_rest it =
     (case bi_shard it of None \<Rightarrow> [] | Some sh \<Rightarrow>
        map node_of_u32
          (take (bi_end it - bi_current it) (drop (bi_current it) (col_indices sh))))"

lemma base_next_rest:
  "base_next it = (r, it') \<Longrightarrow>
   (case base_rest it of [] \<Rightarrow> r = None \<and> it' = it
    | v # vs \<Rightarrow> r = Some v \<and> base_rest it' = vs)"
proof (cases "bi_shard it")
  case (Some sh)
  let ?i = "bi_current it"
  assume n: "base_next it = (r, it')"
  show ?thesis
  proof (cases "?i < bi_end it \<and> ?i < length (col_indices sh)")
    case True
    then have "drop ?i (col_indices sh) = col_indices sh ! ?i # drop (Suc ?i) (col_indices sh)"
      by (simp add: Cons_nth_drop_Suc)
    moreover from True have "bi_end it - ?i = Suc (bi_end it - Suc ?i)"
      by (simp add: Suc_diff_Suc)
    ultimately show ?thesis using True Some n
      by (auto simp: base_rest_def base_next_def shard_col_index_def get_vec_def)
  next
    case False
    then have "base_rest it = []" using Some by (auto simp: base_rest_def)
    with False Some n show ?thesis
      by (auto simp: base_next_def shard_col_index_def get_vec_def split: if_splits)
  qed
qed (auto simp: base_rest_def base_next_def split: if_splits)

lemma base_find_rest:
  "base_find D d n it = (r, it') \<Longrightarrow>
   (case filter (\<lambda>v. \<not> delta_is_deleted D d n v) (base_rest it) of
      [] \<Rightarrow> r = None \<and> base_rest it' = []
    | v # vs \<Rightarrow> r = Some v \<and> filter (\<lambda>v. \<not> delta_is_deleted D d n v) (base_rest it') = vs)"
proof (induction D d n it rule: base_find.induct)
  case (1 D d n it)
  obtain o1 it1 where nx: "base_next it = (o1, it1)" by fastforce
  note rest = base_next_rest [OF nx]
  show ?case
  proof (cases "base_rest it")
    case Nil
    with rest nx 1(2) show ?thesis by (simp add: base_find.simps [of D d n it])
  next
    case (Cons v vs)
    with rest have o1: "o1 = Some v" and vs: "base_rest it1 = vs" by auto
    show ?thesis
    proof (cases "delta_is_deleted D d n v")
      case True
      with 1(2) nx o1 have "base_find D d n it1 = (r, it')"
        by (simp add: base_find.simps [of D d n it])
      from 1(1) [OF nx [symmetric] o1 _ this] True Cons vs show ?thesis by simp
    next
      case False
      with 1(2) nx o1 Cons vs show ?thesis by (simp add: base_find.simps [of D d n it])
    qed
  qed
qed

lemma find_unseen_rest:
  "find_unseen seen vs = (r, rest) \<Longrightarrow>
   (case filter (\<lambda>v. v \<notin> seen) vs of [] \<Rightarrow> r = None
    | v # ws \<Rightarrow> r = Some v \<and> filter (\<lambda>v. v \<notin> seen) rest = ws)"
  by (induction vs) (auto split: if_splits)

lemma neighbor_collect_eq:
  "neighbor_collect D d it =
     (let F = filter (\<lambda>v. \<not> delta_is_deleted D d (ni_node it) v) (base_rest (ni_base it))
      in F @ filter (\<lambda>v. v \<notin> ni_seen it \<union> set F) (ni_delta it))"
proof (induction D d it rule: neighbor_collect.induct)
  case (1 D d it)
  let ?keep = "\<lambda>v. \<not> delta_is_deleted D d (ni_node it) v"
  obtain o1 b where bf: "base_find D d (ni_node it) (ni_base it) = (o1, b)" by fastforce
  note rest = base_find_rest [OF bf]
  show ?case
  proof (cases "filter ?keep (base_rest (ni_base it))")
    case (Cons v vs)
    with rest bf have nn: "neighbor_next D d it =
        (Some v, it\<lparr>ni_base := b, ni_seen := insert v (ni_seen it)\<rparr>)"
      and vs: "filter ?keep (base_rest b) = vs"
      by (auto simp: neighbor_next_def)
    from 1 [OF nn [symmetric] refl] vs Cons nn show ?thesis
      by (subst neighbor_collect.simps) (auto simp: Let_def intro!: filter_cong)
  next
    case Nil
    with rest have o1: "o1 = None" and b: "base_rest b = []" by auto
    obtain r ds where fu: "find_unseen (ni_seen it) (ni_delta it) = (r, ds)" by fastforce
    note un = find_unseen_rest [OF fu]
    from bf o1 fu have nn: "neighbor_next D d it = (r, it\<lparr>ni_base := b, ni_delta := ds\<rparr>)"
      by (simp add: neighbor_next_def)
    show ?thesis
    proof (cases "filter (\<lambda>v. v \<notin> ni_seen it) (ni_delta it)")
      case Nil
      with un nn \<open>filter ?keep _ = []\<close> show ?thesis
        by (subst neighbor_collect.simps) (auto simp: Let_def)
    next
      case (Cons w ws)
      with un have r: "r = Some w" and ws: "filter (\<lambda>v. v \<notin> ni_seen it) ds = ws" by auto
      from 1 [OF nn [symmetric] r] b ws Cons nn r \<open>filter ?keep _ = []\<close> show ?thesis
        by (subst neighbor_collect.simps) (simp add: Let_def)
    qed
  qed
qed

lemma neighbors_Ok:
  assumes "wf_base (shards g) (node_count g)"
  shows "neighbors D g n = Ok (neighbor_list D g n)"
proof -
  have "\<exists>b. base_neighbors g n = Ok b \<and> base_rest b = map node_of_u32 (base_row g n)"
  proof (cases "unat (as_u64 n) < node_count g")
    case True
    from global_to_shard_Some [OF assms True] obtain k off where
      "global_to_shard g n = Some (k, off)" "k < length (shards g)"
      "off < shard_node_count (shards g ! k)"
      "shard_row (shards g ! k) off = base_row g n" by auto
    then show ?thesis
      using wf_base_nth [OF assms]
      by (auto simp: base_neighbors_def base_iter_new_def shard_neighbor_range_Ok get_vec_def
          base_rest_def shard_row_def)
  next
    case False
    then show ?thesis
      using global_to_shard_None [OF assms False]
      by (simp add: base_neighbors_def base_iter_empty_def base_rest_def base_row_def)
  qed
  then obtain b where "base_neighbors g n = Ok b" "base_rest b = map node_of_u32 (base_row g n)"
    by blast
  then show ?thesis
    by (simp add: neighbors_def neighbors_iter_def neighbor_collect_eq neighbor_list_def
        live_base_row_def Let_def)
qed

section \<open>Properties\<close>

text \<open>The edges of a graph: live base edges and inserted edges.\<close>

definition base_edges :: "('m, 's) csr_graph \<Rightarrow> edge_key set" where
  "base_edges g = {(a, b). b \<in> set (map node_of_u32 (base_row g a))}"

definition graph_edges :: "('m, 's) dash \<Rightarrow> ('m, 's) csr_graph \<Rightarrow> edge_key set" where
  "graph_edges D g = base_edges g - deleted D (delta g) \<union> dom (inserted D (delta g))"

lemma wf_graphD:
  assumes "wf_graph D g"
  shows "wf_base (shards g) (node_count g)" "wf_delta D (delta g)" "dash_laws D"
  using assms by (auto simp: wf_graph_def)

lemma set_live_base_row:
  "dash_laws D \<Longrightarrow>
   set (live_base_row D g a) = {b. (a, b) \<in> base_edges g - deleted D (delta g)}"
  by (auto simp: live_base_row_def base_edges_def delta_is_deleted_iff)

lemma set_neighbor_list:
  "dash_laws D \<Longrightarrow> set (neighbor_list D g a) = {b. (a, b) \<in> graph_edges D g}"
  by (auto simp: neighbor_list_def set_live_base_row set_delta_neighbors graph_edges_def)

lemma neighbor_list_no_delta:
  assumes "dash_laws D" "inserted D (delta g) = Map.empty" "deleted D (delta g) = {}"
  shows "neighbor_list D g v = map node_of_u32 (base_row g v)"
proof -
  have "delta_neighbors D (delta g) v = []"
    using set_delta_neighbors [of D "delta g" v] assms(2) by simp
  then show ?thesis
    using assms by (simp add: neighbor_list_def live_base_row_def delta_is_deleted_iff)
qed

lemma distinct_delta_neighbors:
  assumes "dash_laws D"
  shows "distinct (delta_neighbors D d a)"
proof -
  have "distinct (List.map_filter (\<lambda>e. if fst (fst e) = a then Some (snd (fst e)) else None) es)"
    if "distinct (map fst es)" for es :: "(edge_key \<times> edge_data) list"
    using that
  proof (induction es)
    case (Cons e es)
    then show ?case
      by (cases "fst e") (force simp: List.map_filter_def image_iff)
  qed (simp add: List.map_filter_def)
  then show ?thesis using dash_lawsD(1) [OF assms] by (simp add: delta_neighbors_def)
qed

lemma base_edges_bound:
  assumes "wf_base (shards g) (node_count g)" "(a, b) \<in> base_edges g"
  shows "unat (as_u64 a) < node_count g \<and> unat (as_u64 b) < node_count g"
proof -
  let ?v = "unat (as_u64 a)"
  from assms(2) obtain c where c: "c \<in> set (base_row g a)" "b = node_of_u32 c"
    by (auto simp: base_edges_def)
  then have v: "?v < node_count g" by (auto simp: base_row_def Let_def split: if_splits)
  from global_to_shard_Some [OF assms(1) this] obtain k off where
    "k < length (shards g)" "shard_row (shards g ! k) off = base_row g a" by auto
  then have "c \<in> set (col_indices (shards g ! k))" "shards g ! k \<in> set (shards g)"
    using c(1) shard_row_subset [of "shards g ! k" off] by auto
  then have "unat c < node_count g" using assms(1) by (auto simp: wf_base_def)
  with v c(2) show ?thesis by (simp add: node_of_u32_def)
qed

lemma base_edges_node_bound:
  "wf_base (shards g) (node_count g) \<Longrightarrow> (a, b) \<in> base_edges g \<Longrightarrow> unat (as_u64 b) < node_count g"
  using base_edges_bound by blast

lemma has_edge_Ok:
  assumes "wf_graph D g"
  shows "has_edge D g a b = Ok ((a, b) \<in> graph_edges D g)"
proof -
  note wf = wf_graphD [OF assms]
  have "set (neighbor_list D g a) = {b. (a, b) \<in> graph_edges D g}"
    using wf(3) by (rule set_neighbor_list)
  then show ?thesis
    using wf neighbors_Ok [OF wf(1), of D a]
    by (auto simp: has_edge_def delta_is_deleted_iff delta_has_insertion_iff list_ex_iff
        graph_edges_def wf_delta_def)
qed

text \<open>
  C7: on a well-formed graph the neighbour iterator never panics and yields exactly the
  live edges of the node: base edges without a tombstone in base order, then the inserted
  edges that are not base edges, each once.  \<open>out_degree\<close> counts them, and \<open>has_edge\<close>
  agrees with them for every pair of nodes.
\<close>

theorem neighbors_are_the_live_edges:
  assumes "wf_graph D g"
  shows "\<exists>base added. neighbors D g a = Ok (base @ added) \<and>
     base = filter (\<lambda>b. (a, b) \<notin> deleted D (delta g)) (map node_of_u32 (base_row g a)) \<and>
     distinct added \<and> set base \<inter> set added = {} \<and>
     set (base @ added) = {b. (a, b) \<in> graph_edges D g} \<and>
     out_degree D g a = Ok (length (base @ added)) \<and>
     has_edge D g a b = Ok ((a, b) \<in> graph_edges D g)"
proof -
  note wf = wf_graphD [OF assms]
  let ?base = "live_base_row D g a"
  let ?added = "filter (\<lambda>v. v \<notin> set ?base) (delta_neighbors D (delta g) a)"
  have nl: "neighbor_list D g a = ?base @ ?added" by (simp add: neighbor_list_def)
  have n: "neighbors D g a = Ok (neighbor_list D g a)" using wf(1) by (rule neighbors_Ok)
  have set: "set (neighbor_list D g a) = {b. (a, b) \<in> graph_edges D g}"
    using wf(3) by (rule set_neighbor_list)
  have "has_edge D g a b = Ok ((a, b) \<in> graph_edges D g)"
    using assms by (rule has_edge_Ok)
  then show ?thesis
    using n nl set wf(3) distinct_delta_neighbors [OF wf(3)]
    by (intro exI [of _ ?base] exI [of _ ?added])
      (auto simp: out_degree_def live_base_row_def delta_is_deleted_iff)
qed

lemma shards_cover_ordered:
  "shards_cover i s shs n \<Longrightarrow> j < k \<Longrightarrow> k < length shs \<Longrightarrow>
   snd (node_range (shs ! j)) \<le> fst (node_range (shs ! k))"
proof (induction shs arbitrary: i s j k)
  case (Cons sh shs)
  then obtain k' where k': "k = Suc k'" "k' < length shs" by (cases k) auto
  show ?case
  proof (cases j)
    case 0
    then show ?thesis
      using k' Cons.prems(1) shards_cover_nth [of "Suc i" "snd (node_range sh)" shs n k'] by auto
  next
    case (Suc j')
    then show ?thesis using Cons.prems Cons.IH [of "Suc i" "snd (node_range sh)" j' k'] k' by auto
  qed
qed simp

lemma shard_ranges_disjoint:
  assumes "shards_cover i s shs n" "j < length shs" "k < length shs"
    "fst (node_range (shs ! j)) \<le> v" "v < snd (node_range (shs ! j))"
    "fst (node_range (shs ! k)) \<le> v" "v < snd (node_range (shs ! k))"
  shows "j = k"
  using shards_cover_ordered [OF assms(1), of j k] shards_cover_ordered [OF assms(1), of k j]
    assms(2-) by (cases j k rule: linorder_cases) auto

definition example_graph ::
  "((edge_key \<times> edge_data) list, edge_key list) csr_graph" where
  "example_graph = \<lparr>shards = [example_shard], node_count = 3, edge_count = 3,
     delta = delta_delete list_dash (NodeId 0) (NodeId 1)
       (delta_insert list_dash (NodeId 2) (NodeId 0) edge_data_default (delta_new list_dash))\<rparr>"

lemma wf_example_graph: "wf_graph list_dash example_graph"
proof -
  have "wf_delta list_dash (delta example_graph)"
    by (simp add: example_graph_def wf_delta_insert wf_delta_delete list_dash_laws)
  then show ?thesis
    using wf_example_shard
    by (simp add: wf_graph_def wf_base_def example_graph_def example_shard_def shard_edge_count_def)
qed

lemma example_graph_rows:
  "base_row example_graph (NodeId 0) = [1, 2]" "base_row example_graph (NodeId 1) = [2]"
  "base_row example_graph (NodeId 2) = []"
proof -
  have "[0..<3] = [0, 1, 2 :: nat]" by (simp add: upt_rec)
  then have "shards_rows [example_shard] = [[1, 2], [2], []]"
    by (simp add: shards_rows_def example_shard_def shard_row_def shard_node_count_def)
  then show "base_row example_graph (NodeId 0) = [1, 2]" "base_row example_graph (NodeId 1) = [2]"
    "base_row example_graph (NodeId 2) = []"
    by (simp_all add: base_row_def example_graph_def)
qed

theorem neighbors_are_the_live_edges_witness:
  "\<exists>base added. neighbors list_dash example_graph (NodeId 0) = Ok (base @ added) \<and>
     base = [NodeId 2] \<and>
     has_edge list_dash example_graph (NodeId 0) (NodeId 1) = Ok False"
  using neighbors_are_the_live_edges [OF wf_example_graph, of "NodeId 0" "NodeId 1"]
  by (auto simp: example_graph_rows graph_edges_def list_dash_laws node_of_u32_def)
    (auto simp: example_graph_def list_dash_laws)

text \<open>
  C26: the two address translations are inverse to each other: a node is at an offset of
  a shard exactly when that offset of that shard is the node; and the nodes that have an
  address are exactly the nodes the graph contains.
\<close>

theorem shard_addresses_roundtrip:
  assumes "wf_graph D g"
  shows "(global_to_shard g n = Some (k, off) \<longleftrightarrow> shard_to_global g k off = Some n) \<and>
    (graph_contains g n \<longleftrightarrow> (\<exists>k off. global_to_shard g n = Some (k, off)))"
proof -
  note wf = wf_graphD(1) [OF assms]
  from wf have cover: "shards_cover 0 0 (shards g) (node_count g)" and big: "node_count g \<le> 2 ^ 32"
    by (auto simp: wf_base_def)
  have to: "shard_to_global g k off = Some n" if "global_to_shard g n = Some (k, off)"
    using global_to_shard_bounds [OF that] unsigned_less [of "as_u64 n", where 'a = nat]
    by (simp add: shard_to_global_def get_vec_def u64_of_usize_def node_new_def)
  moreover have "global_to_shard g n = Some (k, off)" if st: "shard_to_global g k off = Some n"
  proof -
    from st have k: "k < length (shards g)" and off: "off < shard_node_count (shards g ! k)"
      and n: "fst (node_range (shards g ! k)) + off = unat (as_u64 n)"
      by (auto simp: shard_to_global_def get_vec_def u64_of_usize_eq_Some node_new_def
          split: if_splits)
    from n off have in_k: "unat (as_u64 n) < snd (node_range (shards g ! k))"
      by (simp add: shard_node_count_def)
    moreover have "snd (node_range (shards g ! k)) \<le> node_count g"
      using shards_cover_nth [OF cover k] by blast
    ultimately have "unat (as_u64 n) < node_count g" by linarith
    from global_to_shard_Some [OF wf this] obtain k' off' where *:
      "global_to_shard g n = Some (k', off')" by blast
    note b = global_to_shard_bounds [OF this]
    then have "unat (as_u64 n) < snd (node_range (shards g ! k'))"
      "fst (node_range (shards g ! k')) \<le> unat (as_u64 n)" "k' < length (shards g)"
      by (auto simp: shard_node_count_def less_diff_conv add.commute)
    then have "k' = k"
      using shard_ranges_disjoint [OF cover, of k' k "unat (as_u64 n)"] k in_k n by linarith
    with global_to_shard_bounds [OF *] n * show ?thesis by simp
  qed
  moreover have "graph_contains g n \<longleftrightarrow> (\<exists>k off. global_to_shard g n = Some (k, off))"
    using global_to_shard_Some [OF wf, of n] global_to_shard_None [OF wf, of n]
    unfolding graph_contains_iff by (metis option.distinct(1))
  ultimately show ?thesis by blast
qed

theorem shard_addresses_roundtrip_witness:
  "(global_to_shard example_graph (NodeId 1) = Some (0, 1) \<longleftrightarrow>
      shard_to_global example_graph 0 1 = Some (NodeId 1)) \<and>
   (graph_contains example_graph (NodeId 1) \<longleftrightarrow>
      (\<exists>k off. global_to_shard example_graph (NodeId 1) = Some (k, off)))"
  using wf_example_graph by (rule shard_addresses_roundtrip)

end
