(* ===== verification/Builder.thy ===== *)
theory Builder
  imports Graph
begin

text \<open>
  The CSR builder (\<open>csr/builder.rs\<close>): validation of the edge list, the stable sort by
  source, the counting pass that fills row pointers and column indices, and the partition
  into shards of about the configured size.  The loops are folds over the edge list with
  early returns, or functions whose measure is the number of nodes left.
\<close>

section \<open>State and operations\<close>

definition default_shard_size :: usize where
  "default_shard_size = 64 * 1024 * 1024"

record csr_build_config =
  cfg_shard_size :: usize
  cfg_include_weights :: bool

definition csr_build_config_default :: csr_build_config where
  "csr_build_config_default =
     \<lparr>cfg_shard_size = default_shard_size, cfg_include_weights = False\<rparr>"

record csr_builder =
  config :: csr_build_config
  b_edges :: "(u64 \<times> u64) list"
  b_weights :: "f32 list"

definition builder_new :: csr_builder where
  "builder_new = \<lparr>config = csr_build_config_default, b_edges = [], b_weights = []\<rparr>"

definition with_shard_size :: "usize \<Rightarrow> csr_builder \<Rightarrow> csr_builder" where
  "with_shard_size bytes b = b\<lparr>config := (config b)\<lparr>cfg_shard_size := bytes\<rparr>\<rparr>"

definition with_edges :: "(u64 \<times> u64) list \<Rightarrow> csr_builder \<Rightarrow> csr_builder" where
  "with_edges edges b = b\<lparr>b_edges := b_edges b @ edges\<rparr>"

definition with_weighted_edges :: "(u64 \<times> u64 \<times> f32) list \<Rightarrow> csr_builder \<Rightarrow> csr_builder" where
  "with_weighted_edges edges b =
     fold (\<lambda>(src, dst, w) b. b\<lparr>b_edges := b_edges b @ [(src, dst)],
             b_weights := b_weights b @ [w]\<rparr>)
       edges (b\<lparr>config := (config b)\<lparr>cfg_include_weights := True\<rparr>\<rparr>)"

fun validate_edge_ids :: "(u64 \<times> u64) list \<Rightarrow> unit result" where
  "validate_edge_ids [] = Ok ()"
| "validate_edge_ids ((src, dst) # es) =
     (if u32_max < unat src \<or> u32_max < unat dst
      then Err (InvalidEdge (node_new src) (node_new dst))
      else validate_edge_ids es)"

definition edge_src_index :: "u64 \<Rightarrow> usize \<Rightarrow> usize result" where
  "edge_src_index src n =
     (case usize_of_u64 src of
        None \<Rightarrow> Err (InvalidEdge (node_new src) (node_new src))
      | Some i \<Rightarrow>
          if n \<le> i then Err (InvalidEdge (node_new src) (node_new src)) else Ok i)"

definition degree_error :: "u64 \<Rightarrow> graph_error" where
  "degree_error src = UnsupportedGraphSize
     (''node '' @ show_nat (unat src) @ '' exceeds per-node CSR degree capacity'')"

text \<open>The three passes of \<open>build_csr_arrays\<close>: degrees, row pointers, placement.\<close>

definition count_degrees :: "(u64 \<times> u64) list \<Rightarrow> usize \<Rightarrow> u32 list result" where
  "count_degrees edges n =
     fold_res (\<lambda>degrees (src, _).
         bind_res (edge_src_index src n) (\<lambda>i.
           case get_vec degrees i of
             None \<Rightarrow> Err (InvalidEdge (node_new src) (node_new src))
           | Some d \<Rightarrow>
               bind_res (ok_or (checked_add d 1) (degree_error src)) (\<lambda>d'.
                 Ok (degrees[i := d']))))
       (replicate n 0) edges"

definition cumulate_degrees :: "u32 list \<Rightarrow> (u32 list \<times> u32) result" where
  "cumulate_degrees degrees =
     fold_res (\<lambda>(rows, cumsum) d.
         bind_res (ok_or (checked_add cumsum d) (UnsupportedGraphSize
             ''total edge count exceeds CSR row pointer capacity'')) (\<lambda>c.
           Ok (rows @ [c], c)))
       ([0], 0) degrees"

definition place_edge ::
  "csr_builder \<Rightarrow> usize \<Rightarrow> u32 list \<times> f32 list option \<times> u32 list \<Rightarrow> usize \<times> (u64 \<times> u64) \<Rightarrow>
   (u32 list \<times> f32 list option \<times> u32 list) result" where
  "place_edge b n = (\<lambda>(cols, ws, current_pos) (i, (src, dst)).
     bind_res (edge_src_index src n) (\<lambda>src_idx.
     bind_res (index_vec current_pos src_idx) (\<lambda>p.
     bind_res (ok_or (u32_of_u64 dst) (InvalidEdge (node_new src) (node_new dst))) (\<lambda>c.
     bind_res (set_vec cols (unat p) c) (\<lambda>cols'.
     bind_res (case ws of None \<Rightarrow> Ok None
               | Some w \<Rightarrow> bind_res (index_vec (b_weights b) i) (\<lambda>x.
                             map_res Some (set_vec w (unat p) x))) (\<lambda>ws'.
     bind_res (ok_or (checked_add p 1) (degree_error src)) (\<lambda>p'.
     Ok (cols', ws', current_pos[src_idx := p']))))))))"

definition build_csr_arrays ::
  "csr_builder \<Rightarrow> usize \<Rightarrow> (u32 list \<times> u32 list \<times> f32 list option) result" where
  "build_csr_arrays b n =
     bind_res (count_degrees (b_edges b) n) (\<lambda>degrees.
     bind_res (cumulate_degrees degrees) (\<lambda>(rows, _).
     let m = length (b_edges b);
         cols = replicate m 0;
         ws = (if cfg_include_weights (config b) then Some (replicate m 0) else None)
     in bind_res (slice_vec rows 0 n) (\<lambda>current_pos.
        bind_res (fold_res (place_edge b n) (cols, ws, current_pos)
            (List.enumerate 0 (b_edges b))) (\<lambda>(cols', ws', _).
        Ok (rows, cols', ws')))))"

definition calculate_shard_memory ::
  "usize \<Rightarrow> usize \<Rightarrow> u32 list \<Rightarrow> usize \<Rightarrow> usize result" where
  "calculate_shard_memory start_node end_node rows bytes_per_edge =
     bind_res (sub_usize end_node start_node) (\<lambda>n.
     bind_res (index_vec rows start_node) (\<lambda>edge_start.
     bind_res (index_vec rows end_node) (\<lambda>edge_end.
     bind_res (sub_usize (unat edge_end) (unat edge_start)) (\<lambda>m.
     Ok ((n + 1) * 4 + m * bytes_per_edge)))))"

text \<open>The inner \<open>while\<close> loop: drop nodes from the end of a shard that is too large.\<close>

function shrink_shard ::
  "usize \<Rightarrow> usize \<Rightarrow> u32 list \<Rightarrow> usize \<Rightarrow> usize \<Rightarrow> usize \<Rightarrow> usize result" where
  "shrink_shard shard_size start_node rows bytes_per_edge end_node shard_bytes =
     (if shard_size < shard_bytes \<and> start_node + 1 < end_node then
        bind_res (calculate_shard_memory start_node (end_node - 1) rows bytes_per_edge)
          (\<lambda>bytes. shrink_shard shard_size start_node rows bytes_per_edge (end_node - 1) bytes)
      else Ok end_node)"
  by pat_completeness auto
termination
  by (relation "measure (\<lambda>(sz, s, rows, bpe, e, bytes). e)") auto

declare shrink_shard.simps [simp del]

lemma shrink_shard_bounds:
  "shrink_shard sz s rows bpe e bytes = Ok e' \<Longrightarrow> s < e \<Longrightarrow> s < e' \<and> e' \<le> e"
proof (induction sz s rows bpe e bytes rule: shrink_shard.induct)
  case (1 sz s rows bpe e bytes)
  from 1(2) show ?case
    by (subst (asm) shrink_shard.simps)
      (use 1(1,3) in \<open>fastforce simp: bind_res_Ok_iff split: if_splits\<close>)
qed

definition target_nodes_per_shard :: "usize \<Rightarrow> usize \<Rightarrow> usize \<Rightarrow> usize \<Rightarrow> usize" where
  "target_nodes_per_shard shard_size n m bytes_per_edge =
     (let total_edge_bytes = saturating_mul m bytes_per_edge;
          total_row_bytes = saturating_mul (n + 1) 4;
          total_bytes = saturating_add total_row_bytes total_edge_bytes;
          avg_bytes_per_node = max (div_ceil total_bytes n) 1
      in max (div_ceil shard_size avg_bytes_per_node) 1)"

definition extract_shard ::
  "u32 \<Rightarrow> usize \<Rightarrow> usize \<Rightarrow> u32 list \<Rightarrow> u32 list \<Rightarrow> f32 list option \<Rightarrow> csr_shard result" where
  "extract_shard i start_node end_node rows cols ws =
     bind_res (index_vec rows start_node) (\<lambda>edge_start.
     bind_res (index_vec rows end_node) (\<lambda>edge_end.
     bind_res (map_list_res (\<lambda>k. bind_res (index_vec rows k) (\<lambda>p.
         bind_res (index_vec rows start_node) (\<lambda>q. sub_word p q)))
         [start_node..<Suc end_node]) (\<lambda>shard_rows.
     bind_res (slice_vec cols (unat edge_start) (unat edge_end)) (\<lambda>shard_cols.
     bind_res (case ws of None \<Rightarrow> Ok None
               | Some w \<Rightarrow> map_res Some (slice_vec w (unat edge_start) (unat edge_end)))
       (\<lambda>ws'.
     shard_new i (start_node, end_node) shard_rows shard_cols ws')))))"

lemma target_nodes_pos: "0 < target_nodes_per_shard sz n m bpe"
  by (simp add: target_nodes_per_shard_def Let_def)

text \<open>The outer loop, from node \<open>start_node\<close> and identifier \<open>i\<close> on.\<close>

function partition_loop ::
  "usize \<Rightarrow> usize \<Rightarrow> u32 list \<Rightarrow> u32 list \<Rightarrow> f32 list option \<Rightarrow> usize \<Rightarrow> u32 \<Rightarrow>
   csr_shard list result" where
  "partition_loop shard_size n rows cols ws start_node i =
     (let bytes_per_edge = (if ws \<noteq> None then 8 else 4);
          target = target_nodes_per_shard shard_size n (length cols) bytes_per_edge
      in if start_node < n then
           bind_res (add_usize start_node target) (\<lambda>bound.
           bind_res (calculate_shard_memory start_node (min bound n) rows bytes_per_edge)
             (\<lambda>shard_bytes.
           bind_res (shrink_shard shard_size start_node rows bytes_per_edge (min bound n)
               shard_bytes) (\<lambda>end_node.
           bind_res (extract_shard i start_node end_node rows cols ws) (\<lambda>sh.
           bind_res (ok_or (checked_add i 1)
               (UnsupportedGraphSize ''shard count exceeds u32::MAX'')) (\<lambda>i'.
           map_res (Cons sh)
             (partition_loop shard_size n rows cols ws end_node i'))))))
         else Ok [])"
  by pat_completeness auto

termination
proof (relation "measure (\<lambda>(sz, n, rows, cols, ws, s, i). n - s)", goal_cases)
  case (2 shard_size n rows cols ws s i bpe target bound bytes e sh i')
  then have s: "s < n" and "s < min bound n"
    using target_nodes_pos by (auto simp: add_usize_def split: if_splits)
  then have "s < e" using shrink_shard_bounds [OF 2(6)] by simp
  with s show ?case by (simp add: diff_less_mono2)
qed simp

declare partition_loop.simps [simp del]

definition partition_into_shards ::
  "csr_builder \<Rightarrow> usize \<Rightarrow> u32 list \<Rightarrow> u32 list \<Rightarrow> f32 list option \<Rightarrow> csr_shard list result"
where
  "partition_into_shards b n rows cols ws =
     (if n = 0 then Ok []
      else partition_loop (cfg_shard_size (config b)) n rows cols ws 0 0)"

text \<open>
  \<open>sort_by_key\<close> is a stable sort, as \<open>sort_key\<close> is.  The pair iterator of the weighted
  case stops at the end of the shorter list, as \<open>zip\<close> does.
\<close>

definition sort_edges :: "csr_builder \<Rightarrow> csr_builder" where
  "sort_edges b =
     (if cfg_include_weights (config b) then
        (let edge_weights = sort_key (\<lambda>((src, _), _). src) (zip (b_edges b) (b_weights b))
         in b\<lparr>b_edges := map (\<lambda>((s, d), _). (s, d)) edge_weights,
              b_weights := map snd edge_weights\<rparr>)
      else b\<lparr>b_edges := sort_key fst (b_edges b)\<rparr>)"

definition max_node_id :: "(u64 \<times> u64) list \<Rightarrow> u64" where
  "max_node_id edges =
     (case concat (map (\<lambda>(src, dst). [src, dst]) edges) of
        [] \<Rightarrow> 0
      | x # xs \<Rightarrow> fold max xs x)"

definition build :: "('m, 's) dash \<Rightarrow> csr_builder \<Rightarrow> ('m, 's) csr_graph result" where
  "build D b =
     (if b_edges b = [] then Ok (graph_empty D)
      else
        bind_res (validate_edge_ids (b_edges b)) (\<lambda>_.
        let b = sort_edges b; max_node = max_node_id (b_edges b)
        in bind_res (add_word max_node 1) (\<lambda>count.
           bind_res (ok_or (usize_of_u64 count) (UnsupportedGraphSize
               (''node count '' @ show_nat (unat count) @
                '' exceeds platform addressable range''))) (\<lambda>n.
           if u32_max < length (b_edges b) then
             Err (UnsupportedGraphSize
               (''edge count '' @ show_nat (length (b_edges b)) @
                '' exceeds CSR row pointer capacity''))
           else
             bind_res (build_csr_arrays b n) (\<lambda>(rows, cols, ws).
             bind_res (partition_into_shards b n rows cols ws) (\<lambda>shs.
             Ok \<lparr>shards = shs, node_count = n, edge_count = length (b_edges b),
                 delta = delta_new D\<rparr>))))))"

text \<open>\<open>expect\<close> turns an error into a panic.\<close>

fun expect_ok :: "'a result \<Rightarrow> 'a result" where
  "expect_ok (Ok x) = Ok x"
| "expect_ok (Err e) = Panic"
| "expect_ok Panic = Panic"

definition from_edges :: "('m, 's) dash \<Rightarrow> (u64 \<times> u64) list \<Rightarrow> ('m, 's) csr_graph result" where
  "from_edges D edges = expect_ok (build D (with_edges edges builder_new))"

section \<open>The counting pass\<close>

text \<open>
  For edges sorted by source: \<open>starts es v\<close> is where the edges of \<open>v\<close> begin and
  \<open>outs es v\<close> how many there are.
\<close>

definition starts :: "(u64 \<times> u64) list \<Rightarrow> nat \<Rightarrow> nat" where
  "starts es v = length (filter (\<lambda>e. unat (fst e) < v) es)"

definition outs :: "(u64 \<times> u64) list \<Rightarrow> nat \<Rightarrow> nat" where
  "outs es v = length (filter (\<lambda>e. unat (fst e) = v) es)"

lemma starts_0 [simp]: "starts es 0 = 0"
  by (simp add: starts_def)

lemma starts_Suc: "starts es (Suc v) = starts es v + outs es v"
  by (induction es) (auto simp: starts_def outs_def less_Suc_eq)

lemma starts_le: "starts es v \<le> length es"
  by (simp add: starts_def)

lemma outs_le: "outs es v \<le> length es"
  by (simp add: outs_def)

lemma starts_all: "(\<And>e. e \<in> set es \<Longrightarrow> unat (fst e) < n) \<Longrightarrow> starts es n = length es"
  by (simp add: starts_def)

lemma starts_mono: "u \<le> v \<Longrightarrow> starts es u \<le> starts es v"
  by (induction v) (auto simp: starts_Suc le_Suc_eq intro: le_trans)

text \<open>In a list sorted by a key, the entries of one key are a slice.\<close>

lemma sorted_key_slice:
  assumes "sorted (map f xs)"
  shows "take (length (filter (\<lambda>x. f x = v) xs))
      (drop (length (filter (\<lambda>x. f x < v) xs)) xs) = filter (\<lambda>x. f x = (v :: 'b::linorder)) xs"
  using assms
proof (induction xs)
  case (Cons x xs)
  then have le: "\<And>y. y \<in> set xs \<Longrightarrow> f x \<le> f y" by auto
  show ?case
  proof (cases "f x < v")
    case True
    then show ?thesis using Cons by auto
  next
    case False
    then have "filter (\<lambda>y. f y < v) xs = []"
      using le by (auto simp: filter_empty_conv not_less intro: order_trans)
    moreover have "filter (\<lambda>y. f y = v) xs = []" if "f x \<noteq> v"
      using le False that by (auto intro!: filter_False dest: le)
    ultimately show ?thesis
      using Cons False by (cases "f x = v") auto
  qed
qed simp

text \<open>The position of an entry is the number of smaller ones plus the equal ones before it.\<close>

lemma sorted_key_position:
  assumes "sorted (map f (pre @ x # suf))"
  shows "length (filter (\<lambda>y. f y < f x) (pre @ x # suf)) +
      length (filter (\<lambda>y. f y = (f x :: 'b::linorder)) pre) = length pre"
proof -
  have "filter (\<lambda>y. f y < f x) (x # suf) = []"
    using assms by (auto simp: sorted_append filter_empty_conv not_less)
  moreover have "filter (\<lambda>y. f y = f x) pre = filter (\<lambda>y. \<not> f y < f x) pre"
    using assms by (intro filter_cong) (auto simp: sorted_append)
  ultimately show ?thesis
    using sum_length_filter_compl [of "\<lambda>y. f y < f x" pre] by simp
qed

lemma edge_src_index_Ok [simp]:
  "unat src < n \<Longrightarrow> edge_src_index src n = Ok (unat src)"
  by (simp add: edge_src_index_def)

lemma unat_of_nat_u32: "n \<le> u32_max \<Longrightarrow> unat (of_nat n :: u32) = n"
  by (simp add: u32_max_def unsigned_of_nat take_bit_nat_eq_self)

lemma checked_add_u32:
  "unat (a :: u32) + unat b \<le> u32_max \<Longrightarrow> checked_add a b = Some (a + b)"
  by (simp add: checked_add_def u32_max_def)

lemma count_degrees_Ok:
  assumes "\<And>e. e \<in> set es \<Longrightarrow> unat (fst e) < n" "length es \<le> u32_max"
  shows "count_degrees es n = Ok (map (\<lambda>v. of_nat (outs es v)) [0..<n])"
proof -
  let ?I = "\<lambda>pre ds. ds = map (\<lambda>v. of_nat (outs pre v) :: u32) [0..<n]"
  let ?f = "\<lambda>degrees (src, _ :: u64).
         bind_res (edge_src_index src n) (\<lambda>i.
           case get_vec degrees i of
             None \<Rightarrow> Err (InvalidEdge (node_new src) (node_new src))
           | Some d \<Rightarrow>
               bind_res (ok_or (checked_add d (1 :: u32)) (degree_error src)) (\<lambda>d'.
                 Ok (degrees[i := d'])))"
  have "\<exists>ds. fold_res ?f (replicate n 0) es = Ok ds \<and> ?I es ds"
  proof (rule fold_res_invariant)
    show "?I [] (replicate n 0)" by (simp add: outs_def map_replicate_const)
  next
    fix pre e ds
    assume I: "?I pre ds" and e: "e \<in> set es" and pre: "pre @ [e] = take (Suc (length pre)) es"
    obtain src dst where sd: "e = (src, dst)" by fastforce
    with e assms(1) have src: "unat src < n" by fastforce
    have "length (pre @ [e]) \<le> length es" using pre by (metis length_take min.cobounded1)
    then have small: "outs pre (unat src) + 1 \<le> u32_max"
      using outs_le [of pre "unat src"] assms(2) by simp
    have "checked_add (of_nat (outs pre (unat src)) :: u32) 1 =
        Some (of_nat (outs pre (unat src)) + 1)"
      using small by (intro checked_add_u32) (simp add: unat_of_nat_u32)
    then have "?f ds e = Ok (ds[unat src := of_nat (outs pre (unat src)) + 1])"
      using I src sd by (simp add: get_vec_def)
    moreover have "?I (pre @ [e]) (ds[unat src := of_nat (outs pre (unat src)) + 1])"
      using I sd by (intro nth_equalityI) (auto simp: nth_list_update outs_def)
    ultimately show "\<exists>s'. ?f ds e = Ok s' \<and> ?I (pre @ [e]) s'" by blast
  qed
  then show ?thesis by (simp add: count_degrees_def)
qed

lemma sum_outs:
  "sum_list (map (outs es) [0..<n]) = starts es n"
  by (induction n) (simp_all add: starts_Suc)

lemma cumulate_degrees_Ok:
  assumes "length es \<le> u32_max"
  shows "cumulate_degrees (map (\<lambda>v. of_nat (outs es v)) [0..<n]) =
    Ok (map (\<lambda>v. of_nat (starts es v)) [0..<Suc n], of_nat (starts es n))"
proof (induction n)
  case (Suc n)
  have "starts es n + outs es n \<le> u32_max" "starts es n \<le> u32_max" "outs es n \<le> u32_max"
    using starts_le [of es "Suc n"] assms starts_Suc [of es n] by auto
  then have "checked_add (of_nat (starts es n) :: u32) (of_nat (outs es n)) =
      Some (of_nat (starts es (Suc n)))"
    using checked_add_u32 [of "of_nat (starts es n)" "of_nat (outs es n)"]
    by (simp add: unat_of_nat_u32 starts_Suc)
  with Suc show ?case
    by (simp add: cumulate_degrees_def fold_res_append)
qed (simp add: cumulate_degrees_def)

text \<open>Sorted edges land in order: the placement pass copies them.\<close>

lemma place_edges_Ok:
  fixes b :: csr_builder and n :: nat
  defines "es \<equiv> b_edges b"
  assumes sorted: "sorted (map fst es)" and len: "length es \<le> u32_max"
    and src: "\<And>e. e \<in> set es \<Longrightarrow> unat (fst e) < n"
    and dst: "\<And>e. e \<in> set es \<Longrightarrow> unat (snd e) \<le> u32_max"
    and ws: "ws = None \<or> ws = Some (replicate (length es) 0) \<and> length (b_weights b) = length es"
  shows "\<exists>pos. fold_res (place_edge b n)
      (replicate (length es) 0, ws, map (\<lambda>v. of_nat (starts es v)) [0..<n])
      (List.enumerate 0 es) =
    Ok (map (\<lambda>e. ucast (snd e)) es, map_option (\<lambda>_. b_weights b) ws, pos)"
proof -
  let ?m = "length es"
  let ?W = "b_weights b"
  let ?I = "\<lambda>pre (cols, w, pos).
      cols = map (\<lambda>(i, e). ucast (snd e) :: u32) pre @ replicate (?m - length pre) 0 \<and>
      w = map_option (\<lambda>_. take (length pre) ?W @ replicate (?m - length pre) 0) ws \<and>
      pos = map (\<lambda>v. of_nat (starts es v + outs (map snd pre) v) :: u32) [0..<n]"
  have "\<exists>t. fold_res (place_edge b n)
      (replicate ?m 0, ws, map (\<lambda>v. of_nat (starts es v)) [0..<n]) (List.enumerate 0 es) = Ok t \<and>
      ?I (List.enumerate 0 es) t"
  proof (rule fold_res_invariant)
    show "?I [] (replicate ?m 0, ws, map (\<lambda>v. of_nat (starts es v)) [0..<n])"
      using ws by (auto simp: outs_def)
  next
    fix pre x s
    assume I: "?I pre s" and x: "x \<in> set (List.enumerate 0 es)"
      and pre: "pre @ [x] = take (Suc (length pre)) (List.enumerate 0 es)"
    obtain i u v where xs: "x = (i, (u, v))" by (metis surj_pair)
    have k: "length pre < ?m"
      using arg_cong [OF pre, of length] by (simp add: min_def split: if_splits)
    have "x = List.enumerate 0 es ! length pre"
      using arg_cong [OF pre, of "\<lambda>ys. ys ! length pre"] k by simp
    with xs k have i: "i = length pre" and uv: "es ! length pre = (u, v)"
      by (auto simp: nth_enumerate_eq)
    have pre_es: "map snd pre = take (length pre) es"
      using arg_cong [OF pre, of "\<lambda>ys. map snd (take (length pre) ys)"]
      by (simp add: take_map flip: take_map)
    have "(u, v) \<in> set es" using k uv by (metis nth_mem)
    with src dst have u: "unat u < n" and v: "unat v \<le> u32_max" by fastforce+
    have split: "es = map snd pre @ (u, v) # drop (Suc (length pre)) es"
      using id_take_nth_drop [OF k] uv pre_es by simp
    have sorted': "sorted (map (\<lambda>e. unat (fst e)) es)"
      using sorted by (auto simp: sorted_iff_nth_mono word_le_nat_alt)
    have p: "starts es (unat u) + outs (map snd pre) (unat u) = length pre"
      using sorted_key_position [of "\<lambda>e. unat (fst e)" "map snd pre" "(u, v)"
          "drop (Suc (length pre)) es"] sorted' split
      by (simp add: starts_def outs_def)
    have up: "unat (of_nat (length pre) :: u32) = length pre"
      using k len by (intro unat_of_nat_u32) simp
    obtain cols w pos where s: "s = (cols, w, pos)" by (metis surj_pair)
    note I' = I [unfolded s prod.case]
    have pos: "index_vec pos (unat u) = (Ok (of_nat (length pre)) :: u32 result)"
      using I' u by (simp add: p flip: of_nat_add)
    have c: "u32_of_u64 v = Some (ucast v)" using v by (simp add: u32_of_u64_def)
    have inc: "checked_add (of_nat (length pre) :: u32) 1 = Some (of_nat (length pre) + 1)"
      using k len by (intro checked_add_u32) (simp add: up)
    have lens: "length cols = ?m" using I' k by simp
    let ?cols = "cols[length pre := ucast v]"
    let ?w = "map_option (\<lambda>y. y[length pre := ?W ! length pre]) w"
    let ?pos = "pos[unat u := of_nat (length pre) + 1]"
    have wstep: "(case w of None \<Rightarrow> Ok None
        | Some y \<Rightarrow> bind_res (index_vec ?W i) (\<lambda>z. map_res Some
            (set_vec y (unat (of_nat (length pre) :: u32)) z))) = (Ok ?w :: f32 list option result)"
      using I' ws k i by (auto simp: min_def up)
    have "place_edge b n s x = Ok (?cols, ?w, ?pos)"
      using u pos c inc wstep lens k by (simp add: place_edge_def s xs up)
    moreover have "?I (pre @ [x]) (?cols, ?w, ?pos)"
    proof -
      have r: "replicate (?m - length pre) z = z # replicate (?m - Suc (length pre)) z" for z :: 'z
        using k by (metis Suc_diff_Suc replicate_Suc)
      have 1: "?cols = map (\<lambda>(i, e). ucast (snd e)) (pre @ [x]) @
          replicate (?m - length (pre @ [x])) 0"
        using I' xs by (simp add: list_update_append r)
      have 2: "?w = map_option (\<lambda>_. take (length (pre @ [x])) ?W @
          replicate (?m - length (pre @ [x])) 0) ws"
        using I' ws k by (auto simp: list_update_append r take_Suc_conv_app_nth min_def)
      have 3: "?pos = map (\<lambda>v. of_nat (starts es v + outs (map snd (pre @ [x])) v)) [0..<n]"
        using I' u p xs
        by (intro nth_equalityI) (auto simp: nth_list_update outs_def add.commute simp flip: of_nat_add)
      from 1 2 3 show ?thesis by simp
    qed
    ultimately show "\<exists>s'. place_edge b n s x = Ok s' \<and> ?I (pre @ [x]) s'" by blast
  qed
  then obtain t where t: "fold_res (place_edge b n)
      (replicate ?m 0, ws, map (\<lambda>v. of_nat (starts es v)) [0..<n]) (List.enumerate 0 es) = Ok t"
    "?I (List.enumerate 0 es) t" by blast
  obtain cols w pos where "t = (cols, w, pos)" by (metis surj_pair)
  moreover have "map (\<lambda>(i, e). ucast (snd e) :: u32) (List.enumerate 0 es) =
      map (\<lambda>e. ucast (snd e)) es"
    by (rule nth_equalityI) (simp_all add: nth_enumerate_eq)
  moreover have "map_option (\<lambda>_. take ?m ?W @ replicate (?m - ?m) 0) ws =
      map_option (\<lambda>_. ?W) ws"
    using ws by auto
  ultimately show ?thesis using t by auto
qed

lemma build_csr_arrays_Ok:
  fixes b :: csr_builder and n :: nat
  defines "es \<equiv> b_edges b"
  assumes "sorted (map fst es)" "length es \<le> u32_max"
    and "\<And>e. e \<in> set es \<Longrightarrow> unat (fst e) < n" "\<And>e. e \<in> set es \<Longrightarrow> unat (snd e) \<le> u32_max"
    and "cfg_include_weights (config b) \<Longrightarrow> length (b_weights b) = length es"
  shows "build_csr_arrays b n =
    Ok (map (\<lambda>v. of_nat (starts es v)) [0..<Suc n], map (\<lambda>e. ucast (snd e)) es,
        if cfg_include_weights (config b) then Some (b_weights b) else None)"
proof -
  let ?ws = "if cfg_include_weights (config b) then Some (replicate (length es) (0 :: f32)) else None"
  have "slice_vec (map (\<lambda>v. of_nat (starts es v) :: u32) [0..<Suc n]) 0 n =
      Ok (map (\<lambda>v. of_nat (starts es v)) [0..<n])"
    by (simp add: take_map)
  moreover have ws: "?ws = None \<or> ?ws = Some (replicate (length (b_edges b)) 0) \<and>
      length (b_weights b) = length (b_edges b)"
    using assms(6) by (simp add: es_def)
  moreover have "\<exists>pos. fold_res (place_edge b n)
      (replicate (length (b_edges b)) 0, ?ws, map (\<lambda>v. of_nat (starts (b_edges b) v)) [0..<n])
      (List.enumerate 0 (b_edges b)) =
    Ok (map (\<lambda>e. ucast (snd e)) (b_edges b), map_option (\<lambda>_. b_weights b) ?ws, pos)"
    using assms(2-5) ws unfolding es_def by (rule place_edges_Ok)
  ultimately show ?thesis
    using count_degrees_Ok [of es n] cumulate_degrees_Ok [of es n] assms(3,4)
    by (auto simp: build_csr_arrays_def es_def Let_def simp del: upt_Suc)
qed

section \<open>The partition into shards\<close>

text \<open>The arrays as one shard over all the nodes; a shard's row is a slice of its columns.\<close>

definition whole_shard :: "nat \<Rightarrow> u32 list \<Rightarrow> u32 list \<Rightarrow> f32 list option \<Rightarrow> csr_shard" where
  "whole_shard n rows cols ws =
     \<lparr>shard_id = 0, node_range = (0, n), row_ptrs = rows, col_indices = cols,
      shard_weights = ws\<rparr>"

lemma whole_shard_sel [simp]:
  "shard_node_count (whole_shard n rows cols ws) = n"
  "row_ptrs (whole_shard n rows cols ws) = rows"
  "col_indices (whole_shard n rows cols ws) = cols"
  "shard_weights (whole_shard n rows cols ws) = ws"
  by (simp_all add: whole_shard_def shard_node_count_def)

definition slice_row :: "u32 list \<Rightarrow> 'a list \<Rightarrow> nat \<Rightarrow> 'a list" where
  "slice_row rows xs k =
     take (unat (rows ! Suc k) - unat (rows ! k)) (drop (unat (rows ! k)) xs)"

definition shard_row_weights :: "csr_shard \<Rightarrow> nat \<Rightarrow> f32 list option" where
  "shard_row_weights sh k =
     (if k < shard_node_count sh
      then map_option (\<lambda>w. slice_row (row_ptrs sh) w k) (shard_weights sh) else None)"

lemma shard_row_slice:
  "k < shard_node_count sh \<Longrightarrow> shard_row sh k = slice_row (row_ptrs sh) (col_indices sh) k"
  by (simp add: shard_row_def slice_row_def)

text \<open>Row pointers and columns of the part of a shard from local node \<open>s\<close> to \<open>e\<close>.\<close>

definition part_rows :: "csr_shard \<Rightarrow> nat \<Rightarrow> nat \<Rightarrow> u32 list" where
  "part_rows W s e = map (\<lambda>k. row_ptrs W ! k - row_ptrs W ! s) [s..<Suc e]"

definition part :: "csr_shard \<Rightarrow> nat \<Rightarrow> nat \<Rightarrow> 'x list \<Rightarrow> 'x list" where
  "part W s e xs =
     take (unat (row_ptrs W ! e) - unat (row_ptrs W ! s)) (drop (unat (row_ptrs W ! s)) xs)"

definition part_shard :: "csr_shard \<Rightarrow> u32 \<Rightarrow> nat \<Rightarrow> nat \<Rightarrow> csr_shard" where
  "part_shard W i s e = \<lparr>shard_id = i, node_range = (s, e), row_ptrs = part_rows W s e,
     col_indices = part W s e (col_indices W),
     shard_weights = map_option (part W s e) (shard_weights W)\<rparr>"

lemma part_shard_sel [simp]:
  "shard_id (part_shard W i s e) = i" "node_range (part_shard W i s e) = (s, e)"
  "row_ptrs (part_shard W i s e) = part_rows W s e"
  "col_indices (part_shard W i s e) = part W s e (col_indices W)"
  "shard_weights (part_shard W i s e) = map_option (part W s e) (shard_weights W)"
  "shard_node_count (part_shard W i s e) = e - s"
  by (simp_all add: part_shard_def shard_node_count_def)

lemma rows_len: "wf_shard W \<Longrightarrow> length (row_ptrs W) = Suc (shard_node_count W)"
  by (simp add: wf_shard_def)

lemma rows_mono:
  "wf_shard W \<Longrightarrow> i \<le> j \<Longrightarrow> j \<le> shard_node_count W \<Longrightarrow>
   unat (row_ptrs W ! i) \<le> unat (row_ptrs W ! j)"
  using sorted_nth_mono [of "map unat (row_ptrs W)" i j] by (simp add: wf_shard_def)

lemma rows_last: "wf_shard W \<Longrightarrow> unat (row_ptrs W ! shard_node_count W) = length (col_indices W)"
  by (simp add: wf_shard_def)

lemma rows_bound:
  "wf_shard W \<Longrightarrow> j \<le> shard_node_count W \<Longrightarrow> unat (row_ptrs W ! j) \<le> length (col_indices W)"
  using rows_mono [of W j "shard_node_count W"] rows_last [of W] by simp

lemma rows_diff:
  "wf_shard W \<Longrightarrow> i \<le> j \<Longrightarrow> j \<le> shard_node_count W \<Longrightarrow>
   unat (row_ptrs W ! j - row_ptrs W ! i) = unat (row_ptrs W ! j) - unat (row_ptrs W ! i)"
  using rows_mono by (simp add: unat_sub word_le_nat_alt)

lemma weights_len:
  "wf_shard W \<Longrightarrow> shard_weights W = Some w \<Longrightarrow> length w = length (col_indices W)"
  by (simp add: wf_shard_def)

lemma part_rows_nth:
  "k \<le> e - s \<Longrightarrow> s \<le> e \<Longrightarrow> part_rows W s e ! k = row_ptrs W ! (s + k) - row_ptrs W ! s"
  by (simp add: part_rows_def del: upt_Suc)

lemma length_part_rows [simp]: "s \<le> e \<Longrightarrow> length (part_rows W s e) = Suc (e - s)"
  by (simp add: part_rows_def del: upt_Suc)

lemma length_part:
  "wf_shard W \<Longrightarrow> s \<le> e \<Longrightarrow> e \<le> shard_node_count W \<Longrightarrow> length xs = length (col_indices W) \<Longrightarrow>
   length (part W s e xs) = unat (row_ptrs W ! e) - unat (row_ptrs W ! s)"
  using rows_bound [of W e] by (simp add: part_def)

lemma slice_row_part:
  assumes "wf_shard W" "s \<le> e" "e \<le> shard_node_count W" "k < e - s"
  shows "slice_row (part_rows W s e) (part W s e xs) k = slice_row (row_ptrs W) xs (s + k)"
proof -
  let ?a = "unat (row_ptrs W ! s)" and ?b = "unat (row_ptrs W ! (s + k))"
    and ?c = "unat (row_ptrs W ! (s + Suc k))" and ?d = "unat (row_ptrs W ! e)"
  have ord: "?a \<le> ?b" "?b \<le> ?c" "?c \<le> ?d" using assms by (auto intro: rows_mono)
  have 1: "unat (part_rows W s e ! k) = ?b - ?a" "unat (part_rows W s e ! Suc k) = ?c - ?a"
    using assms by (simp_all add: part_rows_nth rows_diff)
  have "take ((?c - ?a) - (?b - ?a)) (drop (?b - ?a) (take (?d - ?a) (drop ?a xs))) =
      take (?c - ?b) (drop ?b xs)"
    using ord by (simp add: drop_take min_def)
  then show ?thesis by (simp add: slice_row_def part_def 1)
qed

lemma wf_part_shard:
  assumes "wf_shard W" "s < e" "e \<le> shard_node_count W"
  shows "wf_shard (part_shard W i s e)"
proof -
  have "sorted (map unat (part_rows W s e))"
    unfolding sorted_iff_nth_mono
  proof (intro allI impI)
    fix a b
    assume ab: "a \<le> b" "b < length (map unat (part_rows W s e))"
    with assms have "b \<le> e - s" by simp
    then show "map unat (part_rows W s e) ! a \<le> map unat (part_rows W s e) ! b"
      using ab assms rows_mono [of W "s + a" "s + b"]
      by (simp add: part_rows_nth rows_diff diff_le_mono)
  qed
  then show ?thesis
    using assms weights_len [of W]
    by (auto simp: wf_shard_def [of "part_shard W i s e"] part_rows_nth rows_diff
        length_part split: option.splits)
qed

lemma part_shard_row:
  assumes "wf_shard W" "s < e" "e \<le> shard_node_count W" "k < e - s"
  shows "shard_row (part_shard W i s e) k = shard_row W (s + k)"
    and "shard_row_weights (part_shard W i s e) k = shard_row_weights W (s + k)"
proof -
  have "s + k < shard_node_count W" using assms by linarith
  then show "shard_row (part_shard W i s e) k = shard_row W (s + k)"
    and "shard_row_weights (part_shard W i s e) k = shard_row_weights W (s + k)"
    using assms
    by (simp_all add: shard_row_slice shard_row_weights_def option.map_comp comp_def
        slice_row_part [OF assms(1) _ assms(3,4)])
qed

lemma extract_shard_Ok:
  assumes "wf_shard W" "s < e" "e \<le> shard_node_count W"
  shows "extract_shard i s e (row_ptrs W) (col_indices W) (shard_weights W) =
    Ok (part_shard W i s e)"
proof -
  note W = rows_len [OF assms(1)]
  have "map_list_res (\<lambda>k. bind_res (index_vec (row_ptrs W) k) (\<lambda>p.
         bind_res (index_vec (row_ptrs W) s) (\<lambda>q. sub_word p q))) [s..<Suc e] =
      (Ok (part_rows W s e) :: u32 list result)"
    unfolding part_rows_def
    using assms W rows_mono [OF assms(1)]
    by (intro map_list_res_Ok) (simp add: sub_word_def word_le_nat_alt less_Suc_eq_le del: upt_Suc)
  then show ?thesis
    using assms W rows_mono [of W s e] rows_bound [of W e] weights_len [of W]
      length_part [of W s e]
    by (cases "shard_weights W")
      (simp_all add: extract_shard_def shard_new_def part_shard_def part_def del: upt_Suc)
qed

lemma calculate_shard_memory_Ok:
  "wf_shard W \<Longrightarrow> s \<le> e \<Longrightarrow> e \<le> shard_node_count W \<Longrightarrow>
   calculate_shard_memory s e (row_ptrs W) bpe =
     Ok ((e - s + 1) * 4 + (unat (row_ptrs W ! e) - unat (row_ptrs W ! s)) * bpe)"
  using rows_len [of W] rows_mono [of W s e] by (simp add: calculate_shard_memory_def)

lemma shrink_shard_Ok:
  assumes "wf_shard W" "s < e" "e \<le> shard_node_count W"
  shows "\<exists>e'. shrink_shard sz s (row_ptrs W) bpe e
        ((e - s + 1) * 4 + (unat (row_ptrs W ! e) - unat (row_ptrs W ! s)) * bpe) = Ok e' \<and>
      s < e' \<and> e' \<le> e \<and>
      (e' = s + 1 \<or>
       (e' - s + 1) * 4 + (unat (row_ptrs W ! e') - unat (row_ptrs W ! s)) * bpe \<le> sz)"
  using assms(2,3)
proof (induction e)
  case (Suc e)
  show ?case
  proof (cases "sz < (Suc e - s + 1) * 4 +
      (unat (row_ptrs W ! Suc e) - unat (row_ptrs W ! s)) * bpe \<and> s < e")
    case True
    with Suc.IH Suc.prems obtain e' where e': "shrink_shard sz s (row_ptrs W) bpe e
        ((e - s + 1) * 4 + (unat (row_ptrs W ! e) - unat (row_ptrs W ! s)) * bpe) = Ok e'"
      "s < e'" "e' \<le> e"
      "e' = s + 1 \<or>
       (e' - s + 1) * 4 + (unat (row_ptrs W ! e') - unat (row_ptrs W ! s)) * bpe \<le> sz"
      by auto
    then show ?thesis
      using True Suc.prems calculate_shard_memory_Ok [OF assms(1), of s e]
      by (intro exI [of _ e']) (subst shrink_shard.simps, simp)
  next
    case False
    then show ?thesis
      using Suc.prems by (intro exI [of _ "Suc e"]) (subst shrink_shard.simps, auto)
  qed
qed simp

lemma target_nodes_le:
  assumes "0 < n" "n \<le> 2 ^ 32" "sz \<le> usize_max"
  shows "target_nodes_per_shard sz n m bpe \<le> 2 ^ 62"
proof -
  let ?total = "saturating_add (saturating_mul (n + 1) 4) (saturating_mul m bpe)"
  let ?avg = "max (div_ceil ?total n) 1"
  have "4 * n \<le> ?total"
    using assms by (simp add: saturating_add_def saturating_mul_def usize_max_def)
  then have "4 * n div n \<le> (?total + n - 1) div n"
    using assms(1) by (intro div_le_mono) simp
  then have avg: "4 \<le> ?avg" using assms(1) by (simp add: div_ceil_def)
  have "(sz + ?avg - 1) div ?avg \<le> (sz + ?avg) div ?avg" by (rule div_le_mono) simp
  also have "\<dots> = sz div ?avg + 1" using avg by (intro div_add_self2) linarith
  also have "sz div ?avg \<le> sz div 4" using avg by (intro div_le_mono2) auto
  also have "sz div 4 \<le> (2 ^ 64 - 1) div 4"
    using assms(3) by (intro div_le_mono) (simp add: usize_max_def)
  finally have "div_ceil sz ?avg \<le> 2 ^ 62" by (simp add: div_ceil_def)
  then show ?thesis by (simp add: target_nodes_per_shard_def Let_def)
qed

text \<open>Every shard stays within the configured size or holds a single node.\<close>

definition shard_data_bytes :: "csr_shard \<Rightarrow> nat" where
  "shard_data_bytes sh = shard_memory_usage 0 sh"

lemma shard_data_bytes_part:
  assumes "wf_shard W" "s < e" "e \<le> shard_node_count W"
  shows "shard_data_bytes (part_shard W i s e) =
    (e - s + 1) * 4 + (unat (row_ptrs W ! e) - unat (row_ptrs W ! s)) *
      (if shard_weights W \<noteq> None then 8 else 4)"
  using assms length_part [of W s e] weights_len [of W]
  by (cases "shard_weights W") (auto simp: shard_data_bytes_def shard_memory_usage_def)

lemma partition_loop_Ok:
  fixes W :: csr_shard
  defines "n \<equiv> shard_node_count W"
  assumes "wf_shard W" "n \<le> 2 ^ 32" "sz \<le> usize_max" "s \<le> n" "unat i + (n - s) \<le> u32_max"
  shows "\<exists>shs. partition_loop sz n (row_ptrs W) (col_indices W) (shard_weights W) s i = Ok shs \<and>
    shards_cover (unat i) s shs n \<and>
    shards_rows shs = map (shard_row W) [s..<n] \<and>
    concat (map (\<lambda>sh. map (shard_row_weights sh) [0..<shard_node_count sh]) shs) =
      map (shard_row_weights W) [s..<n] \<and>
    sum_list (map shard_edge_count shs) = length (col_indices W) - unat (row_ptrs W ! s) \<and>
    (\<forall>sh \<in> set shs. set (col_indices sh) \<subseteq> set (col_indices W) \<and>
       (shard_weights sh = None \<longleftrightarrow> shard_weights W = None) \<and>
       (shard_data_bytes sh \<le> sz \<or> shard_node_count sh = 1))"
  using assms(5,6)
proof (induction "n - s" arbitrary: s i rule: less_induct)
  case less
  show ?case
  proof (cases "s < n")
    case False
    with less.prems have "s = n" by simp
    then show ?thesis
      using rows_last [OF assms(2)]
      by (intro exI [of _ "[]"]) (subst partition_loop.simps, simp add: shards_rows_def n_def)
  next
    case True
    let ?bpe = "if shard_weights W \<noteq> None then 8 else 4 :: nat"
    let ?target = "target_nodes_per_shard sz n (length (col_indices W)) ?bpe"
    let ?b = "s + ?target"
    let ?mem = "\<lambda>e. (e - s + 1) * 4 + (unat (row_ptrs W ! e) - unat (row_ptrs W ! s)) * ?bpe"
    have t: "?target \<le> 2 ^ 62" using True assms(3,4) by (intro target_nodes_le) auto
    then have b: "add_usize s ?target = (Ok ?b :: usize result)"
      using True assms(3) by (simp add: add_usize_def usize_max_def)
    have e0: "s < min ?b n" "min ?b n \<le> n" using True target_nodes_pos by auto
    obtain e where e: "shrink_shard sz s (row_ptrs W) ?bpe (min ?b n) (?mem (min ?b n)) = Ok e"
      "s < e" "e \<le> min ?b n" "e = s + 1 \<or> ?mem e \<le> sz"
      using shrink_shard_Ok [OF assms(2) e0(1)] e0(2) unfolding n_def by blast
    then have en: "e \<le> n" by simp
    let ?sh = "part_shard W i s e"
    have i: "checked_add i 1 = Some (i + 1)" and ui: "unat (i + 1) = Suc (unat i)"
      using less.prems True
      by (auto simp: checked_add_def u32_max_def unat_add_fits)
    have "n - e < n - s" "unat (i + 1) + (n - e) \<le> u32_max"
      using less.prems True en e(2) ui by auto
    from less.hyps [OF this(1) en this(2)] obtain shs where shs:
      "partition_loop sz n (row_ptrs W) (col_indices W) (shard_weights W) e (i + 1) = Ok shs"
      "shards_cover (unat (i + 1)) e shs n" "shards_rows shs = map (shard_row W) [e..<n]"
      "concat (map (\<lambda>sh. map (shard_row_weights sh) [0..<shard_node_count sh]) shs) =
        map (shard_row_weights W) [e..<n]"
      "sum_list (map shard_edge_count shs) = length (col_indices W) - unat (row_ptrs W ! e)"
      "\<forall>sh \<in> set shs. set (col_indices sh) \<subseteq> set (col_indices W) \<and>
         (shard_weights sh = None \<longleftrightarrow> shard_weights W = None) \<and>
         (shard_data_bytes sh \<le> sz \<or> shard_node_count sh = 1)"
      by blast
    have run: "partition_loop sz n (row_ptrs W) (col_indices W) (shard_weights W) s i =
        Ok (?sh # shs)"
      using True b e(1,2) e0 en i shs(1) assms(2)
        calculate_shard_memory_Ok [of W s "min ?b n" ?bpe] extract_shard_Ok [of W s e i]
      by (subst partition_loop.simps) (simp add: n_def Let_def)
    have rows: "map (shard_row ?sh) [0..<e - s] = map (shard_row W) [s..<e]"
      and wrows: "map (shard_row_weights ?sh) [0..<e - s] = map (shard_row_weights W) [s..<e]"
      using part_shard_row [OF assms(2) e(2)] en n_def
      by (auto intro!: nth_equalityI)
    have split: "[s..<n] = [s..<e] @ [e..<n]" using e(2) en upt_add_eq_append [of s e "n - e"] by simp
    have sub: "set (part W s e (col_indices W)) \<subseteq> set (col_indices W)"
      by (auto simp: part_def dest: in_set_takeD in_set_dropD)
    have edges: "shard_edge_count ?sh = unat (row_ptrs W ! e) - unat (row_ptrs W ! s)"
      "unat (row_ptrs W ! s) \<le> unat (row_ptrs W ! e)"
      "unat (row_ptrs W ! e) \<le> length (col_indices W)"
      using assms(2) e(2) en rows_mono [of W s e] rows_bound [of W e] n_def
      by (auto simp: shard_edge_count_def length_part)
    have bytes: "shard_data_bytes ?sh \<le> sz \<or> shard_node_count ?sh = 1"
      using e(2,4) en shard_data_bytes_part [OF assms(2) e(2)] n_def by auto
    have "shards_cover (unat i) s (?sh # shs) n"
      using shs(2) ui e(2) en assms(2) by (simp add: wf_part_shard n_def)
    moreover have "shards_rows (?sh # shs) = map (shard_row W) [s..<n]"
      using shs(3) rows split by (simp add: shards_rows_def)
    moreover have "concat (map (\<lambda>sh. map (shard_row_weights sh) [0..<shard_node_count sh])
        (?sh # shs)) = map (shard_row_weights W) [s..<n]"
      using shs(4) wrows split by simp
    moreover have "sum_list (map shard_edge_count (?sh # shs)) =
        length (col_indices W) - unat (row_ptrs W ! s)"
      using shs(5) edges by simp
    ultimately show ?thesis
      using run shs(6) sub bytes by (intro exI [of _ "?sh # shs"]) simp
  qed
qed

section \<open>The whole build\<close>

lemma validate_edge_ids_iff:
  "validate_edge_ids es = Ok () \<longleftrightarrow>
   (\<forall>e \<in> set es. unat (fst e) \<le> u32_max \<and> unat (snd e) \<le> u32_max)"
  by (induction es rule: validate_edge_ids.induct) auto

lemma validate_edge_ids_total: "validate_edge_ids es \<noteq> Panic"
  by (induction es rule: validate_edge_ids.induct) auto

lemma fold_max_eq: "fold max xs (y :: 'b::linorder) = Max (set (y # xs))"
  by (simp only: Max.set_eq_fold)

lemma concat_pairs: "set (concat (map (\<lambda>(src, dst). [src, dst]) es)) = fst ` set es \<union> snd ` set es"
  by (force simp: image_iff)

lemma max_node_id_ge:
  assumes "e \<in> set es"
  shows "fst e \<le> max_node_id es \<and> snd e \<le> max_node_id es"
proof (cases "concat (map (\<lambda>(src, dst). [src, dst]) es)")
  case Nil
  then have "set es = {}" using concat_pairs [of es] by simp
  with assms show ?thesis by simp
next
  case (Cons x xs)
  have "fst e \<in> set (x # xs)" "snd e \<in> set (x # xs)"
    using assms concat_pairs [of es] Cons by auto
  then show ?thesis
    by (simp add: max_node_id_def Cons fold_max_eq del: set_simps Max_insert)
qed

lemma max_node_id_in:
  assumes "es \<noteq> []"
  shows "max_node_id es \<in> fst ` set es \<union> snd ` set es"
proof (cases "concat (map (\<lambda>(src, dst). [src, dst]) es)")
  case Nil
  then have "set es = {}" using concat_pairs [of es] by simp
  with assms show ?thesis by simp
next
  case (Cons x xs)
  have "Max (set (x # xs)) \<in> set (x # xs)" by (intro Max_in) auto
  then show ?thesis using concat_pairs [of es] Cons
    by (simp only: max_node_id_def fold_max_eq list.case)
qed

text \<open>What the builder builds from: the edges, with their weights when it has them.\<close>

definition built_edges :: "csr_builder \<Rightarrow> ((u64 \<times> u64) \<times> f32 option) list" where
  "built_edges b =
     (if cfg_include_weights (config b)
      then map (\<lambda>(e, w). (e, Some w)) (zip (b_edges b) (b_weights b))
      else map (\<lambda>e. (e, None)) (b_edges b))"

text \<open>Sorting keeps, for every source, its edges and weights in order.\<close>

lemma sort_edges_props:
  "config (sort_edges b) = config b" "sorted (map fst (b_edges (sort_edges b)))"
    "length (b_edges (sort_edges b)) = length (built_edges b)"
    "set (b_edges (sort_edges b)) = fst ` set (built_edges b)"
    "cfg_include_weights (config b) \<Longrightarrow>
       length (b_weights (sort_edges b)) = length (b_edges (sort_edges b))"
    "filter (\<lambda>e. fst (fst e) = v) (built_edges (sort_edges b)) =
       filter (\<lambda>e. fst (fst e) = v) (built_edges b)"
proof -
  show "config (sort_edges b) = config b" by (simp add: sort_edges_def Let_def)
  let ?z = "zip (b_edges b) (b_weights b)"
  let ?s = "sort_key (\<lambda>((src, _), _). src) ?z"
  have key: "(\<lambda>((src, _), _). src) = (\<lambda>e :: (u64 \<times> u64) \<times> f32. fst (fst e))"
    by (auto simp: fun_eq_iff)
  have id: "map (\<lambda>((s, d), _). (s, d)) ?s = map fst ?s" by (auto intro: map_cong)
  have e: "b_edges (sort_edges b) =
      (if cfg_include_weights (config b) then map fst ?s else sort_key fst (b_edges b))"
    using id by (simp add: sort_edges_def Let_def)
  show "sorted (map fst (b_edges (sort_edges b)))"
    using sorted_sort_key [of "\<lambda>e. fst (fst e)" ?z] sorted_sort_key [of fst "b_edges b"]
    by (simp add: e key comp_def)
  show "length (b_edges (sort_edges b)) = length (built_edges b)"
    by (simp add: sort_edges_def Let_def built_edges_def)
  show "set (b_edges (sort_edges b)) = fst ` set (built_edges b)"
    by (force simp: sort_edges_def Let_def built_edges_def id image_iff)
  show "cfg_include_weights (config b) \<Longrightarrow>
      length (b_weights (sort_edges b)) = length (b_edges (sort_edges b))"
    by (simp add: sort_edges_def Let_def)
  have "filter (\<lambda>e. fst (fst e) = v) (map (\<lambda>(e, w). (e, Some w)) ?s) =
      filter (\<lambda>e. fst (fst e) = v) (map (\<lambda>(e, w). (e, Some w)) ?z)"
    using sort_key_stable [of "\<lambda>e. fst (fst e)" v ?z]
    by (simp add: filter_map key comp_def case_prod_beta)
  moreover have "zip (map fst ?s) (map snd ?s) = ?s" by (rule zip_map_fst_snd)
  moreover have "filter (\<lambda>e. fst (fst e) = v) (map (\<lambda>e. (e, None :: f32 option)) (sort_key fst (b_edges b))) =
      filter (\<lambda>e. fst (fst e) = v) (map (\<lambda>e. (e, None)) (b_edges b))"
    using sort_key_stable [of fst v "b_edges b"] by (simp add: filter_map comp_def)
  ultimately show "filter (\<lambda>e. fst (fst e) = v) (built_edges (sort_edges b)) =
       filter (\<lambda>e. fst (fst e) = v) (built_edges b)"
    by (simp add: built_edges_def sort_edges_def Let_def id)
qed

definition base_row_weights :: "('m, 's) csr_graph \<Rightarrow> node_id \<Rightarrow> f32 list option" where
  "base_row_weights g n =
     (let v = unat (as_u64 n)
      in if v < node_count g
         then concat (map (\<lambda>sh. map (shard_row_weights sh) [0..<shard_node_count sh]) (shards g)) ! v
         else None)"

definition edges_from :: "csr_builder \<Rightarrow> u64 \<Rightarrow> ((u64 \<times> u64) \<times> f32 option) list" where
  "edges_from b v = filter (\<lambda>e. fst (fst e) = v) (built_edges b)"

definition built_node_count :: "csr_builder \<Rightarrow> nat" where
  "built_node_count b =
     (if b_edges b = [] then 0
      else Suc (unat (max_node_id (b_edges (sort_edges b)))))"

lemma slice_row_starts:
  assumes sorted: "sorted (map fst es)" and len: "length es \<le> u32_max" and v: "v < n"
    and xs: "length xs = length es"
  shows "slice_row (map (\<lambda>v. of_nat (starts es v)) [0..<Suc n]) xs v =
    map snd (filter (\<lambda>p. unat (fst (fst p)) = v) (zip es xs))"
proof -
  let ?z = "zip es xs"
  have s: "length (filter (\<lambda>p. unat (fst (fst p)) < v) ?z) = starts es v"
    and o: "length (filter (\<lambda>p. unat (fst (fst p)) = v) ?z) = outs es v"
  proof -
    have "es = map fst ?z" using xs by simp
    then show "length (filter (\<lambda>p. unat (fst (fst p)) < v) ?z) = starts es v"
      and "length (filter (\<lambda>p. unat (fst (fst p)) = v) ?z) = outs es v"
      unfolding starts_def outs_def
      by (metis (mono_tags, lifting) comp_apply filter_cong filter_map length_map)+
  qed
  have "sorted (map (\<lambda>p. unat (fst (fst p))) ?z)"
    using sorted xs by (auto simp: sorted_iff_nth_mono word_le_nat_alt)
  from sorted_key_slice [OF this, of v]
  have "take (outs es v) (drop (starts es v) ?z) =
      filter (\<lambda>p. unat (fst (fst p)) = v) ?z"
    by (simp add: s o)
  then have "take (outs es v) (drop (starts es v) xs) =
      map snd (filter (\<lambda>p. unat (fst (fst p)) = v) ?z)"
    using xs by (metis drop_map map_snd_zip take_map)
  moreover have "unat (of_nat (starts es (Suc v)) :: u32) = starts es (Suc v)"
    "unat (of_nat (starts es v) :: u32) = starts es v"
    using len starts_le [of es] by (auto intro!: unat_of_nat_u32 intro: order_trans)
  ultimately show ?thesis
    using v by (simp add: slice_row_def starts_Suc nth_append del: upt_Suc)
qed

lemma wf_whole_shard:
  assumes len: "length es \<le> u32_max" and src: "\<And>e. e \<in> set es \<Longrightarrow> unat (fst e) < n"
    and cols: "length cols = length es"
    and ws: "case ws of None \<Rightarrow> True | Some w \<Rightarrow> length w = length es"
  shows "wf_shard (whole_shard n (map (\<lambda>v. of_nat (starts es v)) [0..<Suc n]) cols ws)"
proof -
  have u: "unat (of_nat (starts es v) :: u32) = starts es v" for v
    using len starts_le [of es v] by (intro unat_of_nat_u32) simp
  have "sorted (map (starts es) [0..<Suc n])"
    by (auto simp: sorted_iff_nth_mono intro: starts_mono simp del: upt_Suc)
  moreover have "starts es n = length es" using src by (rule starts_all)
  ultimately show ?thesis
    using cols ws u [of n]
    by (auto simp: wf_shard_def whole_shard_def shard_node_count_def u comp_def
        split: option.splits simp del: upt_Suc)
qed

lemma unat_max_node_id_less:
  assumes "\<And>e. e \<in> set es \<Longrightarrow> unat (fst e) < k \<and> unat (snd e) < k" "0 < k"
  shows "unat (max_node_id es) < k"
proof (cases "es = []")
  case True
  then show ?thesis using assms(2) by (simp add: max_node_id_def)
next
  case False
  then show ?thesis using max_node_id_in [OF False] assms(1) by auto
qed

lemma set_built_edges: "fst ` set (built_edges b) \<subseteq> set (b_edges b)"
  by (auto simp: built_edges_def dest: set_zip_leftD)

text \<open>
  A builder is acceptable when its identifiers leave room for a node count, its edges for
  a row pointer, and its shard size is a machine word.
\<close>

definition buildable :: "csr_builder \<Rightarrow> bool" where
  "buildable b \<longleftrightarrow>
     cfg_shard_size (config b) \<le> usize_max \<and> length (built_edges b) \<le> u32_max \<and>
     (\<forall>e \<in> set (b_edges b). unat (fst e) < u32_max \<and> unat (snd e) < u32_max)"

lemma unat_ucast_le: "unat (ucast (x :: u64) :: u32) \<le> unat x"
  by (simp add: unsigned_ucast_eq take_bit_nat_less_eq_self)

lemma map_filter_fst: "map (\<lambda>p. g (fst p)) (filter (\<lambda>p. P (fst p)) xs) = map g (filter P (map fst xs))"
  by (simp add: filter_map comp_def)

lemma map_fst_built_edges:
  "(cfg_include_weights (config b) \<Longrightarrow> length (b_weights b) = length (b_edges b)) \<Longrightarrow>
   map fst (built_edges b) = b_edges b"
  by (auto simp: built_edges_def comp_def case_prod_beta)

lemma build_Ok:
  assumes "buildable b" "dash_laws D" "b_edges b \<noteq> []"
  shows "\<exists>g. build D b = Ok g \<and> wf_base (shards g) (node_count g) \<and>
    delta g = delta_new D \<and> node_count g = built_node_count b \<and>
    edge_count g = length (built_edges b) \<and>
    sum_list (map shard_edge_count (shards g)) = length (built_edges b) \<and>
    (\<forall>v. base_row g (NodeId v) = map (\<lambda>e. ucast (snd (fst e))) (edges_from b v)) \<and>
    (\<forall>v. unat v < node_count g \<longrightarrow> base_row_weights g (NodeId v) =
       (if cfg_include_weights (config b) then Some (map (the \<circ> snd) (edges_from b v)) else None)) \<and>
    (\<forall>sh \<in> set (shards g). (shard_weights sh = None \<longleftrightarrow> \<not> cfg_include_weights (config b)) \<and>
       (shard_data_bytes sh \<le> cfg_shard_size (config b) \<or> shard_node_count sh = 1))"
proof -
  let ?b = "sort_edges b"
  let ?es = "b_edges ?b"
  let ?n = "built_node_count b"
  note so = sort_edges_props [where b = b]
  let ?incl = "cfg_include_weights (config b)"
  let ?ws = "if ?incl then Some (b_weights ?b) else None"
  let ?rows = "map (\<lambda>v. of_nat (starts ?es v) :: u32) [0..<Suc ?n]"
  let ?cols = "map (\<lambda>e. ucast (snd e) :: u32) ?es"
  let ?W = "whole_shard ?n ?rows ?cols ?ws"
  have ids: "unat (fst e) < u32_max \<and> unat (snd e) < u32_max" if "e \<in> set ?es" for e
    using that assms(1) set_built_edges [of b] by (auto simp: so(4) buildable_def)
  have m: "unat (max_node_id ?es) < u32_max"
    using ids by (rule unat_max_node_id_less) (simp_all add: u32_max_def)
  have n: "?n = Suc (unat (max_node_id ?es))" using assms(3) by (simp add: built_node_count_def)
  have cnt: "add_word (max_node_id ?es) 1 = (Ok (max_node_id ?es + 1) :: u64 result)"
    and un: "unat (max_node_id ?es + 1) = ?n"
    using m n by (simp_all add: add_word_def u32_max_def unat_add_fits)
  have src: "unat (fst e) < ?n" and dst: "unat (snd e) < ?n" if "e \<in> set ?es" for e
    using max_node_id_ge [OF that] n by (auto simp: word_le_nat_alt less_Suc_eq_le)
  have len: "length ?es \<le> u32_max" using assms(1) so(3) by (simp add: buildable_def)
  have arrays: "build_csr_arrays ?b ?n = Ok (?rows, ?cols, ?ws)"
    using build_csr_arrays_Ok [of ?b ?n] so(1,2,5) len src ids by (force simp: less_imp_le)
  have W: "wf_shard ?W"
    by (rule wf_whole_shard) (use len src so(5) in auto)
  have Wn: "shard_node_count ?W = ?n" "row_ptrs ?W = ?rows" "col_indices ?W = ?cols"
    "shard_weights ?W = ?ws"
    by (simp_all add: whole_shard_def shard_node_count_def)
  obtain shs where shs:
    "partition_loop (cfg_shard_size (config b)) ?n ?rows ?cols ?ws 0 0 = Ok shs"
    "shards_cover 0 0 shs ?n" "shards_rows shs = map (shard_row ?W) [0..<?n]"
    "concat (map (\<lambda>sh. map (shard_row_weights sh) [0..<shard_node_count sh]) shs) =
       map (shard_row_weights ?W) [0..<?n]"
    "sum_list (map shard_edge_count shs) = length ?cols - unat (?rows ! 0)"
    "\<forall>sh \<in> set shs. set (col_indices sh) \<subseteq> set ?cols \<and>
       (shard_weights sh = None \<longleftrightarrow> ?ws = None) \<and>
       (shard_data_bytes sh \<le> cfg_shard_size (config b) \<or> shard_node_count sh = 1)"
    using partition_loop_Ok [OF W, of "cfg_shard_size (config b)" 0 0] m n assms(1)
    unfolding Wn by (auto simp: buildable_def u32_max_def simp del: upt_Suc)
  let ?g = "\<lparr>shards = shs, node_count = ?n, edge_count = length ?es, delta = delta_new D\<rparr>"
  have "build D b = Ok ?g"
    using assms(1,3) len shs(1) cnt un arrays so(1) n
    by (simp add: build_def validate_edge_ids_iff [THEN iffD2] buildable_def Let_def
        partition_into_shards_def less_imp_le del: upt_Suc)
  moreover have "wf_base shs ?n"
  proof -
    have "unat c < ?n" if "c \<in> set ?cols" for c
      using that dst unat_ucast_le by (auto intro: le_less_trans)
    then have "\<forall>sh \<in> set shs. \<forall>c \<in> set (col_indices sh). unat c < ?n" using shs(6) by blast
    then show ?thesis using shs(2) m n by (simp add: wf_base_def u32_max_def)
  qed
  moreover have "base_row ?g (NodeId v) = map (\<lambda>e. ucast (snd (fst e))) (edges_from b v)" for v
  proof -
    have e: "map (\<lambda>e. ucast (snd (fst e)) :: u32) (edges_from b v) =
        map (\<lambda>e. ucast (snd e)) (filter (\<lambda>e. fst e = v) ?es)"
      using map_fst_built_edges [of ?b] so(1,5)
        map_filter_fst [of "\<lambda>e. ucast (snd e) :: u32" "\<lambda>e. fst e = v" "built_edges ?b"]
      by (simp add: edges_from_def flip: so(6))
    show ?thesis
    proof (cases "unat v < ?n")
      case True
      have "slice_row ?rows ?cols (unat v) =
          map (\<lambda>e. ucast (snd e)) (filter (\<lambda>e. fst e = v) ?es)"
        using slice_row_starts [OF so(2) len True, of ?cols]
        by (simp add: zip_map2 zip_same_conv_map filter_map comp_def del: upt_Suc flip: word_unat_eq_iff)
      then show ?thesis
        using True e shs(3) by (simp add: base_row_def shard_row_slice Wn del: upt_Suc)
    next
      case False
      then have "filter (\<lambda>e. fst e = v) ?es = []" using src by (auto simp: filter_empty_conv)
      with e False show ?thesis by (simp add: base_row_def)
    qed
  qed
  moreover have "base_row_weights ?g (NodeId v) =
      (if ?incl then Some (map (the \<circ> snd) (edges_from b v)) else None)" if v: "unat v < ?n" for v
  proof (cases ?incl)
    case True
    then have "built_edges ?b = map (\<lambda>(e, w). (e, Some w)) (zip ?es (b_weights ?b))"
      using so(1) by (simp add: built_edges_def)
    then have "map (the \<circ> snd) (edges_from b v) =
        map snd (filter (\<lambda>p. unat (fst (fst p)) = unat v) (zip ?es (b_weights ?b)))"
      by (simp add: edges_from_def filter_map comp_def case_prod_beta flip: so(6) word_unat_eq_iff)
    then show ?thesis
      using True v shs(4) slice_row_starts [OF so(2) len v so(5) [OF True]]
      by (simp add: base_row_weights_def shard_row_weights_def del: upt_Suc)
  next
    case False
    then show ?thesis
      using v shs(4) by (simp add: base_row_weights_def shard_row_weights_def del: upt_Suc)
  qed
  ultimately show ?thesis
    using shs(5,6) so(3) by (intro exI [of _ ?g]) (auto simp del: upt_Suc)
qed

section \<open>Properties\<close>

lemma built_edges_Nil_iff: "b_edges b = [] \<Longrightarrow> built_edges b = []"
  by (simp add: built_edges_def)

lemma base_row_empty [simp]: "base_row (graph_empty D) v = []"
  by (simp add: base_row_def graph_empty_def Let_def)

text \<open>The empty builder and the non-empty one together.\<close>

lemma build_spec:
  assumes "buildable b" "dash_laws D"
  obtains g where "build D b = Ok g" "wf_graph D g" "delta g = delta_new D"
    "node_count g = built_node_count b" "edge_count g = length (built_edges b)"
    "\<And>v. base_row g (NodeId v) = map (\<lambda>e. ucast (snd (fst e))) (edges_from b v)"
    "\<And>v. unat v < node_count g \<Longrightarrow> base_row_weights g (NodeId v) =
       (if cfg_include_weights (config b) then Some (map (the \<circ> snd) (edges_from b v)) else None)"
    "\<And>sh. sh \<in> set (shards g) \<Longrightarrow>
       (shard_weights sh = None \<longleftrightarrow> \<not> cfg_include_weights (config b)) \<and>
       (shard_data_bytes sh \<le> cfg_shard_size (config b) \<or> shard_node_count sh = 1)"
proof (cases "b_edges b = []")
  case True
  have "wf_graph D (graph_empty D)"
    using assms(2) by (simp add: wf_graph_def graph_empty_def wf_base_def)
  moreover have "build D b = Ok (graph_empty D)" using True by (simp add: build_def)
  ultimately show ?thesis
    using True by (intro that [of "graph_empty D"])
      (simp_all add: built_node_count_def built_edges_Nil_iff edges_from_def,
       simp_all add: graph_empty_def)
next
  case False
  from build_Ok [OF assms False] obtain g where g: "build D b = Ok g"
    "wf_base (shards g) (node_count g)" "delta g = delta_new D"
    "node_count g = built_node_count b" "edge_count g = length (built_edges b)"
    "sum_list (map shard_edge_count (shards g)) = length (built_edges b)"
    "\<forall>v. base_row g (NodeId v) = map (\<lambda>e. ucast (snd (fst e))) (edges_from b v)"
    "\<forall>v. unat v < node_count g \<longrightarrow> base_row_weights g (NodeId v) =
       (if cfg_include_weights (config b) then Some (map (the \<circ> snd) (edges_from b v)) else None)"
    "\<forall>sh \<in> set (shards g). (shard_weights sh = None \<longleftrightarrow> \<not> cfg_include_weights (config b)) \<and>
       (shard_data_bytes sh \<le> cfg_shard_size (config b) \<or> shard_node_count sh = 1)"
    by blast
  then have "wf_graph D g" using assms(2) by (simp add: wf_graph_def)
  with g show ?thesis by (intro that [of g]) simp_all
qed

lemma edges_from_bound:
  "buildable b \<Longrightarrow> e \<in> set (edges_from b v) \<Longrightarrow> unat (snd (fst e)) < u32_max"
  using set_built_edges [of b] by (force simp: edges_from_def buildable_def)

lemma node_of_u32_ucast: "unat x \<le> u32_max \<Longrightarrow> node_of_u32 (ucast x) = NodeId x"
  using u32_of_u64_eq_Some [of x "ucast x"] by (simp add: node_of_u32_def u32_of_u64_def)

lemma build_neighbor_list:
  assumes "buildable b" "dash_laws D" "build D b = Ok g"
  shows "neighbor_list D g (NodeId v) = map (\<lambda>e. NodeId (snd (fst e))) (edges_from b v)"
proof -
  obtain g' where g': "build D b = Ok g'" "delta g' = delta_new D"
    "\<And>v. base_row g' (NodeId v) = map (\<lambda>e. ucast (snd (fst e))) (edges_from b v)"
    using build_spec [OF assms(1,2)] by metis
  with assms(3) have [simp]: "g' = g" by simp
  show ?thesis
    using g'(2,3) edges_from_bound [OF assms(1)] assms(2)
    by (auto simp: neighbor_list_no_delta node_of_u32_ucast less_imp_le intro!: map_cong)
qed

text \<open>
  C8: a builder whose identifiers are below the 32-bit maximum, whose edges fit a row pointer and
  which, if it is weighted, has one weight for every edge (as \<open>with_weighted_edges\<close> alone leaves it)
  always builds: the result is a well-formed graph in which every node's neighbours are the
  targets of its edges, with their multiplicity and in the order they were added; beside them a
  weighted builder's graph stores the weights of these edges, entry by entry; the edge count is
  the number of edges and every endpoint of an edge is in the graph.
\<close>

theorem build_preserves_edges:
  assumes "buildable b" "dash_laws D"
    and "cfg_include_weights (config b) \<Longrightarrow> length (b_weights b) = length (b_edges b)"
  shows "\<exists>g. build D b = Ok g \<and> wf_graph D g \<and> delta_is_empty D (delta g) \<and>
    edge_count g = length (b_edges b) \<and>
    neighbors D g (NodeId v) =
      Ok (map (\<lambda>e. NodeId (snd e)) (filter (\<lambda>e. fst e = v) (b_edges b))) \<and>
    (cfg_include_weights (config b) \<and> v \<in> fst ` set (b_edges b) \<longrightarrow>
      (\<exists>ws. base_row_weights g (NodeId v) = Some ws \<and>
         zip (base_row g (NodeId v)) ws = map (\<lambda>(e, w). (ucast (snd e), w))
           (filter (\<lambda>(e, w). fst e = v) (zip (b_edges b) (b_weights b))))) \<and>
    (\<forall>e \<in> set (b_edges b). graph_contains g (NodeId (fst e)) \<and> graph_contains g (NodeId (snd e)))"
proof -
  obtain g where g: "build D b = Ok g" "wf_graph D g" "delta g = delta_new D"
    "node_count g = built_node_count b" "edge_count g = length (built_edges b)"
    "\<And>v. base_row g (NodeId v) = map (\<lambda>e. ucast (snd (fst e))) (edges_from b v)"
    "\<And>v. unat v < node_count g \<Longrightarrow> base_row_weights g (NodeId v) =
       (if cfg_include_weights (config b) then Some (map (the \<circ> snd) (edges_from b v)) else None)"
    using build_spec [OF assms(1,2)] by metis
  note built = map_fst_built_edges [OF assms(3)]
  have "neighbors D g (NodeId v) = Ok (neighbor_list D g (NodeId v))"
    using g(2) by (intro neighbors_Ok) (rule wf_graphD)
  also have "neighbor_list D g (NodeId v) = map (\<lambda>e. NodeId (snd (fst e))) (edges_from b v)"
    using assms(1,2) g(1) by (rule build_neighbor_list)
  also have "\<dots> = map (\<lambda>e. NodeId (snd e)) (filter (\<lambda>e. fst e = v) (b_edges b))"
    using map_filter_fst [of "\<lambda>e. NodeId (snd e)" "\<lambda>e. fst e = v" "built_edges b"]
    by (simp add: edges_from_def built)
  finally have neighbors: "neighbors D g (NodeId v) =
      Ok (map (\<lambda>e. NodeId (snd e)) (filter (\<lambda>e. fst e = v) (b_edges b)))" .
  have contains: "graph_contains g (NodeId (fst e)) \<and> graph_contains g (NodeId (snd e))"
    if e: "e \<in> set (b_edges b)" for e
  proof -
    have "e \<in> set (b_edges (sort_edges b))"
      using e built by (simp add: sort_edges_props(4) flip: list.set_map)
    from max_node_id_ge [OF this] e show ?thesis
      by (auto simp: graph_contains_iff g(4) built_node_count_def word_le_nat_alt less_Suc_eq_le)
  qed
  have weights: "base_row_weights g (NodeId v) = Some (map (the \<circ> snd) (edges_from b v))"
    "zip (base_row g (NodeId v)) (map (the \<circ> snd) (edges_from b v)) = map (\<lambda>(e, w). (ucast (snd e), w))
       (filter (\<lambda>(e, w). fst e = v) (zip (b_edges b) (b_weights b)))"
    if "cfg_include_weights (config b)" "v \<in> fst ` set (b_edges b)"
  proof -
    have "unat v < node_count g" using that(2) contains by (auto simp: graph_contains_iff)
    from g(7) [OF this] that(1)
    show "base_row_weights g (NodeId v) = Some (map (the \<circ> snd) (edges_from b v))" by simp
    show "zip (base_row g (NodeId v)) (map (the \<circ> snd) (edges_from b v)) = map (\<lambda>(e, w). (ucast (snd e), w))
       (filter (\<lambda>(e, w). fst e = v) (zip (b_edges b) (b_weights b)))"
      using that(1) by (simp add: g(6) edges_from_def built_edges_def filter_map comp_def case_prod_unfold
          zip_map1 zip_map2 zip_same_conv_map)
  qed
  have "edge_count g = length (b_edges b)" by (simp add: g(5) flip: built)
  then show ?thesis
    using g(1-3) assms(2) neighbors weights contains
    by (intro exI [of _ g]) (auto simp: delta_is_empty_iff)
qed

definition example_builder :: csr_builder where
  "example_builder = with_edges [(1, 2), (0, 2), (0, 1), (0, 2)] builder_new"

lemma buildable_example: "buildable example_builder"
  by (simp add: buildable_def example_builder_def with_edges_def builder_new_def built_edges_def
      csr_build_config_default_def default_shard_size_def usize_max_def u32_max_def)

theorem build_preserves_edges_witness:
  "\<exists>g ws. build list_dash (with_weighted_edges [(1, 2, 7), (0, 1, 8), (1, 0, 9)] builder_new) = Ok g \<and>
     neighbors list_dash g (NodeId 1) = Ok [NodeId 2, NodeId 0] \<and> base_row_weights g (NodeId 1) = Some ws \<and>
     zip (base_row g (NodeId 1)) ws = [(2, 7), (0, 9)]"
proof -
  let ?b = "with_weighted_edges [(1, 2, 7), (0, 1, 8), (1, 0, 9)] builder_new"
  have "buildable ?b"
    by (simp add: buildable_def with_weighted_edges_def builder_new_def built_edges_def
        csr_build_config_default_def default_shard_size_def usize_max_def u32_max_def)
  from build_preserves_edges [OF this list_dash_laws, of 1] show ?thesis
    by (auto simp: with_weighted_edges_def builder_new_def csr_build_config_default_def)
qed

text \<open>
  the configured shard size is respected: every shard of a built graph takes at most
  that many bytes of row pointers, columns and weights, unless it holds a single node.
\<close>

theorem build_shards_bounded:
  assumes "buildable b" "dash_laws D" "build D b = Ok g" "sh \<in> set (shards g)"
  shows "shard_memory_usage 0 sh \<le> cfg_shard_size (config b) \<or> shard_node_count sh = 1"
  using build_spec [OF assms(1,2)] assms(3,4) unfolding shard_data_bytes_def
  by (metis res.inject(1))

lemma shards_nonempty: "wf_graph D g \<Longrightarrow> 0 < node_count g \<Longrightarrow> shards g \<noteq> []"
  by (auto simp: wf_graph_def wf_base_def)

theorem build_shards_bounded_witness:
  "\<exists>g. build list_dash example_builder = Ok g \<and> shards g \<noteq> [] \<and>
     (shard_memory_usage 0 (hd (shards g)) \<le> 64 * 1024 * 1024 \<or>
      shard_node_count (hd (shards g)) = 1)"
proof -
  obtain g where g: "build list_dash example_builder = Ok g" "wf_graph list_dash g"
    "node_count g = built_node_count example_builder"
    using build_spec [OF buildable_example list_dash_laws] by metis
  have "b_edges example_builder \<noteq> []"
    by (simp add: example_builder_def with_edges_def)
  with g(3) have "0 < node_count g" by (simp add: built_node_count_def)
  with g(2) have ne: "shards g \<noteq> []" by (rule shards_nonempty)
  then have "hd (shards g) \<in> set (shards g)" by simp
  from build_shards_bounded [OF buildable_example list_dash_laws g(1) this] g(1) ne
  show ?thesis
    by (auto simp: example_builder_def with_edges_def builder_new_def
        csr_build_config_default_def default_shard_size_def)
qed

lemma validate_edge_ids_first:
  assumes "\<forall>e \<in> set pre. unat (fst e) \<le> u32_max \<and> unat (snd e) \<le> u32_max"
    and "u32_max < unat s \<or> u32_max < unat d"
  shows "validate_edge_ids (pre @ (s, d) # suf) = Err (InvalidEdge (NodeId s) (NodeId d))"
  using assms(1)
proof (induction pre)
  case (Cons e pre)
  then show ?case by (cases e) auto
qed (use assms(2) in \<open>simp add: node_new_def\<close>)

text \<open>
  C30: a build is rejected, never wrong: the first edge with an endpoint above 32 bits is
  reported as an invalid edge, and more valid edges than a row pointer can count are
  reported as an unsupported graph size.
\<close>

theorem build_rejects:
  "(b_edges b = pre @ (s, d) # suf \<and>
    (\<forall>e \<in> set pre. unat (fst e) \<le> u32_max \<and> unat (snd e) \<le> u32_max) \<and>
    (u32_max < unat s \<or> u32_max < unat d) \<longrightarrow>
      build D b = Err (InvalidEdge (NodeId s) (NodeId d))) \<and>
   ((\<forall>e \<in> set (b_edges b). unat (fst e) \<le> u32_max \<and> unat (snd e) \<le> u32_max) \<and>
    u32_max < length (built_edges b) \<longrightarrow>
      (\<exists>reason. build D b = Err (UnsupportedGraphSize reason)))"
proof (intro conjI impI)
  assume "b_edges b = pre @ (s, d) # suf \<and>
    (\<forall>e \<in> set pre. unat (fst e) \<le> u32_max \<and> unat (snd e) \<le> u32_max) \<and>
    (u32_max < unat s \<or> u32_max < unat d)"
  then show "build D b = Err (InvalidEdge (NodeId s) (NodeId d))"
    using validate_edge_ids_first [of pre s d suf] by (simp add: build_def)
next
  assume big: "(\<forall>e \<in> set (b_edges b). unat (fst e) \<le> u32_max \<and> unat (snd e) \<le> u32_max) \<and>
    u32_max < length (built_edges b)"
  let ?es = "b_edges (sort_edges b)"
  have "b_edges b \<noteq> []" using big built_edges_Nil_iff [of b] by auto
  have "unat (fst e) < Suc u32_max \<and> unat (snd e) < Suc u32_max" if "e \<in> set ?es" for e
    using that big set_built_edges [of b] by (auto simp: sort_edges_props(4) less_Suc_eq_le)
  then have "unat (max_node_id ?es) < Suc u32_max" by (rule unat_max_node_id_less) simp_all
  then have "add_word (max_node_id ?es) 1 = (Ok (max_node_id ?es + 1) :: u64 result)"
    by (simp add: add_word_def u32_max_def)
  then show "\<exists>reason. build D b = Err (UnsupportedGraphSize reason)"
    using big \<open>b_edges b \<noteq> []\<close>
    by (simp add: build_def validate_edge_ids_iff [THEN iffD2] Let_def sort_edges_props(3))
qed

theorem build_rejects_witness:
  "build list_dash (with_edges [(1, 2), (2 ^ 32, 0), (2 ^ 40, 7)] builder_new) =
     Err (InvalidEdge (NodeId (2 ^ 32)) (NodeId 0))"
  by (rule build_rejects [THEN conjunct1, THEN mp,
        of _ "[(1, 2)]" "2 ^ 32" 0 "[(2 ^ 40, 7)]" list_dash])
    (simp add: with_edges_def builder_new_def u32_max_def)

lemma with_weighted_edges_eq:
  "with_weighted_edges es b =
     b\<lparr>config := (config b)\<lparr>cfg_include_weights := True\<rparr>,
       b_edges := b_edges b @ map (\<lambda>(s, d, w). (s, d)) es,
       b_weights := b_weights b @ map (\<lambda>(s, d, w). w) es\<rparr>"
proof -
  have "fold (\<lambda>(src, dst, w) b. b\<lparr>b_edges := b_edges b @ [(src, dst)],
             b_weights := b_weights b @ [w]\<rparr>) es b =
      b\<lparr>b_edges := b_edges b @ map (\<lambda>(s, d, w). (s, d)) es,
        b_weights := b_weights b @ map (\<lambda>(s, d, w). w) es\<rparr>" for b :: csr_builder
    by (induction es arbitrary: b) auto
  then show ?thesis by (simp add: with_weighted_edges_def)
qed

text \<open>
  weighted edges keep their weights: the weights stored beside the row of a node are
  the weights of its edges, entry by entry.
\<close>

theorem build_preserves_weights:
  fixes es :: "(u64 \<times> u64 \<times> f32) list"
  defines "b \<equiv> with_weighted_edges es builder_new"
  assumes "dash_laws D" "length es \<le> u32_max"
    and "\<forall>(s, d, w) \<in> set es. unat s < u32_max \<and> unat d < u32_max"
    and "v \<in> fst ` set es"
  shows "\<exists>g ws. build D b = Ok g \<and> base_row_weights g (NodeId v) = Some ws \<and>
    zip (base_row g (NodeId v)) ws =
      map (\<lambda>(s, d, w). (ucast d, w)) (filter (\<lambda>(s, d, w). s = v) es)"
proof -
  let ?es = "map (\<lambda>(s, d, w). (s, d)) es" and ?ws = "map (\<lambda>(s, d, w). w) es"
  have b: "b_edges b = ?es" "b_weights b = ?ws" "cfg_include_weights (config b)"
    "cfg_shard_size (config b) = default_shard_size"
    by (simp_all add: b_def with_weighted_edges_eq builder_new_def csr_build_config_default_def)
  have built: "built_edges b = map (\<lambda>(s, d, w). ((s, d), Some w)) es"
    by (rule nth_equalityI) (simp_all add: built_edges_def b case_prod_beta)
  have ok: "buildable b"
    using assms(3,4) by (auto simp: buildable_def built b default_shard_size_def usize_max_def)
  obtain g where g: "build D b = Ok g" "node_count g = built_node_count b"
    "\<And>v. base_row g (NodeId v) = map (\<lambda>e. ucast (snd (fst e))) (edges_from b v)"
    "\<And>v. unat v < node_count g \<Longrightarrow> base_row_weights g (NodeId v) =
       (if cfg_include_weights (config b) then Some (map (the \<circ> snd) (edges_from b v)) else None)"
    using build_spec [OF ok assms(2)] by metis
  from assms(5) obtain d w where "(v, d, w) \<in> set es" by force
  then have "(v, d) \<in> set (b_edges (sort_edges b))"
    by (force simp: sort_edges_props(4) built)
  then have "unat v < node_count g"
    using max_node_id_ge [of "(v, d)"] assms(5)
    by (auto simp: g(2) built_node_count_def b word_le_nat_alt less_Suc_eq_le)
  from g(4) [OF this] have "base_row_weights g (NodeId v) = Some (map (the \<circ> snd) (edges_from b v))"
    by (simp add: b)
  moreover have "zip (base_row g (NodeId v)) (map (the \<circ> snd) (edges_from b v)) =
      map (\<lambda>(s, d, w). (ucast d, w)) (filter (\<lambda>(s, d, w). s = v) es)"
    by (simp add: g(3) edges_from_def built filter_map comp_def case_prod_unfold zip_map1 zip_map2
        zip_same_conv_map)
  ultimately show ?thesis using g(1) by blast
qed

theorem build_preserves_weights_witness:
  "\<exists>g ws. build list_dash (with_weighted_edges [(1, 2, 7), (0, 1, 8), (1, 0, 9)] builder_new) = Ok g \<and>
    base_row_weights g (NodeId 1) = Some ws \<and>
    zip (base_row g (NodeId 1)) ws = [(2, 7), (0, 9)]"
  using build_preserves_weights [OF list_dash_laws, of "[(1, 2, 7), (0, 1, 8), (1, 0, 9)]" 1]
  by (simp add: u32_max_def)

text \<open>
  plain and weighted edges do not mix: when edges were added without weights first
  and with weights after, the build succeeds but keeps only as many edges as there are
  weights, so every plain edge pushes a weighted edge out.
\<close>

theorem mixed_builder_drops_edges:
  fixes es :: "(u64 \<times> u64) list" and wes :: "(u64 \<times> u64 \<times> f32) list"
  defines "b \<equiv> with_weighted_edges wes (with_edges es builder_new)"
  assumes "dash_laws D" "length wes \<le> u32_max"
    and "\<forall>e \<in> set (b_edges b). unat (fst e) < u32_max \<and> unat (snd e) < u32_max"
  shows "length (b_edges b) = length es + length wes \<and>
    (\<exists>g. build D b = Ok g \<and> edge_count g = length wes)"
proof -
  have b: "b_edges b = es @ map (\<lambda>(s, d, w). (s, d)) wes" "b_weights b = map (\<lambda>(s, d, w). w) wes"
    "cfg_include_weights (config b)" "cfg_shard_size (config b) = default_shard_size"
    by (simp_all add: b_def with_weighted_edges_eq with_edges_def builder_new_def
        csr_build_config_default_def)
  have len: "length (built_edges b) = length wes" by (simp add: built_edges_def b)
  then have "buildable b"
    using assms(3,4) by (simp add: buildable_def b(4) default_shard_size_def usize_max_def)
  then obtain g where "build D b = Ok g" "edge_count g = length (built_edges b)"
    using assms(2) by (rule build_spec)
  with len b(1) show ?thesis by simp
qed

theorem mixed_builder_drops_edges_witness:
  "\<exists>g. build list_dash (with_weighted_edges [(2, 3, 1)] (with_edges [(0, 1)] builder_new)) = Ok g \<and>
     edge_count g = 1"
  using mixed_builder_drops_edges [OF list_dash_laws, of "[(2, 3, 1)]" "[(0, 1)]"]
  by (simp add: with_weighted_edges_eq with_edges_def builder_new_def u32_max_def)

end
