(* ===== verification/Compaction.thy ===== *)
theory Compaction
  imports Builder
begin

text \<open>
  Compaction and transposition (\<open>CsrGraph::compact\<close> and \<open>CsrGraph::transpose\<close> of
  \<open>csr.rs\<close>): both walk the base layer, drop tombstoned edges, add the inserted edges that
  the base does not have, and build a new graph from the result.  \<open>compact\<close> empties the
  delta layer of the graph it is called on before it builds, so it returns both the outcome
  and the graph it leaves behind.
\<close>

section \<open>Operations\<close>

text \<open>
  The loop body over one node of the base layer: \<open>emit\<close> is what the caller pushes for an
  edge and its weight.
\<close>

definition scan_row ::
  "('m, 's) csr_graph \<Rightarrow> edge_key set \<Rightarrow> (node_id \<Rightarrow> node_id \<Rightarrow> f32 \<Rightarrow> 'e) \<Rightarrow> csr_shard \<Rightarrow> usize \<Rightarrow>
   'e list result" where
  "scan_row g dels emit sh local =
     (case shard_to_global g (unat (shard_id sh)) local of
        None \<Rightarrow> Ok []
      | Some from \<Rightarrow>
          map_res (\<lambda>(start, end).
              List.map_filter (\<lambda>idx.
                  case shard_col_index sh idx of None \<Rightarrow> None | Some c \<Rightarrow>
                    (let to = node_of_u32 c
                     in if (from, to) \<in> dels then None
                        else Some (emit from to
                          (case shard_weight sh idx of None \<Rightarrow> f32_one | Some w \<Rightarrow> w))))
                [start..<end])
            (shard_neighbor_range sh local))"

definition scan_base ::
  "('m, 's) csr_graph \<Rightarrow> edge_key set \<Rightarrow> (node_id \<Rightarrow> node_id \<Rightarrow> f32 \<Rightarrow> 'e) \<Rightarrow> 'e list result" where
  "scan_base g dels emit =
     map_res (\<lambda>rows. concat (concat rows))
       (map_list_res (\<lambda>sh. map_list_res (scan_row g dels emit sh) [0..<shard_node_count sh])
         (shards g))"

definition scan_insertions ::
  "('m, 's) csr_graph \<Rightarrow> (node_id \<Rightarrow> node_id \<Rightarrow> f32 \<Rightarrow> 'e) \<Rightarrow> (edge_key \<times> edge_data) list \<Rightarrow>
   'e list result" where
  "scan_insertions g emit ins =
     map_res concat (map_list_res (\<lambda>((from, to), data).
         map_res (\<lambda>dup. if dup then []
             else [emit from to (case weight data of None \<Rightarrow> f32_one | Some w \<Rightarrow> f32_of_f64 w)])
           (base_contains g from to)) ins)"

definition emit_edge :: "node_id \<Rightarrow> node_id \<Rightarrow> f32 \<Rightarrow> (u64 \<times> u64) \<times> f32" where
  "emit_edge from to w = ((as_u64 from, as_u64 to), w)"

definition emit_reversed :: "node_id \<Rightarrow> node_id \<Rightarrow> f32 \<Rightarrow> u64 \<times> u64" where
  "emit_reversed from to w = (as_u64 to, as_u64 from)"

definition compact ::
  "('m, 's) dash \<Rightarrow> ('m, 's) csr_graph \<Rightarrow> ('m, 's) csr_graph result \<times> ('m, 's) csr_graph" where
  "compact D g =
     (let (dels, d1) = delta_drain_deletions D (delta g);
          (ins, d2) = delta_drain_insertions D d1;
          g' = g\<lparr>delta := d2\<rparr>;
          has_weights = list_ex shard_has_weights (shards g')
      in (bind_res (scan_base g' (set dels) emit_edge) (\<lambda>base.
          bind_res (scan_insertions g' emit_edge ins) (\<lambda>added.
          let edges = map fst (base @ added); weights = map snd (base @ added)
          in if has_weights then
               build D (with_weighted_edges
                 (map (\<lambda>((f, t), w). (f, t, w)) (zip edges weights)) builder_new)
             else build D (with_edges edges builder_new))),
          g'))"

definition transpose :: "('m, 's) dash \<Rightarrow> ('m, 's) csr_graph \<Rightarrow> ('m, 's) csr_graph result" where
  "transpose D g =
     (let dels = set (delta_snapshot_deletions D (delta g))
      in bind_res (scan_base g dels emit_reversed) (\<lambda>base.
         bind_res (scan_insertions g emit_reversed (delta_snapshot_insertions D (delta g))) (\<lambda>added.
         build D (with_edges (base @ added) builder_new))))"

section \<open>What the scans collect\<close>

definition row_weights_or_one :: "('m, 's) csr_graph \<Rightarrow> node_id \<Rightarrow> f32 list" where
  "row_weights_or_one g n =
     (case base_row_weights g n of None \<Rightarrow> replicate (length (base_row g n)) f32_one | Some w \<Rightarrow> w)"

definition scanned_row ::
  "edge_key set \<Rightarrow> (node_id \<Rightarrow> node_id \<Rightarrow> f32 \<Rightarrow> 'e) \<Rightarrow> nat \<Rightarrow> u32 list \<Rightarrow> f32 list option \<Rightarrow> 'e list"
where
  "scanned_row dels emit v cols ws =
     map (\<lambda>(c, w). emit (NodeId (of_nat v)) (node_of_u32 c) w)
       (filter (\<lambda>(c, w). (NodeId (of_nat v), node_of_u32 c) \<notin> dels)
         (zip cols (case ws of None \<Rightarrow> replicate (length cols) f32_one | Some w \<Rightarrow> w)))"

lemma map_filter_upt_zip:
  assumes "length xs = m" "length ys = m"
    and "\<And>j. j < m \<Longrightarrow> f (s + j) = (if P (xs ! j) (ys ! j) then Some (h (xs ! j) (ys ! j)) else None)"
  shows "List.map_filter f [s..<s + m] =
    map (\<lambda>(x, y). h x y) (filter (\<lambda>(x, y). P x y) (zip xs ys))"
  using assms
proof (induction m arbitrary: xs ys s)
  case (Suc m)
  obtain x xs' where x: "xs = x # xs'" using Suc.prems(1) by (cases xs) auto
  obtain y ys' where y: "ys = y # ys'" using Suc.prems(2) by (cases ys) auto
  have "List.map_filter f [Suc s..<Suc s + m] =
      map (\<lambda>(x, y). h x y) (filter (\<lambda>(x, y). P x y) (zip xs' ys'))"
  proof (rule Suc.IH)
    show "f (Suc s + j) = (if P (xs' ! j) (ys' ! j) then Some (h (xs' ! j) (ys' ! j)) else None)"
      if "j < m" for j
      using Suc.prems(3) [of "Suc j"] that x y by simp
  qed (use Suc.prems x y in simp_all)
  moreover have "f s = (if P x y then Some (h x y) else None)"
    using Suc.prems(3) [of 0] x y by simp
  moreover have "[s..<s + Suc m] = s # [Suc s..<Suc s + m]" by (simp add: upt_conv_Cons)
  ultimately show ?case
    using x y by (simp add: List.map_filter_def del: upt_Suc)
qed (simp add: List.map_filter_def)

lemma shard_weight_row:
  assumes "wf_shard sh" "i < shard_node_count sh" "j < length (shard_row sh i)"
  shows "(case shard_weight sh (unat (row_ptrs sh ! i) + j) of None \<Rightarrow> f32_one | Some w \<Rightarrow> w) =
    (case shard_row_weights sh i of None \<Rightarrow> replicate (length (shard_row sh i)) f32_one
     | Some w \<Rightarrow> w) ! j"
proof (cases "shard_weights sh")
  case None
  then show ?thesis using assms(3) by (simp add: shard_weight_def shard_row_weights_def)
next
  case (Some w)
  have "unat (row_ptrs sh ! i) + j < length w"
    using assms wf_shard_rows [OF assms(1,2)] weights_len [OF assms(1) Some]
    by (simp add: length_shard_row)
  then show ?thesis
    using assms Some by (simp add: shard_weight_def shard_row_weights_def get_vec_def
        slice_row_def length_shard_row)
qed

lemma length_row_weights:
  assumes "wf_shard sh" "i < shard_node_count sh" "shard_row_weights sh i = Some w"
  shows "length w = length (shard_row sh i)"
  using assms wf_shard_rows [OF assms(1,2)] weights_len [OF assms(1)]
  by (auto simp: shard_row_weights_def slice_row_def length_shard_row)

lemma scan_row_Ok:
  assumes "wf_base (shards g) (node_count g)" "k < length (shards g)"
    and "local < shard_node_count (shards g ! k)"
  shows "scan_row g dels emit (shards g ! k) local =
    Ok (scanned_row dels emit (fst (node_range (shards g ! k)) + local)
          (shard_row (shards g ! k) local) (shard_row_weights (shards g ! k) local))"
proof -
  let ?sh = "shards g ! k" and ?v = "fst (node_range (shards g ! k)) + local"
  let ?row = "shard_row ?sh local"
  let ?ws = "case shard_row_weights ?sh local of None \<Rightarrow> replicate (length ?row) f32_one | Some w \<Rightarrow> w"
  from assms(1,2) have wf: "wf_shard ?sh" and id: "unat (shard_id ?sh) = k"
    and le: "snd (node_range ?sh) \<le> node_count g" and small: "node_count g \<le> 2 ^ 32"
    using shards_cover_nth [of 0 0 "shards g" "node_count g" k] by (auto simp: wf_base_def)
  have v: "?v < 2 ^ 64" using assms(3) le small by (simp add: shard_node_count_def)
  have g: "shard_to_global g (unat (shard_id ?sh)) local = Some (NodeId (of_nat ?v))"
    using assms(2,3) id v
    by (simp add: shard_to_global_def get_vec_def u64_of_usize_Some node_new_def)
  let ?s = "unat (row_ptrs ?sh ! local)"
  have rng: "shard_neighbor_range ?sh local = Ok (?s, ?s + length ?row)"
    using assms(3) wf wf_shard_rows [OF wf assms(3)]
    by (simp add: shard_neighbor_range_Ok length_shard_row)
  have wlen: "length ?ws = length ?row"
    using length_row_weights [OF wf assms(3)] by (simp split: option.split)
  have at: "shard_col_index ?sh (?s + j) = Some (?row ! j)"
    "(case shard_weight ?sh (?s + j) of None \<Rightarrow> f32_one | Some w \<Rightarrow> w) = ?ws ! j"
    if "j < length ?row" for j
  proof -
    show "shard_col_index ?sh (?s + j) = Some (?row ! j)"
      using that assms(3) wf wf_shard_rows [OF wf assms(3)]
      by (simp add: shard_col_index_def get_vec_def nth_shard_row length_shard_row)
    show "(case shard_weight ?sh (?s + j) of None \<Rightarrow> f32_one | Some w \<Rightarrow> w) = ?ws ! j"
      using wf assms(3) that by (rule shard_weight_row)
  qed
  have "List.map_filter (\<lambda>idx. case shard_col_index ?sh idx of None \<Rightarrow> None | Some c \<Rightarrow>
        (let to = node_of_u32 c in if (NodeId (of_nat ?v), to) \<in> dels then None
         else Some (emit (NodeId (of_nat ?v)) to
           (case shard_weight ?sh idx of None \<Rightarrow> f32_one | Some w \<Rightarrow> w))))
      [?s..<?s + length ?row] =
    scanned_row dels emit ?v ?row (shard_row_weights ?sh local)"
    unfolding scanned_row_def
    by (rule map_filter_upt_zip) (use wlen at in \<open>simp_all add: Let_def\<close>)
  then show ?thesis by (simp add: scan_row_def g rng del: of_nat_add)
qed

text \<open>The scan of the base layer, as one list over the nodes.\<close>

definition scanned_node ::
  "('m, 's) csr_graph \<Rightarrow> edge_key set \<Rightarrow> (node_id \<Rightarrow> node_id \<Rightarrow> f32 \<Rightarrow> 'e) \<Rightarrow> nat \<Rightarrow> 'e list" where
  "scanned_node g dels emit v =
     scanned_row dels emit v (base_row g (NodeId (of_nat v))) (base_row_weights g (NodeId (of_nat v)))"

abbreviation shards_weights :: "csr_shard list \<Rightarrow> f32 list option list" where
  "shards_weights shs \<equiv>
     concat (map (\<lambda>sh. map (shard_row_weights sh) [0..<shard_node_count sh]) shs)"

lemma length_shards_weights: "length (shards_weights shs) = length (shards_rows shs)"
  by (induction shs) (simp_all add: shards_rows_def)

lemma concat_over_shards:
  "shards_cover i s shs n \<Longrightarrow>
   concat (map (\<lambda>sh. map (\<lambda>l. F (fst (node_range sh) + l) (shard_row sh l) (shard_row_weights sh l))
      [0..<shard_node_count sh]) shs) =
   map (\<lambda>v. F v (shards_rows shs ! (v - s)) (shards_weights shs ! (v - s))) [s..<n]"
proof (induction shs arbitrary: i s)
  case (Cons sh shs)
  let ?e = "snd (node_range sh)" and ?c = "shard_node_count sh"
  have sh: "fst (node_range sh) = s" "s < ?e" "shards_cover (Suc i) ?e shs n" "?e = s + ?c"
    using Cons.prems by (auto simp: shard_node_count_def)
  then have "?e \<le> n" using shards_cover_le by blast
  then have split: "[s..<n] = [s..<s + ?c] @ [?e..<n]"
    using sh(4) upt_add_eq_append [of s "s + ?c" "n - ?e"] by simp
  have rows: "shards_rows (sh # shs) = map (shard_row sh) [0..<?c] @ shards_rows shs"
    by (simp add: shards_rows_def)
  have 1: "map (\<lambda>v. F v (shards_rows (sh # shs) ! (v - s)) (shards_weights (sh # shs) ! (v - s)))
      [s..<s + ?c] =
    map (\<lambda>l. F (s + l) (shard_row sh l) (shard_row_weights sh l)) [0..<?c]"
    by (rule nth_equalityI) (simp_all add: rows nth_append)
  have 2: "map (\<lambda>v. F v (shards_rows (sh # shs) ! (v - s)) (shards_weights (sh # shs) ! (v - s)))
      [?e..<n] =
    map (\<lambda>v. F v (shards_rows shs ! (v - ?e)) (shards_weights shs ! (v - ?e))) [?e..<n]"
    using sh(4) by (intro map_cong) (auto simp: rows nth_append)
  show ?case
    unfolding split map_append 1 2 using Cons.IH [OF sh(3)] sh(1) by simp
qed simp

lemma scan_base_Ok:
  assumes "wf_base (shards g) (node_count g)"
  shows "scan_base g dels emit = Ok (concat (map (scanned_node g dels emit) [0..<node_count g]))"
proof -
  let ?f = "\<lambda>sh l. scanned_row dels emit (fst (node_range sh) + l) (shard_row sh l)
      (shard_row_weights sh l)"
  have small: "node_count g \<le> 2 ^ 32" and cover: "shards_cover 0 0 (shards g) (node_count g)"
    using assms by (auto simp: wf_base_def)
  have "map_list_res (\<lambda>sh. map_list_res (scan_row g dels emit sh) [0..<shard_node_count sh])
      (shards g) =
    Ok (map (\<lambda>sh. map (?f sh) [0..<shard_node_count sh]) (shards g))"
  proof (rule map_list_res_Ok)
    fix sh
    assume "sh \<in> set (shards g)"
    then obtain k where "k < length (shards g)" "sh = shards g ! k" by (auto simp: in_set_conv_nth)
    then show "map_list_res (scan_row g dels emit sh) [0..<shard_node_count sh] =
        Ok (map (?f sh) [0..<shard_node_count sh])"
      using scan_row_Ok [OF assms] by (intro map_list_res_Ok) simp
  qed
  moreover have "concat (map (\<lambda>sh. map (?f sh) [0..<shard_node_count sh]) (shards g)) =
      map (scanned_node g dels emit) [0..<node_count g]"
    unfolding concat_over_shards [OF cover, of "scanned_row dels emit"]
    using small by (intro map_cong)
      (auto simp: scanned_node_def base_row_def base_row_weights_def Let_def unsigned_of_nat
        take_bit_nat_eq_self)
  ultimately show ?thesis by (simp add: scan_base_def)
qed

lemma scan_insertions_Ok:
  assumes "wf_base (shards g) (node_count g)"
  shows "scan_insertions g emit ins =
    Ok (map (\<lambda>((from, to), data). emit from to (case weight data of None \<Rightarrow> f32_one | Some w \<Rightarrow> f32_of_f64 w))
      (filter (\<lambda>(k, data). k \<notin> base_edges g) ins))"
proof -
  have bc: "base_contains g a to = Ok ((a, to) \<in> base_edges g)" for a to
  proof (cases "u32_of_u64 (as_u64 to)")
    case None
    then have "to \<noteq> node_of_u32 c" for c
      using u32_of_u64_eq_Some [of "as_u64 to" c] by (auto simp: node_of_u32_def)
    then show ?thesis using None by (auto simp: base_contains_def base_edges_def)
  next
    case (Some t)
    then have "to = node_of_u32 t"
      using u32_of_u64_eq_Some [of "as_u64 to" t] by (cases to) (simp add: node_of_u32_def)
    moreover have "node_of_u32 c = node_of_u32 c' \<Longrightarrow> c = c'" for c c'
      by (metis node_id.inject node_of_u32_def ucast_u32_roundtrip)
    ultimately show ?thesis using Some assms
      by (auto simp: base_contains_def base_edges_def base_neighbor_slice_Ok)
  qed
  let ?w = "\<lambda>data. case weight data of None \<Rightarrow> f32_one | Some w \<Rightarrow> f32_of_f64 w"
  have "map_list_res (\<lambda>((from, to), data).
         map_res (\<lambda>dup. if dup then [] else [emit from to (?w data)]) (base_contains g from to)) ins =
    Ok (map (\<lambda>((from, to), data). if (from, to) \<in> base_edges g then [] else [emit from to (?w data)]) ins)"
    by (rule map_list_res_Ok) (auto simp: bc)
  moreover have "concat (map (\<lambda>((from, to), data).
      if (from, to) \<in> base_edges g then [] else [emit from to (?w data)]) ins) =
    map (\<lambda>((from, to), data). emit from to (?w data)) (filter (\<lambda>(k, data). k \<notin> base_edges g) ins)"
    by (induction ins) auto
  ultimately show ?thesis by (simp add: scan_insertions_def)
qed

section \<open>The collected edges\<close>

definition insertion_weight :: "edge_data \<Rightarrow> f32" where
  "insertion_weight x = (case weight x of None \<Rightarrow> f32_one | Some w \<Rightarrow> f32_of_f64 w)"

definition collected ::
  "('m, 's) dash \<Rightarrow> ('m, 's) csr_graph \<Rightarrow> (edge_key \<times> f32) list" where
  "collected D g =
     concat (map (scanned_node g (deleted D (delta g)) (\<lambda>a b w. ((a, b), w))) [0..<node_count g]) @
     map (\<lambda>(k, x). (k, insertion_weight x))
       (filter (\<lambda>(k, x). k \<notin> base_edges g) (dm_iter D (insertions (delta g))))"

lemma scanned_row_emit:
  "scanned_row dels emit v cols ws =
     map (\<lambda>((a, b), w). emit a b w) (scanned_row dels (\<lambda>a b w. ((a, b), w)) v cols ws)"
  by (auto simp: scanned_row_def)

lemma scanned_node_emit:
  "concat (map (scanned_node g dels emit) vs) =
     map (\<lambda>((a, b), w). emit a b w)
       (concat (map (scanned_node g dels (\<lambda>a b w. ((a, b), w))) vs))"
  by (induction vs) (simp_all add: scanned_node_def scanned_row_emit [of dels emit])

lemma base_update_delta [simp]:
  "base_row (g\<lparr>delta := d\<rparr>) n = base_row g n"
  "base_row_weights (g\<lparr>delta := d\<rparr>) n = base_row_weights g n"
  "base_edges (g\<lparr>delta := d\<rparr>) = base_edges g"
  "scanned_node (g\<lparr>delta := d\<rparr>) dels emit = scanned_node g dels emit"
proof -
  show 1: "base_row (g\<lparr>delta := d\<rparr>) n = base_row g n" for n
    by (simp add: base_row_def Let_def cong: if_cong)
  show 2: "base_row_weights (g\<lparr>delta := d\<rparr>) n = base_row_weights g n" for n
    by (simp add: base_row_weights_def Let_def cong: if_cong)
  show "base_edges (g\<lparr>delta := d\<rparr>) = base_edges g" by (simp add: base_edges_def 1)
  show "scanned_node (g\<lparr>delta := d\<rparr>) dels emit = scanned_node g dels emit"
    by (rule ext) (simp add: scanned_node_def 1 2)
qed

lemma scans_collect:
  assumes "wf_graph D g"
  shows "scan_base (g\<lparr>delta := d\<rparr>) (deleted D (delta g)) emit =
      Ok (map (\<lambda>((a, b), w). emit a b w)
        (concat (map (scanned_node g (deleted D (delta g)) (\<lambda>a b w. ((a, b), w))) [0..<node_count g])))"
    and "scan_insertions (g\<lparr>delta := d\<rparr>) emit (dm_iter D (insertions (delta g))) =
      Ok (map (\<lambda>((a, b), w). emit a b w) (map (\<lambda>(k, x). (k, insertion_weight x))
       (filter (\<lambda>(k, x). k \<notin> base_edges g) (dm_iter D (insertions (delta g))))))"
  using wf_graphD(1) [OF assms]
  by (simp_all add: scan_base_Ok scan_insertions_Ok scanned_node_emit [of g _ emit]
      insertion_weight_def case_prod_unfold comp_def)

lemma shards_weights_length:
  "shards_cover i s shs n \<Longrightarrow> v < length (shards_rows shs) \<Longrightarrow> shards_weights shs ! v = Some w \<Longrightarrow>
   length w = length (shards_rows shs ! v)"
proof (induction shs arbitrary: i s v)
  case (Cons sh shs)
  let ?c = "shard_node_count sh"
  have rows: "shards_rows (sh # shs) = map (shard_row sh) [0..<?c] @ shards_rows shs"
    by (simp add: shards_rows_def)
  show ?case
  proof (cases "v < ?c")
    case True
    then show ?thesis
      using Cons.prems length_row_weights [of sh v w] by (simp add: rows nth_append)
  next
    case False
    then show ?thesis
      using Cons.prems Cons.IH [of "Suc i" "snd (node_range sh)" "v - ?c"]
      by (simp add: rows nth_append)
  qed
qed (simp add: shards_rows_def)

lemma length_row_weights_or_one:
  assumes "wf_base (shards g) (node_count g)"
  shows "length (row_weights_or_one g n) = length (base_row g n)"
proof (cases "base_row_weights g n")
  case (Some w)
  then show ?thesis
    using assms length_shards_rows [of 0 0 "shards g" "node_count g"]
      shards_weights_length [of 0 0 "shards g" "node_count g" "unat (as_u64 n)" w]
    by (auto simp: row_weights_or_one_def base_row_weights_def base_row_def wf_base_def Let_def
        split: if_splits)
qed (simp add: row_weights_or_one_def)

lemma scanned_node_row:
  "scanned_node g dels (\<lambda>a b w. ((a, b), w)) v =
     map (\<lambda>(c, w). ((NodeId (of_nat v), node_of_u32 c), w))
       (filter (\<lambda>(c, w). (NodeId (of_nat v), node_of_u32 c) \<notin> dels)
         (zip (base_row g (NodeId (of_nat v))) (row_weights_or_one g (NodeId (of_nat v)))))"
  by (simp add: scanned_node_def scanned_row_def row_weights_or_one_def)

lemma filter_concat_key:
  assumes "\<And>v x. v < n \<Longrightarrow> x \<in> set (f v) \<Longrightarrow> unat (key x) = v"
  shows "filter (\<lambda>x. key x = a) (concat (map f [0..<n])) = (if unat a < n then f (unat a) else [])"
  using assms
proof (induction n)
  case (Suc n)
  have "filter (\<lambda>x. key x = a) (f n) = (if unat a = n then f n else [])"
    using Suc.prems [of n] by (auto simp: filter_id_conv filter_empty_conv word_unat_eq_iff)
  with Suc show ?case by (auto simp: less_Suc_eq)
qed simp

text \<open>The base part of a node's collected edges, and the inserted part.\<close>

lemma collected_from:
  assumes "wf_graph D g"
  shows "filter (\<lambda>p. fst (fst p) = a) (collected D g) =
    map (\<lambda>(c, w). ((a, node_of_u32 c), w))
      (filter (\<lambda>(c, w). (a, node_of_u32 c) \<notin> deleted D (delta g))
        (zip (base_row g a) (row_weights_or_one g a))) @
    map (\<lambda>(k, x). (k, insertion_weight x))
      (filter (\<lambda>(k, x). fst k = a \<and> k \<notin> base_edges g) (dm_iter D (insertions (delta g))))"
proof -
  let ?f = "scanned_node g (deleted D (delta g)) (\<lambda>a b w. ((a, b), w))"
  have "node_count g \<le> 2 ^ 32" using assms by (simp add: wf_graph_def wf_base_def)
  then have key: "unat (as_u64 (fst (fst x))) = v" if "v < node_count g" "x \<in> set (?f v)" for v x
    using that by (auto simp: scanned_node_row unsigned_of_nat take_bit_nat_eq_self)
  have eq: "(\<lambda>p. fst (fst p) = a) =
      (\<lambda>x :: edge_key \<times> f32. as_u64 (fst (fst x)) = as_u64 a)"
    by (auto simp: fun_eq_iff node_id.expand)
  have "filter (\<lambda>p. fst (fst p) = a) (concat (map ?f [0..<node_count g])) =
      (if unat (as_u64 a) < node_count g then ?f (unat (as_u64 a)) else [])"
    using filter_concat_key [of "node_count g" ?f "\<lambda>x. as_u64 (fst (fst x))" "as_u64 a"] key
    by (simp only: eq)
  also have "\<dots> = map (\<lambda>(c, w). ((a, node_of_u32 c), w))
      (filter (\<lambda>(c, w). (a, node_of_u32 c) \<notin> deleted D (delta g))
        (zip (base_row g a) (row_weights_or_one g a)))"
    by (simp add: scanned_node_row base_row_def)
  finally show ?thesis
    by (simp add: collected_def filter_map comp_def case_prod_unfold conj_commute)
qed

lemma delta_neighbors_filter:
  "delta_neighbors D d a =
     map (\<lambda>e. snd (fst e)) (filter (\<lambda>e. fst (fst e) = a) (dm_iter D (insertions d)))"
proof -
  have "List.map_filter (\<lambda>e. if fst (fst e) = a then Some (snd (fst e)) else None) es =
      map (\<lambda>e. snd (fst e)) (filter (\<lambda>e. fst (fst e) = a) es)" for es :: "(edge_key \<times> edge_data) list"
    by (induction es) (auto simp: List.map_filter_def)
  then show ?thesis by (simp add: delta_neighbors_def)
qed

text \<open>The targets collected for a node are its neighbours, in the iterator's order.\<close>

lemma collected_neighbors:
  assumes "wf_graph D g"
  shows "map (\<lambda>p. snd (fst p)) (filter (\<lambda>p. fst (fst p) = a) (collected D g)) = neighbor_list D g a"
proof -
  note wf = wf_graphD [OF assms]
  let ?ins = "dm_iter D (insertions (delta g))"
  have len: "length (base_row g a) = length (row_weights_or_one g a)"
    using length_row_weights_or_one [OF wf(1)] by simp
  have "map (\<lambda>p. node_of_u32 (fst p)) (filter (\<lambda>p. (a, node_of_u32 (fst p)) \<notin> deleted D (delta g))
        (zip (base_row g a) (row_weights_or_one g a))) =
      map node_of_u32 (filter (\<lambda>c. (a, node_of_u32 c) \<notin> deleted D (delta g)) (base_row g a))"
    using len map_filter_fst [of node_of_u32 "\<lambda>c. (a, node_of_u32 c) \<notin> deleted D (delta g)"
        "zip (base_row g a) (row_weights_or_one g a)"] by simp
  also have "\<dots> = live_base_row D g a"
    using wf(3) by (simp add: live_base_row_def delta_is_deleted_iff filter_map comp_def)
  finally have base: "map (\<lambda>p. node_of_u32 (fst p))
      (filter (\<lambda>p. (a, node_of_u32 (fst p)) \<notin> deleted D (delta g))
        (zip (base_row g a) (row_weights_or_one g a))) = live_base_row D g a" .
  have "fst e \<in> base_edges g \<longleftrightarrow> snd (fst e) \<in> set (live_base_row D g a)"
    if "e \<in> set ?ins" "fst (fst e) = a" for e
  proof -
    have "fst e \<in> dom (inserted D (delta g))"
      using that(1) by (auto simp: inserted_def dom_map_of_conv_image_fst)
    then have "fst e \<notin> deleted D (delta g)" using wf(2) by (auto simp: wf_delta_def)
    moreover have "fst e = (a, snd (fst e))" using that(2) by (simp add: prod_eq_iff)
    then obtain b where "fst e = (a, b)" ..
    ultimately show ?thesis by (simp add: set_live_base_row [OF wf(3)])
  qed
  then have "filter (\<lambda>e. fst (fst e) = a \<and> fst e \<notin> base_edges g) ?ins =
      filter (\<lambda>e. snd (fst e) \<notin> set (live_base_row D g a)) (filter (\<lambda>e. fst (fst e) = a) ?ins)"
    by (auto simp: filter_filter intro!: filter_cong)
  then have "map (\<lambda>e. snd (fst e)) (filter (\<lambda>e. fst (fst e) = a \<and> fst e \<notin> base_edges g) ?ins) =
      filter (\<lambda>v. v \<notin> set (live_base_row D g a)) (delta_neighbors D (delta g) a)"
    by (simp add: delta_neighbors_filter filter_map comp_def)
  with base show ?thesis
    by (simp add: collected_from [OF assms] neighbor_list_def comp_def case_prod_unfold)
qed

section \<open>The graph that is built from them\<close>

definition compactable :: "('m, 's) dash \<Rightarrow> ('m, 's) csr_graph \<Rightarrow> bool" where
  "compactable D g \<longleftrightarrow>
     node_count g \<le> u32_max \<and>
     edge_count g + delta_insertion_count D (delta g) \<le> u32_max \<and>
     (\<forall>(a, b) \<in> dom (inserted D (delta g)).
        unat (as_u64 a) < u32_max \<and> unat (as_u64 b) < u32_max)"

lemma buildable_compactable:
  assumes "buildable b" "dash_laws D" "build D b = Ok g"
  shows "compactable D g"
proof -
  obtain g' where g': "build D b = Ok g'" "delta g' = delta_new D" "node_count g' = built_node_count b"
    "edge_count g' = length (built_edges b)"
    by (rule build_spec [OF assms(1,2)]) (rule that, assumption+)
  then have g: "delta g = delta_new D" "node_count g = built_node_count b" "edge_count g = length (built_edges b)"
    using assms(3) by simp_all
  have "unat (max_node_id (b_edges (sort_edges b))) < u32_max"
  proof (rule unat_max_node_id_less)
    fix e assume "e \<in> set (b_edges (sort_edges b))"
    then show "unat (fst e) < u32_max \<and> unat (snd e) < u32_max"
      using assms(1) set_built_edges [of b] unfolding sort_edges_props(4) by (auto simp: buildable_def)
  qed (simp add: u32_max_def)
  then have "node_count g \<le> u32_max" by (simp add: g(2) built_node_count_def)
  moreover have "edge_count g + delta_insertion_count D (delta g) \<le> u32_max"
    "dom (inserted D (delta g)) = {}"
    using assms(1,2) g(1,3)
    by (simp_all add: buildable_def delta_insertion_count_def delta_new_def dash_lawsD inserted_def)
  ultimately show ?thesis by (simp add: compactable_def)
qed

lemma concat_shards_rows:
  "shards_cover i s shs n \<Longrightarrow> concat (shards_rows shs) = concat (map col_indices shs)"
proof (induction shs arbitrary: i s)
  case (Cons sh shs)
  then show ?case using concat_shard_rows [of sh] by (auto simp: shards_rows_def)
qed (simp add: shards_rows_def)

lemma sum_base_rows:
  assumes "wf_graph D g"
  shows "(\<Sum>v \<leftarrow> [0..<node_count g]. length (base_row g (NodeId (of_nat v)))) = edge_count g"
proof -
  from assms have cover: "shards_cover 0 0 (shards g) (node_count g)"
    and small: "node_count g \<le> 2 ^ 32"
    and e: "edge_count g = sum_list (map shard_edge_count (shards g))"
    by (auto simp: wf_graph_def wf_base_def)
  have "map (\<lambda>v. length (base_row g (NodeId (of_nat v)))) [0..<node_count g] =
      map length (shards_rows (shards g))"
    using length_shards_rows [OF cover] small
    by (intro nth_equalityI) (auto simp: base_row_def unsigned_of_nat take_bit_nat_eq_self)
  then have "(\<Sum>v \<leftarrow> [0..<node_count g]. length (base_row g (NodeId (of_nat v)))) =
      length (concat (shards_rows (shards g)))"
    by (simp add: length_concat)
  then show ?thesis
    by (simp add: concat_shards_rows [OF cover] e length_concat shard_edge_count_def [abs_def] comp_def)
qed

lemma length_collected:
  assumes "wf_graph D g"
  shows "length (collected D g) \<le> edge_count g + delta_insertion_count D (delta g)"
proof -
  have "length (scanned_node g dels (\<lambda>a b w. ((a, b), w)) v) \<le> length (base_row g (NodeId (of_nat v)))"
    for dels v
    using length_filter_le [of "\<lambda>(c, w). (NodeId (of_nat v), node_of_u32 c) \<notin> dels"
        "zip (base_row g (NodeId (of_nat v))) (row_weights_or_one g (NodeId (of_nat v)))"]
    by (simp add: scanned_node_row length_row_weights_or_one [OF wf_graphD(1) [OF assms]])
  then have "(\<Sum>v \<leftarrow> [0..<node_count g].
      length (scanned_node g (deleted D (delta g)) (\<lambda>a b w. ((a, b), w)) v)) \<le> edge_count g"
    unfolding sum_base_rows [OF assms, symmetric] by (intro sum_list_mono) auto
  moreover have "delta_insertion_count D (delta g) = length (dm_iter D (insertions (delta g)))"
    using wf_graphD(3) [OF assms] by (simp add: delta_insertion_count_def dash_lawsD)
  moreover have "length (filter (\<lambda>(k, x). k \<notin> base_edges g) (dm_iter D (insertions (delta g)))) \<le>
      length (dm_iter D (insertions (delta g)))"
    by (rule length_filter_le)
  ultimately show ?thesis by (simp add: collected_def length_concat comp_def add_mono)
qed

lemma mem_collected:
  assumes "wf_graph D g"
  shows "fst ` set (collected D g) = graph_edges D g"
proof -
  have "(a, b) \<in> fst ` set (collected D g) \<longleftrightarrow> b \<in> set (neighbor_list D g a)" for a b
    unfolding collected_neighbors [OF assms, symmetric] by force
  then show ?thesis using set_neighbor_list [OF wf_graphD(3) [OF assms], of g] by auto
qed

lemma built_edges_plain:
  "b_edges (with_edges es builder_new) = es" "b_weights (with_edges es builder_new) = []"
  "\<not> cfg_include_weights (config (with_edges es builder_new))"
  "cfg_shard_size (config (with_edges es builder_new)) = default_shard_size"
  "built_edges (with_edges es builder_new) = map (\<lambda>e. (e, None)) es"
  by (simp_all add: with_edges_def builder_new_def csr_build_config_default_def built_edges_def)

definition weighted_builder :: "((u64 \<times> u64) \<times> f32) list \<Rightarrow> csr_builder" where
  "weighted_builder L = with_weighted_edges (map (\<lambda>((f, t), w). (f, t, w)) L) builder_new"

lemma built_edges_weighted:
  "b_edges (weighted_builder L) = map fst L" "b_weights (weighted_builder L) = map snd L"
  "cfg_include_weights (config (weighted_builder L))"
  "cfg_shard_size (config (weighted_builder L)) = default_shard_size"
  "built_edges (weighted_builder L) = map (\<lambda>(e, w). (e, Some w)) L"
proof -
  show 1: "b_edges (weighted_builder L) = map fst L" "b_weights (weighted_builder L) = map snd L"
    "cfg_include_weights (config (weighted_builder L))"
    "cfg_shard_size (config (weighted_builder L)) = default_shard_size"
    by (auto simp: weighted_builder_def with_weighted_edges_eq builder_new_def
        csr_build_config_default_def)
  show "built_edges (weighted_builder L) = map (\<lambda>(e, w). (e, Some w)) L"
    by (simp add: built_edges_def 1 zip_map_fst_snd)
qed

text \<open>The builder \<open>compact\<close> hands over: the collected edges, weighted if any shard is.\<close>

definition edge_ids :: "edge_key \<times> f32 \<Rightarrow> (u64 \<times> u64) \<times> f32" where
  "edge_ids p = ((as_u64 (fst (fst p)), as_u64 (snd (fst p))), snd p)"

definition compact_builder :: "('m, 's) dash \<Rightarrow> ('m, 's) csr_graph \<Rightarrow> csr_builder" where
  "compact_builder D g =
     (let L = map edge_ids (collected D g)
      in if list_ex shard_has_weights (shards g) then weighted_builder L
         else with_edges (map fst L) builder_new)"

lemma compact_eq:
  assumes "wf_graph D g"
  shows "\<exists>d. compact D g = (build D (compact_builder D g), g\<lparr>delta := d\<rparr>) \<and>
    inserted D d = Map.empty \<and> deleted D d = {}"
proof -
  note wf = wf_graphD [OF assms]
  obtain dels d1 where 1: "delta_drain_deletions D (delta g) = (dels, d1)" by fastforce
  obtain ins d2 where 2: "delta_drain_insertions D d1 = (ins, d2)" by fastforce
  note dr1 = drain_deletions [OF wf(3) 1] and dr2 = drain_insertions [OF wf(3) 2]
  have dels: "set dels = deleted D (delta g)" using dr1 by (simp add: deleted_def)
  have ins: "ins = dm_iter D (insertions (delta g))" using dr1 dr2 by simp
  let ?emit = "map (\<lambda>((a, b), w). emit_edge a b w)"
  let ?base = "concat (map (scanned_node g (deleted D (delta g)) (\<lambda>a b w. ((a, b), w))) [0..<node_count g])"
  let ?added = "map (\<lambda>(k, x). (k, insertion_weight x))
       (filter (\<lambda>(k, x). k \<notin> base_edges g) (dm_iter D (insertions (delta g))))"
  have L: "?emit ?base @ ?emit ?added = map edge_ids (collected D g)"
    by (simp add: collected_def emit_edge_def edge_ids_def case_prod_unfold)
  have "compact D g =
    (let L = ?emit ?base @ ?emit ?added
     in if list_ex shard_has_weights (shards g)
        then build D (with_weighted_edges (map (\<lambda>((f, t), w). (f, t, w))
           (zip (map fst L) (map snd L))) builder_new)
        else build D (with_edges (map fst L) builder_new), g\<lparr>delta := d2\<rparr>)"
    using scans_collect [OF assms, of d2 emit_edge]
    by (simp add: compact_def 1 2 dels ins Let_def)
  also have "\<dots> = (build D (compact_builder D g), g\<lparr>delta := d2\<rparr>)"
    unfolding L compact_builder_def weighted_builder_def Let_def zip_map_fst_snd by simp
  finally have "compact D g = (build D (compact_builder D g), g\<lparr>delta := d2\<rparr>)" .
  moreover have "inserted D d2 = Map.empty" "deleted D d2 = {}"
    using dr1 dr2 by (auto simp: deleted_def)
  ultimately show ?thesis by blast
qed

lemma compact_builder_edges:
  "b_edges (compact_builder D g) = map (fst \<circ> edge_ids) (collected D g)"
  "map fst (built_edges (compact_builder D g)) = map (fst \<circ> edge_ids) (collected D g)"
  "cfg_shard_size (config (compact_builder D g)) = default_shard_size"
  by (auto simp: compact_builder_def Let_def built_edges_plain built_edges_weighted comp_def
      case_prod_unfold)

lemma collected_ids:
  assumes "wf_graph D g" "compactable D g" "p \<in> set (collected D g)"
  shows "unat (as_u64 (fst (fst p))) < u32_max \<and> unat (as_u64 (snd (fst p))) < u32_max"
proof -
  obtain a b where ab: "fst p = (a, b)" by fastforce
  have "fst p \<in> graph_edges D g" using assms(3) mem_collected [OF assms(1)] by blast
  then consider "(a, b) \<in> base_edges g" | "(a, b) \<in> dom (inserted D (delta g))"
    by (auto simp: ab graph_edges_def)
  then show ?thesis
  proof cases
    case 1
    then show ?thesis
      using base_edges_bound [OF wf_graphD(1) [OF assms(1)] 1] assms(2)
      by (simp add: ab compactable_def)
  next
    case 2
    then show ?thesis using assms(2) by (auto simp: ab compactable_def)
  qed
qed

lemma buildable_compact:
  assumes "wf_graph D g" "compactable D g"
  shows "buildable (compact_builder D g)"
proof -
  have "length (built_edges (compact_builder D g)) = length (collected D g)"
    using compact_builder_edges(2) [of D g] by (metis length_map)
  then show ?thesis
    using assms length_collected [OF assms(1)] collected_ids [OF assms]
    by (auto simp: buildable_def compact_builder_edges edge_ids_def default_shard_size_def
        usize_max_def compactable_def)
qed

lemma compact_builder_from:
  "map (\<lambda>e. NodeId (snd (fst e))) (edges_from (compact_builder D g) v) =
   map (\<lambda>p. snd (fst p)) (filter (\<lambda>p. fst (fst p) = NodeId v) (collected D g))"
proof -
  have key: "(\<lambda>p. as_u64 (fst (fst p)) = v) = (\<lambda>p :: edge_key \<times> f32. fst (fst p) = NodeId v)"
    by (auto simp: fun_eq_iff)
  have "map (\<lambda>e. NodeId (snd (fst e))) (edges_from (compact_builder D g) v) =
      map (\<lambda>e. NodeId (snd e)) (filter (\<lambda>e. fst e = v)
        (map fst (built_edges (compact_builder D g))))"
    using map_filter_fst [of "\<lambda>e. NodeId (snd e)" "\<lambda>e. fst e = v"] by (simp add: edges_from_def)
  also have "\<dots> = map (\<lambda>p. snd (fst p)) (filter (\<lambda>p. fst (fst p) = NodeId v) (collected D g))"
    by (simp add: compact_builder_edges filter_map comp_def edge_ids_def key)
  finally show ?thesis .
qed

lemma should_compact_empty:
  "dash_laws D \<Longrightarrow> inserted D (delta g) = Map.empty \<Longrightarrow> deleted D (delta g) = {} \<Longrightarrow>
   \<not> should_compact D g policy"
  by (simp add: should_compact_def delta_len_eq Let_def)

text \<open>Compaction succeeds on a compactable graph, with the same neighbour lists.\<close>

lemma compact_Ok:
  assumes "wf_graph D g" "compactable D g"
  obtains g' d where "compact D g = (Ok g', g\<lparr>delta := d\<rparr>)" "build D (compact_builder D g) = Ok g'"
    "wf_graph D g'" "delta g' = delta_new D" "inserted D d = Map.empty" "deleted D d = {}"
    "\<And>a. neighbor_list D g' a = neighbor_list D g a"
proof -
  note D = wf_graphD(3) [OF assms(1)] and ok = buildable_compact [OF assms]
  obtain g' where g': "build D (compact_builder D g) = Ok g'" "wf_graph D g'" "delta g' = delta_new D"
    using build_spec [OF ok D] by metis
  obtain d where d: "compact D g = (build D (compact_builder D g), g\<lparr>delta := d\<rparr>)"
    "inserted D d = Map.empty" "deleted D d = {}"
    using compact_eq [OF assms(1)] by blast
  have "neighbor_list D g' (NodeId v) = neighbor_list D g (NodeId v)" for v
    unfolding build_neighbor_list [OF ok D g'(1)] compact_builder_from
    by (rule collected_neighbors [OF assms(1)])
  then have "neighbor_list D g' a = neighbor_list D g a" for a by (cases a) simp
  with g' d show ?thesis by (intro that [of g' d]) simp_all
qed

section \<open>Properties\<close>

text \<open>
  C6: compacting a well-formed graph whose identifiers and edges fit always succeeds, and
  the new graph has the same neighbours in the same order for every node, so every
  \<open>has_edge\<close> query answers as before; its delta layer is empty, so that no policy asks for
  another compaction, and the delta layer of the old graph has been drained.
\<close>

theorem compact_preserves_the_graph:
  assumes "wf_graph D g" "compactable D g"
  shows "\<exists>g' old. compact D g = (Ok g', old) \<and> wf_graph D g' \<and>
    neighbors D g' a = neighbors D g a \<and> has_edge D g' a b = has_edge D g a b \<and>
    delta_is_empty D (delta g') \<and> \<not> should_compact D g' policy \<and>
    delta_is_empty D (delta old) \<and> shards old = shards g"
proof -
  note D = wf_graphD(3) [OF assms(1)]
  obtain g' d where g': "compact D g = (Ok g', g\<lparr>delta := d\<rparr>)" "wf_graph D g'"
    "delta g' = delta_new D" "inserted D d = Map.empty" "deleted D d = {}"
    "\<And>a. neighbor_list D g' a = neighbor_list D g a"
    using compact_Ok [OF assms] by metis
  have n: "neighbors D g' a = neighbors D g a"
    using g'(6) wf_graphD(1) [OF assms(1)] wf_graphD(1) [OF g'(2)] by (simp add: neighbors_Ok)
  have "graph_edges D g' = graph_edges D g"
    using set_neighbor_list [OF D, of g'] set_neighbor_list [OF D, of g] g'(6) by auto
  then have "has_edge D g' a b = has_edge D g a b"
    using has_edge_Ok [OF g'(2)] has_edge_Ok [OF assms(1)]
    by simp
  with n g' D show ?thesis
    by (intro exI [of _ g'] exI [of _ "g\<lparr>delta := d\<rparr>"])
      (simp add: delta_is_empty_iff should_compact_empty)
qed

lemma compactable_example: "compactable list_dash example_graph"
  by (simp add: compactable_def example_graph_def list_dash_laws delta_insertion_count_def u32_max_def)
    (simp add: delta_delete_def delta_insert_def delta_new_def list_dash_def Let_def)

theorem compact_preserves_the_graph_witness:
  "\<exists>g' old. compact list_dash example_graph = (Ok g', old) \<and>
     neighbors list_dash g' (NodeId 0) = neighbors list_dash example_graph (NodeId 0) \<and>
     delta_is_empty list_dash (delta g')"
  using compact_preserves_the_graph [OF wf_example_graph compactable_example,
      of "NodeId 0" "NodeId 1" compaction_policy_default]
  by blast

text \<open>
  compaction keeps weights: when some shard has weights, the weights beside a node's
  row in the new graph are the weights of its live base edges, followed by those of its
  inserted edges rounded to \<open>f32\<close>, with 1.0 where there was none.
\<close>

theorem compact_preserves_weights:
  assumes "wf_graph D g" "compactable D g" "list_ex shard_has_weights (shards g)"
    and "neighbors D g a = Ok (b # bs)"
  shows "\<exists>g' old. compact D g = (Ok g', old) \<and>
    base_row_weights g' a = Some
      (map snd (filter (\<lambda>(c, w). (a, node_of_u32 c) \<notin> deleted D (delta g))
         (zip (base_row g a) (row_weights_or_one g a))) @
       map (\<lambda>(k, x). insertion_weight x)
         (filter (\<lambda>(k, x). fst k = a \<and> k \<notin> base_edges g) (dm_iter D (insertions (delta g)))))"
proof -
  let ?b = "compact_builder D g" and ?v = "as_u64 a"
  note D = wf_graphD(3) [OF assms(1)] and ok = buildable_compact [OF assms(1,2)]
  obtain g' where g': "build D ?b = Ok g'" "node_count g' = built_node_count ?b"
    "\<And>v. base_row g' (NodeId v) = map (\<lambda>e. ucast (snd (fst e))) (edges_from ?b v)"
    "\<And>v. unat v < node_count g' \<Longrightarrow> base_row_weights g' (NodeId v) =
       (if cfg_include_weights (config ?b) then Some (map (the \<circ> snd) (edges_from ?b v)) else None)"
    using build_spec [OF ok D] by metis
  from compact_eq [OF assms(1)] g'(1) obtain old where c: "compact D g = (Ok g', old)" by auto
  have b: "?b = weighted_builder (map edge_ids (collected D g))"
    using assms(3) by (simp add: compact_builder_def)
  have "neighbor_list D g a = b # bs"
    using assms(4) neighbors_Ok [OF wf_graphD(1) [OF assms(1)]] by simp
  then have "map (\<lambda>e. NodeId (snd (fst e))) (edges_from ?b ?v) = b # bs"
    using compact_builder_from [of D g ?v] collected_neighbors [OF assms(1), of a] by simp
  then have "base_row g' a \<noteq> []" using g'(3) [of ?v] by (cases "edges_from ?b ?v") auto
  then have "unat ?v < node_count g'" by (auto simp: base_row_def Let_def split: if_splits)
  from g'(4) [OF this] have "base_row_weights g' a = Some (map (the \<circ> snd) (edges_from ?b ?v))"
    by (simp add: b built_edges_weighted)
  also have "map (the \<circ> snd) (edges_from ?b ?v) =
      map snd (filter (\<lambda>p. fst (fst p) = a) (collected D g))"
  proof -
    have key: "(\<lambda>p. as_u64 (fst (fst p)) = ?v) = (\<lambda>p :: edge_key \<times> f32. fst (fst p) = a)"
      by (auto simp: fun_eq_iff node_id.expand)
    show ?thesis
      by (simp add: edges_from_def b built_edges_weighted filter_map comp_def case_prod_unfold
          edge_ids_def key)
  qed
  finally show ?thesis
    using c by (simp add: collected_from [OF assms(1)] case_prod_unfold comp_def)
qed

definition example_weighted_graph ::
  "((edge_key \<times> edge_data) list, edge_key list) csr_graph" where
  "example_weighted_graph =
     example_graph\<lparr>shards := [example_shard\<lparr>shard_weights := Some [5, 6, 7]\<rparr>]\<rparr>"

lemma wf_example_weighted_graph: "wf_graph list_dash example_weighted_graph"
proof -
  have "wf_delta list_dash (delta example_graph)" using wf_example_graph by (rule wf_graphD)
  moreover have "wf_shard (example_shard\<lparr>shard_weights := Some [5, 6, 7]\<rparr>)"
    by (simp add: wf_shard_def example_shard_def shard_node_count_def)
  ultimately show ?thesis
    by (simp add: wf_graph_def wf_base_def example_weighted_graph_def)
      (simp add: example_graph_def example_shard_def shard_edge_count_def)
qed

lemma compactable_example_weighted: "compactable list_dash example_weighted_graph"
  using compactable_example by (simp add: compactable_def example_weighted_graph_def)

lemma example_weighted_neighbors:
  "neighbors list_dash example_weighted_graph (NodeId 0) = Ok [NodeId 2]"
proof -
  have "[0..<3] = [0, 1, 2 :: nat]" by (simp add: upt_rec)
  then have "base_row example_weighted_graph (NodeId 0) = [1, 2]"
    by (simp add: base_row_def example_weighted_graph_def example_graph_def shards_rows_def
        example_shard_def shard_row_def shard_node_count_def)
  then show ?thesis
    using wf_graphD(1) [OF wf_example_weighted_graph]
    by (simp add: neighbors_Ok neighbor_list_def live_base_row_def delta_is_deleted_iff
        list_dash_laws node_of_u32_def delta_neighbors_filter example_weighted_graph_def)
      (simp add: example_graph_def list_dash_laws,
       simp add: delta_delete_def delta_insert_def delta_new_def list_dash_def Let_def)
qed

theorem compact_preserves_weights_witness:
  "\<exists>g' old ws. compact list_dash example_weighted_graph = (Ok g', old) \<and>
    base_row_weights g' (NodeId 0) = Some ws"
  using compact_preserves_weights [OF wf_example_weighted_graph compactable_example_weighted _
      example_weighted_neighbors]
  by (auto simp: example_weighted_graph_def shard_has_weights_def)

lemma build_bad_id:
  assumes "e \<in> set (b_edges b)" "u32_max < unat (fst e) \<or> u32_max < unat (snd e)"
  shows "\<exists>x y. build D b = Err (InvalidEdge x y)"
proof -
  have "\<exists>x y. validate_edge_ids es = Err (InvalidEdge x y)"
    if "e \<in> set es" for es
    using that assms(2) by (induction es rule: validate_edge_ids.induct) auto
  with assms(1) have "\<exists>x y. validate_edge_ids (b_edges b) = Err (InvalidEdge x y)" by blast
  then show ?thesis using assms(1) by (auto simp: build_def)
qed

text \<open>
  a failed compaction loses data: when an inserted edge has an identifier above 32
  bits the compaction is rejected as an invalid edge, yet the delta layer has already been
  drained, so the edge that was there before the call is gone after it.
\<close>

theorem failed_compaction_loses_mutations:
  assumes "wf_graph D g" "(a, b) \<in> dom (inserted D (delta g))"
    and "u32_max < unat (as_u64 a) \<or> u32_max < unat (as_u64 b)"
  shows "\<exists>x y old. compact D g = (Err (InvalidEdge x y), old) \<and>
    has_edge D g a b = Ok True \<and> has_edge D old a b = Ok False"
proof -
  note wf = wf_graphD [OF assms(1)]
  have edge: "(a, b) \<in> graph_edges D g" using assms(2) by (simp add: graph_edges_def)
  have nb: "(a, b) \<notin> base_edges g"
    using base_edges_bound [OF wf(1), of a b] wf(1) assms(3) by (auto simp: wf_base_def u32_max_def)
  from edge obtain w where "((a, b), w) \<in> set (collected D g)"
    using mem_collected [OF assms(1)] by (metis (no_types, lifting) imageE prod.collapse)
  then have "(as_u64 a, as_u64 b) \<in> set (b_edges (compact_builder D g))"
    by (force simp: compact_builder_edges edge_ids_def)
  then obtain x y where e: "build D (compact_builder D g) = Err (InvalidEdge x y)"
    using build_bad_id [of _ "compact_builder D g"] assms(3) by fastforce
  obtain d where d: "compact D g = (build D (compact_builder D g), g\<lparr>delta := d\<rparr>)"
    "inserted D d = Map.empty" "deleted D d = {}"
    using compact_eq [OF assms(1)] by blast
  have "wf_graph D (g\<lparr>delta := d\<rparr>)"
    using assms(1) d(2,3) wf(3) by (simp add: wf_graph_def wf_delta_def)
  then have "has_edge D (g\<lparr>delta := d\<rparr>) a b = Ok False"
    using nb d(2) by (simp add: has_edge_Ok graph_edges_def)
  then show ?thesis using d(1) e edge has_edge_Ok [OF assms(1), of a b] by auto
qed

definition example_overflow_graph ::
  "((edge_key \<times> edge_data) list, edge_key list) csr_graph" where
  "example_overflow_graph = example_graph\<lparr>delta :=
     delta_insert list_dash (NodeId 0) (NodeId (2 ^ 40)) edge_data_default (delta_new list_dash)\<rparr>"

lemma example_overflow_graph_props:
  "wf_graph list_dash example_overflow_graph"
  "(NodeId 0, NodeId (2 ^ 40)) \<in> dom (inserted list_dash (delta example_overflow_graph))"
  "u32_max < unat (as_u64 (NodeId (2 ^ 40)))"
  using wf_example_graph
  by (simp_all add: example_overflow_graph_def wf_graph_def wf_delta_insert list_dash_laws u32_max_def)

theorem failed_compaction_loses_mutations_witness:
  "\<exists>x y old. compact list_dash example_overflow_graph = (Err (InvalidEdge x y), old) \<and>
     has_edge list_dash old (NodeId 0) (NodeId (2 ^ 40)) = Ok False"
  using failed_compaction_loses_mutations [OF example_overflow_graph_props(1,2)
      disjI2 [OF example_overflow_graph_props(3)]]
  by blast

lemma count_filter_snd:
  "count_list (map (\<lambda>p. snd (fst p)) (filter (\<lambda>p. fst (fst p) = a) C)) b =
   length (filter (\<lambda>p. fst p = (a, b)) C)"
  by (induction C) auto

lemma count_filter_fst:
  "count_list (map (\<lambda>p. fst (fst p)) (filter (\<lambda>p. snd (fst p) = b) C)) a =
   length (filter (\<lambda>p. fst p = (a, b)) C)"
  by (induction C) auto

text \<open>What \<open>transpose\<close> builds from.\<close>

lemma transpose_builds:
  assumes "wf_graph D g" "compactable D g"
  defines "b \<equiv> with_edges (map (\<lambda>p. (as_u64 (snd (fst p)), as_u64 (fst (fst p)))) (collected D g)) builder_new"
  shows "transpose D g = build D b" "buildable b" "length (built_edges b) = length (collected D g)"
proof -
  let ?swap = "\<lambda>p :: edge_key \<times> f32. (as_u64 (snd (fst p)), as_u64 (fst (fst p)))"
  have swap: "(\<lambda>((a, b), w). emit_reversed a b w) = ?swap"
    by (auto simp: fun_eq_iff emit_reversed_def)
  show "transpose D g = build D b"
    using scans_collect [OF assms(1), of "delta g" emit_reversed]
    by (simp add: b_def transpose_def swap delta_snapshot_deletions_def delta_snapshot_insertions_def
        collected_def Let_def flip: deleted_def)
  have "length (collected D g) \<le> u32_max"
    using length_collected [OF assms(1)] assms(2) by (simp add: compactable_def)
  moreover have "\<forall>e \<in> set (map ?swap (collected D g)). unat (fst e) < u32_max \<and> unat (snd e) < u32_max"
    using collected_ids [OF assms(1,2)] by simp
  ultimately show "buildable b"
    unfolding b_def buildable_def built_edges_plain by (simp add: default_shard_size_def usize_max_def)
  show "length (built_edges b) = length (collected D g)" by (simp add: b_def built_edges_plain)
qed

lemma transpose_Ok:
  assumes "wf_graph D g" "compactable D g"
  obtains g' where "transpose D g = Ok g'" "wf_graph D g'" "delta g' = delta_new D"
    "node_count g' \<le> u32_max"
    "\<And>a b. count_list (neighbor_list D g' b) a = count_list (neighbor_list D g a) b"
proof -
  note wf = wf_graphD [OF assms(1)]
  let ?es = "map (\<lambda>p. (as_u64 (snd (fst p)), as_u64 (fst (fst p)))) (collected D g)"
  let ?b = "with_edges ?es builder_new"
  note t = transpose_builds(1) [OF assms] and ok = transpose_builds(2) [OF assms]
  have ids: "\<forall>e \<in> set ?es. unat (fst e) < u32_max \<and> unat (snd e) < u32_max"
    using collected_ids [OF assms] by simp
  obtain g' where g': "build D ?b = Ok g'" "wf_graph D g'" "delta g' = delta_new D"
    "node_count g' = built_node_count ?b"
    using ok wf(3) by (rule build_spec)
  have nl: "neighbor_list D g' b = map (\<lambda>p. fst (fst p)) (filter (\<lambda>p. snd (fst p) = b) (collected D g))"
    for b
  proof -
    have key: "(\<lambda>p. as_u64 (snd (fst p)) = as_u64 b) = (\<lambda>p :: edge_key \<times> f32. snd (fst p) = b)"
      by (auto simp: fun_eq_iff node_id.expand)
    show ?thesis
      using build_neighbor_list [OF ok wf(3) g'(1), of "as_u64 b"]
      by (simp add: edges_from_def built_edges_plain filter_map comp_def key)
  qed
  have count: "count_list (neighbor_list D g' b) a = count_list (neighbor_list D g a) b" for a b
    unfolding nl collected_neighbors [OF assms(1), symmetric] count_filter_snd count_filter_fst ..
  have "built_node_count ?b \<le> u32_max"
  proof -
    have "\<forall>e \<in> fst ` set (built_edges ?b). unat (fst e) < u32_max \<and> unat (snd e) < u32_max"
      using ids by (simp add: built_edges_plain)
    then have "unat (max_node_id (b_edges (sort_edges ?b))) < u32_max"
      unfolding sort_edges_props(4) [symmetric]
      by (intro unat_max_node_id_less) (blast, simp add: u32_max_def)
    then show ?thesis by (simp add: built_node_count_def)
  qed
  then show thesis using that [of g'] t g' count by simp
qed

text \<open>
  C25: the transpose of a compactable graph always builds; a node is a neighbour of another
  in it exactly as often as the other way round in the graph, live insertions and
  tombstones included, so \<open>has_edge\<close> answers with its arguments swapped.
\<close>

theorem transpose_reverses:
  assumes "wf_graph D g" "compactable D g"
  shows "\<exists>g' ins outs. transpose D g = Ok g' \<and> wf_graph D g' \<and> delta_is_empty D (delta g') \<and>
    neighbors D g' b = Ok ins \<and> neighbors D g a = Ok outs \<and>
    count_list ins a = count_list outs b \<and> has_edge D g' b a = has_edge D g a b"
proof -
  note wf = wf_graphD [OF assms(1)]
  obtain g' where g': "transpose D g = Ok g'" "wf_graph D g'" "delta g' = delta_new D"
    "\<And>a b. count_list (neighbor_list D g' b) a = count_list (neighbor_list D g a) b"
    using transpose_Ok [OF assms] by metis
  have "a \<in> set (neighbor_list D g' b) \<longleftrightarrow> b \<in> set (neighbor_list D g a)"
    using g'(4) by (metis count_list_0_iff)
  then have "has_edge D g' b a = has_edge D g a b"
    using set_neighbor_list [OF wf(3)] g'(2) assms(1) by (simp add: has_edge_Ok)
  then show ?thesis
    using g' wf neighbors_Ok [OF wf(1)] neighbors_Ok [OF wf_graphD(1) [OF g'(2)]]
    by (simp add: delta_is_empty_iff)
qed

theorem transpose_reverses_witness:
  "\<exists>g' ins outs. transpose list_dash example_graph = Ok g' \<and>
     neighbors list_dash g' (NodeId 2) = Ok ins \<and>
     neighbors list_dash example_graph (NodeId 0) = Ok outs \<and>
     count_list ins (NodeId 0) = count_list outs (NodeId 2)"
  using transpose_reverses [OF wf_example_graph compactable_example, of "NodeId 2" "NodeId 0"]
  by blast

end
