(* ===== verification/Marking.thy ===== *)
theory Marking
  imports Prelude
begin

text \<open>
  Bit sets stored in 64-bit words, the representation that \<open>bitset.rs\<close>, the visited
  tracker of \<open>bfs.rs\<close>, \<open>dobfs.rs\<close> and the SIMD filters share, and the interface of a
  marked set: what a traversal relies on when it marks nodes.
\<close>

section \<open>Bit sets in 64-bit words\<close>

text \<open>\<open>words[i / 64] \<and> (1 << (i % 64)) \<noteq> 0\<close>, and the matching update.\<close>

definition shl1 :: "nat \<Rightarrow> u64" where
  "shl1 b = push_bit b 1"

definition word_test :: "u64 \<Rightarrow> nat \<Rightarrow> bool" where
  "word_test w b \<longleftrightarrow> w AND shl1 b \<noteq> 0"

definition bits_of :: "u64 list \<Rightarrow> nat set" where
  "bits_of ws = {i. i div 64 < length ws \<and> bit (ws ! (i div 64)) (i mod 64)}"

lemma bit_shl1 [simp]: "bit (shl1 b) n \<longleftrightarrow> n = b \<and> n < 64"
  by (auto simp: shl1_def bit_simps)

lemma word_test_iff: "b < 64 \<Longrightarrow> word_test w b \<longleftrightarrow> bit w b"
proof -
  assume b: "b < 64"
  have "bit (w AND shl1 b) b \<longleftrightarrow> bit w b" using b by (simp add: bit_and_iff)
  moreover have "w AND shl1 b = 0" if "\<not> bit w b"
    by (rule bit_word_eqI) (use that in \<open>auto simp: bit_and_iff\<close>)
  ultimately show ?thesis by (auto simp: word_test_def)
qed

lemma word_test_bits_of:
  "i div 64 < length ws \<Longrightarrow> word_test (ws ! (i div 64)) (i mod 64) \<longleftrightarrow> i \<in> bits_of ws"
  by (simp add: word_test_iff bits_of_def)

lemma bit_or_shl1: "b < 64 \<Longrightarrow> bit (w OR shl1 b) n \<longleftrightarrow> bit w n \<or> n = b"
  by (auto simp: bit_or_iff)

lemma bit_and_not_shl1: "n < 64 \<Longrightarrow> bit (w AND NOT (shl1 b)) n \<longleftrightarrow> bit w n \<and> n \<noteq> b"
  by (auto simp: bit_and_iff bit_not_iff)

lemma div_mod_64_eqI: "j div 64 = i div 64 \<Longrightarrow> j mod 64 = i mod 64 \<Longrightarrow> j = (i::nat)"
  by (metis div_mult_mod_eq)

lemma bits_of_set:
  "i div 64 < length ws \<Longrightarrow>
   bits_of (ws[i div 64 := ws ! (i div 64) OR shl1 (i mod 64)]) = insert i (bits_of ws)"
  by (auto simp: bits_of_def nth_list_update bit_or_shl1 split: if_splits
      dest: div_mod_64_eqI)

lemma bits_of_clear:
  "i div 64 < length ws \<Longrightarrow>
   bits_of (ws[i div 64 := ws ! (i div 64) AND NOT (shl1 (i mod 64))]) = bits_of ws - {i}"
  by (auto simp: bits_of_def nth_list_update bit_and_not_shl1 split: if_splits dest: div_mod_64_eqI)

lemma bits_of_replicate_0 [simp]: "bits_of (replicate n 0) = {}"
  by (simp add: bits_of_def)

lemma bits_of_Nil [simp]: "bits_of [] = {}"
  by (simp add: bits_of_def)

lemma bits_of_Cons: "bits_of (w # ws) = {i. i < 64 \<and> bit w i} \<union> (\<lambda>i. i + 64) ` bits_of ws"
proof (rule set_eqI)
  fix i
  show "i \<in> bits_of (w # ws) \<longleftrightarrow> i \<in> {i. i < 64 \<and> bit w i} \<union> (\<lambda>i. i + 64) ` bits_of ws"
  proof (cases "i < 64")
    case True
    then show ?thesis by (auto simp: bits_of_def)
  next
    case False
    then obtain j where j: "i = j + 64" by (metis le_add_diff_inverse2 not_less)
    then have "i div 64 = Suc (j div 64)" "i mod 64 = j mod 64" by auto
    with j show ?thesis by (auto simp: bits_of_def)
  qed
qed

lemma finite_bits_of [simp]: "finite (bits_of ws)"
proof (rule finite_subset)
  show "bits_of ws \<subseteq> {..< 64 * length ws}" by (auto simp: bits_of_def)
qed simp

section \<open>First occurrences\<close>

text \<open>
  \<open>fresh A xs\<close>: the elements of \<open>xs\<close> outside \<open>A\<close>, each once, in order.  It is what a
  loop that marks its elements and keeps the newly marked ones collects.
\<close>

fun fresh :: "'k set \<Rightarrow> 'k list \<Rightarrow> 'k list" where
  "fresh A [] = []"
| "fresh A (x # xs) = (if x \<in> A then fresh A xs else x # fresh (insert x A) xs)"

lemma set_fresh [simp]: "set (fresh A xs) = set xs - A"
  by (induction xs arbitrary: A) auto

lemma distinct_fresh [simp]: "distinct (fresh A xs)"
  by (induction xs arbitrary: A) auto

lemma fresh_disjoint: "x \<in> set (fresh A xs) \<Longrightarrow> x \<notin> A"
  by simp

lemma fresh_filter:
  "(\<And>x. x \<in> set xs \<Longrightarrow> \<not> P x \<Longrightarrow> x \<in> A) \<Longrightarrow> fresh A (filter P xs) = fresh A xs"
  by (induction xs arbitrary: A) auto

section \<open>The interface of a marked set\<close>

text \<open>
  A traversal marks nodes and asks whether each was new.  \<open>accepts s k\<close> says that the
  structure can hold \<open>k\<close>; the contract is that marking never fails there, answers
  whether \<open>k\<close> was unmarked, and adds exactly \<open>k\<close>.
\<close>

locale marked_set =
  fixes inv :: "'s \<Rightarrow> bool"
    and view :: "'s \<Rightarrow> 'k set"
    and accepts :: "'s \<Rightarrow> 'k \<Rightarrow> bool"
    and mark :: "'s \<Rightarrow> 'k \<Rightarrow> ('e, bool \<times> 's) res"
  assumes mark_Ok: "inv s \<Longrightarrow> accepts s k \<Longrightarrow>
      \<exists>s'. mark s k = Ok (k \<notin> view s, s') \<and> inv s' \<and> view s' = insert k (view s) \<and>
           accepts s' = accepts s"

text \<open>Marking a list, keeping the newly marked elements.\<close>

fun mark_all ::
  "('s \<Rightarrow> 'k \<Rightarrow> ('e, bool \<times> 's) res) \<Rightarrow> 's \<Rightarrow> 'k list \<Rightarrow> ('e, 'k list \<times> 's) res" where
  "mark_all mark s [] = Ok ([], s)"
| "mark_all mark s (k # ks) =
     bind_res (mark s k) (\<lambda>(new, s').
       map_res (\<lambda>(ns, t). (if new then k # ns else ns, t)) (mark_all mark s' ks))"

context marked_set begin

lemma mark_all_fresh:
  "inv s \<Longrightarrow> (\<And>k. k \<in> set ks \<Longrightarrow> accepts s k) \<Longrightarrow>
   \<exists>t. mark_all mark s ks = Ok (fresh (view s) ks, t) \<and> inv t \<and>
       view t = view s \<union> set ks \<and> accepts t = accepts s"
proof (induction ks arbitrary: s)
  case (Cons k ks)
  from Cons.prems mark_Ok [of s k] obtain s' where s':
    "mark s k = Ok (k \<notin> view s, s')" "inv s'" "view s' = insert k (view s)"
    "accepts s' = accepts s" by auto
  with Cons.prems have "\<And>k. k \<in> set ks \<Longrightarrow> accepts s' k" by simp
  from Cons.IH [OF s'(2) this] s' show ?case by (auto simp: insert_absorb)
qed simp

lemma mark_twice:
  assumes "inv s" "accepts s k" "mark s k = Ok (b, s')"
  shows "\<exists>s''. mark s' k = Ok (False, s'')"
proof -
  from mark_Ok [OF assms(1,2)] assms(3) have "inv s'" "k \<in> view s'" "accepts s' = accepts s"
    by auto
  with mark_Ok [of s' k] assms(2) show ?thesis by auto
qed

text \<open>Each key is reported new exactly once, whatever the order of the calls.\<close>

lemma mark_all_once:
  assumes "inv s" "\<And>k. k \<in> set ks \<Longrightarrow> accepts s k" "mark_all mark s ks = Ok (ns, t)"
  shows "distinct ns \<and> set ns = set ks - view s \<and> view t = view s \<union> set ks"
proof -
  from mark_all_fresh [of s ks] assms(1,2) obtain t' where
    "mark_all mark s ks = Ok (fresh (view s) ks, t')" "view t' = view s \<union> set ks"
    by blast
  with assms(3) show ?thesis by auto
qed

end

end
