(* ===== verification/Bitset.thy ===== *)
theory Bitset
  imports Errors Marking
begin

text \<open>
  \<open>AtomicBitset\<close> (\<open>traversal/bitset.rs\<close>).  Every operation is one atomic access per
  word, so a concurrent history is a sequence of these operations; the interpretation of
  \<^const>\<open>marked_set\<close> gives that each bit is reported new to exactly one caller.
\<close>

record atomic_bitset =
  bits :: "u64 list"
  capacity :: usize

definition bitset_new :: "usize \<Rightarrow> atomic_bitset" where
  "bitset_new n = \<lparr>bits = replicate (div_ceil n 64) 0, capacity = n\<rparr>"

definition bitset_capacity :: "atomic_bitset \<Rightarrow> usize" where
  "bitset_capacity s = capacity s"

definition bitset_test :: "atomic_bitset \<Rightarrow> usize \<Rightarrow> bool result" where
  "bitset_test s i =
     (if capacity s \<le> i then Ok False
      else bind_res (index_vec (bits s) (i div 64)) (\<lambda>w.
        Ok (w AND shl1 (i mod 64) \<noteq> 0)))"

definition bitset_test_and_set ::
  "atomic_bitset \<Rightarrow> usize \<Rightarrow> (bool \<times> atomic_bitset) result" where
  "bitset_test_and_set s i =
     (if capacity s \<le> i then Ok (False, s)
      else let mask = shl1 (i mod 64) in
        bind_res (index_vec (bits s) (i div 64)) (\<lambda>old.
          Ok (old AND mask = 0, s\<lparr>bits := (bits s)[i div 64 := old OR mask]\<rparr>)))"

definition bitset_set :: "atomic_bitset \<Rightarrow> usize \<Rightarrow> atomic_bitset result" where
  "bitset_set s i =
     (if capacity s \<le> i then Ok s
      else bind_res (index_vec (bits s) (i div 64)) (\<lambda>w.
        Ok (s\<lparr>bits := (bits s)[i div 64 := w OR shl1 (i mod 64)]\<rparr>)))"

definition bitset_clear :: "atomic_bitset \<Rightarrow> atomic_bitset" where
  "bitset_clear s = s\<lparr>bits := map (\<lambda>_. 0) (bits s)\<rparr>"

definition bitset_as_raw :: "atomic_bitset \<Rightarrow> u64 list" where
  "bitset_as_raw s = bits s"

fun popcount :: "nat \<Rightarrow> u64 \<Rightarrow> nat" where
  "popcount 0 w = 0"
| "popcount (Suc n) w = popcount n w + (if bit w n then 1 else 0)"

definition bitset_count_ones :: "atomic_bitset \<Rightarrow> usize" where
  "bitset_count_ones s = sum_list (map (popcount 64) (bits s))"

section \<open>Invariant\<close>

definition wf_bitset :: "atomic_bitset \<Rightarrow> bool" where
  "wf_bitset s \<longleftrightarrow> length (bits s) = div_ceil (capacity s) 64 \<and>
     (\<forall>i \<in> bits_of (bits s). i < capacity s)"

definition bitset_view :: "atomic_bitset \<Rightarrow> nat set" where
  "bitset_view s = bits_of (bits s)"

lemma wf_bitset_word: "wf_bitset s \<Longrightarrow> i < capacity s \<Longrightarrow> i div 64 < length (bits s)"
  by (simp add: wf_bitset_def div_less_div_ceil)

lemma wf_bitset_new [simp]: "wf_bitset (bitset_new n)"
  by (simp add: wf_bitset_def bitset_new_def)

lemma bitset_view_new [simp]: "bitset_view (bitset_new n) = {}"
  by (simp add: bitset_view_def bitset_new_def)

lemma card_bits_of: "card (bits_of ws) = sum_list (map (popcount 64) ws)"
proof (induction ws)
  case (Cons w ws)
  have pc: "popcount n w = card {i. i < n \<and> bit w i}" for n
  proof (induction n)
    case (Suc n)
    have "{i. i < Suc n \<and> bit w i} =
      (if bit w n then insert n {i. i < n \<and> bit w i} else {i. i < n \<and> bit w i})"
      by (auto simp: less_Suc_eq)
    with Suc show ?case by simp
  qed simp
  have "card (bits_of (w # ws)) =
      card {i. i < 64 \<and> bit w i} + card ((\<lambda>i. i + 64) ` bits_of ws)"
    unfolding bits_of_Cons by (rule card_Un_disjoint) auto
  also have "card ((\<lambda>i. i + 64) ` bits_of ws) = card (bits_of ws)"
    by (rule card_image) (simp add: inj_on_def)
  finally show ?case by (simp add: pc Cons)
qed simp

lemma bitset_mark_Ok:
  assumes "wf_bitset s" "i < capacity s"
  shows "\<exists>s'. bitset_test_and_set s i = Ok (i \<notin> bitset_view s, s') \<and> wf_bitset s' \<and>
     bitset_view s' = insert i (bitset_view s) \<and> capacity s' = capacity s"
proof -
  note w = wf_bitset_word [OF assms]
  from word_test_bits_of [OF w] bits_of_set [OF w] w assms show ?thesis
    by (auto simp: bitset_test_and_set_def Let_def word_test_def bitset_view_def wf_bitset_def)
qed

interpretation bitset: marked_set wf_bitset bitset_view "\<lambda>s i. i < capacity s"
  bitset_test_and_set
  by unfold_locales (drule (1) bitset_mark_Ok, auto)

section \<open>Properties\<close>

text \<open>
  C32: on a fresh \<open>AtomicBitset\<close> with capacity \<open>n\<close>, any sequence of \<open>test_and_set\<close>
  calls on indices below \<open>n\<close> runs without panic, reports each index as newly set exactly
  once (to its first caller), and leaves \<open>count_ones\<close> equal to the number of distinct
  indices.
\<close>

theorem bitset_marks_each_index_once:
  assumes "\<forall>i \<in> set is. i < n"
  shows "\<exists>s. mark_all bitset_test_and_set (bitset_new n) is = Ok (fresh {} is, s) \<and>
     (\<forall>i. bitset_test s i = Ok (i \<in> set is)) \<and>
     bitset_count_ones s = card (set is)"
proof -
  have cap: "capacity (bitset_new n) = n" by (simp add: bitset_new_def)
  from bitset.mark_all_fresh [of "bitset_new n" "is"] assms obtain s where s:
    "mark_all bitset_test_and_set (bitset_new n) is = Ok (fresh {} is, s)" "wf_bitset s"
    "bitset_view s = set is" "(\<lambda>i. i < capacity s) = (\<lambda>i. i < n)"
    by (auto simp: cap)
  from fun_cong [OF s(4), of n] fun_cong [OF s(4), of "capacity s"]
  have "capacity s = n" by simp
  with s assms have "bitset_test s i = Ok (i \<in> set is)" for i
    using wf_bitset_word [of s i] word_test_bits_of [of i "bits s"]
    by (auto simp: bitset_test_def bitset_view_def word_test_def)
  with s show ?thesis
    by (auto simp: bitset_count_ones_def bitset_view_def simp flip: card_bits_of)
qed

theorem bitset_marks_each_index_once_witness:
  "\<exists>s. mark_all bitset_test_and_set (bitset_new 100) [42, 63, 64, 42] = Ok ([42, 63, 64], s) \<and>
     (\<forall>i. bitset_test s i = Ok (i \<in> {42, 63, 64})) \<and> bitset_count_ones s = 3"
  using bitset_marks_each_index_once [of "[42, 63, 64, 42]" 100]
  by (simp del: mark_all.simps add: insert_commute numeral_3_eq_3)

text \<open>\<open>set\<close> is \<open>test_and_set\<close> without the answer, \<open>clear\<close> empties the set.\<close>

lemma bitset_set_eq_test_and_set:
  "bitset_set s i = map_res snd (bitset_test_and_set s i)"
  by (auto simp: bitset_set_def bitset_test_and_set_def index_vec_def Let_def)

lemma bitset_clear_view:
  "wf_bitset s \<Longrightarrow> wf_bitset (bitset_clear s) \<and> bitset_view (bitset_clear s) = {}"
  by (auto simp: wf_bitset_def bitset_clear_def bitset_view_def map_replicate_const)

lemma bitset_set_all:
  assumes "\<forall>i \<in> set is. i < n"
  shows "\<exists>s. fold_res bitset_set (bitset_new n) is = Ok s \<and> wf_bitset s \<and> bitset_count_ones s = card (set is)"
proof -
  have "\<exists>s. fold_res bitset_set (bitset_new n) is = Ok s \<and>
      wf_bitset s \<and> capacity s = n \<and> bitset_view s = set is"
    if "set is \<subseteq> {..<n}"
    using that
  proof (induction "is" rule: rev_induct)
    case Nil
    then show ?case by (simp add: bitset_new_def [of n, THEN arg_cong [of _ _ capacity]])
  next
    case (snoc i js)
    then obtain s where s: "fold_res bitset_set (bitset_new n) js = Ok s" "wf_bitset s"
      "capacity s = n" "bitset_view s = set js" by auto
    with bitset_mark_Ok [of s i] snoc.prems show ?case
      by (auto simp: fold_res_append bitset_set_eq_test_and_set [of s i])
  qed
  with assms show ?thesis
    by (force simp: bitset_count_ones_def bitset_view_def simp flip: card_bits_of)
qed

lemma popcount_zero [simp]: "popcount n (0 :: u64) = 0"
  by (induction n) simp_all

lemma bitset_clear_count [simp]: "bitset_count_ones (bitset_clear s) = 0"
  by (simp add: bitset_count_ones_def bitset_clear_def map_replicate_const sum_list_replicate)

end
