(* ===== verification/Simd.thy ===== *)
theory Simd
  imports Errors Marking
begin

text \<open>
  The visited-set filters of \<open>traversal/simd.rs\<close>: the scalar reference, the NEON and AVX2
  kernels written out lane by lane, the dispatch, and the interface every backend
  implements.  A vector register is the list of its lanes; each intrinsic is modelled by
  the definition its instruction has on those lanes.
\<close>

section \<open>Dense indices\<close>

definition node_id_to_dense_index :: "node_id \<Rightarrow> u32 option" where
  "node_id_to_dense_index node = u32_of_u64 (as_u64 node)"

definition dense_index_to_node_id :: "u32 \<Rightarrow> node_id" where
  "dense_index_to_node_id index = node_new (ucast index)"

section \<open>The scalar reference\<close>

text \<open>Appends the unvisited indices to \<open>out\<close>; the index conversion to \<open>usize\<close> is \<open>unat\<close>.\<close>

fun scalar_filter_into_no_clear :: "u32 list \<Rightarrow> u64 list \<Rightarrow> u32 list \<Rightarrow> u32 list" where
  "scalar_filter_into_no_clear [] visited out = out"
| "scalar_filter_into_no_clear (n # ns) visited out =
     (let word_idx = unat (n div 64); bit_idx = unat (n mod 64) in
      if word_idx < length visited \<and> visited ! word_idx AND shl1 bit_idx = 0
      then scalar_filter_into_no_clear ns visited (out @ [n])
      else scalar_filter_into_no_clear ns visited out)"

definition scalar_filter_into :: "u32 list \<Rightarrow> u64 list \<Rightarrow> u32 list \<Rightarrow> u32 list" where
  "scalar_filter_into neighbors visited out = scalar_filter_into_no_clear neighbors visited []"

text \<open>\<open>chunks_exact(k)\<close>: the full chunks of length \<open>k\<close> and the remainder.\<close>

function chunks_exact :: "nat \<Rightarrow> 'a list \<Rightarrow> 'a list list \<times> 'a list" where
  "chunks_exact k xs =
     (if 0 < k \<and> k \<le> length xs
      then let (cs, r) = chunks_exact k (drop k xs) in (take k xs # cs, r)
      else ([], xs))"
  by pat_completeness auto
termination by (relation "measure (\<lambda>(k, xs). length xs)") auto

declare chunks_exact.simps [simp del]

section \<open>NEON\<close>

type_synonym lanes64 = "u64 list"

definition vld1q_u32 :: "u32 list \<Rightarrow> u32 list" where
  "vld1q_u32 p = take 4 p"

definition vmovl_low_u32 :: "u32 list \<Rightarrow> lanes64" where
  "vmovl_low_u32 v = map ucast (take 2 v)"

definition vmovl_high_u32 :: "u32 list \<Rightarrow> lanes64" where
  "vmovl_high_u32 v = map ucast (drop 2 v)"

definition vdupq_n_u64 :: "u64 \<Rightarrow> lanes64" where
  "vdupq_n_u64 x = [x, x]"

definition vandq_u64 :: "lanes64 \<Rightarrow> lanes64 \<Rightarrow> lanes64" where
  "vandq_u64 a b = map2 (AND) a b"

definition vsetq_lane_u64 :: "u64 \<Rightarrow> lanes64 \<Rightarrow> nat \<Rightarrow> lanes64" where
  "vsetq_lane_u64 x v lane = v[lane := x]"

definition vnegq_s64 :: "lanes64 \<Rightarrow> lanes64" where
  "vnegq_s64 v = map uminus v"

text \<open>\<open>USHL\<close>: shift each lane by the signed low byte of the other operand's lane.\<close>

definition ushl :: "u64 \<Rightarrow> u64 \<Rightarrow> u64" where
  "ushl w s = (let k = sint (ucast s :: 8 word) in
     if 0 \<le> k then push_bit (nat k) w else drop_bit (nat (- k)) w)"

definition vshlq_u64 :: "lanes64 \<Rightarrow> lanes64 \<Rightarrow> lanes64" where
  "vshlq_u64 w s = map2 ushl w s"

definition neon_chunk :: "u64 list \<Rightarrow> u32 list \<Rightarrow> u32 list \<Rightarrow> u32 list" where
  "neon_chunk visited chunk out =
     (let words_len = (of_nat (length visited) :: u32);
          w0 = drop_bit 6 (chunk ! 0); w1 = drop_bit 6 (chunk ! 1);
          w2 = drop_bit 6 (chunk ! 2); w3 = drop_bit 6 (chunk ! 3) in
      if words_len \<le> w0 \<or> words_len \<le> w1 \<or> words_len \<le> w2 \<or> words_len \<le> w3
      then scalar_filter_into_no_clear chunk visited out
      else
        let idx = vld1q_u32 chunk;
            bit_mask = vdupq_n_u64 63;
            bits_lo = vandq_u64 (vmovl_low_u32 idx) bit_mask;
            bits_hi = vandq_u64 (vmovl_high_u32 idx) bit_mask;
            w_lo = vsetq_lane_u64 (visited ! unat w1) (vdupq_n_u64 (visited ! unat w0)) 1;
            w_hi = vsetq_lane_u64 (visited ! unat w3) (vdupq_n_u64 (visited ! unat w2)) 1;
            sh_lo = vnegq_s64 bits_lo;
            sh_hi = vnegq_s64 bits_hi;
            one = vdupq_n_u64 1;
            t_lo = vandq_u64 (vshlq_u64 w_lo sh_lo) one;
            t_hi = vandq_u64 (vshlq_u64 w_hi sh_hi) one;
            out0 = (if t_lo ! 0 = 0 then out @ [chunk ! 0] else out);
            out1 = (if t_lo ! 1 = 0 then out0 @ [chunk ! 1] else out0);
            out2 = (if t_hi ! 0 = 0 then out1 @ [chunk ! 2] else out1)
        in if t_hi ! 1 = 0 then out2 @ [chunk ! 3] else out2)"

definition neon_filter_into :: "u32 list \<Rightarrow> u64 list \<Rightarrow> u32 list \<Rightarrow> u32 list" where
  "neon_filter_into neighbors visited out =
     (let (chunks, remainder) = chunks_exact 4 neighbors;
          out' = fold (neon_chunk visited) chunks []
      in scalar_filter_into_no_clear remainder visited out')"

section \<open>AVX2\<close>

definition mm256_loadu :: "u32 list \<Rightarrow> u32 list" where
  "mm256_loadu p = take 8 p"

definition mm256_srli_epi32 :: "nat \<Rightarrow> u32 list \<Rightarrow> u32 list" where
  "mm256_srli_epi32 k v = map (drop_bit k) v"

definition mm256_and_epi32 :: "u32 list \<Rightarrow> u32 list \<Rightarrow> u32 list" where
  "mm256_and_epi32 a b = map2 (AND) a b"

definition mm256_and_epi64 :: "lanes64 \<Rightarrow> lanes64 \<Rightarrow> lanes64" where
  "mm256_and_epi64 a b = map2 (AND) a b"

definition mm256_castlo :: "u32 list \<Rightarrow> u32 list" where
  "mm256_castlo v = take 4 v"

definition mm256_extract_hi :: "u32 list \<Rightarrow> u32 list" where
  "mm256_extract_hi v = drop 4 v"

text \<open>\<open>VPGATHERDQ\<close> with scale 8: the signed 32-bit index selects a 64-bit element.\<close>

definition mm256_i32gather_epi64 :: "u64 list \<Rightarrow> u32 list \<Rightarrow> lanes64" where
  "mm256_i32gather_epi64 base is = map (\<lambda>i. base ! nat (sint i)) is"

definition mm256_cvtepu32_epi64 :: "u32 list \<Rightarrow> lanes64" where
  "mm256_cvtepu32_epi64 v = map ucast v"

definition mm256_srlv_epi64 :: "lanes64 \<Rightarrow> lanes64 \<Rightarrow> lanes64" where
  "mm256_srlv_epi64 w s = map2 (\<lambda>x k. if k < 64 then drop_bit (unat k) x else 0) w s"

definition mm256_sub_epi64 :: "lanes64 \<Rightarrow> lanes64 \<Rightarrow> lanes64" where
  "mm256_sub_epi64 a b = map2 (-) a b"

text \<open>\<open>VMOVMSKPD\<close>: bit \<open>i\<close> of the result is the sign bit of lane \<open>i\<close>.\<close>

definition mm256_movemask_pd :: "lanes64 \<Rightarrow> u32" where
  "mm256_movemask_pd v = horner_sum of_bool 2 (map (\<lambda>x. bit x 63) v)"

definition avx2_chunk :: "u64 list \<Rightarrow> u32 list \<Rightarrow> u32 list \<Rightarrow> u32 list" where
  "avx2_chunk visited chunk out =
     (let words_len = (of_nat (length visited) :: u32) in
      if \<exists>n \<in> set chunk. words_len \<le> drop_bit 6 n
      then scalar_filter_into_no_clear chunk visited out
      else
        let idx = mm256_loadu chunk;
            word_idx = mm256_srli_epi32 6 idx;
            bit_idx = mm256_and_epi32 idx (replicate 8 63);
            words_lo = mm256_i32gather_epi64 visited (mm256_castlo word_idx);
            words_hi = mm256_i32gather_epi64 visited (mm256_extract_hi word_idx);
            bi_lo = mm256_cvtepu32_epi64 (mm256_castlo bit_idx);
            bi_hi = mm256_cvtepu32_epi64 (mm256_extract_hi bit_idx);
            one = replicate 4 1;
            t_lo = mm256_and_epi64 (mm256_srlv_epi64 words_lo bi_lo) one;
            t_hi = mm256_and_epi64 (mm256_srlv_epi64 words_hi bi_hi) one;
            m_lo = mm256_movemask_pd (mm256_sub_epi64 t_lo one);
            m_hi = mm256_movemask_pd (mm256_sub_epi64 t_hi one);
            unvisited = m_lo OR push_bit 4 m_hi
        in fold (\<lambda>(lane, n) out. if unvisited AND push_bit lane 1 \<noteq> 0 then out @ [n] else out)
             (enumerate 0 chunk) out)"

definition filter_avx2 :: "u32 list \<Rightarrow> u64 list \<Rightarrow> u32 list \<Rightarrow> u32 list" where
  "filter_avx2 neighbors visited out =
     (let (chunks, remainder) = chunks_exact 8 neighbors;
          out' = fold (avx2_chunk visited) chunks out
      in scalar_filter_into_no_clear remainder visited out')"

section \<open>Backends and dispatch\<close>

text \<open>The \<open>SimdBackend\<close> trait: name, batch size, and the filter into a buffer.\<close>

record simd_backend =
  be_name :: string
  be_batch_size :: usize
  be_filter_unvisited_into :: "u32 list \<Rightarrow> u64 list \<Rightarrow> u32 list \<Rightarrow> u32 list"

datatype target_arch = X86_64 | Aarch64 | OtherArch

record platform =
  target_arch :: target_arch
  has_avx512f :: bool
  has_avx2 :: bool

text \<open>A machine with AVX2, for examples.\<close>

definition example_platform :: platform where
  "example_platform = \<lparr>target_arch = X86_64, has_avx512f = False, has_avx2 = True\<rparr>"

definition scalar_backend :: simd_backend where
  "scalar_backend = \<lparr>be_name = ''scalar'', be_batch_size = 1,
     be_filter_unvisited_into = scalar_filter_into\<rparr>"

definition neon_backend :: simd_backend where
  "neon_backend = \<lparr>be_name = ''neon'', be_batch_size = 4,
     be_filter_unvisited_into = neon_filter_into\<rparr>"

definition avx2_filter_unvisited_into ::
  "platform \<Rightarrow> u32 list \<Rightarrow> u64 list \<Rightarrow> u32 list \<Rightarrow> u32 list" where
  "avx2_filter_unvisited_into P neighbors visited out =
     (if has_avx2 P then filter_avx2 neighbors visited []
      else scalar_filter_into_no_clear neighbors visited [])"

definition avx2_backend :: "platform \<Rightarrow> simd_backend" where
  "avx2_backend P = \<lparr>be_name = ''avx2'', be_batch_size = 8,
     be_filter_unvisited_into = avx2_filter_unvisited_into P\<rparr>"

definition avx512_backend :: "platform \<Rightarrow> simd_backend" where
  "avx512_backend P = \<lparr>be_name = ''avx512'', be_batch_size = 16,
     be_filter_unvisited_into = be_filter_unvisited_into (avx2_backend P)\<rparr>"

definition select_backend :: "platform \<Rightarrow> simd_backend" where
  "select_backend P = (case target_arch P of
     X86_64 \<Rightarrow> (if has_avx512f P then avx512_backend P
                 else if has_avx2 P then avx2_backend P else scalar_backend)
   | Aarch64 \<Rightarrow> scalar_backend
   | OtherArch \<Rightarrow> scalar_backend)"

definition backend_name :: "platform \<Rightarrow> string" where
  "backend_name P = (case target_arch P of
     X86_64 \<Rightarrow> (if has_avx512f P then ''avx512'' else if has_avx2 P then ''avx2'' else ''scalar'')
   | Aarch64 \<Rightarrow> ''scalar''
   | OtherArch \<Rightarrow> ''scalar'')"

text \<open>The trait's provided methods.\<close>

definition filter_unvisited :: "simd_backend \<Rightarrow> u32 list \<Rightarrow> u64 list \<Rightarrow> u32 list" where
  "filter_unvisited b neighbors visited = be_filter_unvisited_into b neighbors visited []"

fun set_visited_batch :: "u32 list \<Rightarrow> u64 list \<Rightarrow> u64 list" where
  "set_visited_batch [] visited = visited"
| "set_visited_batch (n # ns) visited =
     (let word_idx = unat (n div 64); bit_idx = unat (n mod 64) in
      set_visited_batch ns
        (if word_idx < length visited
         then visited[word_idx := visited ! word_idx OR shl1 bit_idx] else visited))"

section \<open>Word arithmetic of the lanes\<close>

definition is_unvisited :: "u64 list \<Rightarrow> u32 \<Rightarrow> bool" where
  "is_unvisited visited n \<longleftrightarrow> unat n div 64 < length visited \<and> unat n \<notin> bits_of visited"

lemma unat_div_64 [simp]: "unat (n div 64 :: u32) = unat n div 64"
  by (simp add: unat_div_distrib)

lemma unat_mod_64 [simp]: "unat (n mod 64 :: u32) = unat n mod 64"
  by (simp add: unat_mod_distrib)

lemma unat_srli_6 [simp]: "unat (drop_bit 6 n :: u32) = unat n div 64"
  by (simp add: unsigned_drop_bit_eq drop_bit_eq_div)

lemma and_63: "n AND 63 = (take_bit 6 n :: 'w::len word)"
proof -
  have "(63 :: 'w word) = mask 6" by (simp add: mask_eq_exp_minus_1)
  then show ?thesis by (simp only: take_bit_eq_mask)
qed

lemma unat_and_63 [simp]: "unat (n AND 63 :: 'w::len word) = unat n mod 64"
  by (simp only: and_63 unsigned_take_bit_eq) (simp add: take_bit_eq_mod)

lemma is_unvisited_word:
  "unat n div 64 < length visited \<Longrightarrow>
   is_unvisited visited n \<longleftrightarrow> \<not> bit (visited ! (unat n div 64)) (unat n mod 64)"
  by (simp add: is_unvisited_def bits_of_def)

lemma drop_bit_and_1: "drop_bit k w AND 1 = (of_bool (bit w k) :: 'w::len word)"
  by (simp add: and_one_eq bit_iff_odd_drop_bit mod_2_eq_odd)

section \<open>The scalar reference is a filter\<close>

lemma scalar_no_clear_eq:
  "scalar_filter_into_no_clear ns visited out = out @ filter (is_unvisited visited) ns"
proof (induction ns arbitrary: out)
  case (Cons n ns)
  have "(unat n div 64 < length visited \<and>
         visited ! (unat n div 64) AND shl1 (unat n mod 64) = 0) = is_unvisited visited n"
    using word_test_bits_of [of "unat n" visited] by (auto simp: is_unvisited_def word_test_def)
  with Cons show ?case by (simp add: Let_def)
qed simp

lemma scalar_filter_into_eq:
  "scalar_filter_into ns visited out = filter (is_unvisited visited) ns"
  by (simp add: scalar_filter_into_def scalar_no_clear_eq)

lemma chunks_exact_concat:
  "chunks_exact k xs = (cs, r) \<Longrightarrow> concat cs @ r = xs \<and> (\<forall>c \<in> set cs. length c = k)"
proof (induction k xs arbitrary: cs r rule: chunks_exact.induct)
  case (1 k xs)
  show ?case
  proof (cases "0 < k \<and> k \<le> length xs")
    case True
    obtain cs' r' where rec: "chunks_exact k (drop k xs) = (cs', r')" by fastforce
    with True "1.prems" have "cs = take k xs # cs'" "r = r'"
      by (auto simp: chunks_exact.simps [of k xs])
    with "1.IH" [OF True rec] True show ?thesis by auto
  next
    case False
    with "1.prems" show ?thesis by (auto simp: chunks_exact.simps [of k xs])
  qed
qed

lemma fold_append_filter:
  "(\<And>c out. c \<in> set cs \<Longrightarrow> f c out = out @ filter P c) \<Longrightarrow>
   fold f cs out = out @ filter P (concat cs)"
  by (induction cs arbitrary: out) auto

text \<open>Any kernel that handles full chunks as the scalar code does is the scalar filter.\<close>

lemma chunked_filter_eq:
  assumes "\<And>c out. length c = k \<Longrightarrow> f c out = out @ filter (is_unvisited visited) c"
  shows "(let (chunks, r) = chunks_exact k ns
          in scalar_filter_into_no_clear r visited (fold f chunks out)) =
         out @ filter (is_unvisited visited) ns"
proof -
  obtain cs r where c: "chunks_exact k ns = (cs, r)" by fastforce
  from chunks_exact_concat [OF c] have cs: "concat cs @ r = ns" "\<forall>c \<in> set cs. length c = k" by auto
  then have "fold f cs out = out @ filter (is_unvisited visited) (concat cs)"
    by (intro fold_append_filter assms) auto
  with c show ?thesis by (simp add: scalar_no_clear_eq flip: cs(1))
qed

section \<open>NEON equals scalar\<close>

lemma ushl_neg:
  assumes "k < 64"
  shows "ushl w (- of_nat k) = drop_bit k w"
proof -
  have "\<forall>k \<in> set [0..<64]. sint (ucast (- of_nat k :: u64) :: 8 word) = - int k"
    by code_simp
  with assms have "sint (ucast (- of_nat k :: u64) :: 8 word) = - int k" by simp
  then show ?thesis by (auto simp: ushl_def Let_def)
qed

lemma neon_lane:
  "ushl w (- (ucast (n :: u32) AND 63)) AND 1 = 0 \<longleftrightarrow> \<not> bit w (unat n mod 64)"
proof -
  have "ucast n AND 63 = (of_nat (unat n mod 64) :: u64)"
    by (rule word_eq_iff_unsigned [where 'a = nat, THEN iffD2]) (simp add: unat_of_nat)
  then have "ushl w (- (ucast n AND 63)) = drop_bit (unat n mod 64) w"
    by (simp add: ushl_neg)
  then show ?thesis by (simp add: drop_bit_and_1)
qed

lemma below_words_len:
  "\<not> (of_nat (length visited) :: u32) \<le> drop_bit 6 n \<Longrightarrow> unat n div 64 < length visited"
proof -
  assume "\<not> (of_nat (length visited) :: u32) \<le> drop_bit 6 n"
  then have "unat (drop_bit 6 n) < unat (of_nat (length visited) :: u32)"
    by (simp add: word_le_nat_alt)
  also have "\<dots> \<le> length visited" by (simp add: unat_of_nat)
  finally show ?thesis by simp
qed

lemma length_4_conv: "length c = 4 \<Longrightarrow> c = [c ! 0, c ! 1, c ! 2, c ! 3]"
  by (rule nth_equalityI) (auto simp: nth_Cons' numeral_eq_Suc less_Suc_eq)

lemma neon_chunk_eq:
  assumes "length c = 4"
  shows "neon_chunk visited c out = out @ filter (is_unvisited visited) c"
proof -
  from length_4_conv [OF assms] obtain a b d e where c: "c = [a, b, d, e]" by blast
  show ?thesis
  proof (cases "\<exists>n \<in> set c. (of_nat (length visited) :: u32) \<le> drop_bit 6 n")
    case True
    then show ?thesis by (auto simp: neon_chunk_def c Let_def scalar_no_clear_eq)
  next
    case False
    then have "\<forall>n \<in> set c. unat n div 64 < length visited" by (auto intro: below_words_len)
    with False show ?thesis
      by (simp add: neon_chunk_def c Let_def vld1q_u32_def vmovl_low_u32_def vmovl_high_u32_def
          vdupq_n_u64_def vandq_u64_def vsetq_lane_u64_def vnegq_s64_def vshlq_u64_def
          neon_lane is_unvisited_word)
  qed
qed

lemma neon_filter_eq: "neon_filter_into ns visited out = filter (is_unvisited visited) ns"
  using chunked_filter_eq [of 4 "neon_chunk visited" visited ns "[]", OF neon_chunk_eq]
  by (simp add: neon_filter_into_def Let_def split_def)

section \<open>AVX2 equals scalar\<close>

lemma sint_srli_6: "sint (drop_bit 6 n :: u32) = int (unat n div 64)"
proof -
  have u: "uint (drop_bit 6 n :: u32) = int (unat n div 64)"
    by (metis of_nat_unat unat_srli_6)
  have "unat n div 64 < 2 ^ 31"
    using unsigned_less [of n, where 'a = nat] by simp
  then have "uint (drop_bit 6 n :: u32) < 2 ^ 31" by (simp add: u)
  then have "signed_take_bit 31 (uint (drop_bit 6 n :: u32)) = uint (drop_bit 6 n :: u32)"
    by (intro signed_take_bit_int_eq_self) (simp_all add: order_trans [OF _ uint_ge_0])
  then show ?thesis by (simp add: sint_uint u)
qed

lemma avx2_lane:
  fixes w :: u64 and n :: u32
  defines "k \<equiv> (ucast (n AND 63) :: u64)"
  shows "bit (((if k < 64 then drop_bit (unat k) w else 0) AND 1) - 1) 63 \<longleftrightarrow>
         \<not> bit w (unat n mod 64)"
proof -
  have k: "unat k = unat n mod 64" by (simp add: k_def)
  then have "k < 64" by (simp add: word_less_nat_alt)
  then have t: "(if k < 64 then drop_bit (unat k) w else 0) AND 1 = of_bool (bit w (unat n mod 64))"
    by (simp add: k drop_bit_and_1)
  have "bit (of_bool b - 1 :: u64) 63 \<longleftrightarrow> \<not> b" for b by (cases b) simp_all
  then show ?thesis by (simp only: t)
qed

lemma bit_movemask: "bit (mm256_movemask_pd v) i \<longleftrightarrow> i < 32 \<and> i < length v \<and> bit (v ! i) 63"
  by (auto simp: mm256_movemask_pd_def bit_horner_sum_bit_word_iff)

lemma and_shl_neq_0:
  "lane < 32 \<Longrightarrow> (m AND push_bit lane 1 \<noteq> (0 :: u32)) \<longleftrightarrow> bit m lane"
proof -
  assume lane: "lane < 32"
  have b: "bit (push_bit lane 1 :: u32) i \<longleftrightarrow> i = lane" if "i < 32" for i
    using that lane by (auto simp: bit_exp_iff)
  have "bit (m AND push_bit lane 1) lane \<longleftrightarrow> bit m lane"
    using b [OF lane] by (simp only: bit_and_iff simp_thms)
  moreover have "m AND push_bit lane 1 = 0" if "\<not> bit m lane"
    by (rule bit_word_eqI) (use that b in \<open>auto simp only: bit_and_iff bit_0_eq len_bit0 len_num1\<close>)
  ultimately show ?thesis by (metis bit_0_eq bot_apply bot_bool_def)
qed

text \<open>One half of the register: the sign bits after the subtraction are the answers.\<close>

lemma avx2_half:
  assumes "length ns = 4" "\<forall>n \<in> set ns. unat n div 64 < length visited"
  shows "bit (mm256_movemask_pd (mm256_sub_epi64 (mm256_and_epi64 (mm256_srlv_epi64
            (mm256_i32gather_epi64 visited (map (drop_bit 6) ns))
            (mm256_cvtepu32_epi64 (map (\<lambda>n. n AND 63) ns))) (replicate 4 1)) (replicate 4 1))) i
         \<longleftrightarrow> i < 4 \<and> is_unvisited visited (ns ! i)"
proof (cases "i < 4")
  case True
  then have "mm256_sub_epi64 (mm256_and_epi64 (mm256_srlv_epi64
      (mm256_i32gather_epi64 visited (map (drop_bit 6) ns))
      (mm256_cvtepu32_epi64 (map (\<lambda>n. n AND 63) ns))) (replicate 4 1)) (replicate 4 1) ! i
    = ((let w = visited ! (unat (ns ! i) div 64); k = (ucast (ns ! i AND 63) :: u64) in
       if k < 64 then drop_bit (unat k) w else 0) AND 1) - 1"
    using assms(1)
    by (simp add: mm256_sub_epi64_def mm256_and_epi64_def mm256_srlv_epi64_def
        mm256_i32gather_epi64_def mm256_cvtepu32_epi64_def sint_srli_6 Let_def
        del: unat_ucast_u32_u64)
  moreover have "unat (ns ! i) div 64 < length visited" using True assms by simp
  ultimately show ?thesis
    using True assms(1) avx2_lane [of "ns ! i" "visited ! (unat (ns ! i) div 64)"]
    by (simp only: bit_movemask is_unvisited_word Let_def)
      (simp add: mm256_sub_epi64_def mm256_and_epi64_def mm256_srlv_epi64_def
        mm256_i32gather_epi64_def mm256_cvtepu32_epi64_def)
next
  case False
  with assms(1) show ?thesis
    by (simp add: bit_movemask mm256_sub_epi64_def mm256_and_epi64_def mm256_srlv_epi64_def
        mm256_i32gather_epi64_def mm256_cvtepu32_epi64_def)
qed

lemma fold_lanes:
  "(\<And>i. i < length c \<Longrightarrow> Q (k + i) \<longleftrightarrow> P (c ! i)) \<Longrightarrow>
   fold (\<lambda>(lane, n) out. if Q lane then out @ [n] else out) (enumerate k c) out =
   out @ filter P c"
proof (induction c arbitrary: k out)
  case (Cons n c)
  have "Q (Suc k + i) \<longleftrightarrow> P (c ! i)" if "i < length c" for i
    using Cons.prems [of "Suc i"] that by simp
  with Cons.IH [of "Suc k"] Cons.prems [of 0] show ?case by simp
qed simp

lemma avx2_chunk_eq:
  assumes len: "length c = 8"
  shows "avx2_chunk visited c out = out @ filter (is_unvisited visited) c"
proof (cases "\<exists>n \<in> set c. (of_nat (length visited) :: u32) \<le> drop_bit 6 n")
  case True
  then show ?thesis by (simp add: avx2_chunk_def Let_def scalar_no_clear_eq)
next
  case False
  then have w: "\<forall>n \<in> set c. unat n div 64 < length visited" by (auto intro: below_words_len)
  have and63: "mm256_and_epi32 c (replicate 8 63) = map (\<lambda>n. n AND 63) c"
    by (rule nth_equalityI) (simp_all add: mm256_and_epi32_def len)
  let ?half = "\<lambda>ns. mm256_movemask_pd (mm256_sub_epi64 (mm256_and_epi64 (mm256_srlv_epi64
            (mm256_i32gather_epi64 visited (map (drop_bit 6) ns))
            (mm256_cvtepu32_epi64 (map (\<lambda>n. n AND 63) ns))) (replicate 4 1)) (replicate 4 1))"
  let ?m = "?half (take 4 c) OR push_bit 4 (?half (drop 4 c))"
  have w4: "\<forall>n \<in> set (take 4 c). unat n div 64 < length visited"
      "\<forall>n \<in> set (drop 4 c). unat n div 64 < length visited"
    using w by (meson in_set_takeD in_set_dropD)+
  have lo: "bit (?half (take 4 c)) i \<longleftrightarrow> i < 4 \<and> is_unvisited visited (c ! i)" for i
    by (subst avx2_half [OF _ w4(1)]) (use len in auto)
  have hi: "bit (?half (drop 4 c)) i \<longleftrightarrow> i < 4 \<and> is_unvisited visited (c ! (4 + i))" for i
    by (subst avx2_half [OF _ w4(2)]) (use len in auto)
  have m: "?m AND push_bit (0 + i) 1 \<noteq> 0 \<longleftrightarrow> is_unvisited visited (c ! i)" if "i < length c" for i
    using that len lo [of i] hi [of "i - 4"]
    by (cases "i < 4") (simp_all only: and_shl_neq_0 bit_or_iff bit_push_bit_iff, auto)
  have "avx2_chunk visited c out =
      fold (\<lambda>(lane, n) out. if ?m AND push_bit lane 1 \<noteq> 0 then out @ [n] else out)
        (enumerate 0 c) out"
    using False len
    by (simp only: avx2_chunk_def Let_def if_False and63 mm256_loadu_def mm256_srli_epi32_def
        mm256_castlo_def mm256_extract_hi_def take_map drop_map take_all_iff order_refl take_all)
  also have "\<dots> = out @ filter (is_unvisited visited) c"
    by (rule fold_lanes [where Q = "\<lambda>lane. ?m AND push_bit lane 1 \<noteq> 0"]) (rule m)
  finally show ?thesis .
qed

lemma filter_avx2_eq: "filter_avx2 ns visited out = out @ filter (is_unvisited visited) ns"
  using chunked_filter_eq [of 8 "avx2_chunk visited" visited ns out, OF avx2_chunk_eq]
  by (simp add: filter_avx2_def Let_def split_def)

section \<open>The contract of a backend\<close>

text \<open>
  What the traversal relies on: the filter keeps exactly the indices whose word exists
  and whose bit is clear, in order and with their multiplicity.
\<close>

locale lawful_backend =
  fixes b :: simd_backend
  assumes filter_law:
    "be_filter_unvisited_into b ns visited out = filter (is_unvisited visited) ns"
begin

lemma filter_no_out: "filter_unvisited b ns visited = filter (is_unvisited visited) ns"
  by (simp add: filter_unvisited_def filter_law)

lemma filter_covers:
  "n \<in> set ns \<Longrightarrow> unat n div 64 < length visited \<Longrightarrow> unat n \<notin> bits_of visited \<Longrightarrow>
   n \<in> set (be_filter_unvisited_into b ns visited out)"
  by (simp add: filter_law is_unvisited_def)

end

interpretation scalar: lawful_backend scalar_backend
  by unfold_locales (simp add: scalar_backend_def scalar_filter_into_eq)

interpretation neon: lawful_backend neon_backend
  by unfold_locales (simp add: neon_backend_def neon_filter_eq)

interpretation avx2: lawful_backend "avx2_backend P" for P
  by unfold_locales
    (simp add: avx2_backend_def avx2_filter_unvisited_into_def filter_avx2_eq scalar_no_clear_eq)

interpretation avx512: lawful_backend "avx512_backend P" for P
  by unfold_locales (simp add: avx512_backend_def avx2.filter_law)

interpretation selected: lawful_backend "select_backend P" for P
  by unfold_locales
    (simp add: select_backend_def scalar.filter_law avx2.filter_law avx512.filter_law
      split: target_arch.splits)

section \<open>Properties\<close>

text \<open>
  C22: every backend (NEON, AVX2 with or without the CPU feature, AVX-512, and whichever
  one the dispatch selects) filters exactly as the scalar reference does, for every list
  of indices, every bitset and every previous buffer contents, with no bound on either
  length: the kernels' truncated word count only ever sends a chunk to the scalar code.
\<close>

theorem backends_agree_with_scalar:
  "be_filter_unvisited_into neon_backend ns visited out =
     be_filter_unvisited_into scalar_backend ns visited out' \<and>
   be_filter_unvisited_into (avx2_backend P) ns visited out =
     be_filter_unvisited_into scalar_backend ns visited out' \<and>
   be_filter_unvisited_into (avx512_backend P) ns visited out =
     be_filter_unvisited_into scalar_backend ns visited out' \<and>
   be_filter_unvisited_into (select_backend P) ns visited out =
     be_filter_unvisited_into scalar_backend ns visited out'"
  by (simp add: scalar.filter_law neon.filter_law avx2.filter_law avx512.filter_law
      selected.filter_law)

lemma backend_name_correct: "backend_name P = be_name (select_backend P)"
  by (simp add: backend_name_def select_backend_def scalar_backend_def avx2_backend_def
      avx512_backend_def split: target_arch.splits)

text \<open>\<open>set_visited_batch\<close> adds the indices the bitset can hold, and a filter then drops them.\<close>

lemma set_visited_batch_bits:
  "bits_of (set_visited_batch ns visited) =
     bits_of visited \<union> {unat n | n. n \<in> set ns \<and> unat n div 64 < length visited} \<and>
   length (set_visited_batch ns visited) = length visited"
proof (induction ns arbitrary: visited)
  case (Cons n ns)
  show ?case
  proof (cases "unat n div 64 < length visited")
    case True
    then show ?thesis
      using Cons [of "visited[unat n div 64 := visited ! (unat n div 64) OR shl1 (unat n mod 64)]"]
      by (auto simp: Let_def bits_of_set)
  next
    case False
    then show ?thesis using Cons [of visited] by (auto simp: Let_def)
  qed
qed auto

text \<open>
  marking a batch of indices and filtering any list against the result drops exactly
  the batch and what was visited before.
\<close>

theorem set_visited_then_filter:
  "filter_unvisited (select_backend P) ns (set_visited_batch batch visited) =
   filter (\<lambda>n. n \<notin> set batch) (filter_unvisited (select_backend P) ns visited)"
proof -
  have "is_unvisited (set_visited_batch batch visited) n \<longleftrightarrow>
      n \<notin> set batch \<and> is_unvisited visited n" for n
    by (auto simp: is_unvisited_def set_visited_batch_bits dest: word_unat_eq_iff [THEN iffD2])
  then show ?thesis by (auto simp: selected.filter_no_out intro!: filter_cong)
qed

lemma dense_index_roundtrip:
  "node_id_to_dense_index (dense_index_to_node_id i) = Some i"
proof -
  have "unat i \<le> u32_max" using unsigned_less [of i, where 'a = nat] by (simp add: u32_max_def)
  then show ?thesis
    by (simp add: node_id_to_dense_index_def dense_index_to_node_id_def node_new_def u32_of_u64_def)
qed

end
