(* ===== verification/Reach.thy ===== *)
theory Reach
  imports Marking
begin

text \<open>
  What a breadth-first search computes, apart from any graph representation: the balls
  around a set of start nodes, shortest distances, and the admission order of a search
  over a neighbour function.  The traversals of \<open>Bfs\<close> and \<open>Dobfs\<close> are proved against
  this theory.
\<close>

section \<open>Balls and distances\<close>

fun ball :: "('n \<Rightarrow> 'n list) \<Rightarrow> 'n set \<Rightarrow> nat \<Rightarrow> 'n set" where
  "ball nb S 0 = S"
| "ball nb S (Suc d) = ball nb S d \<union> (\<Union>v \<in> ball nb S d. set (nb v))"

text \<open>\<open>at_distance nb S d v\<close>: the shortest path from \<open>S\<close> to \<open>v\<close> has \<open>d\<close> edges.\<close>

definition at_distance :: "('n \<Rightarrow> 'n list) \<Rightarrow> 'n set \<Rightarrow> nat \<Rightarrow> 'n \<Rightarrow> bool" where
  "at_distance nb S d v \<longleftrightarrow> v \<in> ball nb S d \<and> (\<forall>e < d. v \<notin> ball nb S e)"

lemma ball_mono: "d \<le> e \<Longrightarrow> ball nb S d \<subseteq> ball nb S e"
  by (induction e) (auto simp: le_Suc_eq)

lemma ball_step: "v \<in> ball nb S d \<Longrightarrow> w \<in> set (nb v) \<Longrightarrow> w \<in> ball nb S (Suc d)"
  by auto

lemma at_distance_unique: "at_distance nb S d v \<Longrightarrow> at_distance nb S e v \<Longrightarrow> d = e"
  by (metis at_distance_def linorder_neqE_nat)

lemma in_ball_iff: "v \<in> ball nb S d \<longleftrightarrow> (\<exists>e \<le> d. at_distance nb S e v)"
proof
  assume "v \<in> ball nb S d"
  then have "\<exists>e. v \<in> ball nb S e" by blast
  then obtain e where "v \<in> ball nb S e" "\<forall>e' < e. v \<notin> ball nb S e'"
    using exists_least_iff [of "\<lambda>e. v \<in> ball nb S e"] by blast
  moreover have "e \<le> d" using \<open>v \<in> ball nb S d\<close> calculation(2) by (meson not_less)
  ultimately show "\<exists>e \<le> d. at_distance nb S e v" by (auto simp: at_distance_def)
next
  assume "\<exists>e \<le> d. at_distance nb S e v"
  then show "v \<in> ball nb S d" using ball_mono by (fastforce simp: at_distance_def)
qed

text \<open>Paths: a ball is what walks of bounded length reach.\<close>

lemma ball_relpow:
  "v \<in> ball nb S d \<longleftrightarrow> (\<exists>k \<le> d. \<exists>s \<in> S. (s, v) \<in> {(a, b). b \<in> set (nb a)} ^^ k)"
proof (induction d arbitrary: v)
  case (Suc d)
  let ?R = "{(a, b). b \<in> set (nb a)}"
  show ?case
  proof
    assume "v \<in> ball nb S (Suc d)"
    then consider "v \<in> ball nb S d" | u where "u \<in> ball nb S d" "v \<in> set (nb u)" by auto
    then show "\<exists>k \<le> Suc d. \<exists>s \<in> S. (s, v) \<in> ?R ^^ k"
    proof cases
      case 1
      with Suc show ?thesis by (meson le_SucI)
    next
      case 2
      with Suc [of u] obtain k s where "k \<le> d" "s \<in> S" "(s, u) \<in> ?R ^^ k" by blast
      with 2 have "(s, v) \<in> ?R ^^ Suc k" by auto
      with \<open>k \<le> d\<close> \<open>s \<in> S\<close> show ?thesis by (meson Suc_le_mono)
    qed
  next
    assume "\<exists>k \<le> Suc d. \<exists>s \<in> S. (s, v) \<in> ?R ^^ k"
    then obtain k s where ks: "k \<le> Suc d" "s \<in> S" "(s, v) \<in> ?R ^^ k" by blast
    show "v \<in> ball nb S (Suc d)"
    proof (cases k)
      case 0
      with ks have "v \<in> ball nb S 0" by simp
      then show ?thesis using ball_mono [of 0 "Suc d" nb S] by blast
    next
      case (Suc j)
      with ks obtain u where "(s, u) \<in> ?R ^^ j" "v \<in> set (nb u)" by auto
      moreover from this Suc.IH [of u] ks Suc have "u \<in> ball nb S d" by auto
      ultimately show ?thesis by auto
    qed
  qed
qed simp

section \<open>The admission order\<close>

text \<open>
  The nodes in the order a search admits them, with their depths: the starts, then for the
  first, second, \<open>\<dots>\<close> admitted node its new neighbours.
\<close>

definition admit_order :: "('n \<Rightarrow> 'n list) \<Rightarrow> nat \<Rightarrow> ('n \<times> nat) list \<Rightarrow> nat \<Rightarrow> ('n \<times> nat) list" where
  "admit_order nb m A k =
     (if k < length A \<and> snd (A ! k) < m
      then map (\<lambda>w. (w, Suc (snd (A ! k)))) (fresh (fst ` set A) (nb (fst (A ! k))))
      else [])"

fun order :: "('n \<Rightarrow> 'n list) \<Rightarrow> nat \<Rightarrow> 'n list \<Rightarrow> nat \<Rightarrow> ('n \<times> nat) list" where
  "order nb m ss 0 = map (\<lambda>s. (s, 0)) (fresh {} ss)"
| "order nb m ss (Suc k) = order nb m ss k @ admit_order nb m (order nb m ss k) k"

lemma order_prefix: "j \<le> k \<Longrightarrow> \<exists>r. order nb m ss k = order nb m ss j @ r"
  by (induction k) (auto simp: le_Suc_eq)

lemma length_order_mono: "j \<le> k \<Longrightarrow> length (order nb m ss j) \<le> length (order nb m ss k)"
  using order_prefix [of j k nb m ss] by auto

lemma order_nth: "j \<le> k \<Longrightarrow> i < length (order nb m ss j) \<Longrightarrow> order nb m ss k ! i = order nb m ss j ! i"
  using order_prefix [of j k nb m ss] by (auto simp: nth_append)

lemma order_stable:
  assumes "length (order nb m ss j) \<le> j" "j \<le> k"
  shows "order nb m ss k = order nb m ss j"
  using assms(2)
proof (induction k)
  case (Suc k)
  show ?case
  proof (cases "j = Suc k")
    case False
    with Suc have eq: "order nb m ss k = order nb m ss j" "j \<le> k" by auto
    then show ?thesis using assms(1) by (simp add: admit_order_def)
  qed simp
qed (use assms in simp)

lemma order_distinct: "distinct (map fst (order nb m ss k))"
proof (induction k)
  case (Suc k)
  have "map fst (admit_order nb m A k) = fresh (fst ` set A) (nb (fst (A ! k))) \<or>
      map fst (admit_order nb m A k) = []" for A
    by (simp add: admit_order_def comp_def)
  with Suc show ?case
    by (metis (no_types, lifting) append_Nil2 disjoint_iff distinct_append distinct_fresh
        fresh_disjoint list.set_map map_append order.simps(2))
qed (simp add: comp_def)

text \<open>Depths never decrease along the order, grow by at most one, and start at zero.\<close>

definition depths_ok :: "('n \<times> nat) list \<Rightarrow> nat \<Rightarrow> bool" where
  "depths_ok A k \<longleftrightarrow>
     sorted (map snd A) \<and>
     (\<forall>i < length A. snd (A ! i) \<le> (if i = 0 then 0 else Suc (snd (A ! (i - 1))))) \<and>
     (k < length A \<longrightarrow> (\<forall>i < length A. snd (A ! i) \<le> Suc (snd (A ! k))))"

lemma depths_ok_step:
  assumes "depths_ok A k"
  shows "depths_ok (A @ admit_order nb m A k) (Suc k)"
proof (cases "k < length A \<and> snd (A ! k) < m")
  case False
  then have "admit_order nb m A k = []" by (simp only: admit_order_def if_False)
  moreover have "snd (A ! i) \<le> Suc (snd (A ! Suc k))" if "Suc k < length A" "i < length A" for i
  proof -
    have "snd (A ! k) \<le> snd (A ! Suc k)"
      using assms that sorted_nth_mono [of "map snd A" k "Suc k"] by (simp add: depths_ok_def)
    moreover have "snd (A ! i) \<le> Suc (snd (A ! k))" using assms that by (simp add: depths_ok_def)
    ultimately show ?thesis by simp
  qed
  ultimately show ?thesis using assms by (simp add: depths_ok_def)
next
  case True
  let ?d = "snd (A ! k)"
  let ?N = "admit_order nb m A k"
  have N: "snd x = Suc ?d" if "x \<in> set ?N" for x
    using that True by (auto simp: admit_order_def)
  have Nth: "snd (?N ! j) = Suc ?d" if "j < length ?N" for j using N that by simp
  have le: "snd (A ! i) \<le> Suc ?d" if "i < length A" for i
    using assms True that by (simp add: depths_ok_def)
  have ge: "?d \<le> snd (A ! i)" if "k \<le> i" "i < length A" for i
    using assms that True sorted_nth_mono [of "map snd A" k i] by (simp add: depths_ok_def)
  have "map snd ?N = replicate (length ?N) (Suc ?d)"
    by (rule nth_equalityI) (simp_all add: Nth)
  moreover have "snd x \<le> Suc ?d" if "x \<in> set A" for x
    using that le by (metis in_set_conv_nth)
  ultimately have "sorted (map snd (A @ ?N))"
    using assms by (auto simp: sorted_append depths_ok_def)
  moreover have "snd ((A @ ?N) ! i) \<le> (if i = 0 then 0 else Suc (snd ((A @ ?N) ! (i - 1))))"
    if "i < length (A @ ?N)" for i
  proof (cases "i < length A")
    case True
    then show ?thesis using assms by (cases i) (auto simp: depths_ok_def nth_append)
  next
    case False
    then have "snd ((A @ ?N) ! i) = Suc ?d" using that Nth by (simp add: nth_append)
    moreover have "i \<noteq> 0" using False True by auto
    moreover have "?d \<le> snd ((A @ ?N) ! (i - 1))"
    proof (cases "i - 1 < length A")
      case True
      with False have "k \<le> i - 1" using \<open>k < length A \<and> _\<close> by linarith
      with True ge show ?thesis by (simp add: nth_append)
    next
      case f: False
      then have "i - 1 - length A < length ?N" using that by simp
      then show ?thesis using f Nth by (simp add: nth_append)
    qed
    ultimately show ?thesis by simp
  qed
  moreover have "snd ((A @ ?N) ! i) \<le> Suc (snd ((A @ ?N) ! Suc k))"
    if "Suc k < length (A @ ?N)" "i < length (A @ ?N)" for i
  proof -
    have "snd ((A @ ?N) ! i) \<le> Suc ?d"
      using that le Nth [of "i - length A"] by (auto simp: nth_append)
    moreover have "?d \<le> snd ((A @ ?N) ! Suc k)"
      using that ge [of "Suc k"] Nth [of "Suc k - length A"] by (auto simp: nth_append)
    ultimately show ?thesis by simp
  qed
  ultimately show ?thesis by (simp add: depths_ok_def)
qed

lemma order_depths_ok: "depths_ok (order nb m ss k) k"
proof (induction k)
  case 0
  have "map snd (order nb m ss 0) = replicate (length (fresh {} ss)) 0"
    by (simp add: comp_def map_replicate_const)
  then show ?case by (simp add: depths_ok_def)
qed (simp add: depths_ok_step)

section \<open>The order is the ball, with shortest distances\<close>

lemma order_sound:
  "(v, d) \<in> set (order nb m ss k) \<Longrightarrow> v \<in> ball nb (set ss) d \<and> d \<le> m"
proof (induction k arbitrary: v d)
  case (Suc k)
  let ?A = "order nb m ss k"
  show ?case
  proof (cases "(v, d) \<in> set ?A")
    case False
    with Suc.prems have k: "k < length ?A" "snd (?A ! k) < m" "d = Suc (snd (?A ! k))"
      "v \<in> set (nb (fst (?A ! k)))"
      by (auto simp: admit_order_def split: if_splits)
    then have "(fst (?A ! k), snd (?A ! k)) \<in> set ?A" by simp
    from Suc.IH [OF this] k show ?thesis by auto
  qed (use Suc.IH in blast)
qed auto

lemma order_closed:
  assumes "i < k" "i < length (order nb m ss k)" "snd (order nb m ss k ! i) < m"
    and "w \<in> set (nb (fst (order nb m ss k ! i)))"
  shows "\<exists>d. (w, d) \<in> set (order nb m ss k) \<and> d \<le> Suc (snd (order nb m ss k ! i))"
  using assms
proof (induction k)
  case (Suc k)
  let ?A = "order nb m ss k"
  let ?N = "admit_order nb m ?A k"
  show ?case
  proof (cases "i < length ?A")
    case False
    with Suc.prems(1) have "?N = []" by (simp add: admit_order_def)
    with False Suc.prems(2) show ?thesis by simp
  next
    case True
    then have i: "order nb m ss (Suc k) ! i = ?A ! i" by (simp add: nth_append)
    show ?thesis
    proof (cases "i = k")
      case False
      with Suc.prems i True Suc.IH show ?thesis by auto
    next
      case True
      have k: "k < length ?A" "snd (?A ! k) < m" "w \<in> set (nb (fst (?A ! k)))"
        using \<open>i < length ?A\<close> True Suc.prems i by auto
      show ?thesis
      proof (cases "w \<in> fst ` set ?A")
        case False
        with k have "(w, Suc (snd (?A ! k))) \<in> set ?N" by (auto simp: admit_order_def)
        with i True show ?thesis by auto
      next
        case w: True
        then obtain j where j: "j < length ?A" "fst (?A ! j) = w" by (auto simp: in_set_conv_nth)
        then have "snd (?A ! j) \<le> Suc (snd (?A ! k))"
          using order_depths_ok [of nb m ss k] k(1) by (simp add: depths_ok_def)
        moreover have "(w, snd (?A ! j)) \<in> set ?A" using j by (metis nth_mem prod.collapse)
        ultimately show ?thesis using i True by auto
      qed
    qed
  qed
qed simp

text \<open>At a fixed point the order is the ball of radius \<open>m\<close>, each node at its distance.\<close>

lemma order_complete:
  assumes "length (order nb m ss k) \<le> k" "j \<le> m" "v \<in> ball nb (set ss) j"
  shows "\<exists>d \<le> j. (v, d) \<in> set (order nb m ss k)"
  using assms(2,3)
proof (induction j arbitrary: v)
  case 0
  then have "(v, 0) \<in> set (order nb m ss 0)" by auto
  then show ?case using order_prefix [of 0 k nb m ss] by auto
next
  case (Suc j)
  show ?case
  proof (cases "v \<in> ball nb (set ss) j")
    case True
    with Suc show ?thesis by (meson Suc_leD le_SucI)
  next
    case False
    with Suc.prems obtain u where u: "u \<in> ball nb (set ss) j" "v \<in> set (nb u)" by auto
    with Suc obtain d where d: "d \<le> j" "(u, d) \<in> set (order nb m ss k)" by fastforce
    then obtain i where i: "i < length (order nb m ss k)" "order nb m ss k ! i = (u, d)"
      by (metis in_set_conv_nth)
    have "\<exists>e. (v, e) \<in> set (order nb m ss k) \<and> e \<le> Suc (snd (order nb m ss k ! i))"
      using i assms(1) d(1) Suc.prems(1) u(2) by (intro order_closed) simp_all
    with i(2) d(1) show ?thesis by (metis Suc_le_mono order_trans snd_conv)
  qed
qed

theorem order_spec:
  assumes "length (order nb m ss k) \<le> k"
  shows "(v, d) \<in> set (order nb m ss k) \<longleftrightarrow> d \<le> m \<and> at_distance nb (set ss) d v"
proof
  assume vd: "(v, d) \<in> set (order nb m ss k)"
  have "v \<notin> ball nb (set ss) e" if "e < d" for e
  proof
    assume "v \<in> ball nb (set ss) e"
    moreover have "e \<le> m" using that order_sound [OF vd] by simp
    ultimately obtain e' where "e' \<le> e" "(v, e') \<in> set (order nb m ss k)"
      using order_complete [OF assms] by blast
    with that have "e' < d" "(v, e') \<in> set (order nb m ss k)" by simp_all
    with vd order_distinct [of nb m ss k] show False
      by (metis eq_key_imp_eq_value less_irrefl)
  qed
  with order_sound [OF vd] show "d \<le> m \<and> at_distance nb (set ss) d v"
    by (simp add: at_distance_def)
next
  assume "d \<le> m \<and> at_distance nb (set ss) d v"
  moreover from this obtain e where "e \<le> d" "(v, e) \<in> set (order nb m ss k)"
    using order_complete [OF assms, of d v] by (auto simp: at_distance_def)
  moreover from this have "v \<in> ball nb (set ss) e" using order_sound by fast
  ultimately show "(v, d) \<in> set (order nb m ss k)"
    by (metis at_distance_def order_le_less)
qed

lemma order_reaches_fixpoint:
  fixes nb :: "'n::finite \<Rightarrow> 'n list"
  shows "length (order nb m ss (card (UNIV :: 'n set))) \<le> card (UNIV :: 'n set)"
proof -
  have "length (order nb m ss k) = card (fst ` set (order nb m ss k))" for k
    using distinct_card [OF order_distinct [of nb m ss k]] by simp
  then show ?thesis by (metis card_mono finite subset_UNIV)
qed

text \<open>Two fixed points are the same list.\<close>

lemma order_fixpoint_unique:
  assumes "length (order nb m ss j) \<le> j" "length (order nb m ss k) \<le> k"
  shows "order nb m ss j = order nb m ss k"
  using order_stable [OF assms(1), of k] order_stable [OF assms(2), of j] by (cases "j \<le> k") auto

text \<open>
  A search capped at \<open>M\<close> nodes that has processed all of its first \<open>M\<close> holds the first
  \<open>M\<close> nodes of the full order.
\<close>

lemma order_capped:
  assumes "length (take M (order nb m ss j)) \<le> j" "length (order nb m ss k) \<le> k"
  shows "take M (order nb m ss j) = take M (order nb m ss k)"
proof (cases "length (order nb m ss j) \<le> j")
  case True
  then show ?thesis using order_fixpoint_unique assms(2) by metis
next
  case False
  with assms(1) have M: "M \<le> length (order nb m ss j)" by simp
  show ?thesis
  proof (cases "j \<le> k")
    case True
    then obtain r where "order nb m ss k = order nb m ss j @ r" using order_prefix by blast
    with M show ?thesis by simp
  next
    case f: False
    then have "order nb m ss j = order nb m ss k" by (intro order_stable [OF assms(2)]) simp
    then show ?thesis by (simp only:)
  qed
qed

section \<open>Levels\<close>

definition level_of :: "('n \<times> nat) list \<Rightarrow> nat \<Rightarrow> 'n list" where
  "level_of A d = map fst (filter (\<lambda>x. snd x = d) A)"

lemma level_of_append: "level_of (A @ B) d = level_of A d @ level_of B d"
  by (simp add: level_of_def)

lemma level_of_single: "level_of [(v, e)] d = (if e = d then [v] else [])"
  by (simp add: level_of_def)

lemma filter_sorted_split:
  "sorted (map f xs) \<Longrightarrow>
   filter (\<lambda>x. f x < Suc n) xs = filter (\<lambda>x. f x < n) xs @ filter (\<lambda>x. f x = n) xs"
proof (induction xs)
  case (Cons x xs)
  then have "f x = n \<Longrightarrow> filter (\<lambda>x. f x < n) xs = []" "n < f x \<Longrightarrow> filter (\<lambda>x. f x = n) xs = []"
    by (auto simp: filter_empty_conv)
  with Cons show ?case by (auto simp: less_Suc_eq)
qed simp

lemma concat_levels:
  assumes "sorted (map snd A)"
  shows "concat (map (level_of A) [0..<n]) = map fst (filter (\<lambda>x. snd x < n) A)"
  using filter_sorted_split [OF assms]
  by (induction n) (simp_all add: level_of_def)

lemma level_nonempty:
  assumes "depths_ok A k" "i < length A" "d \<le> snd (A ! i)"
  shows "level_of A d \<noteq> []"
  using assms(2,3)
proof (induction i)
  case 0
  then have "snd (A ! 0) = d" using assms(1) by (auto simp: depths_ok_def)
  moreover have "A ! 0 \<in> set A" using 0 by simp
  ultimately show ?case by (auto simp: level_of_def filter_empty_conv)
next
  case (Suc i)
  show ?case
  proof (cases "snd (A ! Suc i) = d")
    case True
    moreover have "A ! Suc i \<in> set A" using Suc by simp
    ultimately show ?thesis by (auto simp: level_of_def filter_empty_conv)
  next
    case False
    moreover have "snd (A ! Suc i) \<le> Suc (snd (A ! i))"
      using assms(1) Suc.prems(1) by (auto simp: depths_ok_def dest: spec [of _ "Suc i"])
    ultimately show ?thesis using Suc by simp
  qed
qed

text \<open>Distances as shortest walks.\<close>

lemma at_distance_walk:
  "at_distance nb S d v \<longleftrightarrow>
   (\<exists>s \<in> S. (s, v) \<in> {(a, b). b \<in> set (nb a)} ^^ d) \<and>
   (\<forall>e < d. \<forall>s \<in> S. (s, v) \<notin> {(a, b). b \<in> set (nb a)} ^^ e)"
proof -
  let ?P = "\<lambda>k. \<exists>s \<in> S. (s, v) \<in> {(a, b). b \<in> set (nb a)} ^^ k"
  have "(\<exists>k \<le> d. ?P k) \<and> (\<forall>e < d. \<not> (\<exists>k \<le> e. ?P k)) \<longleftrightarrow> ?P d \<and> (\<forall>e < d. \<not> ?P e)"
  proof
    assume l: "(\<exists>k \<le> d. ?P k) \<and> (\<forall>e < d. \<not> (\<exists>k \<le> e. ?P k))"
    then have n: "\<forall>e < d. \<not> ?P e" by (meson order_refl)
    from l obtain k where "k \<le> d" "?P k" by blast
    moreover have "k = d" using n calculation le_neq_implies_less by blast
    ultimately show "?P d \<and> (\<forall>e < d. \<not> ?P e)" using n by simp
  next
    assume r: "?P d \<and> (\<forall>e < d. \<not> ?P e)"
    then have "\<not> ?P k" if "e < d" "k \<le> e" for e k using that by simp
    with r show "(\<exists>k \<le> d. ?P k) \<and> (\<forall>e < d. \<not> (\<exists>k \<le> e. ?P k))" by blast
  qed
  then show ?thesis by (simp only: at_distance_def ball_relpow bex_simps ball_simps)
qed

end
