(* ===== verification/Bfs.thy ===== *)
theory Bfs
  imports Graph Simd Reach
begin

text \<open>
  Breadth-first search (\<open>traversal/bfs.rs\<close>) with its visited tracker, the fast path over
  CSR slices filtered through a SIMD backend, the slow path over the merged iterator, and
  the node cap; and the result types of \<open>traversal.rs\<close>.

  The main loop is a function on the search state; it terminates because every iteration
  takes a node from the queue and every node put on it was unmarked before.
\<close>

section \<open>Result and specification types\<close>

record traversal_result =
  tr_visited :: "node_id list"
  tr_depths :: "u32 list"
  tr_max_depth_reached :: u32
  tr_edges_traversed :: usize

definition traversal_result_empty :: traversal_result where
  "traversal_result_empty = \<lparr>tr_visited = [], tr_depths = [], tr_max_depth_reached = 0,
     tr_edges_traversed = 0\<rparr>"

definition traversal_node_count :: "traversal_result \<Rightarrow> usize" where
  "traversal_node_count r = length (tr_visited r)"

definition nodes_at_depth :: "traversal_result \<Rightarrow> u32 \<Rightarrow> node_id list" where
  "nodes_at_depth r depth =
     List.map_filter (\<lambda>(node, d). if d = depth then Some node else None)
       (zip (tr_visited r) (tr_depths r))"

datatype traversal_algorithm = AlgorithmBfs | AlgorithmDfs | AlgorithmDijkstra

datatype traversal_direction = Outgoing | Incoming | Both

record traversal_spec =
  ts_start :: "node_id list"
  ts_max_depth :: u32
  ts_max_nodes :: "usize option"
  ts_algorithm :: traversal_algorithm
  ts_direction :: traversal_direction

definition traversal_spec_default :: traversal_spec where
  "traversal_spec_default = \<lparr>ts_start = [], ts_max_depth = 10, ts_max_nodes = None,
     ts_algorithm = AlgorithmBfs, ts_direction = Outgoing\<rparr>"

record bfs_result =
  r_visited :: "node_id list"
  r_depths :: "u32 list"
  r_levels :: "node_id list list"
  r_max_depth_reached :: u32
  r_edges_examined :: usize

definition bfs_result_empty :: bfs_result where
  "bfs_result_empty = \<lparr>r_visited = [], r_depths = [], r_levels = [], r_max_depth_reached = 0,
     r_edges_examined = 0\<rparr>"

definition result_node_count :: "bfs_result \<Rightarrow> usize" where
  "result_node_count r = length (r_visited r)"

definition result_contains :: "bfs_result \<Rightarrow> node_id \<Rightarrow> bool" where
  "result_contains r n \<longleftrightarrow> n \<in> set (r_visited r)"

definition find_position :: "('a \<Rightarrow> bool) \<Rightarrow> 'a list \<Rightarrow> usize option" where
  "find_position P xs =
     (let i = length (takeWhile (\<lambda>x. \<not> P x) xs) in if i < length xs then Some i else None)"

definition depth_of :: "bfs_result \<Rightarrow> node_id \<Rightarrow> u32 option result" where
  "depth_of r n =
     (case find_position (\<lambda>x. x = n) (r_visited r) of
        None \<Rightarrow> Ok None
      | Some i \<Rightarrow> map_res Some (index_vec (r_depths r) i))"

section \<open>The visited tracker\<close>

record visited_tracker =
  vt_words :: "u64 list"
  vt_capacity :: u64
  vt_overflow :: "node_id set"

definition visited_new :: "usize \<Rightarrow> visited_tracker" where
  "visited_new n =
     \<lparr>vt_words = replicate (div_ceil n 64) 0, vt_capacity = of_nat n, vt_overflow = {}\<rparr>"

definition visited_test_and_set ::
  "visited_tracker \<Rightarrow> node_id \<Rightarrow> (bool \<times> visited_tracker) result" where
  "visited_test_and_set t node =
     (let i = as_u64 node in
      if i < vt_capacity t then
        (let w = unat (i div 64); mask = shl1 (unat (i mod 64))
         in bind_res (index_vec (vt_words t) w) (\<lambda>old.
              Ok (old AND mask = 0, t\<lparr>vt_words := (vt_words t)[w := old OR mask]\<rparr>)))
      else Ok (node \<notin> vt_overflow t, t\<lparr>vt_overflow := insert node (vt_overflow t)\<rparr>))"

definition tracker_view :: "visited_tracker \<Rightarrow> node_id set" where
  "tracker_view t =
     {n. if as_u64 n < vt_capacity t then unat (as_u64 n) \<in> bits_of (vt_words t)
         else n \<in> vt_overflow t}"

text \<open>A tracker made for a graph of \<open>n\<close> nodes.\<close>

definition wf_tracker :: "nat \<Rightarrow> visited_tracker \<Rightarrow> bool" where
  "wf_tracker n t \<longleftrightarrow> unat (vt_capacity t) = n \<and> length (vt_words t) = div_ceil n 64"

lemma unat_div_64_u64 [simp]: "unat (i div 64 :: u64) = unat i div 64"
  by (simp add: unat_div_distrib)

lemma unat_mod_64_u64 [simp]: "unat (i mod 64 :: u64) = unat i mod 64"
  by (simp add: unat_mod_distrib)

lemma test_and_set_view:
  assumes "visited_test_and_set t n = Ok (b, t')"
  shows "b = (n \<notin> tracker_view t) \<and> tracker_view t' = insert n (tracker_view t) \<and>
    vt_capacity t' = vt_capacity t \<and> length (vt_words t') = length (vt_words t)"
proof (cases "as_u64 n < vt_capacity t")
  case True
  with assms have w: "unat (as_u64 n) div 64 < length (vt_words t)"
    by (auto simp: visited_test_and_set_def Let_def index_vec_def split: if_splits)
  let ?i = "unat (as_u64 n)"
  let ?ws = "(vt_words t)[?i div 64 := vt_words t ! (?i div 64) OR shl1 (?i mod 64)]"
  from assms True w have b: "b = (\<not> word_test (vt_words t ! (?i div 64)) (?i mod 64))"
    and t': "t' = t\<lparr>vt_words := ?ws\<rparr>"
    by (simp_all add: visited_test_and_set_def Let_def word_test_def)
  have inj: "unat (as_u64 m) = ?i \<longleftrightarrow> m = n" for m
    by (metis node_id.expand word_unat_eq_iff)
  have "n \<in> tracker_view t \<longleftrightarrow> ?i \<in> bits_of (vt_words t)" using True by (simp add: tracker_view_def)
  with b have "b = (n \<notin> tracker_view t)" by (simp only: word_test_bits_of [OF w])
  moreover have "m \<in> tracker_view t' \<longleftrightarrow> m = n \<or> m \<in> tracker_view t" for m
    using True inj [of m] by (auto simp add: tracker_view_def t' bits_of_set [OF w])
  then have "tracker_view t' = insert n (tracker_view t)" by blast
  ultimately show ?thesis by (simp add: t')
next
  case False
  with assms have b: "b = (n \<notin> vt_overflow t)"
    and t': "t' = t\<lparr>vt_overflow := insert n (vt_overflow t)\<rparr>"
    by (auto simp: visited_test_and_set_def Let_def)
  have "m \<in> tracker_view t' \<longleftrightarrow> m = n \<or> m \<in> tracker_view t" for m
    using False by (auto simp: tracker_view_def t')
  then have "tracker_view t' = insert n (tracker_view t)" by blast
  moreover have "b = (n \<notin> tracker_view t)" using False b by (simp add: tracker_view_def)
  ultimately show ?thesis by (simp add: t')
qed

lemma test_and_set_Ok:
  assumes "wf_tracker c t"
  shows "\<exists>t'. visited_test_and_set t n = Ok (n \<notin> tracker_view t, t') \<and> wf_tracker c t' \<and>
    tracker_view t' = insert n (tracker_view t)"
proof -
  have "\<exists>b t'. visited_test_and_set t n = Ok (b, t')"
  proof (cases "as_u64 n < vt_capacity t")
    case True
    then have "unat (as_u64 n) div 64 < length (vt_words t)"
      using assms by (auto simp: wf_tracker_def div_less_div_ceil word_less_nat_alt)
    then show ?thesis using True by (simp add: visited_test_and_set_def Let_def)
  qed (simp add: visited_test_and_set_def Let_def)
  then obtain b t' where t': "visited_test_and_set t n = Ok (b, t')" by blast
  from test_and_set_view [OF this] assms t' show ?thesis by (simp add: wf_tracker_def)
qed

interpretation tracker: marked_set "wf_tracker c" tracker_view "\<lambda>_ _. True"
  visited_test_and_set for c
  by unfold_locales (use test_and_set_Ok in blast)

lemma visited_new_props [simp]:
  assumes "n < 2 ^ 64"
  shows "wf_tracker n (visited_new n)" "tracker_view (visited_new n) = {}"
  using assms
  by (auto simp: wf_tracker_def visited_new_def tracker_view_def unsigned_of_nat
      take_bit_nat_eq_self)

section \<open>The search\<close>

record bfs_state =
  bs_queue :: "(node_id \<times> u32) list"
  bs_tracker :: visited_tracker
  bs_admitted :: usize
  bs_visited :: "node_id list"
  bs_depths :: "u32 list"
  bs_levels :: "node_id list list"
  bs_edges_examined :: usize
  bs_current_depth :: u32
  bs_current_level :: "node_id list"

text \<open>The loop over the start nodes.\<close>

fun admit_starts ::
  "('m, 's) csr_graph \<Rightarrow> usize \<Rightarrow> node_id list \<Rightarrow>
   (node_id \<times> u32) list \<times> visited_tracker \<times> usize \<Rightarrow>
   ((node_id \<times> u32) list \<times> visited_tracker \<times> usize) result" where
  "admit_starts g max_nodes [] (queue, t, admitted) = Ok (queue, t, admitted)"
| "admit_starts g max_nodes (start # starts) (queue, t, admitted) =
     (if max_nodes \<le> admitted then Ok (queue, t, admitted)
      else if graph_contains g start then
        bind_res (visited_test_and_set t start) (\<lambda>(new, t').
          admit_starts g max_nodes starts
            (if new then (queue @ [(start, 0)], t', admitted + 1) else (queue, t', admitted)))
      else admit_starts g max_nodes starts (queue, t, admitted))"

text \<open>The loop over the filtered batch of the fast path.\<close>

fun admit_batch ::
  "usize \<Rightarrow> u32 \<Rightarrow> u32 list \<Rightarrow> (node_id \<times> u32) list \<times> visited_tracker \<times> usize \<Rightarrow>
   ((node_id \<times> u32) list \<times> visited_tracker \<times> usize) result" where
  "admit_batch max_nodes depth [] (queue, t, admitted) = Ok (queue, t, admitted)"
| "admit_batch max_nodes depth (n # ns) (queue, t, admitted) =
     (if max_nodes \<le> admitted then Ok (queue, t, admitted)
      else let neighbor = node_new (ucast n) in
        bind_res (visited_test_and_set t neighbor) (\<lambda>(new, t').
          if new then
            bind_res (add_word depth 1) (\<lambda>d.
              admit_batch max_nodes depth ns (queue @ [(neighbor, d)], t', admitted + 1))
          else admit_batch max_nodes depth ns (queue, t', admitted)))"

text \<open>The loop over the merged neighbours of the slow path, which also counts edges.\<close>

fun admit_merged ::
  "usize \<Rightarrow> u32 \<Rightarrow> node_id list \<Rightarrow> usize \<Rightarrow>
   (node_id \<times> u32) list \<times> visited_tracker \<times> usize \<Rightarrow>
   (usize \<times> (node_id \<times> u32) list \<times> visited_tracker \<times> usize) result" where
  "admit_merged max_nodes depth [] edges (queue, t, admitted) = Ok (edges, queue, t, admitted)"
| "admit_merged max_nodes depth (neighbor # ns) edges (queue, t, admitted) =
     (if max_nodes \<le> admitted then Ok (edges + 1, queue, t, admitted)
      else
        bind_res (visited_test_and_set t neighbor) (\<lambda>(new, t').
          if new then
            bind_res (add_word depth 1) (\<lambda>d.
              admit_merged max_nodes depth ns (edges + 1)
                (queue @ [(neighbor, d)], t', admitted + 1))
          else admit_merged max_nodes depth ns (edges + 1) (queue, t', admitted)))"

text \<open>One iteration: record the popped node, then admit its neighbours.\<close>

definition bfs_record :: "node_id \<Rightarrow> u32 \<Rightarrow> bfs_state \<Rightarrow> bfs_state" where
  "bfs_record node depth s =
     (let s1 = (if bs_current_depth s < depth
                then s\<lparr>bs_levels := bs_levels s @ [bs_current_level s], bs_current_level := [],
                       bs_current_depth := depth\<rparr>
                else s)
      in s1\<lparr>bs_visited := bs_visited s1 @ [node], bs_depths := bs_depths s1 @ [depth],
            bs_current_level := bs_current_level s1 @ [node]\<rparr>)"

definition bfs_expand ::
  "('m, 's) dash \<Rightarrow> ('m, 's) csr_graph \<Rightarrow> simd_backend \<Rightarrow> u32 \<Rightarrow> usize \<Rightarrow>
   node_id \<Rightarrow> u32 \<Rightarrow> bfs_state \<Rightarrow> bfs_state result" where
  "bfs_expand D g backend max_depth max_nodes node depth s =
     (if max_depth \<le> depth \<or> max_nodes \<le> bs_admitted s then Ok s
      else if delta_is_empty D (delta g) then
        bind_res (base_neighbor_slice g node) (\<lambda>slice.
          let filtered = be_filter_unvisited_into backend slice (vt_words (bs_tracker s)) [] in
          bind_res (admit_batch max_nodes depth filtered (bs_queue s, bs_tracker s, bs_admitted s))
            (\<lambda>(q, t, a).
              Ok (s\<lparr>bs_edges_examined := bs_edges_examined s + length slice, bs_queue := q,
                    bs_tracker := t, bs_admitted := a\<rparr>)))
      else
        bind_res (neighbors D g node) (\<lambda>ns.
          bind_res (admit_merged max_nodes depth ns (bs_edges_examined s)
              (bs_queue s, bs_tracker s, bs_admitted s)) (\<lambda>(e, q, t, a).
            Ok (s\<lparr>bs_edges_examined := e, bs_queue := q, bs_tracker := t, bs_admitted := a\<rparr>))))"

text \<open>What decreases: queued nodes and unmarked nodes.\<close>

definition bfs_work :: "(node_id \<times> u32) list \<Rightarrow> visited_tracker \<Rightarrow> nat" where
  "bfs_work q t = length q + card (- tracker_view t)"

lemma bfs_work_mark:
  assumes "visited_test_and_set t n = Ok (b, t')"
  shows "bfs_work q t' \<le> bfs_work q t" "b \<Longrightarrow> bfs_work (q @ [x]) t' \<le> bfs_work q t"
proof -
  note v = test_and_set_view [OF assms]
  have "- tracker_view t' \<subseteq> - tracker_view t" using v by auto
  then show "bfs_work q t' \<le> bfs_work q t" by (simp add: bfs_work_def card_mono)
  assume b
  then have "- tracker_view t' = - tracker_view t - {n}" "n \<in> - tracker_view t" using v by auto
  then show "bfs_work (q @ [x]) t' \<le> bfs_work q t"
    using card_Suc_Diff1 [of "- tracker_view t" n] by (simp add: bfs_work_def)
qed

lemma admit_batch_work:
  "admit_batch m d ns (q, t, a) = Ok (q', t', a') \<Longrightarrow> bfs_work q' t' \<le> bfs_work q t"
proof (induction m d ns "(q, t, a)" arbitrary: q t a rule: admit_batch.induct)
  case (2 m d n ns q t a)
  show ?case
  proof (cases "m \<le> a")
    case False
    with 2(3) obtain new t1 where t1: "visited_test_and_set t (node_new (ucast n)) = Ok (new, t1)"
      by (auto simp: bind_res_Ok_iff Let_def)
    note w = bfs_work_mark [OF t1]
    show ?thesis
    proof (cases new)
      case True
      with 2(3) False t1 obtain d1 where d1: "add_word d 1 = (Ok d1 :: u32 result)"
        "admit_batch m d ns (q @ [(node_new (ucast n), d1)], t1, a + 1) = Ok (q', t', a')"
        by (auto simp: bind_res_Ok_iff Let_def)
      from 2(1) [OF False refl t1 refl True d1] w(2) [OF True] show ?thesis
        by (meson order_trans)
    next
      case new: False
      with 2(3) False t1 have "admit_batch m d ns (q, t1, a) = Ok (q', t', a')"
        by (simp add: Let_def)
      from 2(2) [OF False refl t1 refl new this] w(1) show ?thesis by (meson order_trans)
    qed
  qed (use 2(3) in simp)
qed simp

lemma admit_merged_work:
  "admit_merged m d ns e (q, t, a) = Ok (e', q', t', a') \<Longrightarrow> bfs_work q' t' \<le> bfs_work q t"
proof (induction m d ns e "(q, t, a)" arbitrary: q t a rule: admit_merged.induct)
  case (2 m d n ns e q t a)
  show ?case
  proof (cases "m \<le> a")
    case False
    with 2(3) obtain new t1 where t1: "visited_test_and_set t n = Ok (new, t1)"
      by (auto simp: bind_res_Ok_iff)
    note w = bfs_work_mark [OF t1]
    show ?thesis
    proof (cases new)
      case True
      with 2(3) False t1 obtain d1 where d1: "add_word d 1 = (Ok d1 :: u32 result)"
        "admit_merged m d ns (e + 1) (q @ [(n, d1)], t1, a + 1) = Ok (e', q', t', a')"
        by (auto simp: bind_res_Ok_iff)
      from 2(1) [OF False t1 refl True d1] w(2) [OF True] show ?thesis
        by (meson order_trans)
    next
      case new: False
      with 2(3) False t1 have "admit_merged m d ns (e + 1) (q, t1, a) = Ok (e', q', t', a')"
        by simp
      from 2(2) [OF False t1 refl new this] w(1) show ?thesis by (meson order_trans)
    qed
  qed (use 2(3) in simp)
qed simp

lemma bfs_expand_work:
  "bfs_expand D g b md mn n d s = Ok s' \<Longrightarrow>
   bfs_work (bs_queue s') (bs_tracker s') \<le> bfs_work (bs_queue s) (bs_tracker s)"
  by (auto simp: bfs_expand_def bind_res_Ok_iff Let_def split: if_splits
      dest: admit_batch_work admit_merged_work)

lemma bfs_record_frame [simp]:
  "bs_queue (bfs_record n d s) = bs_queue s" "bs_tracker (bfs_record n d s) = bs_tracker s"
  "bs_admitted (bfs_record n d s) = bs_admitted s"
  by (simp_all add: bfs_record_def Let_def)

function bfs_loop ::
  "('m, 's) dash \<Rightarrow> ('m, 's) csr_graph \<Rightarrow> simd_backend \<Rightarrow> u32 \<Rightarrow> usize \<Rightarrow> bfs_state \<Rightarrow>
   bfs_state result" where
  "bfs_loop D g backend max_depth max_nodes s =
     (case bs_queue s of
        [] \<Rightarrow> Ok s
      | (node, depth) # rest \<Rightarrow>
          bind_res (bfs_expand D g backend max_depth max_nodes node depth
              (bfs_record node depth (s\<lparr>bs_queue := rest\<rparr>)))
            (\<lambda>s'. bfs_loop D g backend max_depth max_nodes s'))"
  by pat_completeness auto

termination
proof (relation "measure (\<lambda>(D, g, b, md, mn, s). bfs_work (bs_queue s) (bs_tracker s))", goal_cases)
  case (2 D g b md mn s x21 x22 x1 x2 s')
  then show ?case using bfs_expand_work [of D g b md mn x1 x2] by (fastforce simp: bfs_work_def)
qed simp

declare bfs_loop.simps [simp del]

definition bfs_bounded_with_backend ::
  "('m, 's) dash \<Rightarrow> ('m, 's) csr_graph \<Rightarrow> node_id list \<Rightarrow> u32 \<Rightarrow> usize option \<Rightarrow> simd_backend \<Rightarrow>
   bfs_result result" where
  "bfs_bounded_with_backend D g starts max_depth cap backend =
     (let max_nodes = (case cap of None \<Rightarrow> usize_max | Some n \<Rightarrow> n)
      in bind_res (admit_starts g max_nodes starts ([], visited_new (node_count g), 0))
           (\<lambda>(queue, t, admitted).
         if queue = [] then Ok bfs_result_empty
         else bind_res (bfs_loop D g backend max_depth max_nodes
             \<lparr>bs_queue = queue, bs_tracker = t, bs_admitted = admitted, bs_visited = [],
              bs_depths = [], bs_levels = [], bs_edges_examined = 0, bs_current_depth = 0,
              bs_current_level = []\<rparr>) (\<lambda>s.
           Ok \<lparr>r_visited = bs_visited s, r_depths = bs_depths s,
               r_levels = (if bs_current_level s \<noteq> [] then bs_levels s @ [bs_current_level s]
                           else bs_levels s),
               r_max_depth_reached = bs_current_depth s,
               r_edges_examined = bs_edges_examined s\<rparr>)))"

definition bfs_bounded ::
  "platform \<Rightarrow> ('m, 's) dash \<Rightarrow> ('m, 's) csr_graph \<Rightarrow> node_id list \<Rightarrow> u32 \<Rightarrow> usize option \<Rightarrow>
   bfs_result result" where
  "bfs_bounded P D g starts max_depth cap =
     bfs_bounded_with_backend D g starts max_depth cap (select_backend P)"

definition bfs ::
  "platform \<Rightarrow> ('m, 's) dash \<Rightarrow> ('m, 's) csr_graph \<Rightarrow> node_id \<Rightarrow> u32 \<Rightarrow> bfs_result result" where
  "bfs P D g start max_depth = bfs_bounded P D g [start] max_depth None"

definition bfs_multi ::
  "platform \<Rightarrow> ('m, 's) dash \<Rightarrow> ('m, 's) csr_graph \<Rightarrow> node_id list \<Rightarrow> u32 \<Rightarrow> bfs_result result" where
  "bfs_multi P D g starts max_depth = bfs_bounded P D g starts max_depth None"

section \<open>The admission loops\<close>

abbreviation admitted_new :: "nat \<Rightarrow> nat \<Rightarrow> visited_tracker \<Rightarrow> node_id list \<Rightarrow> node_id list" where
  "admitted_new m a t ns \<equiv> take (m - a) (fresh (tracker_view t) ns)"

lemma take_fresh_step:
  "a < m \<Longrightarrow> take (m - a) (fresh V (n # ns)) =
     (if n \<in> V then take (m - a) (fresh V ns)
      else n # take (m - Suc a) (fresh (insert n V) ns))"
proof -
  assume "a < m"
  then have "m - a = Suc (m - Suc a)" by (rule Suc_diff_Suc [symmetric])
  then show ?thesis by simp
qed

lemma admit_starts_Ok:
  "wf_tracker c t \<Longrightarrow> \<exists>t'.
     admit_starts g m ss (q, t, a) =
       Ok (q @ map (\<lambda>v. (v, 0)) (admitted_new m a t (filter (graph_contains g) ss)), t',
           a + length (admitted_new m a t (filter (graph_contains g) ss))) \<and>
     wf_tracker c t' \<and>
     tracker_view t' = tracker_view t \<union> set (admitted_new m a t (filter (graph_contains g) ss))"
proof (induction ss arbitrary: q t a)
  case (Cons n ss)
  show ?case
  proof (cases "m \<le> a \<or> \<not> graph_contains g n")
    case True
    then show ?thesis using Cons by auto
  next
    case False
    from test_and_set_Ok [OF Cons.prems, of n] obtain t1 where t1:
      "visited_test_and_set t n = Ok (n \<notin> tracker_view t, t1)" "wf_tracker c t1"
      "tracker_view t1 = insert n (tracker_view t)" by blast
    have ta: "a < m" using False by simp
    show ?thesis
    proof (cases "n \<in> tracker_view t")
      case True
      with Cons.IH [OF t1(2), of q a] t1 False show ?thesis
        by (simp add: take_fresh_step [OF ta] insert_absorb del: fresh.simps)
    next
      case new: False
      with Cons.IH [OF t1(2), of "q @ [(n, 0)]" "Suc a"] t1 False show ?thesis
        by (simp add: take_fresh_step [OF ta] del: fresh.simps)
    qed
  qed
qed simp

lemma admit_batch_Ok:
  "wf_tracker c t \<Longrightarrow> unat d < u32_max \<Longrightarrow> \<exists>t'.
     admit_batch m d ns (q, t, a) =
       Ok (q @ map (\<lambda>v. (v, d + 1)) (admitted_new m a t (map node_of_u32 ns)), t',
           a + length (admitted_new m a t (map node_of_u32 ns))) \<and>
     wf_tracker c t' \<and>
     tracker_view t' = tracker_view t \<union> set (admitted_new m a t (map node_of_u32 ns))"
proof (induction ns arbitrary: q t a)
  case (Cons n ns)
  let ?n = "node_of_u32 n"
  have n: "node_new (ucast n) = ?n" by (simp add: node_new_def node_of_u32_def)
  show ?case
  proof (cases "m \<le> a")
    case True
    then show ?thesis using Cons by auto
  next
    case False
    from test_and_set_Ok [OF Cons.prems(1), of ?n] obtain t1 where t1:
      "visited_test_and_set t ?n = Ok (?n \<notin> tracker_view t, t1)" "wf_tracker c t1"
      "tracker_view t1 = insert ?n (tracker_view t)" by blast
    have ta: "a < m" using False by simp
    have d: "add_word d 1 = (Ok (d + 1) :: u32 result)"
      using Cons.prems(2) by (simp add: add_word_def u32_max_def)
    show ?thesis
    proof (cases "?n \<in> tracker_view t")
      case True
      with Cons.IH [OF t1(2) Cons.prems(2), of q a] t1 False n show ?thesis
        by (simp add: take_fresh_step [OF ta] insert_absorb Let_def del: fresh.simps)
    next
      case new: False
      with Cons.IH [OF t1(2) Cons.prems(2), of "q @ [(?n, d + 1)]" "Suc a"] t1 False n d
      show ?thesis
        by (simp add: take_fresh_step [OF ta] Let_def del: fresh.simps)
    qed
  qed
qed simp

lemma admit_merged_Ok:
  "wf_tracker c t \<Longrightarrow> unat d < u32_max \<Longrightarrow> \<exists>t' e'.
     admit_merged m d ns e (q, t, a) =
       Ok (e', q @ map (\<lambda>v. (v, d + 1)) (admitted_new m a t ns), t',
           a + length (admitted_new m a t ns)) \<and>
     wf_tracker c t' \<and> tracker_view t' = tracker_view t \<union> set (admitted_new m a t ns)"
proof (induction ns arbitrary: e q t a)
  case (Cons n ns)
  show ?case
  proof (cases "m \<le> a")
    case True
    then show ?thesis using Cons by auto
  next
    case False
    from test_and_set_Ok [OF Cons.prems(1), of n] obtain t1 where t1:
      "visited_test_and_set t n = Ok (n \<notin> tracker_view t, t1)" "wf_tracker c t1"
      "tracker_view t1 = insert n (tracker_view t)" by blast
    have ta: "a < m" using False by simp
    have d: "add_word d 1 = (Ok (d + 1) :: u32 result)"
      using Cons.prems(2) by (simp add: add_word_def u32_max_def)
    show ?thesis
    proof (cases "n \<in> tracker_view t")
      case True
      with Cons.IH [OF t1(2) Cons.prems(2), of "e + 1" q a] t1 False show ?thesis
        by (simp add: take_fresh_step [OF ta] insert_absorb del: fresh.simps)
    next
      case new: False
      with Cons.IH [OF t1(2) Cons.prems(2), of "e + 1" "q @ [(n, d + 1)]" "Suc a"] t1 False d
      show ?thesis
        by (simp add: take_fresh_step [OF ta] del: fresh.simps)
    qed
  qed
qed simp

section \<open>The loop follows the admission order\<close>

abbreviation nat_depths :: "('n \<times> u32) list \<Rightarrow> ('n \<times> nat) list" where
  "nat_depths \<equiv> map (\<lambda>(v, d). (v, unat d))"

text \<open>
  After \<open>k\<close> iterations the search has admitted \<open>A\<close>, the first \<open>M\<close> nodes of the order after
  \<open>k\<close> steps, and has processed the first \<open>k\<close> of them.
\<close>

definition bfs_inv ::
  "nat \<Rightarrow> (node_id \<times> nat) list \<Rightarrow> nat \<Rightarrow> bfs_state \<Rightarrow> bool" where
  "bfs_inv c A k s \<longleftrightarrow>
     k \<le> length A \<and> bs_visited s = map fst (take k A) \<and>
     map unat (bs_depths s) = map snd (take k A) \<and>
     nat_depths (bs_queue s) = drop k A \<and>
     wf_tracker c (bs_tracker s) \<and> tracker_view (bs_tracker s) = fst ` set A \<and>
     bs_admitted s = length A \<and>
     bs_levels s = map (level_of (take k A)) [0..<unat (bs_current_depth s)] \<and>
     bs_current_level s = level_of (take k A) (unat (bs_current_depth s)) \<and>
     unat (bs_current_depth s) = (if k = 0 then 0 else snd (A ! (k - 1)))"

lemma depths_ok_take: "depths_ok A k \<Longrightarrow> depths_ok (take M A) k"
  by (auto simp: depths_ok_def sorted_wrt_take take_map [symmetric])

lemma depths_ok_bounds:
  assumes "depths_ok A k" "k < length A"
  shows "i < k \<Longrightarrow> snd (A ! i) \<le> snd (A ! (k - 1))"
    and "k = 0 \<Longrightarrow> snd (A ! 0) = 0"
    and "0 < k \<Longrightarrow> snd (A ! (k - 1)) \<le> snd (A ! k) \<and> snd (A ! k) \<le> Suc (snd (A ! (k - 1)))"
  using assms sorted_nth_mono [of "map snd A" i "k - 1"] sorted_nth_mono [of "map snd A" "k - 1" k]
  by (auto simp: depths_ok_def)

lemma level_of_beyond:
  "(\<And>x. x \<in> set A \<Longrightarrow> snd x < d) \<Longrightarrow> level_of A d = []"
  by (auto simp: level_of_def filter_empty_conv)

text \<open>Recording the popped node extends the processed prefix and the levels.\<close>

lemma bfs_record_inv:
  assumes inv: "bfs_inv c A k s" and ok: "depths_ok A k" and q: "bs_queue s = (v, d) # rest"
  shows "k < length A" "A ! k = (v, unat d)"
    "bfs_inv c A (Suc k) (bfs_record v d (s\<lparr>bs_queue := rest\<rparr>))"
proof -
  let ?c = "unat (bs_current_depth s)"
  from inv q have drop: "(v, unat d) # nat_depths rest = drop k A" by (simp add: bfs_inv_def)
  then show k: "k < length A" by (metis drop_all list.distinct(1) not_less)
  from drop show Ak: "A ! k = (v, unat d)" by (metis hd_drop_conv_nth k list.sel(1))
  from drop have rest: "nat_depths rest = drop (Suc k) A" by (metis drop_Suc list.sel(3) tl_drop)
  have take: "take (Suc k) A = take k A @ [(v, unat d)]" by (simp add: take_Suc_conv_app_nth k Ak)
  have c: "?c = (if k = 0 then 0 else snd (A ! (k - 1)))" using inv by (simp add: bfs_inv_def)
  have cd: "?c \<le> unat d" "unat d \<le> Suc ?c" "k = 0 \<Longrightarrow> unat d = 0"
    using depths_ok_bounds [OF ok k] c Ak by (cases "k = 0"; simp)+
  have below: "snd x \<le> ?c" if "x \<in> set (take k A)" for x
  proof -
    from that obtain i where "i < k" "x = A ! i" by (auto simp: in_set_conv_nth)
    then show ?thesis using depths_ok_bounds(1) [OF ok k, of i] c by auto
  qed
  let ?s = "bfs_record v d (s\<lparr>bs_queue := rest\<rparr>)"
  have levels: "bs_levels ?s = map (level_of (take (Suc k) A)) [0..<unat d] \<and>
      bs_current_level ?s = level_of (take (Suc k) A) (unat d) \<and> bs_current_depth ?s = d"
  proof (cases "bs_current_depth s < d")
    case True
    then have d: "unat d = Suc ?c" using cd by (simp add: word_less_nat_alt)
    have "level_of (take k A) (Suc ?c) = []" using below by (intro level_of_beyond) (simp add: less_Suc_eq_le)
    then show ?thesis
      using inv True d
      by (simp add: bfs_record_def bfs_inv_def Let_def take level_of_append level_of_single)
  next
    case False
    then have d: "d = bs_current_depth s" using cd by (simp add: word_less_nat_alt word_unat_eq_iff)
    then show ?thesis
      using inv by (simp add: bfs_record_def bfs_inv_def Let_def take level_of_append level_of_single)
  qed
  have "bs_visited ?s = map fst (take (Suc k) A)" "map unat (bs_depths ?s) = map snd (take (Suc k) A)"
    using inv by (simp_all add: bfs_record_def bfs_inv_def Let_def take)
  then show "bfs_inv c A (Suc k) ?s"
    using inv k levels rest Ak unfolding bfs_inv_def by simp
qed

text \<open>The two expansion paths admit the same nodes: the new neighbours, up to the cap.\<close>

lemma bfs_expand_Ok:
  fixes v :: node_id
  assumes g: "wf_graph D g" and b: "lawful_backend b"
    and t: "wf_tracker (node_count g) (bs_tracker s)" and d: "d < md" "bs_admitted s < m"
  defines "new \<equiv> take (m - bs_admitted s) (fresh (tracker_view (bs_tracker s)) (neighbor_list D g v))"
  shows "\<exists>t' e. bfs_expand D g b md m v d s =
      Ok (s\<lparr>bs_edges_examined := e, bs_queue := bs_queue s @ map (\<lambda>v. (v, d + 1)) new,
            bs_tracker := t', bs_admitted := bs_admitted s + length new\<rparr>) \<and>
    wf_tracker (node_count g) t' \<and> tracker_view t' = tracker_view (bs_tracker s) \<union> set new"
proof -
  note wf = wf_graphD [OF g]
  let ?V = "tracker_view (bs_tracker s)"
  have "unat d < unat md" using d(1) by (simp add: word_less_nat_alt)
  then have d_small: "unat d < u32_max"
    using unsigned_less [of md, where 'a = nat] by (simp add: u32_max_def)
  have no: "\<not> (md \<le> d \<or> m \<le> bs_admitted s)" using d by auto
  show ?thesis
  proof (cases "delta_is_empty D (delta g)")
    case True
    let ?row = "base_row g v"
    let ?ws = "vt_words (bs_tracker s)"
    have nl: "neighbor_list D g v = map node_of_u32 ?row"
      using True wf(3) by (simp add: delta_is_empty_iff neighbor_list_no_delta)
    have "fresh ?V (map node_of_u32 (filter (is_unvisited ?ws) ?row)) = fresh ?V (map node_of_u32 ?row)"
    proof -
      have seen: "node_of_u32 x \<in> ?V" if "x \<in> set ?row" "\<not> is_unvisited ?ws x" for x
      proof -
        have "(v, node_of_u32 x) \<in> base_edges g" using that(1) by (simp add: base_edges_def)
        from base_edges_node_bound [OF wf(1) this] have x: "unat x < node_count g"
          by (simp add: node_of_u32_def)
        then have "unat x div 64 < length ?ws" using t by (simp add: wf_tracker_def div_less_div_ceil)
        with that(2) have "unat x \<in> bits_of ?ws" by (simp add: is_unvisited_def)
        then show ?thesis
          using x t by (simp add: tracker_view_def node_of_u32_def wf_tracker_def word_less_nat_alt)
      qed
      have "map node_of_u32 (filter (is_unvisited ?ws) ?row) =
          filter (\<lambda>n. \<exists>x. n = node_of_u32 x \<and> is_unvisited ?ws x) (map node_of_u32 ?row)"
      proof -
        have inj: "node_of_u32 x = node_of_u32 y \<longleftrightarrow> x = y" for x y
          by (metis node_id.inject node_of_u32_def ucast_u32_roundtrip)
        show ?thesis by (simp add: filter_map comp_def inj)
      qed
      moreover have "fresh ?V (filter (\<lambda>n. \<exists>x. n = node_of_u32 x \<and> is_unvisited ?ws x) (map node_of_u32 ?row)) =
          fresh ?V (map node_of_u32 ?row)"
        by (rule fresh_filter) (use seen in auto)
      ultimately show ?thesis by simp
    qed
    with admit_batch_Ok [OF t d_small, of m "filter (is_unvisited ?ws) ?row" "bs_queue s" "bs_admitted s"]
    obtain t' where "admit_batch m d (filter (is_unvisited ?ws) ?row)
        (bs_queue s, bs_tracker s, bs_admitted s) =
      Ok (bs_queue s @ map (\<lambda>v. (v, d + 1)) new, t', bs_admitted s + length new)"
      "wf_tracker (node_count g) t'" "tracker_view t' = ?V \<union> set new"
      unfolding new_def nl by auto
    then show ?thesis
      using True no base_neighbor_slice_Ok [OF wf(1)] lawful_backend.filter_law [OF b]
      by (simp add: bfs_expand_def Let_def) blast
  next
    case False
    from admit_merged_Ok [OF t d_small, of m "neighbor_list D g v" "bs_edges_examined s" "bs_queue s"
        "bs_admitted s"]
    obtain t' e' where "admit_merged m d (neighbor_list D g v) (bs_edges_examined s)
        (bs_queue s, bs_tracker s, bs_admitted s) =
      Ok (e', bs_queue s @ map (\<lambda>v. (v, d + 1)) new, t', bs_admitted s + length new)"
      "wf_tracker (node_count g) t'" "tracker_view t' = ?V \<union> set new"
      unfolding new_def by blast
    then show ?thesis
      using False no neighbors_Ok [OF wf(1)] by (simp add: bfs_expand_def) blast
  qed
qed

lemma take_append_short:
  "length xs < M \<Longrightarrow> take M (xs @ ys) = xs @ take (M - length xs) ys"
  by simp

lemma bfs_step_inv:
  fixes D :: "('m, 's) dash" and g :: "('m, 's) csr_graph"
  defines "A \<equiv> \<lambda>M md ss k. take M (order (neighbor_list D g) (unat md) ss k)"
  assumes g: "wf_graph D g" and b: "lawful_backend b"
    and inv: "bfs_inv (node_count g) (A M md ss k) k s" and q: "bs_queue s = (v, d) # rest"
  shows "\<exists>s'. bfs_expand D g b md M v d (bfs_record v d (s\<lparr>bs_queue := rest\<rparr>)) = Ok s' \<and>
    bfs_inv (node_count g) (A M md ss (Suc k)) (Suc k) s'"
proof -
  let ?nb = "neighbor_list D g" and ?s = "bfs_record v d (s\<lparr>bs_queue := rest\<rparr>)"
  let ?O = "order ?nb (unat md) ss k"
  let ?A = "A M md ss k" and ?A' = "A M md ss (Suc k)"
  have ok: "depths_ok ?A k" unfolding A_def by (rule depths_ok_take [OF order_depths_ok])
  note rec = bfs_record_inv [OF inv ok q]
  have kO: "k < length ?O" "?O ! k = (v, unat d)" using rec(1,2) by (auto simp: A_def)
  have adm: "bs_admitted ?s = length ?A" using rec(3) by (simp add: bfs_inv_def)
  show ?thesis
  proof (cases "md \<le> d \<or> M \<le> length ?A")
    case True
    have "?A' = ?A"
    proof (cases "M \<le> length ?A")
      case True
      then show ?thesis by (simp add: A_def)
    next
      case False
      with True have "unat md \<le> unat d" by (simp add: word_le_nat_alt)
      then have "admit_order ?nb (unat md) ?O k = []" using kO by (simp add: admit_order_def)
      then show ?thesis by (simp add: A_def)
    qed
    moreover have "bfs_expand D g b md M v d ?s = Ok ?s"
      using True adm by (auto simp: bfs_expand_def)
    ultimately show ?thesis using rec(3) by auto
  next
    case False
    then have len: "length ?O < M" and AO: "?A = ?O" by (auto simp: A_def)
    let ?new = "take (M - length ?A) (fresh (fst ` set ?A) (?nb v))"
    have t: "wf_tracker (node_count g) (bs_tracker ?s)" "tracker_view (bs_tracker ?s) = fst ` set ?A"
      using rec(3) by (simp_all add: bfs_inv_def)
    have "d < md" "bs_admitted ?s < M" using False adm by auto
    from bfs_expand_Ok [OF g b t(1) this, of v, unfolded t(2) adm] obtain t' e where e:
      "bfs_expand D g b md M v d ?s = Ok (?s\<lparr>bs_edges_examined := e,
          bs_queue := bs_queue ?s @ map (\<lambda>v. (v, d + 1)) ?new, bs_tracker := t',
          bs_admitted := length ?A + length ?new\<rparr>)"
      "wf_tracker (node_count g) t'" "tracker_view t' = fst ` set ?A \<union> set ?new" by blast
    have "unat d < unat md" using False by (simp add: word_le_nat_alt)
    then have d1: "unat (d + 1) = Suc (unat d)"
      using unsigned_less [of md, where 'a = nat] by (simp add: unat_add_fits)
    have "admit_order ?nb (unat md) ?O k = map (\<lambda>w. (w, Suc (unat d))) (fresh (fst ` set ?A) (?nb v))"
      using kO \<open>unat d < unat md\<close> AO by (simp add: admit_order_def)
    then have A': "?A' = ?A @ map (\<lambda>w. (w, Suc (unat d))) ?new"
      using len AO by (simp add: A_def take_map)
    have prefix: "take (Suc k) ?A' = take (Suc k) ?A" "?A' ! k = ?A ! k"
      using rec(1) by (simp_all add: A' nth_append)
    have "bfs_inv (node_count g) ?A' (Suc k) (?s\<lparr>bs_edges_examined := e,
          bs_queue := bs_queue ?s @ map (\<lambda>v. (v, d + 1)) ?new, bs_tracker := t',
          bs_admitted := length ?A + length ?new\<rparr>)"
      using rec(3) rec(1) e(2,3) prefix d1
      unfolding bfs_inv_def by (simp add: A' image_Un image_image comp_def)
    with e(1) show ?thesis by blast
  qed
qed

lemma bfs_loop_inv:
  fixes D :: "('m, 's) dash" and g :: "('m, 's) csr_graph"
  assumes g: "wf_graph D g" and b: "lawful_backend b"
  shows "bfs_inv (node_count g) (take M (order (neighbor_list D g) (unat md) ss k)) k s \<Longrightarrow>
    \<exists>s' j. bfs_loop D g b md M s = Ok s' \<and>
      length (take M (order (neighbor_list D g) (unat md) ss j)) = j \<and>
      bfs_inv (node_count g) (take M (order (neighbor_list D g) (unat md) ss j)) j s'"
proof (induction "bfs_work (bs_queue s) (bs_tracker s)" arbitrary: k s rule: less_induct)
  case less
  show ?case
  proof (cases "bs_queue s")
    case Nil
    with less.prems have "length (take M (order (neighbor_list D g) (unat md) ss k)) = k"
      by (auto simp: bfs_inv_def)
    then show ?thesis using less.prems Nil
      by (intro exI [of _ s] exI [of _ k]) (simp add: bfs_loop.simps)
  next
    case (Cons x rest)
    obtain v d where x: "x = (v, d)" by fastforce
    with Cons have q: "bs_queue s = (v, d) # rest" by simp
    from bfs_step_inv [OF g b less.prems q] obtain s1 where s1:
      "bfs_expand D g b md M v d (bfs_record v d (s\<lparr>bs_queue := rest\<rparr>)) = Ok s1"
      "bfs_inv (node_count g) (take M (order (neighbor_list D g) (unat md) ss (Suc k))) (Suc k) s1"
      by blast
    have "bfs_work (bs_queue s1) (bs_tracker s1) < bfs_work (bs_queue s) (bs_tracker s)"
      using bfs_expand_work [OF s1(1)] q by (simp add: bfs_work_def)
    from less.hyps [OF this s1(2)] s1(1) q show ?thesis
      by (subst bfs_loop.simps) simp
  qed
qed

text \<open>The full admission order of a search over a graph.\<close>

definition search_order ::
  "('m, 's) dash \<Rightarrow> ('m, 's) csr_graph \<Rightarrow> node_id list \<Rightarrow> u32 \<Rightarrow> (node_id \<times> nat) list" where
  "search_order D g starts max_depth =
     order (neighbor_list D g) (unat max_depth) (filter (graph_contains g) starts)
       (card (UNIV :: node_id set))"

lemma search_order_fixpoint:
  "length (search_order D g starts md) \<le> card (UNIV :: node_id set)"
  unfolding search_order_def by (rule order_reaches_fixpoint)

definition result_matches :: "bfs_result \<Rightarrow> (node_id \<times> nat) list \<Rightarrow> bool" where
  "result_matches r B \<longleftrightarrow>
     r_visited r = map fst B \<and> map unat (r_depths r) = map snd B \<and>
     r_levels r = (if B = [] then [] else map (level_of B) [0..<Suc (unat (r_max_depth_reached r))]) \<and>
     unat (r_max_depth_reached r) = (if B = [] then 0 else snd (last B))"

lemma bfs_refines_order:
  fixes md :: u32 and starts :: "node_id list" and cap :: "usize option"
  assumes g: "wf_graph D g" and b: "lawful_backend b"
  defines "B \<equiv> take (case cap of None \<Rightarrow> usize_max | Some n \<Rightarrow> n) (search_order D g starts md)"
  shows "\<exists>r. bfs_bounded_with_backend D g starts md cap b = Ok r \<and> result_matches r B"
proof -
  let ?M = "case cap of None \<Rightarrow> usize_max | Some n \<Rightarrow> n"
  let ?ss = "filter (graph_contains g) starts"
  let ?O = "order (neighbor_list D g) (unat md) ?ss"
  have "node_count g < 2 ^ 64" using g by (simp add: wf_graph_def wf_base_def)
  note new = visited_new_props [OF this]
  from admit_starts_Ok [OF new(1), of g ?M starts "[]" 0] obtain t where st:
    "admit_starts g ?M starts ([], visited_new (node_count g), 0) =
      Ok (map (\<lambda>v. (v, 0)) (take ?M (fresh {} ?ss)), t, length (take ?M (fresh {} ?ss)))"
    "wf_tracker (node_count g) t" "tracker_view t = set (take ?M (fresh {} ?ss))"
    using new(2) by auto
  let ?Q = "map (\<lambda>v. (v, 0)) (take ?M (fresh {} ?ss)) :: (node_id \<times> u32) list"
  let ?s0 = "\<lparr>bs_queue = ?Q, bs_tracker = t, bs_admitted = length (take ?M (fresh {} ?ss)),
      bs_visited = [], bs_depths = [], bs_levels = [], bs_edges_examined = 0,
      bs_current_depth = 0, bs_current_level = []\<rparr>"
  have "bfs_inv (node_count g) (take ?M (?O 0)) 0 ?s0"
    using st(2,3) by (simp add: bfs_inv_def take_map level_of_def comp_def image_image)
  from bfs_loop_inv [OF g b this] obtain s j where sj: "bfs_loop D g b md ?M ?s0 = Ok s"
    "length (take ?M (?O j)) = j" "bfs_inv (node_count g) (take ?M (?O j)) j s" by blast
  have B: "take ?M (?O j) = B"
    unfolding B_def search_order_def
    by (rule order_capped) (use sj(2) order_reaches_fixpoint in auto)
  have jB: "length B = j" using sj(2) B by simp
  note inv = sj(3) [unfolded B bfs_inv_def]
  have B0: "take ?M (map (\<lambda>v. (v, 0)) (fresh {} ?ss)) = take (length (take ?M (?O 0))) B"
  proof -
    obtain r where "?O j = ?O 0 @ r" using order_prefix [of 0 j] by blast
    then show ?thesis unfolding B [symmetric] by (simp add: min_def)
  qed
  show ?thesis
  proof (cases "?Q = []")
    case True
    then have "?M = 0 \<or> fresh {} ?ss = []" by auto
    moreover have "?O k = []" if "fresh {} ?ss = []" for k
      using that by (induction k) (simp_all add: admit_order_def)
    ultimately have "B = []" by (auto simp: B_def search_order_def)
    then show ?thesis using True st(1)
      by (simp add: bfs_bounded_with_backend_def bfs_result_empty_def Let_def result_matches_def)
  next
    case False
    then have "take ?M (map (\<lambda>v. (v, 0 :: nat)) (fresh {} ?ss)) \<noteq> []" by simp
    then have ne: "B \<noteq> []" unfolding B0 by auto
    have cd: "unat (bs_current_depth s) = snd (last B)"
      using inv ne jB by (auto simp: last_conv_nth)
    have "last B \<in> set B" using ne by simp
    then have "fst (last B) \<in> set (level_of B (unat (bs_current_depth s)))"
      using cd by (auto simp: level_of_def)
    then have lev: "bs_current_level s \<noteq> []" using inv jB by auto
    have run: "bfs_bounded_with_backend D g starts md cap b =
      Ok \<lparr>r_visited = bs_visited s, r_depths = bs_depths s,
          r_levels = bs_levels s @ [bs_current_level s],
          r_max_depth_reached = bs_current_depth s, r_edges_examined = bs_edges_examined s\<rparr>"
      using False st(1) sj(1) lev by (simp add: bfs_bounded_with_backend_def Let_def)
    then show ?thesis using inv jB ne cd by (simp add: result_matches_def)
  qed
qed

section \<open>Properties\<close>

text \<open>
  \<open>reach_distance D g S d v\<close>: the shortest path over the live edges of the graph from a
  node of \<open>S\<close> to \<open>v\<close> has \<open>d\<close> edges.
\<close>

definition reach_distance ::
  "('m, 's) dash \<Rightarrow> ('m, 's) csr_graph \<Rightarrow> node_id set \<Rightarrow> nat \<Rightarrow> node_id \<Rightarrow> bool" where
  "reach_distance D g S d v \<longleftrightarrow>
     (\<exists>s \<in> S. (s, v) \<in> graph_edges D g ^^ d) \<and>
     (\<forall>e < d. \<forall>s \<in> S. (s, v) \<notin> graph_edges D g ^^ e)"

lemma neighbor_list_relation:
  "dash_laws D \<Longrightarrow> {(a, b). b \<in> set (neighbor_list D g a)} = graph_edges D g"
  by (simp add: set_neighbor_list)

lemma reach_distance_at:
  "dash_laws D \<Longrightarrow> reach_distance D g S d v \<longleftrightarrow> at_distance (neighbor_list D g) S d v"
  by (simp add: reach_distance_def at_distance_walk neighbor_list_relation)

text \<open>
  The cap \<open>None\<close> stands for is \<open>usize::MAX\<close>, which a search never reaches when the delta
  layer holds fewer than \<open>2 ^ 63\<close> insertions.
\<close>

definition searchable :: "('m, 's) dash \<Rightarrow> ('m, 's) csr_graph \<Rightarrow> bool" where
  "searchable D g \<longleftrightarrow> wf_graph D g \<and> delta_insertion_count D (delta g) \<le> 2 ^ 63"

lemma length_search_order:
  assumes "searchable D g"
  shows "length (search_order D g starts md) \<le> usize_max"
proof -
  from assms have g: "wf_graph D g" and few: "delta_insertion_count D (delta g) \<le> 2 ^ 63"
    by (auto simp: searchable_def)
  note wf = wf_graphD [OF g]
  let ?F = "search_order D g starts md"
  let ?N = "(\<lambda>i. NodeId (of_nat i)) ` {..< node_count g}"
  let ?I = "snd ` fst ` set (dm_iter D (insertions (delta g)))"
  have N: "v \<in> ?N" if "unat (as_u64 v) < node_count g" for v
    using that by (intro image_eqI [of _ _ "unat (as_u64 v)"]) simp_all
  have nb: "w \<in> ?N \<union> ?I" if "w \<in> set (neighbor_list D g v)" for v w
  proof -
    have "(v, w) \<in> base_edges g \<or> (v, w) \<in> dom (inserted D (delta g))"
      using that wf(3) by (auto simp: set_neighbor_list graph_edges_def)
    then show ?thesis
    proof
      assume "(v, w) \<in> base_edges g"
      then show ?thesis using base_edges_node_bound [OF wf(1)] N by blast
    next
      assume "(v, w) \<in> dom (inserted D (delta g))"
      then have "(v, w) \<in> fst ` set (dm_iter D (insertions (delta g)))"
        by (simp add: inserted_def dom_map_of_conv_image_fst)
      then have "snd (v, w) \<in> ?I" by (rule imageI)
      then show ?thesis by simp
    qed
  qed
  have "v \<in> ?N \<union> ?I" if v: "(v, d) \<in> set ?F" for v d
  proof -
    have "v \<in> ball (neighbor_list D g) (set (filter (graph_contains g) starts)) d"
      using v order_sound unfolding search_order_def by fast
    then show ?thesis
    proof (induction d arbitrary: v)
      case 0
      then have "unat (as_u64 v) < node_count g" by (simp add: graph_contains_iff)
      then show ?case using N by blast
    next
      case (Suc d)
      then show ?case using nb by auto
    qed
  qed
  then have sub: "set (map fst ?F) \<subseteq> ?N \<union> ?I" by fastforce
  have "length ?F = card (set (map fst ?F))"
    using distinct_card [OF order_distinct] unfolding search_order_def by (metis length_map)
  also have "\<dots> \<le> card (?N \<union> ?I)" by (rule card_mono) (use sub in auto)
  also have "\<dots> \<le> card ?N + card ?I" by (rule card_Un_le)
  also have "card ?N \<le> node_count g" using card_image_le [of "{..< node_count g}"] by fastforce
  also have "card ?I \<le> length (dm_iter D (insertions (delta g)))"
    by (metis (no_types, lifting) card_length image_image list.set_map length_map)
  also have "\<dots> \<le> 2 ^ 63" using few wf(3) by (simp add: delta_insertion_count_def dash_lawsD)
  finally show ?thesis using wf(1) by (simp add: wf_base_def usize_max_def)
qed

lemma search_order_spec:
  assumes "dash_laws D"
  shows "(v, d) \<in> set (search_order D g starts md) \<longleftrightarrow>
    d \<le> unat md \<and> reach_distance D g {s \<in> set starts. graph_contains g s} d v"
proof -
  have "set (filter (graph_contains g) starts) = {s \<in> set starts. graph_contains g s}" by auto
  then show ?thesis
    using order_spec [OF order_reaches_fixpoint, of v d "neighbor_list D g" "unat md"
        "filter (graph_contains g) starts"] assms
    by (simp add: search_order_def reach_distance_at)
qed

lemma sorted_search_order: "sorted (map snd (take n (search_order D g starts md)))"
  using depths_ok_take [OF order_depths_ok] unfolding search_order_def depths_ok_def by blast

lemma distinct_search_order: "distinct (map fst (take n (search_order D g starts md)))"
  using order_distinct unfolding search_order_def take_map [symmetric] by (rule distinct_take)

text \<open>The outcome of an uncapped search, as lists.\<close>

lemma bfs_multi_order:
  assumes "searchable D g"
  obtains r where "bfs_multi P D g starts md = Ok r"
    "r_visited r = map fst (search_order D g starts md)"
    "map unat (r_depths r) = map snd (search_order D g starts md)"
proof -
  have g: "wf_graph D g" using assms by (simp add: searchable_def)
  have "take usize_max (search_order D g starts md) = search_order D g starts md"
    using length_search_order [OF assms] by simp
  then show ?thesis
    using bfs_refines_order [OF g selected.lawful_backend_axioms, of starts md None P] that
    by (auto simp: bfs_multi_def bfs_bounded_def result_matches_def)
qed

lemma nth_pair_in_set:
  assumes "map fst F = vs" "map snd F = map unat ds"
  shows "(\<exists>i < length vs. vs ! i = v \<and> ds ! i = (d :: u32)) \<longleftrightarrow> (v, unat d) \<in> set F"
proof -
  have len: "length vs = length F" "length ds = length F"
    using arg_cong [OF assms(1), of length] arg_cong [OF assms(2), of length] by auto
  have "F ! i = (vs ! i, unat (ds ! i))" if "i < length F" for i
    using that assms len by (metis nth_map prod.collapse)
  then show ?thesis
    by (auto simp: in_set_conv_nth len) (metis unsigned_word_eqI)+
qed

text \<open>
  C1: breadth-first search from any list of starts never fails and computes shortest
  distances: a node is visited, at depth \<open>d\<close>, exactly when \<open>d\<close> is at most the depth limit
  and the shortest path over the live edges (base edges without a tombstone, and inserted
  edges) from a start the graph contains has \<open>d\<close> edges.  No node is visited twice, and
  depths never decrease along the result.
\<close>

theorem bfs_computes_distances:
  assumes "searchable D g"
  shows "\<exists>r. bfs_multi P D g starts md = Ok r \<and> distinct (r_visited r) \<and>
    length (r_depths r) = length (r_visited r) \<and> sorted (map unat (r_depths r)) \<and>
    ((\<exists>i < length (r_visited r). r_visited r ! i = v \<and> r_depths r ! i = d) \<longleftrightarrow>
       d \<le> md \<and> reach_distance D g {s \<in> set starts. graph_contains g s} (unat d) v)"
proof -
  let ?F = "search_order D g starts md"
  obtain r where r: "bfs_multi P D g starts md = Ok r" "r_visited r = map fst ?F"
    "map unat (r_depths r) = map snd ?F"
    using assms by (rule bfs_multi_order)
  have "dash_laws D" using assms by (auto simp: searchable_def dest: wf_graphD)
  from search_order_spec [OF this, of v "unat d" g starts md] nth_pair_in_set [of ?F "r_visited r" "r_depths r" v d]
  have "(\<exists>i < length (r_visited r). r_visited r ! i = v \<and> r_depths r ! i = d) \<longleftrightarrow>
      d \<le> md \<and> reach_distance D g {s \<in> set starts. graph_contains g s} (unat d) v"
    using r by (simp add: word_le_nat_alt)
  moreover have "length (r_depths r) = length (r_visited r)"
    using r(2) map_eq_imp_length_eq [OF r(3)] by simp
  moreover have "distinct (r_visited r)" "sorted (map unat (r_depths r))"
    using r distinct_search_order [of "length ?F" D g starts md]
      sorted_search_order [of "length ?F" D g starts md] by simp_all
  ultimately show ?thesis using r(1) by blast
qed

lemma searchable_example: "searchable list_dash example_graph"
  using wf_example_graph by (simp add: searchable_def)
    (simp add: example_graph_def delta_insertion_count_def delta_delete_def delta_insert_def
      delta_new_def list_dash_def Let_def)

theorem bfs_computes_distances_witness:
  "\<exists>r. bfs_multi example_platform list_dash example_graph [NodeId 1] 5 = Ok r \<and>
    ((\<exists>i < length (r_visited r). r_visited r ! i = NodeId 0 \<and> r_depths r ! i = 2) \<longleftrightarrow>
      (2 :: u32) \<le> 5 \<and> reach_distance list_dash example_graph
        {s \<in> set [NodeId 1]. graph_contains example_graph s} (unat (2 :: u32)) (NodeId 0))"
  using bfs_computes_distances [OF searchable_example, of example_platform "[NodeId 1]" 5 "NodeId 0" 2] by blast

lemma find_position_nth:
  assumes "distinct xs" "i < length xs"
  shows "find_position (\<lambda>x. x = xs ! i) xs = Some i"
proof -
  have "takeWhile (\<lambda>x. x \<noteq> xs ! i) xs = take i xs"
    using assms by (intro takeWhile_eq_take_P_nth) (auto simp: nth_eq_iff_index_eq)
  then show ?thesis using assms(2) by (simp add: find_position_def Let_def)
qed

lemma find_position_None: "v \<notin> set xs \<Longrightarrow> find_position (\<lambda>x. x = v) xs = None"
proof -
  assume "v \<notin> set xs"
  then have "takeWhile (\<lambda>x. x \<noteq> v) xs = xs" unfolding takeWhile_eq_all_conv by blast
  then show ?thesis by (simp only: find_position_def Let_def less_irrefl if_False)
qed

text \<open>
  looking a node up in a result is exact: \<open>contains\<close> holds just for the nodes within
  the depth limit, and \<open>depth_of\<close> never panics and returns the shortest distance, or
  nothing for a node that was not reached.
\<close>

theorem bfs_lookup:
  assumes "searchable D g" "graph_contains g start"
  shows "\<exists>r. bfs P D g start md = Ok r \<and>
    (result_contains r v \<longleftrightarrow> (\<exists>d \<le> unat md. reach_distance D g {start} d v)) \<and>
    (case depth_of r v of
       Ok (Some d) \<Rightarrow> d \<le> md \<and> reach_distance D g {start} (unat d) v
     | Ok None \<Rightarrow> \<not> (\<exists>d \<le> unat md. reach_distance D g {start} d v)
     | _ \<Rightarrow> False)"
proof -
  let ?F = "search_order D g [start] md"
  obtain r where "bfs_multi P D g [start] md = Ok r" and vis: "r_visited r = map fst ?F"
    and dep: "map unat (r_depths r) = map snd ?F"
    using assms(1) by (rule bfs_multi_order)
  then have r: "bfs P D g start md = Ok r" by (simp add: bfs_def bfs_multi_def)
  have D: "dash_laws D" using assms(1) by (auto simp: searchable_def dest: wf_graphD)
  have "{s \<in> set [start]. graph_contains g s} = {start}" using assms(2) by auto
  note F = search_order_spec [OF D, of v _ g "[start]" md, unfolded this]
  have mem: "result_contains r v \<longleftrightarrow> (\<exists>d \<le> unat md. reach_distance D g {start} d v)"
    using F by (auto simp: result_contains_def vis image_iff) (metis fst_conv)+
  moreover have "case depth_of r v of
       Ok (Some d) \<Rightarrow> d \<le> md \<and> reach_distance D g {start} (unat d) v
     | Ok None \<Rightarrow> \<not> (\<exists>d \<le> unat md. reach_distance D g {start} d v)
     | _ \<Rightarrow> False"
  proof (cases "v \<in> set (r_visited r)")
    case False
    with mem show ?thesis by (simp add: depth_of_def find_position_None result_contains_def)
  next
    case True
    then obtain i where i: "i < length (r_visited r)" "v = r_visited r ! i"
      by (auto simp: in_set_conv_nth)
    have "distinct (r_visited r)"
      using distinct_search_order [of "length ?F" D g "[start]" md] by (simp add: vis)
    then have pos: "find_position (\<lambda>x. x = v) (r_visited r) = Some i"
      using i find_position_nth by blast
    have len: "i < length (r_depths r)" "i < length ?F"
      using i(1) map_eq_imp_length_eq [OF dep] by (simp_all add: vis)
    have "unat (r_depths r ! i) = snd (?F ! i)"
      using arg_cong [OF dep, of "\<lambda>xs. xs ! i"] len by simp
    moreover have "?F ! i = (v, snd (?F ! i))" using i len by (simp add: vis prod_eq_iff)
    ultimately have "(v, unat (r_depths r ! i)) \<in> set ?F" using len(2) by (metis nth_mem)
    with F pos len show ?thesis by (simp add: depth_of_def word_le_nat_alt)
  qed
  ultimately show ?thesis using r by blast
qed

theorem bfs_lookup_witness:
  "\<exists>r. bfs example_platform list_dash example_graph (NodeId 1) 5 = Ok r \<and>
    (result_contains r (NodeId 0) \<longleftrightarrow>
      (\<exists>d \<le> unat (5 :: u32). reach_distance list_dash example_graph {NodeId 1} d (NodeId 0)))"
  using bfs_lookup [OF searchable_example, of "NodeId 1" example_platform 5 "NodeId 0"]
  by (auto simp: graph_contains_iff example_graph_def)

text \<open>
  a node cap only truncates: with \<open>max_nodes = Some n\<close> the visited nodes and their
  depths are the first \<open>n\<close> of those of the uncapped search, in the same order.
\<close>

theorem bfs_cap_truncates:
  assumes "wf_graph D g" "n \<le> usize_max"
  shows "\<exists>full capped. bfs_bounded P D g starts md None = Ok full \<and>
    bfs_bounded P D g starts md (Some n) = Ok capped \<and>
    r_visited capped = take n (r_visited full) \<and> r_depths capped = take n (r_depths full)"
proof -
  let ?F = "search_order D g starts md"
  note ref = bfs_refines_order [OF assms(1) selected.lawful_backend_axioms, of starts md _ P]
  from ref [of None] obtain r where r: "bfs_bounded P D g starts md None = Ok r"
    "r_visited r = map fst (take usize_max ?F)" "map unat (r_depths r) = map snd (take usize_max ?F)"
    by (auto simp: bfs_bounded_def result_matches_def)
  from ref [of "Some n"] obtain c where c: "bfs_bounded P D g starts md (Some n) = Ok c"
    "r_visited c = map fst (take n ?F)" "map unat (r_depths c) = map snd (take n ?F)"
    by (auto simp: bfs_bounded_def result_matches_def)
  have t: "take n ?F = take n (take usize_max ?F)" using assms(2) by (simp add: min_def)
  have "r_visited c = take n (r_visited r)" using r(2) c(2) t by (simp add: take_map)
  moreover have "map unat (r_depths c) = map unat (take n (r_depths r))"
    using r(3) c(3) t by (metis take_map)
  then have "r_depths c = take n (r_depths r)"
    by (rule map_injective) (simp add: inj_def word_unat_eq_iff)
  ultimately show ?thesis using r(1) c(1) by blast
qed

theorem bfs_cap_truncates_witness:
  "\<exists>full capped. bfs_bounded example_platform list_dash example_graph [NodeId 0] 3 None = Ok full \<and>
    bfs_bounded example_platform list_dash example_graph [NodeId 0] 3 (Some 1) = Ok capped \<and>
    r_visited capped = take 1 (r_visited full)"
  using bfs_cap_truncates [OF wf_example_graph, of 1 example_platform "[NodeId 0]" 3]
  by (auto simp: usize_max_def)

text \<open>
  the level lists partition the result: their concatenation is the visited list, level
  \<open>d\<close> holds just the nodes of depth \<open>d\<close> in order, no level is empty, and there is one for
  every depth up to the maximum reached, which respects the limit.
\<close>

theorem bfs_levels_partition:
  assumes "wf_graph D g"
  shows "\<exists>r. bfs_bounded P D g starts md cap = Ok r \<and>
    concat (r_levels r) = r_visited r \<and>
    length (r_levels r) = (if r_visited r = [] then 0 else Suc (unat (r_max_depth_reached r))) \<and>
    r_max_depth_reached r \<le> md \<and>
    (\<forall>d < length (r_levels r). r_levels r ! d \<noteq> [] \<and>
       r_levels r ! d =
         map fst (filter (\<lambda>p. unat (snd p) = d) (zip (r_visited r) (r_depths r))))"
proof -
  define M where "M = (case cap of None \<Rightarrow> usize_max | Some n \<Rightarrow> n)"
  define B where "B = take M (search_order D g starts md)"
  obtain r where r: "bfs_bounded P D g starts md cap = Ok r" "r_visited r = map fst B"
    "map unat (r_depths r) = map snd B"
    "r_levels r = (if B = [] then [] else map (level_of B) [0..<Suc (unat (r_max_depth_reached r))])"
    "unat (r_max_depth_reached r) = (if B = [] then 0 else snd (last B))"
    using bfs_refines_order [OF assms selected.lawful_backend_axioms, of starts md cap P]
    unfolding bfs_bounded_def B_def M_def result_matches_def by blast
  have ok: "depths_ok B (card (UNIV :: node_id set))"
    unfolding B_def search_order_def by (rule depths_ok_take [OF order_depths_ok])
  then have sorted: "sorted (map snd B)" by (simp add: depths_ok_def)
  have last: "snd x \<le> snd (last B)" if "x \<in> set B" for x
  proof -
    from that obtain i where i: "i < length B" "x = B ! i" by (auto simp: in_set_conv_nth)
    then have "last B = B ! (length B - 1)" by (intro last_conv_nth) auto
    then show ?thesis using i sorted_nth_mono [OF sorted, of i "length B - 1"] by simp
  qed
  have "(x, d) \<in> set B \<Longrightarrow> d \<le> unat md" for x d
    using order_sound unfolding B_def search_order_def by (fast dest: in_set_takeD)
  then have "snd x \<le> unat md" if "x \<in> set B" for x using that by (cases x) auto
  then have md: "r_max_depth_reached r \<le> md"
    using r(5) by (cases "B = []") (simp_all add: word_le_nat_alt)
  have zip: "zip (map fst B) (map unat (r_depths r)) = B"
    using r(3) by (simp add: zip_map_fst_snd)
  have level: "level_of B d = map fst (filter (\<lambda>p. unat (snd p) = d) (zip (r_visited r) (r_depths r)))" for d
    unfolding level_of_def r(2)
    by (subst (1) zip [symmetric]) (simp add: zip_map2 filter_map comp_def case_prod_unfold)
  have "concat (r_levels r) = r_visited r"
  proof (cases "B = []")
    case False
    have "filter (\<lambda>x. snd x < Suc (snd (last B))) B = B"
      using last by (auto simp: filter_id_conv less_Suc_eq_le)
    then show ?thesis using False r concat_levels [OF sorted, of "Suc (snd (last B))"] by simp
  qed (simp add: r)
  moreover have "r_levels r ! d \<noteq> []" "r_levels r ! d = level_of B d" if "d < length (r_levels r)" for d
  proof -
    have "B \<noteq> []" using that r(4) by auto
    then have d: "d \<le> snd (last B)" "r_levels r ! d = level_of B d"
      using that r(4,5) by (auto simp: less_Suc_eq_le simp del: upt_Suc)
    then show "r_levels r ! d = level_of B d" by simp
    have "last B = B ! (length B - 1)" using \<open>B \<noteq> []\<close> by (rule last_conv_nth)
    then show "r_levels r ! d \<noteq> []"
      using d \<open>B \<noteq> []\<close> level_nonempty [OF ok, of "length B - 1" d] by simp
  qed
  ultimately show ?thesis using r(1,2,4) md level by (intro exI [of _ r]) auto
qed

theorem bfs_levels_partition_witness:
  "\<exists>r. bfs_bounded example_platform list_dash example_graph [NodeId 0] 3 None = Ok r \<and>
    concat (r_levels r) = r_visited r \<and> r_max_depth_reached r \<le> 3"
  using bfs_levels_partition [OF wf_example_graph, of example_platform "[NodeId 0]" 3 None] by blast

lemma bfs_loop_backend:
  assumes law: "be_filter_unvisited_into b = be_filter_unvisited_into b'"
  shows "bfs_loop D g b md M s = bfs_loop D g b' md M s"
proof (induction "bfs_work (bs_queue s) (bs_tracker s)" arbitrary: s rule: less_induct)
  case less
  have e: "bfs_expand D g b md M v d s' = bfs_expand D g b' md M v d s'" for v d s'
    using law by (simp add: bfs_expand_def)
  show ?case
  proof (cases "bs_queue s")
    case Nil
    then show ?thesis by (simp add: bfs_loop.simps)
  next
    case (Cons x rest)
    obtain v d where x: "x = (v, d)" by fastforce
    have "bind_res (bfs_expand D g b md M v d (bfs_record v d (s\<lparr>bs_queue := rest\<rparr>))) (bfs_loop D g b md M) =
      bind_res (bfs_expand D g b' md M v d (bfs_record v d (s\<lparr>bs_queue := rest\<rparr>))) (bfs_loop D g b' md M)"
    proof (rule bind_res_cong)
      fix s1
      assume "bfs_expand D g b' md M v d (bfs_record v d (s\<lparr>bs_queue := rest\<rparr>)) = Ok s1"
      from bfs_expand_work [OF this] Cons x
      show "bfs_loop D g b md M s1 = bfs_loop D g b' md M s1"
        by (intro less.hyps) (simp add: bfs_work_def)
    qed (rule e)
    then show ?thesis using Cons x by (subst (1 2) bfs_loop.simps) simp
  qed
qed

lemma bfs_backend_cong:
  assumes "lawful_backend b" "lawful_backend b'"
  shows "bfs_bounded_with_backend D g starts md cap b = bfs_bounded_with_backend D g starts md cap b'"
proof -
  have "be_filter_unvisited_into b = be_filter_unvisited_into b'"
    using assms by (auto simp: fun_eq_iff lawful_backend.filter_law)
  then have "bfs_loop D g b = bfs_loop D g b'" by (intro ext, intro bfs_loop_backend)
  then show ?thesis by (simp only: bfs_bounded_with_backend_def)
qed

text \<open>
  the choice of the SIMD backend never shows: whatever the graph, well-formed or not, a
  search with the NEON, AVX2, AVX-512 or dispatched backend has the same outcome as with
  the scalar one, edge counts, errors and panics included.
\<close>

theorem bfs_backend_independent:
  "bfs_bounded_with_backend D g starts md cap neon_backend =
     bfs_bounded_with_backend D g starts md cap scalar_backend \<and>
   bfs_bounded_with_backend D g starts md cap (avx2_backend P) =
     bfs_bounded_with_backend D g starts md cap scalar_backend \<and>
   bfs_bounded_with_backend D g starts md cap (avx512_backend P) =
     bfs_bounded_with_backend D g starts md cap scalar_backend \<and>
   bfs_bounded P D g starts md cap =
     bfs_bounded_with_backend D g starts md cap scalar_backend"
  unfolding bfs_bounded_def
  by (intro conjI bfs_backend_cong neon.lawful_backend_axioms scalar.lawful_backend_axioms
      avx2.lawful_backend_axioms avx512.lawful_backend_axioms selected.lawful_backend_axioms)

text \<open>Two graphs with one admission order have one search result.\<close>

lemma result_matches_unique:
  assumes "result_matches r B" "result_matches r' B"
  shows "r_visited r = r_visited r' \<and> r_depths r = r_depths r' \<and> r_levels r = r_levels r' \<and>
    r_max_depth_reached r = r_max_depth_reached r'"
proof -
  note m = assms [unfolded result_matches_def]
  have "map unat (r_depths r) = map unat (r_depths r')" using m by simp
  then have "r_depths r = r_depths r'"
    by (rule map_injective) (simp add: inj_def word_unat_eq_iff)
  moreover have "unat (r_max_depth_reached r) = unat (r_max_depth_reached r')" using m by simp
  ultimately show ?thesis using m by (simp add: word_unat_eq_iff)
qed

lemma bfs_bounded_cong:
  assumes "wf_graph D g" "wf_graph D g'" "search_order D g starts md = search_order D g' starts md"
  shows "\<exists>r r'. bfs_bounded P D g starts md cap = Ok r \<and> bfs_bounded P D g' starts md cap = Ok r' \<and>
    r_visited r = r_visited r' \<and> r_depths r = r_depths r' \<and> r_levels r = r_levels r' \<and>
    r_max_depth_reached r = r_max_depth_reached r'"
  using bfs_refines_order [OF assms(1) selected.lawful_backend_axioms, of starts md cap P]
    bfs_refines_order [OF assms(2) selected.lawful_backend_axioms, of starts md cap P]
    result_matches_unique assms(3)
  unfolding bfs_bounded_def by metis

end
