(* ===== verification/Dobfs.thy ===== *)
theory Dobfs
  imports Bfs "HOL-Library.Multiset"
begin

text \<open>
  Direction-optimising breadth-first search (\<open>traversal/dobfs.rs\<close>): a level-synchronous
  search that expands a level either top-down over the out-edges of the frontier or
  bottom-up over the in-edges of the unvisited nodes.
\<close>

section \<open>Bits of dense indices\<close>

definition ALPHA :: usize where
  "ALPHA = 14"

definition BETA :: usize where
  "BETA = 24"

definition dense_test_bit :: "u64 list \<Rightarrow> u32 \<Rightarrow> bool result" where
  "dense_test_bit words i =
     map_res (\<lambda>w. word_test w (unat (i mod 64))) (index_vec words (unat (i div 64)))"

definition dense_set_bit :: "u64 list \<Rightarrow> u32 \<Rightarrow> u64 list result" where
  "dense_set_bit words i =
     bind_res (index_vec words (unat (i div 64))) (\<lambda>w.
       set_vec words (unat (i div 64)) (w OR shl1 (unat (i mod 64))))"

definition dense_clear_bit :: "u64 list \<Rightarrow> u32 \<Rightarrow> u64 list result" where
  "dense_clear_bit words i =
     bind_res (index_vec words (unat (i div 64))) (\<lambda>w.
       set_vec words (unat (i div 64)) (w AND NOT (shl1 (unat (i mod 64)))))"

definition trailing_zeros :: "u64 \<Rightarrow> nat" where
  "trailing_zeros w = length (takeWhile (\<lambda>n. \<not> bit w n) [0..<64])"

text \<open>\<open>(word_idx as u32) * 64 + bit\<close>, with its overflow checks.\<close>

definition dense_index :: "usize \<Rightarrow> nat \<Rightarrow> u32 result" where
  "dense_index word_idx tz =
     (let w = (of_nat word_idx :: u32)
      in if unat w * 64 < 2 ^ 32 then add_word (w * 64) (of_nat tz) else Panic)"

section \<open>One level\<close>

subsection \<open>Bottom-up\<close>

text \<open>Scan the parents of a node up to the first one in the frontier, counting them.\<close>

fun find_parent :: "u64 list \<Rightarrow> u32 list \<Rightarrow> usize \<Rightarrow> (bool \<times> usize) result" where
  "find_parent frontier_bits [] examined = Ok (False, examined)"
| "find_parent frontier_bits (p # ps) examined =
     bind_res (dense_test_bit frontier_bits p) (\<lambda>hit.
       if hit then Ok (True, examined + 1) else find_parent frontier_bits ps (examined + 1))"

lemma lowest_bit_decreases: "(w :: u64) \<noteq> 0 \<Longrightarrow> unat (w AND (w - 1)) < unat w"
proof -
  assume "w \<noteq> 0"
  then have "unat (w - 1) < unat w" by (simp add: measure_unat)
  moreover have "unat (w AND (w - 1)) \<le> unat (w - 1)"
    by (simp add: word_and_le1 flip: word_le_nat_alt)
  ultimately show ?thesis by simp
qed

text \<open>The \<open>while unvisited != 0\<close> loop over the set bits of a word, lowest first.\<close>

function scan_word ::
  "('m, 's) csr_graph \<Rightarrow> u64 list \<Rightarrow> usize \<Rightarrow> u64 \<Rightarrow> u32 list \<times> usize \<Rightarrow> (u32 list \<times> usize) result"
where
  "scan_word reverse frontier_bits word_idx unvisited st =
     (if unvisited = 0 then Ok st
      else case st of (next_nodes, examined) \<Rightarrow>
        bind_res (dense_index word_idx (trailing_zeros unvisited)) (\<lambda>u.
        bind_res (base_neighbor_slice reverse (NodeId (ucast u))) (\<lambda>parents.
        bind_res (find_parent frontier_bits parents examined) (\<lambda>(hit, examined').
          scan_word reverse frontier_bits word_idx (unvisited AND (unvisited - 1))
            (if hit then next_nodes @ [u] else next_nodes, examined')))))"
  by pat_completeness auto
termination
  by (relation "measure (\<lambda>(r, f, i, unvisited, st). unat unvisited)")
    (auto simp: lowest_bit_decreases)

declare scan_word.simps [simp del]

definition unvisited_word :: "usize \<Rightarrow> usize \<Rightarrow> u64 \<Rightarrow> u64 result" where
  "unvisited_word n word_idx word =
     (if n < (word_idx + 1) * 64
      then map_res (\<lambda>valid. NOT word AND (shl1 valid - 1)) (sub_usize n (word_idx * 64))
      else Ok (NOT word))"

definition bottom_up_level ::
  "('m, 's) csr_graph \<Rightarrow> usize \<Rightarrow> u64 list \<Rightarrow> u64 list \<Rightarrow> u32 list \<Rightarrow> usize \<Rightarrow>
   (u64 list \<times> u64 list \<times> u32 list \<times> usize) result" where
  "bottom_up_level reverse n visited_bits frontier_bits frontier examined =
     bind_res (fold_res dense_set_bit frontier_bits frontier) (\<lambda>marked.
     bind_res (fold_res (\<lambda>st (word_idx, word).
         bind_res (unvisited_word n word_idx word) (\<lambda>unvisited.
           scan_word reverse marked word_idx unvisited st))
       ([], examined) (enumerate 0 visited_bits)) (\<lambda>(next_nodes, examined').
     bind_res (fold_res dense_set_bit visited_bits next_nodes) (\<lambda>visited_bits'.
     bind_res (fold_res dense_clear_bit marked frontier) (\<lambda>cleared.
     Ok (visited_bits', cleared, next_nodes, examined')))))"

subsection \<open>Top-down\<close>

text \<open>\<open>if !test_bit(m) { set_bit(m); next.push(m) }\<close>: a marking step.\<close>

definition dense_mark :: "u64 list \<Rightarrow> u32 \<Rightarrow> (graph_error, bool \<times> u64 list) res" where
  "dense_mark visited_bits m =
     bind_res (dense_test_bit visited_bits m) (\<lambda>seen.
       if seen then Ok (False, visited_bits)
       else map_res (Pair True) (dense_set_bit visited_bits m))"

definition top_down_node ::
  "('m, 's) csr_graph \<Rightarrow> simd_backend \<Rightarrow> u64 list \<times> u32 list \<times> usize \<Rightarrow> u32 \<Rightarrow>
   (u64 list \<times> u32 list \<times> usize) result" where
  "top_down_node forward backend = (\<lambda>(visited_bits, next_nodes, examined) n.
     bind_res (base_neighbor_slice forward (NodeId (ucast n))) (\<lambda>neighbors.
     map_res (\<lambda>(new, visited_bits').
         (visited_bits', next_nodes @ new, examined + length neighbors))
       (mark_all dense_mark visited_bits
          (be_filter_unvisited_into backend neighbors visited_bits []))))"

definition top_down_level ::
  "('m, 's) csr_graph \<Rightarrow> simd_backend \<Rightarrow> u64 list \<Rightarrow> u32 list \<Rightarrow> usize \<Rightarrow>
   (u64 list \<times> u32 list \<times> usize) result" where
  "top_down_level forward backend visited_bits frontier examined =
     fold_res (top_down_node forward backend) (visited_bits, [], examined) frontier"

section \<open>The search\<close>

record dobfs_state =
  dir_visited_bits :: "u64 list"
  dir_frontier_bits :: "u64 list"
  dir_frontier :: "u32 list"
  dir_visited :: "node_id list"
  dir_depths :: "u32 list"
  dir_levels :: "node_id list list"
  dir_edges_examined :: usize
  dir_visited_out_edges :: usize

definition dobfs_record :: "u32 \<Rightarrow> dobfs_state \<Rightarrow> dobfs_state" where
  "dobfs_record depth s =
     (let level = map (\<lambda>n. NodeId (ucast n)) (dir_frontier s)
      in s\<lparr>dir_visited := dir_visited s @ level,
           dir_depths := dir_depths s @ replicate (length level) depth,
           dir_levels := dir_levels s @ [level]\<rparr>)"

definition go_bottom_up :: "('m, 's) csr_graph \<Rightarrow> usize \<Rightarrow> usize \<Rightarrow> usize \<Rightarrow> bool" where
  "go_bottom_up forward frontier_len frontier_out_edges visited_out_edges \<longleftrightarrow>
     (let unvisited_edges = edge_count forward - visited_out_edges
      in unvisited_edges div ALPHA < frontier_out_edges \<and>
         node_count forward div max BETA 1 \<le> frontier_len)"

text \<open>Expand the frontier: the state after it, and the next frontier.\<close>

definition dobfs_expand ::
  "simd_backend \<Rightarrow> ('m, 's) csr_graph \<Rightarrow> ('m, 's) csr_graph \<Rightarrow> dobfs_state \<Rightarrow>
   (dobfs_state \<times> u32 list) result" where
  "dobfs_expand backend forward reverse s =
     bind_res (map_list_res (\<lambda>n. map_res length (base_neighbor_slice forward (NodeId (ucast n))))
         (dir_frontier s)) (\<lambda>degrees.
     let out_edges = sum_list degrees;
         s1 = s\<lparr>dir_visited_out_edges := dir_visited_out_edges s + out_edges\<rparr>
     in if go_bottom_up forward (length (dir_frontier s)) out_edges (dir_visited_out_edges s1)
        then map_res (\<lambda>(vb, fb, next_nodes, e).
            (s1\<lparr>dir_visited_bits := vb, dir_frontier_bits := fb, dir_edges_examined := e\<rparr>, next_nodes))
          (bottom_up_level reverse (node_count forward) (dir_visited_bits s1)
             (dir_frontier_bits s1) (dir_frontier s1) (dir_edges_examined s1))
        else map_res (\<lambda>(vb, next_nodes, e).
            (s1\<lparr>dir_visited_bits := vb, dir_edges_examined := e\<rparr>, next_nodes))
          (top_down_level forward backend (dir_visited_bits s1) (dir_frontier s1)
             (dir_edges_examined s1)))"

function dobfs_loop ::
  "simd_backend \<Rightarrow> ('m, 's) csr_graph \<Rightarrow> ('m, 's) csr_graph \<Rightarrow> u32 \<Rightarrow> u32 \<Rightarrow> dobfs_state \<Rightarrow>
   (u32 \<times> dobfs_state) result" where
  "dobfs_loop backend forward reverse max_depth depth s =
     (let s1 = dobfs_record depth s
      in if max_depth \<le> depth then Ok (depth, s1)
         else bind_res (dobfs_expand backend forward reverse s1) (\<lambda>(s2, next_nodes).
           if next_nodes = [] then Ok (depth, s2)
           else bind_res (add_word depth 1) (\<lambda>depth'.
             dobfs_loop backend forward reverse max_depth depth' (s2\<lparr>dir_frontier := next_nodes\<rparr>))))"
  by pat_completeness auto
termination
proof (relation "measure (\<lambda>(b, f, r, md, d, s). unat md - unat d)", goal_cases)
  case (2 b f r md d s s1 x s2 ns d')
  then have "unat d < unat md" "unat d' = Suc (unat d)"
    by (auto simp: word_le_nat_alt add_word_def unat_word_ariths split: if_splits)
  then show ?case by simp
qed simp

declare dobfs_loop.simps [simp del]

definition transpose_mismatch :: "('m, 's) csr_graph \<Rightarrow> ('m, 's) csr_graph \<Rightarrow> string" where
  "transpose_mismatch forward reverse =
     ''reverse graph is not the transpose of forward: '' @
     show_nat (node_count forward) @ ''/'' @ show_nat (node_count reverse) @ '' nodes, '' @
     show_nat (edge_count forward) @ ''/'' @ show_nat (edge_count reverse) @ '' edges''"

definition bfs_direction_optimized ::
  "platform \<Rightarrow> ('m, 's) dash \<Rightarrow> ('m, 's) csr_graph \<Rightarrow> ('m, 's) csr_graph \<Rightarrow> node_id \<Rightarrow> u32 \<Rightarrow>
   bfs_result result" where
  "bfs_direction_optimized P D forward reverse start max_depth =
     (if node_count forward \<noteq> node_count reverse \<or> edge_count forward \<noteq> edge_count reverse
      then Err (InvalidTraversal (transpose_mismatch forward reverse))
      else if \<not> delta_is_empty D (delta reverse)
      then Err (InvalidTraversal ''reverse graph has delta mutations; rebuild the transpose'')
      else if \<not> delta_is_empty D (delta forward) then bfs P D forward start max_depth
      else if \<not> graph_contains forward start then Ok bfs_result_empty
      else
        let words_len = div_ceil (node_count forward) 64;
            start_dense = (ucast (as_u64 start) :: u32)
        in bind_res (dense_set_bit (replicate words_len 0) start_dense) (\<lambda>visited_bits.
           map_res (\<lambda>(depth, s).
               \<lparr>r_visited = dir_visited s, r_depths = dir_depths s, r_levels = dir_levels s,
                r_max_depth_reached = depth, r_edges_examined = dir_edges_examined s\<rparr>)
             (dobfs_loop (select_backend P) forward reverse max_depth 0
                \<lparr>dir_visited_bits = visited_bits, dir_frontier_bits = replicate words_len 0,
                 dir_frontier = [start_dense], dir_visited = [], dir_depths = [], dir_levels = [],
                 dir_edges_examined = 0, dir_visited_out_edges = 0\<rparr>)))"

section \<open>Reading and writing bits\<close>

lemma dense_test_bit_Ok:
  "unat n div 64 < length ws \<Longrightarrow> dense_test_bit ws n = Ok (unat n \<in> bits_of ws)"
  by (simp add: dense_test_bit_def index_vec_Ok word_test_bits_of)

lemma dense_set_bit_Ok:
  assumes "unat n div 64 < length ws"
  shows "\<exists>ws'. dense_set_bit ws n = Ok ws' \<and> length ws' = length ws \<and>
    bits_of ws' = insert (unat n) (bits_of ws)"
  using assms bits_of_set [OF assms]
  by (simp add: dense_set_bit_def index_vec_Ok set_vec_Ok)

lemma dense_clear_bit_Ok:
  assumes "unat n div 64 < length ws"
  shows "\<exists>ws'. dense_clear_bit ws n = Ok ws' \<and> length ws' = length ws \<and>
    bits_of ws' = bits_of ws - {unat n}"
  using assms bits_of_clear [OF assms]
  by (simp add: dense_clear_bit_def index_vec_Ok set_vec_Ok)

lemma dense_set_bits_Ok:
  assumes "\<forall>n \<in> set ns. unat n div 64 < length ws"
  shows "\<exists>ws'. fold_res dense_set_bit ws ns = Ok ws' \<and> length ws' = length ws \<and>
    bits_of ws' = bits_of ws \<union> unat ` set ns"
  using assms
proof (induction ns arbitrary: ws)
  case (Cons n ns)
  obtain w where "dense_set_bit ws n = Ok w" "length w = length ws"
    "bits_of w = insert (unat n) (bits_of ws)"
    using dense_set_bit_Ok [of n ws] Cons.prems by auto
  with Cons.IH [of w] Cons.prems show ?case by auto
qed simp

lemma dense_clear_bits_Ok:
  assumes "\<forall>n \<in> set ns. unat n div 64 < length ws"
  shows "\<exists>ws'. fold_res dense_clear_bit ws ns = Ok ws' \<and> length ws' = length ws \<and>
    bits_of ws' = bits_of ws - unat ` set ns"
  using assms
proof (induction ns arbitrary: ws)
  case (Cons n ns)
  obtain w where "dense_clear_bit ws n = Ok w" "length w = length ws"
    "bits_of w = bits_of ws - {unat n}"
    using dense_clear_bit_Ok [of n ws] Cons.prems by auto
  with Cons.IH [of w] Cons.prems show ?case by auto
qed simp

text \<open>Words of a given length that hold 32-bit indices are a marked set.\<close>

definition dense_words :: "nat \<Rightarrow> u64 list \<Rightarrow> bool" where
  "dense_words l ws \<longleftrightarrow> length ws = l \<and> bits_of ws \<subseteq> {..< 2 ^ 32}"

lemma bits_of_view:
  "dense_words l ws \<Longrightarrow> bits_of ws = unat ` {n :: u32. unat n \<in> bits_of ws}"
proof -
  assume "dense_words l ws"
  then have "i \<in> bits_of ws \<Longrightarrow> i = unat (of_nat i :: u32)" for i
    by (auto simp: dense_words_def unat_of_nat)
  then show ?thesis by auto (metis image_eqI mem_Collect_eq)
qed

lemma unat_u32_bound: "unat (n :: u32) < 2 ^ 32"
  using unsigned_less [of n, where 'a = nat] by simp

interpretation dense: marked_set "dense_words l" "\<lambda>ws. {n. unat n \<in> bits_of ws}"
  "\<lambda>_ n. unat n div 64 < l" dense_mark for l
proof
  fix ws :: "u64 list" and n :: u32
  assume ws: "dense_words l ws" and "unat n div 64 < l"
  then have n: "unat n div 64 < length ws" by (simp add: dense_words_def)
  show "\<exists>ws'. dense_mark ws n = Ok (n \<notin> {n. unat n \<in> bits_of ws}, ws') \<and> dense_words l ws' \<and>
    {n. unat n \<in> bits_of ws'} = insert n {n. unat n \<in> bits_of ws} \<and>
    (\<lambda>n :: u32. unat n div 64 < l) = (\<lambda>n. unat n div 64 < l)"
  proof (cases "unat n \<in> bits_of ws")
    case True
    then show ?thesis using n ws by (auto simp: dense_mark_def dense_test_bit_Ok)
  next
    case False
    obtain w where "dense_set_bit ws n = Ok w" "length w = length ws"
      "bits_of w = insert (unat n) (bits_of ws)"
      using dense_set_bit_Ok [OF n] by blast
    then show ?thesis using n ws False unat_u32_bound [of n]
      by (auto simp: dense_mark_def dense_test_bit_Ok word_unat_eq_iff dense_words_def)
  qed
qed

lemma find_parent_Ok:
  assumes "\<forall>p \<in> set ps. unat p div 64 < length fb"
  shows "\<exists>e'. find_parent fb ps e = Ok (\<exists>p \<in> set ps. unat p \<in> bits_of fb, e')"
  using assms by (induction ps arbitrary: e) (auto simp: dense_test_bit_Ok)

subsection \<open>Enumerating the set bits of a word\<close>

definition word_bits :: "u64 \<Rightarrow> nat list" where
  "word_bits w = filter (bit w) [0..<64]"

lemma trailing_zeros_props:
  assumes "w \<noteq> 0"
  shows "trailing_zeros w < 64" "bit w (trailing_zeros w)"
    "\<And>n. n < trailing_zeros w \<Longrightarrow> \<not> bit w n"
proof -
  let ?t = "takeWhile (\<lambda>n. \<not> bit w n) [0..<64]"
  have "\<exists>n < 64. bit w n"
  proof (rule ccontr)
    assume "\<not> (\<exists>n < 64. bit w n)"
    then have "w = 0" by (intro bit_word_eqI) simp
    with assms show False ..
  qed
  then have ne: "?t \<noteq> [0..<64]"
    by (metis (no_types) atLeastLessThan_upt atLeast0LessThan lessThan_iff takeWhile_eq_all_conv)
  then show lt: "trailing_zeros w < 64"
    unfolding trailing_zeros_def
    by (metis diff_zero le_neq_implies_less length_takeWhile_le length_upt takeWhile_eq_take take_all_iff order_refl)
  have "\<not> \<not> bit w ([0..<64] ! length ?t)"
    using lt unfolding trailing_zeros_def by (intro nth_length_takeWhile) simp
  then show "bit w (trailing_zeros w)" using lt by (simp add: trailing_zeros_def)
  fix n assume n: "n < trailing_zeros w"
  then have "?t ! n \<in> set ?t" by (intro nth_mem) (simp add: trailing_zeros_def)
  moreover have "?t ! n = n" using n lt by (simp add: takeWhile_nth trailing_zeros_def)
  ultimately show "\<not> bit w n" by (metis set_takeWhileD)
qed

lemma bit_clear_lowest:
  assumes "w \<noteq> 0"
  shows "bit (w AND (w - 1)) n \<longleftrightarrow> bit w n \<and> n \<noteq> trailing_zeros w"
proof -
  let ?t = "trailing_zeros w"
  note t = trailing_zeros_props [OF assms]
  let ?h = "w AND NOT (shl1 ?t)"
  have "w = ?h OR shl1 ?t"
    by (rule bit_word_eqI) (use t in \<open>auto simp: bit_or_iff bit_and_iff bit_not_iff\<close>)
  also have "\<dots> = ?h + shl1 ?t"
    by (rule sym, rule disjunctive_add) (auto simp: bit_and_iff bit_not_iff)
  finally have "w - 1 = ?h + (shl1 ?t - 1)" by (simp add: algebra_simps)
  also have "shl1 ?t - 1 = mask ?t" by (simp add: shl1_def mask_eq_exp_minus_1 push_bit_eq_mult)
  also have "?h + mask ?t = ?h OR mask ?t"
    by (rule disjunctive_add) (use t(3) in \<open>auto simp: bit_and_iff bit_mask_iff\<close>)
  finally show ?thesis
    using t by (auto simp: bit_and_iff bit_or_iff bit_not_iff bit_mask_iff not_less dest: bit_imp_le_length)
qed

lemma word_bits_0 [simp]: "word_bits 0 = []"
  by (simp add: word_bits_def)

lemma word_bits_step:
  assumes "w \<noteq> 0"
  shows "word_bits w = trailing_zeros w # word_bits (w AND (w - 1))"
proof -
  let ?t = "trailing_zeros w"
  note t = trailing_zeros_props [OF assms]
  have "[0..<64] = [0..<?t] @ ?t # [Suc ?t..<64]"
    using t(1) upt_add_eq_append [of 0 ?t "64 - ?t"] by (simp add: upt_conv_Cons del: upt_Suc)
  moreover have "filter (bit w) [0..<?t] = []" "filter (bit (w AND (w - 1))) [0..<?t] = []"
    using t(3) by (auto simp: filter_empty_conv bit_clear_lowest [OF assms])
  moreover have "filter (bit w) [Suc ?t..<64] = filter (bit (w AND (w - 1))) [Suc ?t..<64]"
    by (rule filter_cong) (auto simp: bit_clear_lowest [OF assms])
  ultimately show ?thesis using t(2) by (simp add: word_bits_def bit_clear_lowest [OF assms])
qed

section \<open>A level, bottom-up\<close>

text \<open>A graph whose identifiers are 32-bit, and the node of a dense index.\<close>

definition dense_graph :: "('m, 's) dash \<Rightarrow> ('m, 's) csr_graph \<Rightarrow> bool" where
  "dense_graph D g \<longleftrightarrow> wf_graph D g \<and> node_count g \<le> 2 ^ 32"

abbreviation dense_node :: "u32 \<Rightarrow> node_id" where
  "dense_node n \<equiv> NodeId (ucast n)"

lemma ucast_u32_inject [simp]: "(ucast (m :: u32) :: u64) = ucast n \<longleftrightarrow> m = n"
  by (metis ucast_u32_roundtrip)

lemma inj_unat: "inj (unat :: u32 \<Rightarrow> nat)"
  by (simp add: inj_def word_unat_eq_iff)

lemma dense_graphD:
  assumes "dense_graph D g"
  shows "wf_graph D g" "wf_base (shards g) (node_count g)" "dash_laws D" "node_count g \<le> 2 ^ 32"
  using assms by (auto simp: dense_graph_def wf_graph_def)

lemma dense_row_bound:
  assumes "dense_graph D g" "m \<in> set (base_row g v)"
  shows "unat m < node_count g"
proof -
  have "(v, node_of_u32 m) \<in> base_edges g" using assms(2) by (simp add: base_edges_def)
  from base_edges_bound [OF dense_graphD(2) [OF assms(1)] this] show ?thesis
    by (simp add: node_of_u32_def unat_ucast_u32_u64)
qed

lemma dense_index_Ok:
  "word_idx * 64 + b < 2 ^ 32 \<Longrightarrow> b < 64 \<Longrightarrow>
   dense_index word_idx b = Ok (of_nat (word_idx * 64 + b))"
  by (simp add: dense_index_def add_word_def unat_of_nat unat_word_ariths Let_def)

text \<open>\<open>u\<close> has a parent in the frontier.\<close>

definition has_parent :: "('m, 's) csr_graph \<Rightarrow> u64 list \<Rightarrow> u32 \<Rightarrow> bool" where
  "has_parent reverse frontier_bits u \<longleftrightarrow>
     (\<exists>p \<in> set (base_row reverse (dense_node u)). unat p \<in> bits_of frontier_bits)"

lemma scan_word_Ok:
  assumes g: "dense_graph D r" and fb: "length fb = div_ceil (node_count r) 64"
    and w: "\<forall>b. bit w b \<longrightarrow> word_idx * 64 + b < node_count r"
  shows "\<exists>e'. scan_word r fb word_idx w (ns, e) =
    Ok (ns @ filter (has_parent r fb) (map (\<lambda>b. of_nat (word_idx * 64 + b)) (word_bits w)), e')"
  using w
proof (induction "unat w" arbitrary: w ns e rule: less_induct)
  case less
  show ?case
  proof (cases "w = 0")
    case True
    then show ?thesis by (subst scan_word.simps) simp
  next
    case False
    let ?t = "trailing_zeros w" and ?w = "w AND (w - 1)"
    let ?u = "of_nat (word_idx * 64 + ?t) :: u32"
    note t = trailing_zeros_props [OF False]
    have "word_idx * 64 + ?t < node_count r" using less.prems t(2) by blast
    moreover have "node_count r \<le> 2 ^ 32" using g by (simp add: dense_graph_def)
    ultimately have u: "dense_index word_idx ?t = Ok ?u" using t(1) by (intro dense_index_Ok) simp_all
    have row: "base_neighbor_slice r (dense_node ?u) = Ok (base_row r (dense_node ?u))"
      using dense_graphD(2) [OF g] by (rule base_neighbor_slice_Ok)
    have "\<forall>p \<in> set (base_row r (dense_node ?u)). unat p div 64 < length fb"
      using dense_row_bound [OF g] fb by (auto intro: div_less_div_ceil)
    from find_parent_Ok [OF this, of e] obtain e1 where
      fp: "find_parent fb (base_row r (dense_node ?u)) e = Ok (has_parent r fb ?u, e1)"
      by (auto simp: has_parent_def)
    have "\<forall>b. bit ?w b \<longrightarrow> word_idx * 64 + b < node_count r"
      using less.prems by (simp add: bit_clear_lowest [OF False])
    from less.hyps [OF lowest_bit_decreases [OF False] this,
        of "if has_parent r fb ?u then ns @ [?u] else ns" e1]
    show ?thesis
      using False u row fp by (subst scan_word.simps) (auto simp: word_bits_step)
  qed
qed

lemma unvisited_word_Ok:
  assumes "word_idx < div_ceil n 64"
  shows "\<exists>w'. unvisited_word n word_idx w = Ok w' \<and>
    (\<forall>b < 64. bit w' b \<longleftrightarrow> \<not> bit w b \<and> word_idx * 64 + b < n)"
proof -
  have "word_idx * 64 < n" using assms less_div_ceil_iff [of 64 "word_idx * 64" n] by simp
  moreover have "bit (NOT w AND (shl1 v - 1)) b \<longleftrightarrow> \<not> bit w b \<and> b < v" if "b < 64" "v < 64" for b v
  proof -
    have "shl1 v - 1 = mask v" by (simp add: shl1_def mask_eq_exp_minus_1 push_bit_eq_mult)
    then show ?thesis using that by (auto simp: bit_and_iff bit_not_iff bit_mask_iff)
  qed
  ultimately show ?thesis
    by (auto simp: unvisited_word_def bit_not_iff)
qed

lemma scan_words_Ok:
  assumes g: "dense_graph D r" and fb: "length fb = div_ceil (node_count r) 64"
    and vb: "length vb = div_ceil (node_count r) 64" and k: "k \<le> length vb"
  shows "\<exists>e'. fold_res (\<lambda>st (word_idx, word).
      bind_res (unvisited_word (node_count r) word_idx word) (\<lambda>unvisited.
        scan_word r fb word_idx unvisited st)) ([], e) (enumerate 0 (take k vb)) =
    Ok (filter (has_parent r fb)
      (map of_nat (filter (\<lambda>i. i < node_count r \<and> i \<notin> bits_of vb) [0..<64 * k])), e')"
  using k
proof (induction k)
  case (Suc k)
  let ?unv = "\<lambda>i. i < node_count r \<and> i \<notin> bits_of vb"
  have k: "k < length vb" using Suc.prems by simp
  then obtain w' where w': "unvisited_word (node_count r) k (vb ! k) = Ok w'"
    "\<forall>b < 64. bit w' b \<longleftrightarrow> \<not> bit (vb ! k) b \<and> k * 64 + b < node_count r"
    using unvisited_word_Ok [of k "node_count r" "vb ! k"] vb by auto
  have "\<forall>b. bit w' b \<longrightarrow> k * 64 + b < node_count r"
    using w'(2) bit_imp_le_length [of w'] by fastforce
  note scan = scan_word_Ok [OF g fb this]
  have upt: "[0..<64 * Suc k] = [0..<64 * k] @ map (\<lambda>b. k * 64 + b) [0..<64]"
  proof -
    have "map (\<lambda>b. k * 64 + b) [0..<64] = [k * 64..<k * 64 + 64]"
      using map_add_upt [of "k * 64" 64] by (simp add: add.commute del: upt_Suc)
    then show ?thesis
      using upt_add_eq_append [of 0 "64 * k" 64] by (simp add: mult.commute add.commute del: upt_Suc)
  qed
  have "word_bits w' = filter (\<lambda>b. ?unv (k * 64 + b)) [0..<64]"
    unfolding word_bits_def
    by (rule filter_cong) (use w'(2) k in \<open>auto simp: bits_of_def\<close>)
  then have bits: "map (\<lambda>b. of_nat (k * 64 + b)) (word_bits w') =
      (map of_nat (filter ?unv (map (\<lambda>b. k * 64 + b) [0..<64])) :: u32 list)"
    by (simp add: filter_map comp_def del: upt_Suc)
  have "take (Suc k) vb = take k vb @ [vb ! k]" using k by (rule take_Suc_conv_app_nth)
  then have enum: "enumerate 0 (take (Suc k) vb) = enumerate 0 (take k vb) @ [(k, vb ! k)]"
    using k by (simp add: enumerate_append_eq)
  from Suc.IH k obtain e1 where "fold_res (\<lambda>st (word_idx, word).
      bind_res (unvisited_word (node_count r) word_idx word) (\<lambda>unvisited.
        scan_word r fb word_idx unvisited st)) ([], e) (enumerate 0 (take k vb)) =
    Ok (filter (has_parent r fb) (map of_nat (filter ?unv [0..<64 * k])), e1)" by auto
  then show ?case
    unfolding enum upt fold_res_append using w'(1) scan bits by simp
qed simp

lemma bottom_up_level_Ok:
  assumes g: "dense_graph D r"
    and vb: "length vb = div_ceil (node_count r) 64" "bits_of vb \<subseteq> {..< node_count r}"
    and fb: "length fb = div_ceil (node_count r) 64" "bits_of fb = {}"
    and fr: "\<forall>n \<in> set fr. unat n < node_count r"
  shows "\<exists>vb' fb' ns e'. bottom_up_level r (node_count r) vb fb fr e = Ok (vb', fb', ns, e') \<and>
    length vb' = length vb \<and> bits_of vb' = bits_of vb \<union> unat ` set ns \<and>
    length fb' = length fb \<and> bits_of fb' = {} \<and> distinct ns \<and>
    set ns = {u. unat u < node_count r \<and> unat u \<notin> bits_of vb \<and>
      (\<exists>p \<in> set fr. p \<in> set (base_row r (dense_node u)))}"
proof -
  let ?n = "node_count r"
  have bound: "unat n div 64 < div_ceil ?n 64" if "unat n < ?n" for n :: u32
    using that by (intro div_less_div_ceil) simp_all
  obtain m where m: "fold_res dense_set_bit fb fr = Ok m" "length m = length fb"
    "bits_of m = unat ` set fr"
    using dense_set_bits_Ok [of fr fb] fr fb bound by auto
  let ?next = "filter (has_parent r m) (map of_nat (filter (\<lambda>i. i < ?n \<and> i \<notin> bits_of vb) [0..<64 * length vb]))"
  obtain e1 where all: "fold_res (\<lambda>st (word_idx, word).
      bind_res (unvisited_word ?n word_idx word) (\<lambda>unvisited. scan_word r m word_idx unvisited st))
    ([], e) (enumerate 0 vb) = Ok (?next, e1)"
    using scan_words_Ok [OF g _ vb(1) order_refl, of m e] m(2) fb(1) by auto
  have n32: "i < ?n \<Longrightarrow> unat (of_nat i :: u32) = i" for i
    using g by (simp add: dense_graph_def unat_of_nat)
  have "unat u < 64 * length vb" if "unat u < ?n" for u :: u32
    using bound [OF that] vb(1) by (simp add: div_less_iff_less_mult mult.commute)
  then have mem: "u \<in> set ?next \<longleftrightarrow> unat u < ?n \<and> unat u \<notin> bits_of vb \<and> has_parent r m u" for u
    using n32 by (auto simp: image_iff intro!: exI [of _ "unat u"])
  have "inj_on (of_nat :: nat \<Rightarrow> u32) {i. i < ?n}"
    by (rule inj_on_inverseI [of _ unat]) (use n32 in auto)
  then have "inj_on (of_nat :: nat \<Rightarrow> u32)
      (set (filter (\<lambda>i. i < ?n \<and> i \<notin> bits_of vb) [0..<64 * length vb]))"
    by (rule inj_on_subset) auto
  then have d: "distinct ?next" by (simp add: distinct_map del: set_filter)
  have "\<forall>n \<in> set ?next. unat n div 64 < length vb" using mem bound vb(1) by auto
  from dense_set_bits_Ok [OF this] obtain vb' where vb': "fold_res dense_set_bit vb ?next = Ok vb'"
    "length vb' = length vb" "bits_of vb' = bits_of vb \<union> unat ` set ?next" by blast
  have "\<forall>n \<in> set fr. unat n div 64 < length m" using fr bound fb(1) m(2) by auto
  from dense_clear_bits_Ok [OF this] obtain fb' where fb': "fold_res dense_clear_bit m fr = Ok fb'"
    "length fb' = length fb" "bits_of fb' = {}" using m(2,3) by auto
  have "has_parent r m u \<longleftrightarrow> (\<exists>p \<in> set fr. p \<in> set (base_row r (dense_node u)))" for u
    unfolding has_parent_def m(3) by (auto simp: inj_image_mem_iff [OF inj_unat])
  then have "set ?next = {u. unat u < ?n \<and> unat u \<notin> bits_of vb \<and>
      (\<exists>p \<in> set fr. p \<in> set (base_row r (dense_node u)))}" using mem by blast
  moreover have "bottom_up_level r ?n vb fb fr e = Ok (vb', fb', ?next, e1)"
    using m(1) all vb'(1) fb'(1) by (simp add: bottom_up_level_def)
  ultimately show ?thesis using vb' fb' d by blast
qed

section \<open>A level, top-down\<close>

lemma top_down_node_Ok:
  assumes g: "dense_graph D g" and b: "lawful_backend backend"
    and vb: "dense_words (div_ceil (node_count g) 64) vb"
  shows "\<exists>vb' new. top_down_node g backend (vb, ns, e) n =
      Ok (vb', ns @ new, e + length (base_row g (dense_node n))) \<and>
    dense_words (div_ceil (node_count g) 64) vb' \<and> distinct new \<and> set new = {m \<in> set (base_row g (dense_node n)). unat m \<notin> bits_of vb} \<and>
    bits_of vb' = bits_of vb \<union> unat ` set new"
proof -
  let ?row = "base_row g (dense_node n)"
  have row: "base_neighbor_slice g (dense_node n) = Ok ?row"
    using dense_graphD(2) [OF g] by (rule base_neighbor_slice_Ok)
  have bound: "unat m div 64 < div_ceil (node_count g) 64" if "m \<in> set ?row" for m
    using dense_row_bound [OF g that] by (intro div_less_div_ceil) simp_all
  let ?f = "filter (is_unvisited vb) ?row" and ?A = "{m :: u32. unat m \<in> bits_of vb}"
  have f: "be_filter_unvisited_into backend ?row vb [] = ?f"
    using b by (rule lawful_backend.filter_law)
  have "\<And>m. m \<in> set ?f \<Longrightarrow> unat m div 64 < div_ceil (node_count g) 64" using bound by simp
  from dense.mark_all_fresh [OF vb this] obtain vb' where vb':
    "mark_all dense_mark vb ?f = Ok (fresh ?A ?f, vb')"
    "dense_words (div_ceil (node_count g) 64) vb'" "{m. unat m \<in> bits_of vb'} = ?A \<union> set ?f" by blast
  have new: "set (fresh ?A ?f) = {m \<in> set ?row. unat m \<notin> bits_of vb}"
    using bound vb by (auto simp: is_unvisited_def dense_words_def)
  moreover have "?A \<union> set ?f = ?A \<union> set (fresh ?A ?f)" by auto
  then have "bits_of vb' = bits_of vb \<union> unat ` set (fresh ?A ?f)"
    using bits_of_view [OF vb] bits_of_view [OF vb'(2)] vb'(3) by (metis image_Un)
  ultimately show ?thesis
    using row f vb'(1,2) by (auto simp: top_down_node_def)
qed

lemma top_down_level_Ok:
  assumes g: "dense_graph D g" and b: "lawful_backend backend"
    and vb: "dense_words (div_ceil (node_count g) 64) vb"
  shows "\<exists>vb' ns e'. top_down_level g backend vb fr e = Ok (vb', ns, e') \<and>
    dense_words (div_ceil (node_count g) 64) vb' \<and> bits_of vb' = bits_of vb \<union> unat ` set ns \<and>
    distinct ns \<and>
    set ns = {m. unat m \<notin> bits_of vb \<and> (\<exists>n \<in> set fr. m \<in> set (base_row g (dense_node n)))}"
proof (induction fr rule: rev_induct)
  case Nil
  then show ?case using vb by (simp add: top_down_level_def)
next
  case (snoc n fr)
  then obtain vb1 ns e1 where 1: "top_down_level g backend vb fr e = Ok (vb1, ns, e1)"
    "dense_words (div_ceil (node_count g) 64) vb1" "bits_of vb1 = bits_of vb \<union> unat ` set ns"
    "distinct ns"
    "set ns = {m. unat m \<notin> bits_of vb \<and> (\<exists>n \<in> set fr. m \<in> set (base_row g (dense_node n)))}"
    by blast
  from top_down_node_Ok [OF g b 1(2), of ns e1 n] obtain vb2 new where 2:
    "top_down_node g backend (vb1, ns, e1) n = Ok (vb2, ns @ new, e1 + length (base_row g (dense_node n)))"
    "dense_words (div_ceil (node_count g) 64) vb2" "distinct new"
    "set new = {m \<in> set (base_row g (dense_node n)). unat m \<notin> bits_of vb1}"
    "bits_of vb2 = bits_of vb1 \<union> unat ` set new"
    by blast
  have new: "set new = {m \<in> set (base_row g (dense_node n)). unat m \<notin> bits_of vb \<and> m \<notin> set ns}"
    unfolding 2(4) 1(3) by (auto simp: inj_image_mem_iff [OF inj_unat])
  have "top_down_level g backend vb (fr @ [n]) e =
      Ok (vb2, ns @ new, e1 + length (base_row g (dense_node n)))"
    using 1(1) 2(1) by (simp add: top_down_level_def fold_res_append)
  moreover have "distinct (ns @ new)" using 1(4) 2(3) new by auto
  moreover have "bits_of vb2 = bits_of vb \<union> unat ` set (ns @ new)" using 1(3) 2(5) by auto
  moreover have "set (ns @ new) = {m. unat m \<notin> bits_of vb \<and>
      (\<exists>n \<in> set (fr @ [n]). m \<in> set (base_row g (dense_node n)))}"
    using 1(5) new by auto
  ultimately show ?case using 2(2) by blast
qed

section \<open>Distances, level by level\<close>

lemma at_distance_Suc:
  "at_distance nb S (Suc d) v \<longleftrightarrow> v \<notin> ball nb S d \<and> (\<exists>u. at_distance nb S d u \<and> v \<in> set (nb u))"
proof
  assume l: "at_distance nb S (Suc d) v"
  then have v: "v \<notin> ball nb S d" "v \<in> ball nb S (Suc d)" by (auto simp: at_distance_def)
  then obtain u where u: "u \<in> ball nb S d" "v \<in> set (nb u)" by auto
  then obtain e where e: "e \<le> d" "at_distance nb S e u" by (auto simp: in_ball_iff)
  have "e = d"
  proof (rule ccontr)
    assume "e \<noteq> d"
    then have "Suc e \<le> d" using e by simp
    moreover have "v \<in> ball nb S (Suc e)" using e(2) u(2) by (intro ball_step) (auto simp: at_distance_def)
    ultimately show False using v(1) ball_mono [of "Suc e" d nb S] by blast
  qed
  with v e u show "v \<notin> ball nb S d \<and> (\<exists>u. at_distance nb S d u \<and> v \<in> set (nb u))" by auto
next
  assume r: "v \<notin> ball nb S d \<and> (\<exists>u. at_distance nb S d u \<and> v \<in> set (nb u))"
  then have "v \<in> ball nb S (Suc d)" by (auto simp: at_distance_def)
  moreover have "v \<notin> ball nb S e" if "e < Suc d" for e
    using r that ball_mono [of e d nb S] by auto
  ultimately show "at_distance nb S (Suc d) v" by (simp add: at_distance_def)
qed

lemma ball_Suc_levels: "ball nb S (Suc d) = ball nb S d \<union> {v. at_distance nb S (Suc d) v}"
  by (auto simp: in_ball_iff le_Suc_eq simp del: ball.simps)

lemma at_distance_stops:
  "\<forall>v. \<not> at_distance nb S d v \<Longrightarrow> \<not> at_distance nb S (d + k) v"
  by (induction k arbitrary: v) (simp_all add: at_distance_Suc)

section \<open>The loop\<close>

text \<open>What has been recorded: the levels of nodes at distance 0, 1, \<open>\<dots>\<close>\<close>

definition recorded ::
  "('m, 's) dash \<Rightarrow> ('m, 's) csr_graph \<Rightarrow> node_id \<Rightarrow> dobfs_state \<Rightarrow> bool" where
  "recorded D f start s \<longleftrightarrow>
     (\<forall>k < length (dir_levels s). distinct (dir_levels s ! k) \<and> dir_levels s ! k \<noteq> [] \<and>
        set (dir_levels s ! k) = {v. at_distance (neighbor_list D f) {start} k v}) \<and>
     dir_visited s = concat (dir_levels s) \<and>
     dir_depths s = concat (map (\<lambda>k. replicate (length (dir_levels s ! k)) (of_nat k))
       [0..<length (dir_levels s)])"

text \<open>The marks and the frontier at the top of an iteration at depth \<open>d\<close>.\<close>

definition frontier_inv ::
  "('m, 's) dash \<Rightarrow> ('m, 's) csr_graph \<Rightarrow> node_id \<Rightarrow> nat \<Rightarrow> u64 list \<Rightarrow> u64 list \<Rightarrow> u32 list \<Rightarrow> bool"
where
  "frontier_inv D f start d vb fb fr \<longleftrightarrow>
     dense_words (div_ceil (node_count f) 64) vb \<and> bits_of vb \<subseteq> {..< node_count f} \<and>
     {n. unat n \<in> bits_of vb} = {n. dense_node n \<in> ball (neighbor_list D f) {start} d} \<and>
     length fb = div_ceil (node_count f) 64 \<and> bits_of fb = {} \<and>
     distinct fr \<and> (\<forall>n \<in> set fr. unat n < node_count f) \<and>
     dense_node ` set fr = {v. at_distance (neighbor_list D f) {start} d v}"

text \<open>\<open>reverse\<close> is the transpose of \<open>forward\<close>, as far as their edges are concerned.\<close>

definition transposed :: "('m, 's) csr_graph \<Rightarrow> ('m, 's) csr_graph \<Rightarrow> bool" where
  "transposed f r \<longleftrightarrow> node_count f = node_count r \<and>
     (\<forall>p u. p \<in> set (base_row r (dense_node u)) \<longleftrightarrow> u \<in> set (base_row f (dense_node p)))"

lemma frontier_step:
  assumes f: "dense_graph D f" "delta_is_empty D (delta f)"
    and inv: "frontier_inv D f start d vb fb fr"
    and vb': "dense_words (div_ceil (node_count f) 64) vb'" "bits_of vb' = bits_of vb \<union> unat ` set ns"
    and fb': "length fb' = div_ceil (node_count f) 64" "bits_of fb' = {}"
    and ns: "distinct ns"
      "set ns = {m. unat m \<notin> bits_of vb \<and> (\<exists>n \<in> set fr. m \<in> set (base_row f (dense_node n)))}"
  shows "frontier_inv D f start (Suc d) vb' fb' ns"
proof -
  let ?nb = "neighbor_list D f"
  note inv = inv [unfolded frontier_inv_def]
  have "inserted D (delta f) = Map.empty" "deleted D (delta f) = {}"
    using f(2) dense_graphD(3) [OF f(1)] by (simp_all add: delta_is_empty_iff)
  from neighbor_list_no_delta [OF dense_graphD(3) [OF f(1)] this]
  have nb: "set (?nb v) = dense_node ` set (base_row f v)" for v by (simp add: node_of_u32_def)
  have vis: "unat m \<in> bits_of vb \<longleftrightarrow> dense_node m \<in> ball ?nb {start} d" for m
    using inv by blast
  have next_level: "dense_node ` set ns = {v. at_distance ?nb {start} (Suc d) v}"
  proof (rule set_eqI)
    fix v
    have "v \<in> dense_node ` set ns \<longleftrightarrow>
        (\<exists>m. v = dense_node m \<and> v \<notin> ball ?nb {start} d \<and> (\<exists>n \<in> set fr. m \<in> set (base_row f (dense_node n))))"
      using vis by (auto simp: ns(2))
    also have "\<dots> \<longleftrightarrow> v \<notin> ball ?nb {start} d \<and> (\<exists>u \<in> dense_node ` set fr. v \<in> set (?nb u))"
      by (auto simp: nb)
    also have "\<dots> \<longleftrightarrow> at_distance ?nb {start} (Suc d) v"
      using inv by (simp add: at_distance_Suc)
    finally show "v \<in> dense_node ` set ns \<longleftrightarrow> v \<in> {v. at_distance ?nb {start} (Suc d) v}" by simp
  qed
  have range: "\<forall>n \<in> set ns. unat n < node_count f"
    using ns(2) dense_row_bound [OF f(1)] by auto
  have "{n. unat n \<in> bits_of vb'} = {n. dense_node n \<in> ball ?nb {start} d} \<union> set ns"
    unfolding vb'(2) using inv by (auto simp: inj_image_mem_iff [OF inj_unat])
  also have "set ns = {n. at_distance ?nb {start} (Suc d) (dense_node n)}"
  proof -
    have "n \<in> set ns \<longleftrightarrow> dense_node n \<in> dense_node ` set ns" for n by auto
    then show ?thesis unfolding next_level by auto
  qed
  finally have "{n. unat n \<in> bits_of vb'} = {n. dense_node n \<in> ball ?nb {start} (Suc d)}"
    unfolding ball_Suc_levels by auto
  moreover have "bits_of vb' \<subseteq> {..< node_count f}" using inv vb'(2) range by auto
  ultimately show ?thesis using vb'(1) fb' ns(1) range next_level by (simp add: frontier_inv_def)
qed

lemma dobfs_expand_Ok:
  assumes f: "dense_graph D f" "delta_is_empty D (delta f)" and r: "dense_graph D r" "transposed f r"
    and b: "lawful_backend backend"
    and inv: "frontier_inv D f start d (dir_visited_bits s) (dir_frontier_bits s) (dir_frontier s)"
  shows "\<exists>s' ns. dobfs_expand backend f r s = Ok (s', ns) \<and>
    frontier_inv D f start (Suc d) (dir_visited_bits s') (dir_frontier_bits s') ns \<and>
    dir_visited s' = dir_visited s \<and> dir_depths s' = dir_depths s \<and> dir_levels s' = dir_levels s"
proof -
  let ?vb = "dir_visited_bits s" and ?fb = "dir_frontier_bits s" and ?fr = "dir_frontier s"
  let ?degree = "\<lambda>n. map_res length (base_neighbor_slice f (dense_node n))"
  have vb: "dense_words (div_ceil (node_count f) 64) ?vb" "bits_of ?vb \<subseteq> {..< node_count f}"
    and fb: "length ?fb = div_ceil (node_count f) 64" "bits_of ?fb = {}"
    and fr: "\<forall>n \<in> set ?fr. unat n < node_count f"
    using inv by (simp_all add: frontier_inv_def)
  have n: "node_count r = node_count f" using r(2) by (simp add: transposed_def)
  have deg: "map_list_res ?degree ?fr = Ok (map (\<lambda>n. length (base_row f (dense_node n))) ?fr)"
    using dense_graphD(2) [OF f(1)] by (intro map_list_res_Ok) (simp add: base_neighbor_slice_Ok)
  have "length ?vb = div_ceil (node_count r) 64" "bits_of ?vb \<subseteq> {..< node_count r}"
    "length ?fb = div_ceil (node_count r) 64" "bits_of ?fb = {}" "\<forall>n \<in> set ?fr. unat n < node_count r"
    using vb fb fr by (simp_all add: n dense_words_def)
  from bottom_up_level_Ok [OF r(1) this, of "dir_edges_examined s"] obtain vb fb ns e where bu:
    "bottom_up_level r (node_count f) ?vb ?fb ?fr (dir_edges_examined s) = Ok (vb, fb, ns, e)"
    "length vb = length ?vb" "bits_of vb = bits_of ?vb \<union> unat ` set ns"
    "length fb = length ?fb" "bits_of fb = {}" "distinct ns"
    "set ns = {u. unat u < node_count f \<and> unat u \<notin> bits_of ?vb \<and>
      (\<exists>p \<in> set ?fr. p \<in> set (base_row r (dense_node u)))}"
    unfolding n by blast
  have "set ns = {m. unat m \<notin> bits_of ?vb \<and> (\<exists>n \<in> set ?fr. m \<in> set (base_row f (dense_node n)))}"
    unfolding bu(7) using r(2) dense_row_bound [OF f(1)] by (auto simp: transposed_def)
  moreover have "dense_words (div_ceil (node_count f) 64) vb"
    using vb bu(2,3) unat_u32_bound by (auto simp: dense_words_def)
  moreover have "length fb = div_ceil (node_count f) 64" using bu(4) fb by simp
  ultimately have up: "frontier_inv D f start (Suc d) vb fb ns"
    using bu(3,5,6) by (intro frontier_step [OF f inv])
  obtain vb2 ns2 e2 where td: "top_down_level f backend ?vb ?fr (dir_edges_examined s) = Ok (vb2, ns2, e2)"
    "dense_words (div_ceil (node_count f) 64) vb2" "bits_of vb2 = bits_of ?vb \<union> unat ` set ns2"
    "distinct ns2"
    "set ns2 = {m. unat m \<notin> bits_of ?vb \<and> (\<exists>n \<in> set ?fr. m \<in> set (base_row f (dense_node n)))}"
    using top_down_level_Ok [OF f(1) b vb(1), of ?fr "dir_edges_examined s"]
    by (elim exE conjE) (rule that)
  have down: "frontier_inv D f start (Suc d) vb2 ?fb ns2"
    by (rule frontier_step [OF f inv td(2,3) fb td(4,5)])
  show ?thesis using bu(1) td(1) up down by (simp add: dobfs_expand_def deg Let_def)
qed

text \<open>The state when the loop ends at depth \<open>d\<close>.\<close>

definition dobfs_done ::
  "('m, 's) dash \<Rightarrow> ('m, 's) csr_graph \<Rightarrow> node_id \<Rightarrow> nat \<Rightarrow> nat \<Rightarrow> dobfs_state \<Rightarrow> bool" where
  "dobfs_done D f start md d s \<longleftrightarrow> d \<le> md \<and> recorded D f start s \<and>
     length (dir_levels s) = Suc d \<and>
     (d = md \<or> (\<forall>v. \<not> at_distance (neighbor_list D f) {start} (Suc d) v))"

lemma dobfs_record_Ok:
  assumes "recorded D f start s" "length (dir_levels s) = unat d"
    and "frontier_inv D f start (unat d) vb fb (dir_frontier s)" "dir_frontier s \<noteq> []"
  shows "recorded D f start (dobfs_record d s) \<and>
    length (dir_levels (dobfs_record d s)) = Suc (unat d)"
proof -
  have fr: "set (map dense_node (dir_frontier s)) =
      {v. at_distance (neighbor_list D f) {start} (unat d) v}" "distinct (dir_frontier s)"
    using assms(3) by (simp_all add: frontier_inv_def)
  have "distinct (map dense_node (dir_frontier s))"
    using fr(2) by (simp add: distinct_map inj_on_def)
  then show ?thesis
    using assms(1,2,4) fr(1)
    by (simp add: recorded_def dobfs_record_def Let_def nth_append less_Suc_eq del: set_map)
      (intro arg_cong [where f = concat] map_cong, simp_all)
qed

lemma dobfs_record_frame [simp]:
  "dir_visited_bits (dobfs_record d s) = dir_visited_bits s"
  "dir_frontier_bits (dobfs_record d s) = dir_frontier_bits s"
  "dir_frontier (dobfs_record d s) = dir_frontier s"
  by (simp_all add: dobfs_record_def Let_def)

lemma recorded_cong:
  "dir_visited s' = dir_visited s \<Longrightarrow> dir_depths s' = dir_depths s \<Longrightarrow> dir_levels s' = dir_levels s \<Longrightarrow>
   recorded D f start s' \<longleftrightarrow> recorded D f start s"
  by (simp add: recorded_def)

lemma dobfs_loop_Ok:
  assumes f: "dense_graph D f" "delta_is_empty D (delta f)" and r: "dense_graph D r" "transposed f r"
    and b: "lawful_backend backend"
  shows "frontier_inv D f start (unat d) (dir_visited_bits s) (dir_frontier_bits s) (dir_frontier s) \<Longrightarrow>
    recorded D f start s \<Longrightarrow> length (dir_levels s) = unat d \<Longrightarrow> dir_frontier s \<noteq> [] \<Longrightarrow> d \<le> md \<Longrightarrow>
    \<exists>d' s'. dobfs_loop backend f r md d s = Ok (d', s') \<and> dobfs_done D f start (unat md) (unat d') s'"
proof (induction "unat md - unat d" arbitrary: d s rule: less_induct)
  case less
  let ?s = "dobfs_record d s"
  from dobfs_record_Ok [OF less.prems(2,3,1,4)]
  have rec: "recorded D f start ?s" "length (dir_levels ?s) = Suc (unat d)" by simp_all
  show ?case
  proof (cases "md \<le> d")
    case True
    then have "dobfs_loop backend f r md d s = Ok (d, ?s)"
      by (subst dobfs_loop.simps) (simp add: Let_def)
    moreover have "d = md" using True less.prems(5) by simp
    ultimately show ?thesis using rec by (simp add: dobfs_done_def)
  next
    case False
    then have lt: "unat d < unat md" by (simp add: word_le_nat_alt not_le)
    have inv: "frontier_inv D f start (unat d) (dir_visited_bits ?s) (dir_frontier_bits ?s) (dir_frontier ?s)"
      using less.prems(1) by simp
    from dobfs_expand_Ok [OF f r b inv] obtain s2 ns where e:
      "dobfs_expand backend f r ?s = Ok (s2, ns)"
      "frontier_inv D f start (Suc (unat d)) (dir_visited_bits s2) (dir_frontier_bits s2) ns"
      "dir_visited s2 = dir_visited ?s" "dir_depths s2 = dir_depths ?s" "dir_levels s2 = dir_levels ?s"
      by (elim exE conjE) (rule that)
    have rec2: "recorded D f start s2" using rec(1) recorded_cong [OF e(3-5)] by blast
    show ?thesis
    proof (cases "ns = []")
      case True
      then have "dobfs_loop backend f r md d s = Ok (d, s2)"
        using False e(1) by (subst dobfs_loop.simps) (simp add: Let_def)
      moreover have "\<forall>v. \<not> at_distance (neighbor_list D f) {start} (Suc (unat d)) v"
        using e(2) True by (simp add: frontier_inv_def)
      ultimately show ?thesis using rec2 rec(2) e(5) lt by (simp add: dobfs_done_def)
    next
      case ns: False
      have d1: "unat (d + 1) = Suc (unat d)" "unat d + 1 < 2 ^ 32"
        using lt unat_u32_bound [of md] by (simp_all add: unat_word_ariths)
      have "dobfs_loop backend f r md d s =
          dobfs_loop backend f r md (d + 1) (s2\<lparr>dir_frontier := ns\<rparr>)"
        using False e(1) ns d1(2) by (subst dobfs_loop.simps) (simp add: Let_def add_word_def)
      moreover have "recorded D f start (s2\<lparr>dir_frontier := ns\<rparr>)"
        using rec2 by (simp add: recorded_def)
      ultimately show ?thesis
        using less.hyps [of "d + 1" "s2\<lparr>dir_frontier := ns\<rparr>"] e(2,5) rec(2) ns d1(1) lt
        by (simp add: word_le_nat_alt)
    qed
  qed
qed

section \<open>Equivalence with the ordinary search\<close>

lemma mem_level_of: "v \<in> set (level_of A k) \<longleftrightarrow> (v, k) \<in> set A"
  by (force simp: level_of_def)

lemma distinct_level_of: "distinct (map fst A) \<Longrightarrow> distinct (level_of A k)"
  unfolding level_of_def by (rule distinct_map_filter)

lemma concat_level_depths:
  assumes "sorted (map snd A)"
  shows "concat (map (\<lambda>k. replicate (length (level_of A k)) k) [0..<n]) =
    map snd (filter (\<lambda>x. snd x < n) A)"
proof (induction n)
  case (Suc n)
  have "map snd (filter (\<lambda>x. snd x = n) A) = replicate (length (level_of A n)) n"
    by (induction A) (simp_all add: level_of_def)
  with Suc filter_sorted_split [OF assms, of n] show ?case by simp
qed simp

text \<open>The levels of an ordinary search, as sets.\<close>

lemma bfs_levels_at:
  fixes md :: u32
  assumes "searchable D g" "graph_contains g start"
  obtains r m where "bfs P D g start md = Ok r" "r_visited r = concat (r_levels r)"
    "length (r_levels r) = Suc m" "unat (r_max_depth_reached r) = m" "m \<le> unat md"
    "\<And>k. k \<le> m \<Longrightarrow> distinct (r_levels r ! k) \<and> r_levels r ! k \<noteq> [] \<and>
       set (r_levels r ! k) = {v. at_distance (neighbor_list D g) {start} k v}"
    "m = unat md \<or> (\<forall>v. \<not> at_distance (neighbor_list D g) {start} (Suc m) v)"
    "map unat (r_depths r) = concat (map (\<lambda>k. replicate (length (r_levels r ! k)) k) [0..<Suc m])"
proof -
  let ?B = "search_order D g [start] md" and ?nb = "neighbor_list D g"
  have g: "wf_graph D g" and D: "dash_laws D" using assms(1) by (auto simp: searchable_def dest: wf_graphD)
  have "take usize_max ?B = ?B" using length_search_order [OF assms(1)] by simp
  with bfs_refines_order [OF g selected.lawful_backend_axioms, of "[start]" md None P]
  obtain r where r: "bfs P D g start md = Ok r" "result_matches r ?B"
    by (auto simp: bfs_def bfs_bounded_def)
  have "{s \<in> set [start]. graph_contains g s} = {start}" using assms(2) by auto
  note spec = search_order_spec [OF D, of _ _ g "[start]" md, unfolded this reach_distance_at [OF D]]
  have at: "(v, k) \<in> set ?B \<longleftrightarrow> k \<le> unat md \<and> at_distance ?nb {start} k v" for v k
    by (rule spec)
  then have start: "(start, 0) \<in> set ?B" by (simp add: at_distance_def)
  then have ne: "?B \<noteq> []" by auto
  let ?m = "snd (last ?B)"
  have "(fst (last ?B), ?m) \<in> set ?B" using ne by simp
  then have m: "?m \<le> unat md" "at_distance ?nb {start} ?m (fst (last ?B))" by (simp_all only: at)
  have sorted: "sorted (map snd ?B)"
    using sorted_search_order [of "length ?B" D g "[start]" md] by simp
  have dist: "distinct (map fst ?B)"
    using distinct_search_order [of "length ?B" D g "[start]" md] by simp
  have max: "k \<le> ?m" if vk: "(v, k) \<in> set ?B" for v k
  proof -
    obtain i where i: "i < length ?B" "?B ! i = (v, k)" using vk unfolding in_set_conv_nth by blast
    moreover have "last ?B = ?B ! (length ?B - 1)" using ne by (rule last_conv_nth)
    ultimately show ?thesis using sorted_nth_mono [OF sorted, of i "length ?B - 1"] by simp
  qed
  have levels: "r_levels r = map (level_of ?B) [0..<Suc ?m]" "unat (r_max_depth_reached r) = ?m"
    using r(2) ne by (simp_all add: result_matches_def)
  have all: "filter (\<lambda>x. snd x < Suc ?m) ?B = ?B"
    using max by (fastforce simp: filter_id_conv less_Suc_eq_le)
  show thesis
  proof (rule that [OF r(1) _ _ levels(2) m(1)])
    show "r_visited r = concat (r_levels r)"
      using r(2) all by (simp only: levels concat_levels [OF sorted] result_matches_def)
    show "length (r_levels r) = Suc ?m" by (simp add: levels del: upt_Suc)
    fix k assume k: "k \<le> ?m"
    then have l: "r_levels r ! k = level_of ?B k" by (simp add: levels less_Suc_eq_le del: upt_Suc)
    have "set (level_of ?B k) = {v. at_distance ?nb {start} k v}"
      using k m(1) by (auto simp: mem_level_of at)
    moreover have "\<exists>v. at_distance ?nb {start} k v"
    proof (rule ccontr)
      assume "\<nexists>v. at_distance ?nb {start} k v"
      then have "\<not> at_distance ?nb {start} (k + (?m - k)) (fst (last ?B))"
        by (intro at_distance_stops) simp
      then show False using m(2) k by simp
    qed
    ultimately show "distinct (r_levels r ! k) \<and> r_levels r ! k \<noteq> [] \<and>
        set (r_levels r ! k) = {v. at_distance ?nb {start} k v}"
      using distinct_level_of [OF dist] unfolding l by auto
  next
    show "?m = unat md \<or> (\<forall>v. \<not> at_distance ?nb {start} (Suc ?m) v)"
      using m(1) max at by (meson Suc_leI Suc_n_not_le_n le_neq_implies_less)
  next
    have "map (\<lambda>k. replicate (length (r_levels r ! k)) k) [0..<Suc ?m] =
        map (\<lambda>k. replicate (length (level_of ?B k)) k) [0..<Suc ?m]"
      by (rule map_cong) (simp_all add: levels less_Suc_eq_le del: upt_Suc)
    then show "map unat (r_depths r) =
        concat (map (\<lambda>k. replicate (length (r_levels r ! k)) k) [0..<Suc ?m])"
      using r(2) all by (simp only: concat_level_depths [OF sorted] result_matches_def)
  qed
qed

lemma levels_unique:
  assumes "length xs = Suc m" "length ys = Suc n" "m \<le> md" "n \<le> md"
    and "\<And>k. k \<le> m \<Longrightarrow> distinct (xs ! k) \<and> xs ! k \<noteq> [] \<and> set (xs ! k) = {v. at_distance nb S k v}"
    and "\<And>k. k \<le> n \<Longrightarrow> distinct (ys ! k) \<and> ys ! k \<noteq> [] \<and> set (ys ! k) = {v. at_distance nb S k v}"
    and "m = md \<or> (\<forall>v. \<not> at_distance nb S (Suc m) v)" "n = md \<or> (\<forall>v. \<not> at_distance nb S (Suc n) v)"
  shows "m = n \<and> map mset xs = map mset ys"
proof -
  have "\<not> m < n"
  proof
    assume mn: "m < n"
    then have "\<exists>v. at_distance nb S (Suc m) v" using assms(6) [of "Suc m"] by (auto simp: neq_Nil_conv)
    with assms(4,7) mn show False by simp
  qed
  moreover have "\<not> n < m"
  proof
    assume nm: "n < m"
    then have "\<exists>v. at_distance nb S (Suc n) v" using assms(5) [of "Suc n"] by (auto simp: neq_Nil_conv)
    with assms(3,8) nm show False by simp
  qed
  ultimately have "m = n" by simp
  moreover have "mset (xs ! k) = mset (ys ! k)" if "k \<le> m" for k
    using assms(5) [of k] assms(6) [of k] that \<open>m = n\<close> set_eq_iff_mset_eq_distinct [of "xs ! k" "ys ! k"]
    by auto
  ultimately show ?thesis using assms(1,2) by (intro conjI nth_equalityI) simp_all
qed

lemma insertion_count_empty:
  "dash_laws D \<Longrightarrow> delta_is_empty D d \<Longrightarrow> delta_insertion_count D d = 0"
  by (auto simp: delta_insertion_count_def delta_is_empty_def dash_laws_def dash_map_laws_def)

lemma dobfs_start_inv:
  assumes f: "dense_graph D f" and start: "graph_contains f start"
  obtains vb where "dense_set_bit (replicate (div_ceil (node_count f) 64) 0) (ucast (as_u64 start)) = Ok vb"
    "frontier_inv D f start 0 vb (replicate (div_ceil (node_count f) 64) 0) [ucast (as_u64 start)]"
proof -
  let ?l = "div_ceil (node_count f) 64" and ?n = "ucast (as_u64 start) :: u32"
  have lt: "unat (as_u64 start) < node_count f" using start by (simp add: graph_contains_iff)
  then have "unat (as_u64 start) < 2 ^ 32" using dense_graphD(4) [OF f] by simp
  then have n: "unat ?n = unat (as_u64 start)"
    by (simp add: unsigned_ucast_eq take_bit_nat_eq_self)
  then have node: "dense_node ?n = start" by (simp add: node_id.expand word_unat_eq_iff)
  have "unat ?n div 64 < length (replicate ?l 0 :: u64 list)" using lt n by (simp add: div_less_div_ceil)
  from dense_set_bit_Ok [OF this] obtain vb where vb:
    "dense_set_bit (replicate ?l 0) ?n = Ok vb" "length vb = ?l" "bits_of vb = {unat ?n}" by auto
  have "m = ?n \<longleftrightarrow> dense_node m = start" for m using node by (metis ucast_u32_inject node_id.inject)
  then have "{m. unat m = unat (as_u64 start)} = {m. dense_node m = start}"
    unfolding n [symmetric] by (simp add: word_unat_eq_iff)
  then have "frontier_inv D f start 0 vb (replicate ?l 0) [?n]"
    using vb lt n node \<open>unat (as_u64 start) < 2 ^ 32\<close>
    by (simp add: frontier_inv_def dense_words_def at_distance_def)
  with vb(1) show thesis by (rule that)
qed

lemma level_depths_agree:
  assumes "map mset xs = map mset ys" "length ys = Suc m" "m \<le> unat (md :: u32)"
    and "map unat es = concat (map (\<lambda>k. replicate (length (ys ! k)) k) [0..<Suc m])"
  shows "concat (map (\<lambda>k. replicate (length (xs ! k)) (of_nat k :: u32)) [0..<Suc m]) = es"
proof -
  have len: "length (xs ! k) = length (ys ! k)" if "k \<le> m" for k
  proof -
    have "length xs = length ys" using arg_cong [OF assms(1), of length] by simp
    then have "mset (xs ! k) = mset (ys ! k)"
      using that assms(2) arg_cong [OF assms(1), of "\<lambda>l. l ! k"] by simp
    then show ?thesis by (rule mset_eq_length)
  qed
  have "map unat (concat (map (\<lambda>k. replicate (length (xs ! k)) (of_nat k :: u32)) [0..<Suc m])) =
      concat (map (\<lambda>k. replicate (length (xs ! k)) (unat (of_nat k :: u32))) [0..<Suc m])"
    by (simp add: map_concat comp_def del: upt_Suc)
  also have "\<dots> = map unat es"
    unfolding assms(4)
  proof (intro arg_cong [where f = concat] map_cong refl)
    fix k assume "k \<in> set [0..<Suc m]"
    then have k: "k \<le> m" by auto
    then have "k < 2 ^ 32" using assms(3) unat_u32_bound [of md] by simp
    then show "replicate (length (xs ! k)) (unat (of_nat k :: u32)) = replicate (length (ys ! k)) k"
      using len [OF k] by (simp add: unat_of_nat)
  qed
  finally show ?thesis by (rule map_injective) (simp add: inj_unat)
qed

text \<open>Nodes paired with depths, level by level.\<close>

lemma zip_level_depths:
  "zip (concat xs) (concat (map (\<lambda>k. replicate (length (xs ! k)) (h k)) [0..<length xs])) =
   concat (map (\<lambda>k. map (\<lambda>v. (v, h k)) (xs ! k)) [0..<length xs])"
proof (induction xs rule: rev_induct)
  case (snoc l xs)
  have eq: "concat (map (\<lambda>k. replicate (length ((xs @ [l]) ! k)) (h k)) [0..<length xs]) =
      concat (map (\<lambda>k. replicate (length (xs ! k)) (h k)) [0..<length xs])"
    "concat (map (\<lambda>k. map (\<lambda>v. (v, h k)) ((xs @ [l]) ! k)) [0..<length xs]) =
      concat (map (\<lambda>k. map (\<lambda>v. (v, h k)) (xs ! k)) [0..<length xs])"
    by (intro arg_cong [where f = concat] map_cong refl; simp add: nth_append)+
  have "map length xs = map (\<lambda>k. length (xs ! k)) [0..<length xs]"
    by (rule nth_equalityI) simp_all
  then have len: "length (concat xs) =
      length (concat (map (\<lambda>k. replicate (length (xs ! k)) (h k)) [0..<length xs]))"
    by (simp add: length_concat comp_def)
  have "zip l (replicate (length l) (h (length xs))) = map (\<lambda>v. (v, h (length xs))) l"
    by (simp add: zip_replicate2)
  then show ?case using snoc len by (simp add: eq zip_append)
qed simp

lemma mset_zip_levels:
  assumes "map mset xs = map mset ys"
  shows "mset (zip (concat xs) (concat (map (\<lambda>k. replicate (length (xs ! k)) (h k)) [0..<length xs]))) =
    mset (zip (concat ys) (concat (map (\<lambda>k. replicate (length (ys ! k)) (h k)) [0..<length ys])))"
proof -
  have len: "length xs = length ys" using arg_cong [OF assms, of length] by simp
  have "mset (xs ! k) = mset (ys ! k)" if "k < length xs" for k
    using that len arg_cong [OF assms, of "\<lambda>l. l ! k"] by simp
  then have "map mset (map (\<lambda>k. map (\<lambda>v. (v, h k)) (xs ! k)) [0..<length xs]) =
      map mset (map (\<lambda>k. map (\<lambda>v. (v, h k)) (ys ! k)) [0..<length ys])"
    using len by simp
  then show ?thesis unfolding zip_level_depths by (simp only: mset_concat)
qed

text \<open>Without pending mutations and from a contained start, the two searches agree.\<close>

lemma dobfs_search_agrees:
  assumes "dense_graph D f" "dense_graph D r" "transposed f r"
    and "edge_count f = edge_count r" "delta_is_empty D (delta r)"
    and "delta_is_empty D (delta f)" "graph_contains f start"
  shows "\<exists>x y. bfs_direction_optimized P D f r start md = Ok x \<and> bfs P D f start md = Ok y \<and>
    map mset (r_levels x) = map mset (r_levels y) \<and> mset (r_visited x) = mset (r_visited y) \<and>
    r_depths x = r_depths y \<and> r_max_depth_reached x = r_max_depth_reached y \<and>
    mset (zip (r_visited x) (r_depths x)) = mset (zip (r_visited y) (r_depths y))"
proof -
  have n: "node_count f = node_count r" using assms(3) by (simp add: transposed_def)
  have s: "searchable D f"
    using assms(6) dense_graphD [OF assms(1)]
    by (simp add: searchable_def insertion_count_empty)
  obtain y m where y: "bfs P D f start md = Ok y" "r_visited y = concat (r_levels y)"
    "length (r_levels y) = Suc m" "unat (r_max_depth_reached y) = m" "m \<le> unat md"
    "\<And>k. k \<le> m \<Longrightarrow> distinct (r_levels y ! k) \<and> r_levels y ! k \<noteq> [] \<and>
       set (r_levels y ! k) = {v. at_distance (neighbor_list D f) {start} k v}"
    "m = unat md \<or> (\<forall>v. \<not> at_distance (neighbor_list D f) {start} (Suc m) v)"
    "map unat (r_depths y) = concat (map (\<lambda>k. replicate (length (r_levels y ! k)) k) [0..<Suc m])"
    by (rule bfs_levels_at [OF s assms(7), of P md]) (rule that, assumption+)
  obtain vb where vb:
    "dense_set_bit (replicate (div_ceil (node_count f) 64) 0) (ucast (as_u64 start)) = Ok vb"
    "frontier_inv D f start 0 vb (replicate (div_ceil (node_count f) 64) 0) [ucast (as_u64 start)]"
    using dobfs_start_inv [OF assms(1) assms(7)] .
  let ?s = "\<lparr>dir_visited_bits = vb, dir_frontier_bits = replicate (div_ceil (node_count f) 64) 0,
    dir_frontier = [ucast (as_u64 start)], dir_visited = [], dir_depths = [], dir_levels = [],
    dir_edges_examined = 0, dir_visited_out_edges = 0\<rparr>"
  have rec: "recorded D f start ?s" by (simp add: recorded_def)
  obtain d s' where loop: "dobfs_loop (select_backend P) f r md 0 ?s = Ok (d, s')"
    "dobfs_done D f start (unat md) (unat d) s'"
    using dobfs_loop_Ok [OF assms(1) assms(6) assms(2,3) selected.lawful_backend_axioms, of start 0 ?s md P]
      vb(2) rec by auto
  note fin = loop(2) [unfolded dobfs_done_def recorded_def]
  have u: "unat d = m \<and> map mset (dir_levels s') = map mset (r_levels y)"
    by (rule levels_unique [where md = "unat md" and nb = "neighbor_list D f" and S = "{start}"])
      (use fin y in \<open>simp_all add: less_Suc_eq_le\<close>)
  have depths: "dir_depths s' = r_depths y"
    using level_depths_agree [OF conjunct2 [OF u] y(3,5,8)] fin u by simp
  have levels: "length (dir_levels s') = Suc m" "length (r_levels y) = Suc m" using fin u y(3) by simp_all
  have ry: "r_depths y = concat (map (\<lambda>k. replicate (length (r_levels y ! k)) (of_nat k)) [0..<Suc m])"
    using level_depths_agree [OF refl y(3,5,8)] by (rule sym)
  have ds: "dir_depths s' = concat (map (\<lambda>k. replicate (length (dir_levels s' ! k)) (of_nat k)) [0..<Suc m])"
    using fin levels(1) by metis
  have zips: "mset (zip (concat (dir_levels s')) (dir_depths s')) =
      mset (zip (concat (r_levels y)) (r_depths y))"
    unfolding ds ry
    by (rule mset_zip_levels [OF conjunct2 [OF u], of "of_nat :: nat \<Rightarrow> u32", unfolded levels])
  have "d = r_max_depth_reached y" using u y(4) by (simp add: word_unat_eq_iff)
  moreover have "mset (concat (dir_levels s')) = mset (concat (r_levels y))"
    using u by (simp add: mset_concat)
  moreover have "dir_visited s' = concat (dir_levels s')" using fin by simp
  moreover have "bfs_direction_optimized P D f r start md =
      Ok \<lparr>r_visited = dir_visited s', r_depths = dir_depths s', r_levels = dir_levels s',
          r_max_depth_reached = d, r_edges_examined = dir_edges_examined s'\<rparr>"
    using assms(4-7) n vb(1) loop(1)
    by (simp add: bfs_direction_optimized_def Let_def)
  ultimately show ?thesis
    using y(1,2) conjunct2 [OF u] depths zips by simp
qed

lemma dobfs_agrees:
  assumes "dense_graph D f" "dense_graph D r" "transposed f r"
    and "edge_count f = edge_count r" "delta_is_empty D (delta r)"
  shows "\<exists>x y. bfs_direction_optimized P D f r start md = Ok x \<and> bfs P D f start md = Ok y \<and>
    map mset (r_levels x) = map mset (r_levels y) \<and> mset (r_visited x) = mset (r_visited y) \<and>
    r_depths x = r_depths y \<and> r_max_depth_reached x = r_max_depth_reached y \<and>
    mset (zip (r_visited x) (r_depths x)) = mset (zip (r_visited y) (r_depths y)) \<and>
    (\<not> delta_is_empty D (delta f) \<longrightarrow> x = y)"
proof -
  have n: "node_count f = node_count r" using assms(3) by (simp add: transposed_def)
  obtain y0 where y0: "bfs P D f start md = Ok y0"
    using bfs_refines_order [OF dense_graphD(1) [OF assms(1)] selected.lawful_backend_axioms]
    by (fastforce simp: bfs_def bfs_bounded_def)
  consider (delta) "\<not> delta_is_empty D (delta f)"
    | (absent) "delta_is_empty D (delta f)" "\<not> graph_contains f start"
    | (search) "delta_is_empty D (delta f)" "graph_contains f start" by blast
  then show ?thesis
  proof cases
    case delta
    then show ?thesis using assms(4,5) n y0 by (simp add: bfs_direction_optimized_def)
  next
    case absent
    have "bfs P D f start md = Ok bfs_result_empty"
      using absent(2)
      by (simp add: bfs_def bfs_bounded_def bfs_bounded_with_backend_def Let_def)
    then show ?thesis using absent assms(4,5) n by (simp add: bfs_direction_optimized_def)
  next
    case search
    then show ?thesis using dobfs_search_agrees [OF assms search] by blast
  qed
qed

text \<open>
  the direction-optimising search is the ordinary search: whenever the reverse graph is
  delta-free, has the forward graph's counts and holds its edges the other way round, the
  search returns (without panic, for every depth limit and whichever directions the
  heuristic chooses) a result with the same nodes at the same depths, the same maximal depth and, level by
  level, the same nodes with the same multiplicity as \<open>bfs\<close>; with live mutations on the
  forward graph it returns exactly what \<open>bfs\<close> returns.
\<close>

theorem dobfs_equals_bfs:
  assumes "dense_graph D f" "dense_graph D r" "transposed f r"
    and "edge_count f = edge_count r" "delta_is_empty D (delta r)"
  shows "\<exists>x y. bfs_direction_optimized P D f r start md = Ok x \<and> bfs P D f start md = Ok y \<and>
    map mset (r_levels x) = map mset (r_levels y) \<and> mset (r_visited x) = mset (r_visited y) \<and>
    r_depths x = r_depths y \<and> r_max_depth_reached x = r_max_depth_reached y \<and>
    mset (zip (r_visited x) (r_depths x)) = mset (zip (r_visited y) (r_depths y)) \<and>
    (\<not> delta_is_empty D (delta f) \<longrightarrow> x = y)"
  using assms by (rule dobfs_agrees)

lemma transposed_example_row:
  assumes "base_row g (NodeId 0) = [1]" "base_row r (NodeId 1) = [0]"
    and "\<And>v. v \<noteq> NodeId 0 \<Longrightarrow> base_row g v = []" "\<And>v. v \<noteq> NodeId 1 \<Longrightarrow> base_row r v = []"
    and "node_count g = node_count r"
  shows "transposed g r"
proof -
  have "dense_node p = NodeId 0 \<longleftrightarrow> p = 0" "dense_node p = NodeId 1 \<longleftrightarrow> p = 1" for p
    using ucast_u32_inject [of p 0] ucast_u32_inject [of p 1] by simp_all
  then have "p \<in> set (base_row r (dense_node u)) \<longleftrightarrow> p = 0 \<and> u = 1"
    "u \<in> set (base_row g (dense_node p)) \<longleftrightarrow> p = 0 \<and> u = 1" for p u
    using assms(1,2) assms(3) [of "dense_node p"] assms(4) [of "dense_node u"]
    by (cases "p = 0"; cases "u = 1"; simp)+
  then show ?thesis using assms(5) by (simp add: transposed_def)
qed

text \<open>One edge, and the same edge reversed.\<close>

definition edge_graph :: "u32 list \<Rightarrow> u32 \<Rightarrow> ((edge_key \<times> edge_data) list, edge_key list) csr_graph" where
  "edge_graph rows target =
     \<lparr>shards = [\<lparr>shard_id = 0, node_range = (0, 2), row_ptrs = rows, col_indices = [target],
        shard_weights = None\<rparr>], node_count = 2, edge_count = 1, delta = delta_new list_dash\<rparr>"

lemma edge_graph_ok:
  "dense_graph list_dash (edge_graph [0, 1, 1] 1)" "dense_graph list_dash (edge_graph [0, 0, 1] 0)"
  by (simp_all add: dense_graph_def wf_graph_def wf_base_def edge_graph_def wf_shard_def
      shard_node_count_def shard_edge_count_def list_dash_laws)

lemma edge_graph_rows:
  "base_row (edge_graph [0, 1, 1] 1) v = (if v = NodeId 0 then [1] else [])"
  "base_row (edge_graph [0, 0, 1] 0) v = (if v = NodeId 1 then [0] else [])"
proof -
  have "[0..<2] = [0, 1 :: nat]" by (simp add: upt_rec)
  then have "shards_rows (shards (edge_graph [0, 1, 1] 1)) = [[1], []]"
    "shards_rows (shards (edge_graph [0, 0, 1] 0)) = [[], [0]]"
    by (simp_all add: edge_graph_def shards_rows_def shard_row_def shard_node_count_def)
  moreover have "v = NodeId w \<longleftrightarrow> unat (as_u64 v) = unat w" for w
    by (cases v) (simp add: word_unat_eq_iff)
  ultimately show "base_row (edge_graph [0, 1, 1] 1) v = (if v = NodeId 0 then [1] else [])"
    "base_row (edge_graph [0, 0, 1] 0) v = (if v = NodeId 1 then [0] else [])"
    by (auto simp: base_row_def edge_graph_def less_2_cases_iff Let_def)
qed

theorem dobfs_equals_bfs_witness:
  "\<exists>x y. bfs_direction_optimized example_platform list_dash (edge_graph [0, 1, 1] 1)
      (edge_graph [0, 0, 1] 0) (NodeId 0) 4 = Ok x \<and>
    bfs example_platform list_dash (edge_graph [0, 1, 1] 1) (NodeId 0) 4 = Ok y \<and>
    map mset (r_levels x) = map mset (r_levels y)"
proof -
  have "transposed (edge_graph [0, 1, 1] 1) (edge_graph [0, 0, 1] 0)"
    by (rule transposed_example_row) (simp_all add: edge_graph_rows, simp add: edge_graph_def)
  moreover have "edge_count (edge_graph [0, 1, 1] 1) = edge_count (edge_graph [0, 0, 1] 0)"
    "delta_is_empty list_dash (delta (edge_graph [0, 0, 1] 0))"
    by (simp_all add: edge_graph_def delta_is_empty_iff list_dash_laws)
  ultimately show ?thesis
    using dobfs_equals_bfs [OF edge_graph_ok, of example_platform "NodeId 0" 4] by blast
qed

end
