(* ===== verification/Circuit_Breaker.thy ===== *)
theory Circuit_Breaker
  imports Errors
begin

text \<open>
  The circuit breaker (\<open>circuit_breaker.rs\<close>).  Each method is given twice: as the
  function it computes when it runs alone, and as the sequence of atomic steps it makes, so
  that concurrent executions are interleavings of those steps.  The clock is an argument of
  the operations that read it.
\<close>

section \<open>State and configuration\<close>

datatype circuit_state = CircuitClosed | CircuitIsOpen | CircuitHalfOpen

fun circuit_state_raw :: "circuit_state \<Rightarrow> u8" where
  "circuit_state_raw CircuitClosed = 0"
| "circuit_state_raw CircuitIsOpen = 1"
| "circuit_state_raw CircuitHalfOpen = 2"

definition circuit_state_of :: "u8 \<Rightarrow> circuit_state" where
  "circuit_state_of v =
     (if v = 1 then CircuitIsOpen else if v = 2 then CircuitHalfOpen else CircuitClosed)"

text \<open>\<open>std::time::Duration\<close>: seconds and nanoseconds; \<open>as_millis\<close> is a \<open>u128\<close>.\<close>

record duration =
  dur_secs :: u64
  dur_nanos :: u32

definition duration_zero :: duration where
  "duration_zero = \<lparr>dur_secs = 0, dur_nanos = 0\<rparr>"

definition as_millis :: "duration \<Rightarrow> nat" where
  "as_millis d = unat (dur_secs d) * 1000 + unat (dur_nanos d) div 1000000"

record circuit_breaker_config =
  failure_threshold :: u64
  reset_timeout :: duration
  success_threshold :: u64

definition circuit_breaker_config_default :: circuit_breaker_config where
  "circuit_breaker_config_default =
     \<lparr>failure_threshold = 5, reset_timeout = \<lparr>dur_secs = 30, dur_nanos = 0\<rparr>,
      success_threshold = 2\<rparr>"

record circuit_breaker =
  cb_config :: circuit_breaker_config
  cb_state :: u8
  cb_failure_count :: u64
  cb_success_count :: u64
  cb_last_failure_time :: u64

text \<open>
  A reading of the system clock: the time since the epoch, or nothing when the clock stands
  before it.  \<open>as u64\<close> keeps the low 64 bits.
\<close>

type_synonym clock = "duration option"

definition now_millis :: "clock \<Rightarrow> u64" where
  "now_millis c = of_nat (as_millis (case c of None \<Rightarrow> duration_zero | Some d \<Rightarrow> d))"

definition reset_timeout_millis :: "circuit_breaker \<Rightarrow> u64" where
  "reset_timeout_millis b = of_nat (as_millis (reset_timeout (cb_config b)))"

definition circuit_new :: "circuit_breaker_config \<Rightarrow> circuit_breaker" where
  "circuit_new cf = \<lparr>cb_config = cf, cb_state = circuit_state_raw CircuitClosed,
     cb_failure_count = 0, cb_success_count = 0, cb_last_failure_time = 0\<rparr>"

definition circuit_with_defaults :: circuit_breaker where
  "circuit_with_defaults = circuit_new circuit_breaker_config_default"

definition breaker_state :: "circuit_breaker \<Rightarrow> circuit_state" where
  "breaker_state b = circuit_state_of (cb_state b)"

definition circuit_failure_count :: "circuit_breaker \<Rightarrow> u64" where
  "circuit_failure_count b = cb_failure_count b"

section \<open>The operations, run alone\<close>

text \<open>\<open>u64::saturating_sub\<close> and \<open>AtomicU8::compare_exchange\<close>.\<close>

definition saturating_sub :: "u64 \<Rightarrow> u64 \<Rightarrow> u64" where
  "saturating_sub a b = (if b \<le> a then a - b else 0)"

definition compare_exchange ::
  "circuit_state \<Rightarrow> circuit_state \<Rightarrow> circuit_breaker \<Rightarrow> (u8, u8) res \<times> circuit_breaker" where
  "compare_exchange current new b =
     (if cb_state b = circuit_state_raw current
      then (Ok (cb_state b), b\<lparr>cb_state := circuit_state_raw new\<rparr>)
      else (Err (cb_state b), b))"

definition timeout_elapsed :: "clock \<Rightarrow> u64 \<Rightarrow> circuit_breaker \<Rightarrow> bool" where
  "timeout_elapsed c last_failure b \<longleftrightarrow>
     reset_timeout_millis b \<le> saturating_sub (now_millis c) last_failure"

definition circuit_check :: "clock \<Rightarrow> circuit_breaker \<Rightarrow> unit result \<times> circuit_breaker" where
  "circuit_check c b = (case breaker_state b of
     CircuitClosed \<Rightarrow> (Ok (), b)
   | CircuitHalfOpen \<Rightarrow> (Ok (), b)
   | CircuitIsOpen \<Rightarrow>
       if timeout_elapsed c (cb_last_failure_time b) b then
         (case compare_exchange CircuitIsOpen CircuitHalfOpen b of
            (Ok _, b') \<Rightarrow> (Ok (), b'\<lparr>cb_success_count := 0\<rparr>)
          | (Err actual, b') \<Rightarrow>
              (case circuit_state_of actual of
                 CircuitIsOpen \<Rightarrow> (Err CircuitOpen, b')
               | _ \<Rightarrow> (Ok (), b'))
          | (Panic, b') \<Rightarrow> (Panic, b'))
       else (Err CircuitOpen, b))"

text \<open>
  \<open>fetch_add\<close> wraps around; the \<open>+ 1\<close> on the value it returned is checked.
\<close>

definition record_success :: "circuit_breaker \<Rightarrow> unit result \<times> circuit_breaker" where
  "record_success b = (case breaker_state b of
     CircuitClosed \<Rightarrow> (Ok (), b\<lparr>cb_failure_count := 0\<rparr>)
   | CircuitHalfOpen \<Rightarrow>
       (let old = cb_success_count b; b1 = b\<lparr>cb_success_count := old + 1\<rparr>
        in case add_word old 1 of
             Ok successes \<Rightarrow>
               if success_threshold (cb_config b) \<le> successes
               then (Ok (), b1\<lparr>cb_state := circuit_state_raw CircuitClosed, cb_failure_count := 0\<rparr>)
               else (Ok (), b1)
           | Err e \<Rightarrow> (Err e, b1)
           | Panic \<Rightarrow> (Panic, b1))
   | CircuitIsOpen \<Rightarrow> (Ok (), b))"

definition record_failure :: "clock \<Rightarrow> circuit_breaker \<Rightarrow> unit result \<times> circuit_breaker" where
  "record_failure c b = (case breaker_state b of
     CircuitClosed \<Rightarrow>
       (let old = cb_failure_count b; b1 = b\<lparr>cb_failure_count := old + 1\<rparr>
        in case add_word old 1 of
             Ok failures \<Rightarrow>
               (let b2 = b1\<lparr>cb_last_failure_time := now_millis c\<rparr>
                in if failure_threshold (cb_config b) \<le> failures
                   then (Ok (), b2\<lparr>cb_state := circuit_state_raw CircuitIsOpen\<rparr>)
                   else (Ok (), b2))
           | Err e \<Rightarrow> (Err e, b1)
           | Panic \<Rightarrow> (Panic, b1))
   | CircuitHalfOpen \<Rightarrow>
       (Ok (), b\<lparr>cb_success_count := 0, cb_failure_count := cb_failure_count b + 1,
                 cb_last_failure_time := now_millis c,
                 cb_state := circuit_state_raw CircuitIsOpen\<rparr>)
   | CircuitIsOpen \<Rightarrow> (Ok (), b))"

definition circuit_reset :: "circuit_breaker \<Rightarrow> circuit_breaker" where
  "circuit_reset b = b\<lparr>cb_state := circuit_state_raw CircuitClosed, cb_failure_count := 0,
     cb_success_count := 0\<rparr>"

section \<open>The abstract automaton\<close>

text \<open>
  What the breaker promises: count consecutive failures while closed, stay open until the
  timeout has elapsed, then let requests through until enough of them succeeded in a row.
\<close>

datatype phase = Counting nat | Tripped u64 | Probing nat

datatype circuit_op = Check clock | Success | Failure clock | Reset

fun spec_op :: "circuit_breaker_config \<Rightarrow> circuit_op \<Rightarrow> phase \<Rightarrow> bool \<times> phase" where
  "spec_op cf (Check c) (Tripped t) =
     (if unat t + as_millis (reset_timeout cf) mod 2 ^ 64 \<le> unat (now_millis c) \<or>
         as_millis (reset_timeout cf) mod 2 ^ 64 = 0
      then (True, Probing 0) else (False, Tripped t))"
| "spec_op cf (Check c) p = (True, p)"
| "spec_op cf Success (Counting n) = (True, Counting 0)"
| "spec_op cf Success (Probing k) =
     (True, if unat (success_threshold cf) \<le> Suc k then Counting 0 else Probing (Suc k))"
| "spec_op cf Success (Tripped t) = (True, Tripped t)"
| "spec_op cf (Failure c) (Counting n) =
     (True, if unat (failure_threshold cf) \<le> Suc n then Tripped (now_millis c) else Counting (Suc n))"
| "spec_op cf (Failure c) (Probing k) = (True, Tripped (now_millis c))"
| "spec_op cf (Failure c) (Tripped t) = (True, Tripped t)"
| "spec_op cf Reset p = (True, Counting 0)"

fun circuit_op_step :: "circuit_op \<Rightarrow> circuit_breaker \<Rightarrow> unit result \<times> circuit_breaker" where
  "circuit_op_step (Check c) b = circuit_check c b"
| "circuit_op_step Success b = record_success b"
| "circuit_op_step (Failure c) b = record_failure c b"
| "circuit_op_step Reset b = (Ok (), circuit_reset b)"

definition circuit_phase :: "circuit_breaker \<Rightarrow> phase" where
  "circuit_phase b = (case breaker_state b of
     CircuitClosed \<Rightarrow> Counting (unat (cb_failure_count b))
   | CircuitIsOpen \<Rightarrow> Tripped (cb_last_failure_time b)
   | CircuitHalfOpen \<Rightarrow> Probing (unat (cb_success_count b)))"

text \<open>
  The counter of the current phase is below its threshold, so that the checked additions
  cannot overflow.
\<close>

definition wf_breaker :: "circuit_breaker \<Rightarrow> bool" where
  "wf_breaker b \<longleftrightarrow>
     (breaker_state b = CircuitClosed \<longrightarrow>
        cb_failure_count b = 0 \<or> cb_failure_count b < failure_threshold (cb_config b)) \<and>
     (breaker_state b = CircuitHalfOpen \<longrightarrow>
        cb_success_count b = 0 \<or> cb_success_count b < success_threshold (cb_config b))"

lemma circuit_state_of_raw [simp]: "circuit_state_of (circuit_state_raw s) = s"
  by (cases s) (simp_all add: circuit_state_of_def)

lemma circuit_state_raw_iff: "v = circuit_state_raw CircuitIsOpen \<longleftrightarrow> circuit_state_of v = CircuitIsOpen"
  by (simp add: circuit_state_of_def)

lemma unat_Suc_counter:
  "k = 0 \<or> k < (m :: u64) \<Longrightarrow> unat k + 1 < 2 ^ 64 \<and> unat (k + 1) = Suc (unat k)"
proof -
  assume "k = 0 \<or> k < m"
  then have "unat k + 1 < 2 ^ 64"
    using unsigned_less [of m, where 'a = nat] by (auto simp: word_less_nat_alt)
  then show ?thesis by (simp add: unat_word_ariths)
qed

lemma timeout_elapsed_iff:
  "timeout_elapsed c t b \<longleftrightarrow>
     unat t + as_millis (reset_timeout (cb_config b)) mod 2 ^ 64 \<le> unat (now_millis c) \<or>
     as_millis (reset_timeout (cb_config b)) mod 2 ^ 64 = 0"
proof -
  have m: "unat (reset_timeout_millis b) = as_millis (reset_timeout (cb_config b)) mod 2 ^ 64"
    by (simp add: reset_timeout_millis_def unat_of_nat)
  show ?thesis
    unfolding timeout_elapsed_def saturating_sub_def m [symmetric]
    by (auto simp: word_le_nat_alt unat_sub unat_eq_zero)
qed

lemmas circuit_op_defs = circuit_check_def record_success_def record_failure_def circuit_reset_def
  breaker_state_def circuit_phase_def wf_breaker_def Let_def

lemma circuit_op_refines:
  assumes "wf_breaker b"
  obtains b' where
    "circuit_op_step op b =
       (if fst (spec_op (cb_config b) op (circuit_phase b)) then Ok () else Err CircuitOpen, b')"
    "wf_breaker b'" "cb_config b' = cb_config b"
    "circuit_phase b' = snd (spec_op (cb_config b) op (circuit_phase b))"
proof -
  note bound = unat_Suc_counter
  have "\<exists>b'. circuit_op_step op b =
       (if fst (spec_op (cb_config b) op (circuit_phase b)) then Ok () else Err CircuitOpen, b') \<and>
    wf_breaker b' \<and> cb_config b' = cb_config b \<and>
    circuit_phase b' = snd (spec_op (cb_config b) op (circuit_phase b))"
  proof (cases op)
    case (Check c)
    then show ?thesis using assms
      by (cases "circuit_state_of (cb_state b)")
        (simp_all add: circuit_op_defs compare_exchange_def circuit_state_raw_iff timeout_elapsed_iff
          del: circuit_state_raw.simps)
  next
    case Success
    show ?thesis
    proof (cases "circuit_state_of (cb_state b)")
      case CircuitHalfOpen
      then have "cb_success_count b = 0 \<or> cb_success_count b < success_threshold (cb_config b)"
        using assms by (simp add: wf_breaker_def breaker_state_def)
      from bound [OF this] CircuitHalfOpen Success show ?thesis
        by (simp add: circuit_op_defs add_word_def word_le_nat_alt word_less_nat_alt not_le
            del: circuit_state_raw.simps)
    qed (use Success assms in \<open>simp_all add: circuit_op_defs del: circuit_state_raw.simps\<close>)
  next
    case (Failure c)
    show ?thesis
    proof (cases "circuit_state_of (cb_state b)")
      case CircuitClosed
      then have "cb_failure_count b = 0 \<or> cb_failure_count b < failure_threshold (cb_config b)"
        using assms by (simp add: wf_breaker_def breaker_state_def)
      from bound [OF this] CircuitClosed Failure show ?thesis
        by (simp add: circuit_op_defs add_word_def word_le_nat_alt word_less_nat_alt not_le
            del: circuit_state_raw.simps)
    qed (use Failure assms in \<open>simp_all add: circuit_op_defs del: circuit_state_raw.simps\<close>)
  next
    case Reset
    then show ?thesis by (simp add: circuit_op_defs del: circuit_state_raw.simps)
  qed
  then show thesis using that by blast
qed

section \<open>Sequential behaviour\<close>

fun circuit_run :: "circuit_op list \<Rightarrow> circuit_breaker \<Rightarrow> unit result list \<times> circuit_breaker" where
  "circuit_run [] b = ([], b)"
| "circuit_run (op # ops) b =
     (case circuit_op_step op b of (r, b1) \<Rightarrow>
        (case circuit_run ops b1 of (rs, b2) \<Rightarrow> (r # rs, b2)))"

fun spec_run :: "circuit_breaker_config \<Rightarrow> circuit_op list \<Rightarrow> phase \<Rightarrow> bool list \<times> phase" where
  "spec_run cf [] p = ([], p)"
| "spec_run cf (op # ops) p =
     (case spec_op cf op p of (r, p1) \<Rightarrow>
        (case spec_run cf ops p1 of (rs, p2) \<Rightarrow> (r # rs, p2)))"

definition allowed :: "bool \<Rightarrow> unit result" where
  "allowed ok = (if ok then Ok () else Err CircuitOpen)"

lemma circuit_run_refines:
  assumes "wf_breaker b"
  obtains b' where
    "circuit_run ops b = (map allowed (fst (spec_run (cb_config b) ops (circuit_phase b))), b')"
    "wf_breaker b'" "cb_config b' = cb_config b"
    "circuit_phase b' = snd (spec_run (cb_config b) ops (circuit_phase b))"
proof -
  have "\<exists>b'. circuit_run ops b = (map allowed (fst (spec_run (cb_config b) ops (circuit_phase b))), b') \<and>
    wf_breaker b' \<and> cb_config b' = cb_config b \<and>
    circuit_phase b' = snd (spec_run (cb_config b) ops (circuit_phase b))"
    using assms
  proof (induction ops arbitrary: b)
    case (Cons op ops)
    obtain b1 where b1: "circuit_op_step op b =
        (if fst (spec_op (cb_config b) op (circuit_phase b)) then Ok () else Err CircuitOpen, b1)"
      "wf_breaker b1" "cb_config b1 = cb_config b"
      "circuit_phase b1 = snd (spec_op (cb_config b) op (circuit_phase b))"
      using Cons.prems by (rule circuit_op_refines)
    from Cons.IH [OF b1(2)] b1 show ?case
      by (auto simp: allowed_def split: prod.splits)
  qed simp
  then show thesis using that by blast
qed

lemma breaker_state_phase:
  "breaker_state b = (case circuit_phase b of
     Counting _ \<Rightarrow> CircuitClosed | Tripped _ \<Rightarrow> CircuitIsOpen | Probing _ \<Rightarrow> CircuitHalfOpen)"
  by (simp add: circuit_phase_def split: circuit_state.split)

lemma wf_circuit_new [simp]: "wf_breaker (circuit_new cf)"
  by (simp add: wf_breaker_def circuit_new_def)

lemma circuit_phase_new [simp]: "circuit_phase (circuit_new cf) = Counting 0"
  by (simp add: circuit_phase_def circuit_new_def breaker_state_def circuit_state_of_def)

lemma circuit_config_new [simp]: "cb_config (circuit_new cf) = cf"
  by (simp add: circuit_new_def)

text \<open>
  C20: used by one thread at a time the breaker is the abstract automaton: for every
  sequence of checks, successes, failures and resets, and whatever the clock shows, no
  operation panics, every check is allowed or refused exactly as the automaton says, and
  the observable state at the end is the automaton's phase.
\<close>

theorem breaker_refines_automaton:
  "\<exists>b. circuit_run ops (circuit_new cf) = (map allowed (fst (spec_run cf ops (Counting 0))), b) \<and>
     breaker_state b = (case snd (spec_run cf ops (Counting 0)) of
       Counting _ \<Rightarrow> CircuitClosed | Tripped _ \<Rightarrow> CircuitIsOpen | Probing _ \<Rightarrow> CircuitHalfOpen)"
  using circuit_run_refines [OF wf_circuit_new, of ops cf]
  by (metis breaker_state_phase circuit_config_new circuit_phase_new)

lemma spec_run_failures:
  "spec_run cf (map Failure cs) (Tripped t) = (replicate (length cs) True, Tripped t)"
  by (induction cs) simp_all

lemma spec_run_counting:
  "cs \<noteq> [] \<Longrightarrow> n < unat (failure_threshold cf) \<or> n = 0 \<Longrightarrow>
   spec_run cf (map Failure cs) (Counting n) =
     (replicate (length cs) True,
      if unat (failure_threshold cf) \<le> n + length cs
      then Tripped (now_millis (cs ! (unat (failure_threshold cf) - Suc n)))
      else Counting (n + length cs))"
proof (induction cs arbitrary: n)
  case (Cons c cs)
  show ?case
  proof (cases "unat (failure_threshold cf) \<le> Suc n")
    case True
    then show ?thesis by (simp add: spec_run_failures)
  next
    case False
    with Cons.IH [of "Suc n"] show ?thesis by (cases "cs = []") (simp_all add: nth_Cons')
  qed
qed simp

definition refused_before :: "u64 \<Rightarrow> circuit_breaker_config \<Rightarrow> circuit_op \<Rightarrow> bool" where
  "refused_before t cf op = (case op of
     Check c \<Rightarrow> unat (now_millis c) < unat t + as_millis (reset_timeout cf) mod 2 ^ 64
   | Reset \<Rightarrow> False
   | _ \<Rightarrow> True)"

definition is_check :: "circuit_op \<Rightarrow> bool" where
  "is_check op = (case op of Check _ \<Rightarrow> True | _ \<Rightarrow> False)"

lemma spec_run_tripped:
  assumes "as_millis (reset_timeout cf) mod 2 ^ 64 \<noteq> 0" "\<forall>op \<in> set ops. refused_before t cf op"
  shows "spec_run cf ops (Tripped t) = (map (\<lambda>op. \<not> is_check op) ops, Tripped t)"
  using assms(2)
proof (induction ops)
  case (Cons op ops)
  then show ?case using assms(1) by (cases op) (auto simp: refused_before_def is_check_def)
qed simp

lemma spec_run_append:
  "spec_run cf (xs @ ys) p =
     (fst (spec_run cf xs p) @ fst (spec_run cf ys (snd (spec_run cf xs p))),
      snd (spec_run cf ys (snd (spec_run cf xs p))))"
  by (induction xs arbitrary: p) (simp_all split: prod.splits)

text \<open>
  C38: fail fast: as many consecutive failures as the threshold (one, if it is zero) open a
  new breaker; from then on every check whose clock shows less than the time of the failure
  that opened it plus the timeout is refused, and neither further failures nor successes
  change that or postpone the end of the timeout, until the breaker is reset.
\<close>

theorem breaker_fails_fast:
  assumes "cs \<noteq> []" "length cs = max 1 (unat (failure_threshold cf))"
    and "as_millis (reset_timeout cf) mod 2 ^ 64 \<noteq> 0"
    and "\<forall>op \<in> set ops. refused_before (now_millis (last cs)) cf op"
  shows "\<exists>b. circuit_run (map Failure cs @ ops) (circuit_new cf) =
      (replicate (length cs) (Ok ()) @ map (\<lambda>op. allowed (\<not> is_check op)) ops, b) \<and>
    breaker_state b = CircuitIsOpen \<and> cb_last_failure_time b = now_millis (last cs)"
proof -
  have "cs ! (unat (failure_threshold cf) - 1) = last cs"
    using assms(1,2) by (simp add: last_conv_nth max_def split: if_splits)
  then have "spec_run cf (map Failure cs) (Counting 0) =
      (replicate (length cs) True, Tripped (now_millis (last cs)))"
    using spec_run_counting [OF assms(1), of 0 cf] assms(2) by simp
  then have s: "spec_run cf (map Failure cs @ ops) (Counting 0) =
      (replicate (length cs) True @ map (\<lambda>op. \<not> is_check op) ops, Tripped (now_millis (last cs)))"
    by (simp add: spec_run_append spec_run_tripped [OF assms(3,4)])
  obtain b where b: "circuit_run (map Failure cs @ ops) (circuit_new cf) =
      (map allowed (fst (spec_run cf (map Failure cs @ ops) (Counting 0))), b)"
    "circuit_phase b = snd (spec_run cf (map Failure cs @ ops) (Counting 0))"
    by (metis circuit_run_refines [OF wf_circuit_new] circuit_config_new circuit_phase_new)
  then show ?thesis using s
    by (auto simp: allowed_def circuit_phase_def comp_def split: circuit_state.splits)
qed

theorem breaker_fails_fast_witness:
  "\<exists>b. circuit_run (map Failure (replicate 5 (Some \<lparr>dur_secs = 1, dur_nanos = 0\<rparr>)) @
        [Success, Check (Some \<lparr>dur_secs = 30, dur_nanos = 0\<rparr>)]) circuit_with_defaults =
      (replicate 5 (Ok ()) @ [Ok (), Err CircuitOpen], b) \<and> breaker_state b = CircuitIsOpen"
  using breaker_fails_fast [of "replicate 5 (Some \<lparr>dur_secs = 1, dur_nanos = 0\<rparr>)"
      circuit_breaker_config_default "[Success, Check (Some \<lparr>dur_secs = 30, dur_nanos = 0\<rparr>)]"]
  by (auto simp: circuit_breaker_config_default_def as_millis_def refused_before_def now_millis_def
      is_check_def allowed_def circuit_with_defaults_def)

lemma spec_run_probing:
  "n < unat (success_threshold cf) \<or> n = 0 \<Longrightarrow>
   spec_run cf (replicate k Success) (Probing n) =
     (replicate k True,
      if k = 0 \<or> n + k < unat (success_threshold cf) then Probing (n + k) else Counting 0)"
proof (induction k arbitrary: n)
  case (Suc k)
  have closed: "spec_run cf (replicate j Success) (Counting 0) = (replicate j True, Counting 0)" for j
    by (induction j) simp_all
  show ?case using Suc.IH [of "Suc n"] by (auto simp: closed)
qed simp

text \<open>
  C39: recovery: on an open breaker the first check at or after the timeout is allowed and
  lets further requests through; then as many successes as the success threshold (one, if
  it is zero) close it with a failure count of zero, fewer leave it half-open, and a failure
  while it is half-open opens it again from the time of that failure.
\<close>

theorem breaker_recovers:
  assumes "wf_breaker b" "breaker_state b = CircuitIsOpen"
    and "unat (cb_last_failure_time b) + as_millis (reset_timeout (cb_config b)) mod 2 ^ 64 \<le>
      unat (now_millis c)"
  shows "\<exists>b1. circuit_run (Check c # replicate k Success) b = (replicate (Suc k) (Ok ()), b1) \<and>
    (if k = 0 \<or> k < unat (success_threshold (cb_config b))
     then breaker_state b1 = CircuitHalfOpen \<and>
       circuit_check c' b1 = (Ok (), b1) \<and>
       (\<exists>b2. record_failure d b1 = (Ok (), b2) \<and> breaker_state b2 = CircuitIsOpen \<and>
         cb_last_failure_time b2 = now_millis d)
     else breaker_state b1 = CircuitClosed \<and> circuit_failure_count b1 = 0)"
proof -
  have p: "circuit_phase b = Tripped (cb_last_failure_time b)"
    using assms(2) by (simp add: circuit_phase_def)
  have s: "spec_run (cb_config b) (Check c # replicate k Success) (circuit_phase b) =
      (replicate (Suc k) True,
       if k = 0 \<or> k < unat (success_threshold (cb_config b)) then Probing k else Counting 0)"
    using assms(3) spec_run_probing [of 0 "cb_config b" k] by (simp add: p)
  obtain b1 where b1: "circuit_run (Check c # replicate k Success) b =
      (map allowed (fst (spec_run (cb_config b) (Check c # replicate k Success) (circuit_phase b))), b1)"
    "circuit_phase b1 = snd (spec_run (cb_config b) (Check c # replicate k Success) (circuit_phase b))"
    using assms(1) by (rule circuit_run_refines)
  have r: "circuit_run (Check c # replicate k Success) b = (replicate (Suc k) (Ok ()), b1)"
    using b1(1) unfolding s by (simp add: allowed_def)
  show ?thesis
  proof (cases "k = 0 \<or> k < unat (success_threshold (cb_config b))")
    case True
    then have "breaker_state b1 = CircuitHalfOpen"
      using b1(2) unfolding s by (simp add: breaker_state_phase)
    then show ?thesis using r True
      by (intro exI [of _ b1])
        (simp add: circuit_check_def record_failure_def breaker_state_def del: circuit_state_raw.simps)
  next
    case False
    then have "circuit_phase b1 = Counting 0" using b1(2) unfolding s by simp
    then have "breaker_state b1 = CircuitClosed \<and> circuit_failure_count b1 = 0"
      by (auto simp: circuit_phase_def circuit_failure_count_def unat_eq_zero
          split: circuit_state.splits)
    then show ?thesis using r False by auto
  qed
qed

theorem breaker_recovers_witness:
  "\<exists>b1. circuit_run (Check (Some \<lparr>dur_secs = 31, dur_nanos = 0\<rparr>) # replicate 2 Success)
      (circuit_with_defaults\<lparr>cb_state := 1, cb_last_failure_time := 1000\<rparr>) =
      (replicate (Suc 2) (Ok ()), b1) \<and>
    breaker_state b1 = CircuitClosed \<and> circuit_failure_count b1 = 0"
proof -
  let ?b = "circuit_with_defaults\<lparr>cb_state := 1, cb_last_failure_time := 1000\<rparr>"
  let ?c = "Some \<lparr>dur_secs = 31, dur_nanos = 0\<rparr>"
  have "wf_breaker ?b" "breaker_state ?b = CircuitIsOpen"
    by (simp_all add: wf_breaker_def breaker_state_def circuit_state_of_def)
  moreover have "unat (cb_last_failure_time ?b) + as_millis (reset_timeout (cb_config ?b)) mod 2 ^ 64 \<le>
      unat (now_millis ?c)"
    by (simp add: circuit_with_defaults_def circuit_breaker_config_default_def as_millis_def
        now_millis_def)
  ultimately show ?thesis
    using breaker_recovers [of ?b ?c 2 ?c ?c]
    by (simp add: circuit_with_defaults_def circuit_breaker_config_default_def del: circuit_run.simps)
qed

section \<open>Atomic steps\<close>

text \<open>
  Where a method stands between two accesses to the shared fields.  A step that reads the
  clock takes its reading as an argument, so that clocks may show anything.
\<close>

datatype control =
    CheckLoad | CheckOpen | CheckCas u64 | CheckStore
  | SuccessLoad | SuccessClear | SuccessAdd | SuccessClose | SuccessForget
  | FailureLoad | FailureAdd | FailureTime u64 | FailureTrip
  | ProbeClear | ProbeAdd | ProbeTime | ProbeTrip
  | ResetState | ResetFailures | ResetSuccesses
  | Finished "unit result"

fun circuit_atomic :: "clock \<Rightarrow> control \<Rightarrow> circuit_breaker \<Rightarrow> control \<times> circuit_breaker" where
  "circuit_atomic c CheckLoad b = (case breaker_state b of
     CircuitIsOpen \<Rightarrow> (CheckOpen, b) | _ \<Rightarrow> (Finished (Ok ()), b))"
| "circuit_atomic c CheckOpen b = (CheckCas (cb_last_failure_time b), b)"
| "circuit_atomic c (CheckCas last_failure) b =
     (if timeout_elapsed c last_failure b then
        (case compare_exchange CircuitIsOpen CircuitHalfOpen b of
           (Ok _, b') \<Rightarrow> (CheckStore, b')
         | (Err actual, b') \<Rightarrow>
             (case circuit_state_of actual of
                CircuitIsOpen \<Rightarrow> (Finished (Err CircuitOpen), b')
              | _ \<Rightarrow> (Finished (Ok ()), b'))
         | (Panic, b') \<Rightarrow> (Finished Panic, b'))
      else (Finished (Err CircuitOpen), b))"
| "circuit_atomic c CheckStore b = (Finished (Ok ()), b\<lparr>cb_success_count := 0\<rparr>)"
| "circuit_atomic c SuccessLoad b = (case breaker_state b of
     CircuitClosed \<Rightarrow> (SuccessClear, b) | CircuitHalfOpen \<Rightarrow> (SuccessAdd, b)
   | CircuitIsOpen \<Rightarrow> (Finished (Ok ()), b))"
| "circuit_atomic c SuccessClear b = (Finished (Ok ()), b\<lparr>cb_failure_count := 0\<rparr>)"
| "circuit_atomic c SuccessAdd b =
     (let old = cb_success_count b; b1 = b\<lparr>cb_success_count := old + 1\<rparr>
      in case add_word old 1 of
           Ok successes \<Rightarrow>
             (if success_threshold (cb_config b) \<le> successes then (SuccessClose, b1)
              else (Finished (Ok ()), b1))
         | Err e \<Rightarrow> (Finished (Err e), b1)
         | Panic \<Rightarrow> (Finished Panic, b1))"
| "circuit_atomic c SuccessClose b = (SuccessForget, b\<lparr>cb_state := circuit_state_raw CircuitClosed\<rparr>)"
| "circuit_atomic c SuccessForget b = (Finished (Ok ()), b\<lparr>cb_failure_count := 0\<rparr>)"
| "circuit_atomic c FailureLoad b = (case breaker_state b of
     CircuitClosed \<Rightarrow> (FailureAdd, b) | CircuitHalfOpen \<Rightarrow> (ProbeClear, b)
   | CircuitIsOpen \<Rightarrow> (Finished (Ok ()), b))"
| "circuit_atomic c FailureAdd b =
     (let old = cb_failure_count b; b1 = b\<lparr>cb_failure_count := old + 1\<rparr>
      in case add_word old 1 of
           Ok failures \<Rightarrow> (FailureTime failures, b1)
         | Err e \<Rightarrow> (Finished (Err e), b1)
         | Panic \<Rightarrow> (Finished Panic, b1))"
| "circuit_atomic c (FailureTime failures) b =
     (if failure_threshold (cb_config b) \<le> failures then FailureTrip else Finished (Ok ()),
      b\<lparr>cb_last_failure_time := now_millis c\<rparr>)"
| "circuit_atomic c FailureTrip b =
     (Finished (Ok ()), b\<lparr>cb_state := circuit_state_raw CircuitIsOpen\<rparr>)"
| "circuit_atomic c ProbeClear b = (ProbeAdd, b\<lparr>cb_success_count := 0\<rparr>)"
| "circuit_atomic c ProbeAdd b = (ProbeTime, b\<lparr>cb_failure_count := cb_failure_count b + 1\<rparr>)"
| "circuit_atomic c ProbeTime b = (ProbeTrip, b\<lparr>cb_last_failure_time := now_millis c\<rparr>)"
| "circuit_atomic c ProbeTrip b =
     (Finished (Ok ()), b\<lparr>cb_state := circuit_state_raw CircuitIsOpen\<rparr>)"
| "circuit_atomic c ResetState b = (ResetFailures, b\<lparr>cb_state := circuit_state_raw CircuitClosed\<rparr>)"
| "circuit_atomic c ResetFailures b = (ResetSuccesses, b\<lparr>cb_failure_count := 0\<rparr>)"
| "circuit_atomic c ResetSuccesses b = (Finished (Ok ()), b\<lparr>cb_success_count := 0\<rparr>)"
| "circuit_atomic c (Finished r) b = (Finished r, b)"

fun control_start :: "circuit_op \<Rightarrow> control" where
  "control_start (Check _) = CheckLoad"
| "control_start Success = SuccessLoad"
| "control_start (Failure _) = FailureLoad"
| "control_start Reset = ResetState"

text \<open>A method that runs alone makes at most five steps.\<close>

definition op_clock :: "circuit_op \<Rightarrow> clock" where
  "op_clock op = (case op of Check c \<Rightarrow> c | Failure c \<Rightarrow> c | _ \<Rightarrow> None)"

definition run_alone :: "circuit_op \<Rightarrow> circuit_breaker \<Rightarrow> control \<times> circuit_breaker" where
  "run_alone op b =
     ((\<lambda>(p, b). circuit_atomic (op_clock op) p b) ^^ 5) (control_start op, b)"

text \<open>
  the functions are what the atomic steps compute without interference: every method,
  from any state of the shared fields, finishes after at most five atomic steps with
  exactly the result and the fields of its sequential function.
\<close>

theorem atomic_steps_refine_operations:
  "run_alone op b = (Finished (fst (circuit_op_step op b)), snd (circuit_op_step op b))"
proof -
  note defs = run_alone_def op_clock_def eval_nat_numeral funpow_Suc_right circuit_check_def
    record_success_def record_failure_def circuit_reset_def compare_exchange_def Let_def
    circuit_state_raw_iff
  have "run_alone (Check c) b = (Finished (fst (circuit_check c b)), snd (circuit_check c b))" for c
    by (cases "circuit_state_of (cb_state b)")
      (simp_all add: defs breaker_state_def del: circuit_state_raw.simps)
  moreover have "run_alone Success b = (Finished (fst (record_success b)), snd (record_success b))"
    by (cases "circuit_state_of (cb_state b)"; cases "add_word (cb_success_count b) 1 :: u64 result")
      (simp_all add: defs breaker_state_def del: circuit_state_raw.simps)
  moreover have "run_alone (Failure c) b = (Finished (fst (record_failure c b)), snd (record_failure c b))" for c
    by (cases "circuit_state_of (cb_state b)"; cases "add_word (cb_failure_count b) 1 :: u64 result")
      (simp_all add: defs breaker_state_def del: circuit_state_raw.simps)
  moreover have "run_alone Reset b = (Finished (Ok ()), circuit_reset b)"
    by (simp add: defs del: circuit_state_raw.simps)
  ultimately show ?thesis by (cases op) simp_all
qed

section \<open>Concurrent executions\<close>

text \<open>
  Threads share one breaker: a thread that has finished a call may begin another, and any
  thread may make its next atomic step.  The number counts the failures that were counted.
\<close>

type_synonym threads = "nat \<Rightarrow> control"

fun counts_failure :: "control \<Rightarrow> bool" where
  "counts_failure FailureAdd = True"
| "counts_failure ProbeAdd = True"
| "counts_failure _ = False"

inductive concurrent_run ::
  "circuit_breaker_config \<Rightarrow> nat \<Rightarrow> threads \<Rightarrow> circuit_breaker \<Rightarrow> bool" for cf
where
  init: "concurrent_run cf 0 (\<lambda>_. Finished (Ok ())) (circuit_new cf)"
| begins: "concurrent_run cf n ts b \<Longrightarrow> ts i = Finished r \<Longrightarrow>
    concurrent_run cf n (ts(i := control_start op)) b"
| advances: "concurrent_run cf n ts b \<Longrightarrow> circuit_atomic c (ts i) b = (p, b') \<Longrightarrow>
    concurrent_run cf (n + of_bool (counts_failure (ts i))) (ts(i := p)) b'"

text \<open>What a thread has seen: that the circuit had opened, or how many failures there were.\<close>

fun seen_ok :: "bool \<Rightarrow> nat \<Rightarrow> control \<Rightarrow> bool" where
  "seen_ok opened n CheckOpen = opened"
| "seen_ok opened n (CheckCas _) = opened"
| "seen_ok opened n CheckStore = opened"
| "seen_ok opened n SuccessAdd = opened"
| "seen_ok opened n SuccessClose = opened"
| "seen_ok opened n SuccessForget = opened"
| "seen_ok opened n (FailureTime f) = (0 < n \<and> unat f \<le> n)"
| "seen_ok opened n FailureTrip = opened"
| "seen_ok opened n ProbeClear = opened"
| "seen_ok opened n ProbeAdd = opened"
| "seen_ok opened n ProbeTime = opened"
| "seen_ok opened n ProbeTrip = opened"
| "seen_ok opened n (Finished r) = (r = Err CircuitOpen \<longrightarrow> opened)"
| "seen_ok opened n p = True"

lemma seen_ok_mono:
  "seen_ok a n p \<Longrightarrow> (a \<longrightarrow> a') \<Longrightarrow> n \<le> n' \<Longrightarrow> seen_ok a' n' p"
  by (cases p) auto

lemma unat_plus_1_le: "unat (x + 1 :: u64) \<le> unat x + 1"
  by (simp add: unat_word_ariths)

definition breaker_inv :: "circuit_breaker_config \<Rightarrow> nat \<Rightarrow> circuit_breaker \<Rightarrow> bool" where
  "breaker_inv cf n b \<longleftrightarrow> cb_config b = cf \<and> unat (cb_failure_count b) \<le> n \<and>
     (breaker_state b \<noteq> CircuitClosed \<longrightarrow> 0 < n \<and> unat (failure_threshold cf) \<le> n)"

definition concurrent_inv :: "circuit_breaker_config \<Rightarrow> nat \<Rightarrow> threads \<Rightarrow> circuit_breaker \<Rightarrow> bool" where
  "concurrent_inv cf n ts b \<longleftrightarrow> breaker_inv cf n b \<and>
     (\<forall>i. seen_ok (0 < n \<and> unat (failure_threshold cf) \<le> n) n (ts i))"

lemma circuit_state_of_values [simp]:
  "circuit_state_of 0 = CircuitClosed" "circuit_state_of 1 = CircuitIsOpen"
  "circuit_state_of 2 = CircuitHalfOpen"
  by (simp_all add: circuit_state_of_def)

lemma failure_step_inv:
  assumes "counts_failure q" "breaker_inv cf n b" "circuit_atomic c q b = (p, b')"
    and "seen_ok (0 < n \<and> unat (failure_threshold cf) \<le> n) n q"
  shows "breaker_inv cf (Suc n) b' \<and> seen_ok (unat (failure_threshold cf) \<le> Suc n) (Suc n) p"
proof -
  have "q = FailureAdd \<or> q = ProbeAdd" using assms(1) by (cases q) simp_all
  then show ?thesis using assms(2-) unat_plus_1_le [of "cb_failure_count b"]
    by (auto simp: breaker_inv_def breaker_state_def add_word_def Let_def split: if_splits)
qed

lemma other_step_inv:
  assumes "\<not> counts_failure q" "breaker_inv cf n b" "circuit_atomic c q b = (p, b')"
    and "seen_ok (0 < n \<and> unat (failure_threshold cf) \<le> n) n q"
  shows "breaker_inv cf n b' \<and> seen_ok (0 < n \<and> unat (failure_threshold cf) \<le> n) n p"
proof -
  let ?o = "0 < n \<and> unat (failure_threshold cf) \<le> n"
  have b: "cb_config b = cf" "unat (cb_failure_count b) \<le> n"
    "circuit_state_of (cb_state b) \<noteq> CircuitClosed \<Longrightarrow> ?o"
    using assms(2) by (auto simp: breaker_inv_def breaker_state_def)
  note defs = breaker_inv_def breaker_state_def compare_exchange_def add_word_def Let_def
  show ?thesis using assms(1,3,4) b
    by (cases q; cases "circuit_state_of (cb_state b)")
      (simp_all add: defs word_le_nat_alt del: circuit_state_raw.simps split: if_splits, auto)
qed

lemma concurrent_run_inv: "concurrent_run cf n ts b \<Longrightarrow> concurrent_inv cf n ts b"
proof (induction rule: concurrent_run.induct)
  case init
  show ?case
    by (simp add: concurrent_inv_def breaker_inv_def circuit_new_def breaker_state_def
        del: circuit_state_raw.simps)
next
  case (begins n ts b i r op)
  have "seen_ok x n (control_start op)" for x by (cases op) simp_all
  then show ?case using begins.IH by (simp add: concurrent_inv_def breaker_inv_def)
next
  case (advances n ts b c i p b')
  let ?n = "n + of_bool (counts_failure (ts i))"
  have inv: "breaker_inv cf n b"
    and seen: "\<And>j. seen_ok (0 < n \<and> unat (failure_threshold cf) \<le> n) n (ts j)"
    using advances.IH by (simp_all only: concurrent_inv_def)
  have "breaker_inv cf ?n b' \<and> seen_ok (0 < ?n \<and> unat (failure_threshold cf) \<le> ?n) ?n p"
  proof (cases "counts_failure (ts i)")
    case True
    from failure_step_inv [OF this inv advances.hyps(2) seen] True show ?thesis by simp
  next
    case False
    from other_step_inv [OF this inv advances.hyps(2) seen] False show ?thesis by simp
  qed
  moreover have "seen_ok (0 < ?n \<and> unat (failure_threshold cf) \<le> ?n) ?n (ts j)" for j
    using seen by (rule seen_ok_mono) auto
  ultimately show ?case by (simp only: concurrent_inv_def fun_upd_def if_split) blast
qed

text \<open>
  C21: however threads interleave, and whatever their clocks show, the circuit leaves the
  closed state, and a request is refused, only after at least as many failures as the
  threshold (and at least one) have been counted.
\<close>

theorem breaker_never_opens_early:
  assumes "concurrent_run cf n ts b"
    and "breaker_state b \<noteq> CircuitClosed \<or> ts i = Finished (Err CircuitOpen)"
  shows "max 1 (unat (failure_threshold cf)) \<le> n"
proof -
  have inv: "concurrent_inv cf n ts b" using assms(1) by (rule concurrent_run_inv)
  then have "seen_ok (0 < n \<and> unat (failure_threshold cf) \<le> n) n (ts i)"
    by (simp add: concurrent_inv_def breaker_inv_def)
  with assms(2) have "ts i = Finished (Err CircuitOpen) \<Longrightarrow> 0 < n \<and> unat (failure_threshold cf) \<le> n"
    by simp
  moreover have "breaker_state b \<noteq> CircuitClosed \<Longrightarrow> 0 < n \<and> unat (failure_threshold cf) \<le> n"
    using inv by (simp add: concurrent_inv_def breaker_inv_def)
  ultimately show ?thesis using assms(2) by auto
qed

text \<open>Schedules: executable interleavings.\<close>

datatype circuit_event = Begin nat circuit_op | Advance nat clock

fun circuit_event_step :: "circuit_event \<Rightarrow> nat \<times> threads \<times> circuit_breaker \<Rightarrow> nat \<times> threads \<times> circuit_breaker"
where
  "circuit_event_step (Begin i op) (n, ts, b) =
     (case ts i of Finished _ \<Rightarrow> (n, ts(i := control_start op), b) | _ \<Rightarrow> (n, ts, b))"
| "circuit_event_step (Advance i c) (n, ts, b) =
     (case circuit_atomic c (ts i) b of (p, b') \<Rightarrow>
        (n + of_bool (counts_failure (ts i)), ts(i := p), b'))"

definition schedule :: "circuit_breaker_config \<Rightarrow> circuit_event list \<Rightarrow> nat \<times> threads \<times> circuit_breaker" where
  "schedule cf evs = fold circuit_event_step evs (0, \<lambda>_. Finished (Ok ()), circuit_new cf)"

lemma event_step_run:
  assumes "concurrent_run cf n ts b"
  shows "case circuit_event_step e (n, ts, b) of (n', ts', b') \<Rightarrow> concurrent_run cf n' ts' b'"
proof (cases e)
  case (Begin i op)
  then show ?thesis using assms concurrent_run.begins [OF assms, of i _ op]
    by (cases "ts i") simp_all
next
  case (Advance i c)
  then show ?thesis using concurrent_run.advances [OF assms, of c i]
    by (cases "circuit_atomic c (ts i) b") simp
qed

lemma schedule_run: "schedule cf evs = (n, ts, b) \<Longrightarrow> concurrent_run cf n ts b"
proof -
  have "case fold circuit_event_step evs (0, \<lambda>_. Finished (Ok ()), circuit_new cf) of
      (n, ts, b) \<Rightarrow> concurrent_run cf n ts b"
  proof (induction evs rule: rev_induct)
    case (snoc e evs)
    obtain n ts b where f: "fold circuit_event_step evs (0, \<lambda>_. Finished (Ok ()), circuit_new cf) = (n, ts, b)"
      by (rule prod_cases3)
    with snoc have "concurrent_run cf n ts b" by simp
    from event_step_run [OF this, of e] show ?case by (simp add: f)
  qed (simp add: concurrent_run.init)
  then show "schedule cf evs = (n, ts, b) \<Longrightarrow> concurrent_run cf n ts b"
    by (simp add: schedule_def)
qed

definition millis :: "u64 \<Rightarrow> clock" where
  "millis n = Some \<lparr>dur_secs = n div 1000, dur_nanos = ucast (n mod 1000) * 1000000\<rparr>"

definition racy_config :: circuit_breaker_config where
  "racy_config = \<lparr>failure_threshold = 1, reset_timeout = \<lparr>dur_secs = 10, dur_nanos = 0\<rparr>,
     success_threshold = 2\<rparr>"

text \<open>
  Thread 0 has won the transition to half-open but not yet stored the zero; thread 1 is let
  through and records a success.
\<close>

definition erase_schedule :: "circuit_event list" where
  "erase_schedule =
     [Begin 0 (Failure None), Advance 0 None, Advance 0 None, Advance 0 None, Advance 0 None,
      Begin 0 (Check None), Advance 0 None, Advance 0 None, Advance 0 (millis 10000),
      Begin 1 (Check None), Advance 1 None,
      Begin 1 Success, Advance 1 None, Advance 1 None]"

text \<open>
  Thread 0 reads the time of the first failure and stops; meanwhile thread 1 probes, fails
  and opens the circuit again at 10000.
\<close>

definition stale_schedule :: "circuit_event list" where
  "stale_schedule =
     [Begin 0 (Failure None), Advance 0 None, Advance 0 None, Advance 0 None, Advance 0 None,
      Begin 0 (Check None), Advance 0 None, Advance 0 None,
      Begin 1 (Check None), Advance 1 None, Advance 1 None, Advance 1 (millis 10000), Advance 1 None,
      Begin 1 (Failure None), Advance 1 None, Advance 1 None, Advance 1 None,
      Advance 1 (millis 10000), Advance 1 None]"

lemmas schedule_eval = schedule_def circuit_new_def racy_config_def breaker_state_def Let_def
  add_word_def compare_exchange_def timeout_elapsed_def reset_timeout_millis_def as_millis_def
  now_millis_def millis_def saturating_sub_def duration_zero_def word_le_nat_alt

lemma erase_schedule_result:
  "schedule racy_config erase_schedule =
     (1, (\<lambda>_. Finished (Ok ()))(0 := CheckStore),
      \<lparr>cb_config = racy_config, cb_state = 2, cb_failure_count = 1, cb_success_count = 1,
       cb_last_failure_time = 0\<rparr>)"
  by (simp add: schedule_eval erase_schedule_def fun_eq_iff)

lemma stale_schedule_result:
  "schedule racy_config stale_schedule =
     (2, (\<lambda>_. Finished (Ok ()))(0 := CheckCas 0),
      \<lparr>cb_config = racy_config, cb_state = 1, cb_failure_count = 2, cb_success_count = 0,
       cb_last_failure_time = 10000\<rparr>)"
  by (simp add: schedule_eval stale_schedule_def fun_eq_iff)

theorem breaker_never_opens_early_witness:
  "max 1 (unat (failure_threshold racy_config)) \<le> 1"
  by (rule breaker_never_opens_early [OF schedule_run [OF erase_schedule_result]])
    (simp add: breaker_state_def)

text \<open>
  a check can erase a recorded success: an execution reaches a half-open circuit with
  one recorded success, where the next success would close it, while another thread's check
  still has to store the zero it owes; after that store the next success leaves the circuit
  half-open.
\<close>

theorem check_erases_success:
  "\<exists>n ts b. concurrent_run racy_config n ts b \<and> breaker_state b = CircuitHalfOpen \<and>
     breaker_state (snd (record_success b)) = CircuitClosed \<and>
     circuit_atomic c (ts 0) b = (Finished (Ok ()), b\<lparr>cb_success_count := 0\<rparr>) \<and>
     breaker_state (snd (record_success (b\<lparr>cb_success_count := 0\<rparr>))) = CircuitHalfOpen"
  by (rule exI, rule exI, rule exI, rule conjI [OF schedule_run [OF erase_schedule_result]])
    (simp add: record_success_def breaker_state_def add_word_def racy_config_def Let_def
      word_le_nat_alt)

text \<open>
  a slow check can end the timeout early: an execution reaches an open circuit whose
  timeout has not elapsed, so that a check refuses, while a check that read the time of an
  earlier failure makes it half-open with its next step.
\<close>

theorem stale_check_half_opens_early:
  "\<exists>n ts b. concurrent_run racy_config n ts b \<and> breaker_state b = CircuitIsOpen \<and>
     fst (circuit_check (millis 10001) b) = Err CircuitOpen \<and>
     breaker_state (snd (circuit_atomic (millis 10001) (ts 0) b)) = CircuitHalfOpen"
  by (rule exI, rule exI, rule exI, rule conjI [OF schedule_run [OF stale_schedule_result]])
    (simp add: circuit_check_def schedule_eval)

end
