(* ===== verification/Generators.thy ===== *)
theory Generators
  imports Prelude
begin

unbundle bit_operations_syntax

text \<open>
  The deterministic graph generators (\<open>gen.rs\<close>): the xorshift step, uniform graphs and
  R-MAT graphs.  The seed is threaded through as a state.
\<close>

section \<open>Definitions\<close>

text \<open>The new state, which is also what the step returns.\<close>

definition xorshift :: "u64 \<Rightarrow> u64" where
  "xorshift state =
     (let s1 = state XOR push_bit 13 state;
          s2 = s1 XOR drop_bit 7 s1
      in s2 XOR push_bit 17 s2)"

fun uniform_row :: "u64 \<Rightarrow> nat \<Rightarrow> u64 \<Rightarrow> u64 \<Rightarrow> (u64 \<times> u64) list \<times> u64" where
  "uniform_row nodes 0 src seed = ([], seed)"
| "uniform_row nodes (Suc k) src seed =
     (let seed1 = xorshift seed;
          (es, seed2) = uniform_row nodes k src seed1
      in ((src, seed1 mod nodes) # es, seed2))"

fun uniform_rows :: "u64 \<Rightarrow> nat \<Rightarrow> u64 list \<Rightarrow> u64 \<Rightarrow> (u64 \<times> u64) list" where
  "uniform_rows nodes degree [] seed = []"
| "uniform_rows nodes degree (src # srcs) seed =
     (let (es, seed') = uniform_row nodes degree src seed
      in es @ uniform_rows nodes degree srcs seed')"

text \<open>The product in \<open>with_capacity\<close> is checked even though it is only a hint.\<close>

definition uniform :: "u64 \<Rightarrow> u64 \<Rightarrow> u64 \<Rightarrow> ('e, (u64 \<times> u64) list) res" where
  "uniform nodes degree seed =
     (if unat nodes * unat degree < 2 ^ 64
      then Ok (uniform_rows nodes (unat degree) (map of_nat [0..<unat nodes]) seed)
      else Panic)"

text \<open>Graph500 probabilities in 16-bit fixed point.\<close>

definition rmat_quadrant :: "u64 \<Rightarrow> u64 \<times> u64" where
  "rmat_quadrant r =
     (if r < 37355 then (0, 0) else if r < 49807 then (0, 1)
      else if r < 62259 then (1, 0) else (1, 1))"

text \<open>The levels \<open>scale - 1\<close> down to 0 of one edge.\<close>

fun rmat_edge :: "nat \<Rightarrow> u64 \<times> u64 \<Rightarrow> u64 \<Rightarrow> (u64 \<times> u64) \<times> u64" where
  "rmat_edge 0 e seed = (e, seed)"
| "rmat_edge (Suc level) (src, dst) seed =
     (let seed' = xorshift seed;
          (src_bit, dst_bit) = rmat_quadrant (seed' AND 0xFFFF)
      in rmat_edge level (src OR push_bit level src_bit, dst OR push_bit level dst_bit) seed')"

fun rmat_edges :: "nat \<Rightarrow> nat \<Rightarrow> u64 \<Rightarrow> (u64 \<times> u64) list" where
  "rmat_edges scale 0 seed = []"
| "rmat_edges scale (Suc k) seed =
     (let (e, seed') = rmat_edge scale (0, 0) seed in e # rmat_edges scale k seed')"

definition rmat :: "u32 \<Rightarrow> usize \<Rightarrow> u64 \<Rightarrow> ('e, (u64 \<times> u64) list) res" where
  "rmat scale edge_factor seed =
     (if 64 \<le> scale then Panic
      else let nodes = push_bit (unat scale) 1 :: u64
           in case usize_of_u64 nodes of None \<Rightarrow> Panic | Some n \<Rightarrow>
                if edge_factor * n \<le> usize_max
                then Ok (rmat_edges (unat scale) (edge_factor * n) seed) else Panic)"

section \<open>The random step is a permutation\<close>

lemma word_xor_eq_0_iff: "x XOR y = 0 \<longleftrightarrow> x = (y :: 'w::len word)"
  by (auto simp: bit_eq_iff bit_xor_iff)

lemma shift_left_kernel:
  fixes x :: u64
  assumes "0 < k" "x XOR push_bit k x = 0"
  shows "x = 0"
proof -
  have e: "push_bit k x = x" using assms(2) by (simp add: word_xor_eq_0_iff)
  have "\<not> bit x n" for n
  proof (induction n rule: less_induct)
    case (less n)
    have "bit (push_bit k x) n \<Longrightarrow> k \<le> n \<and> bit x (n - k)" by (simp add: bit_push_bit_iff)
    then show ?case unfolding e using less [of "n - k"] assms(1) by auto
  qed
  then show ?thesis by (simp add: bit_eq_iff)
qed

lemma shift_right_kernel:
  fixes x :: u64
  assumes "0 < k" "x XOR drop_bit k x = 0"
  shows "x = 0"
proof -
  have e: "drop_bit k x = x" using assms(2) by (simp add: word_xor_eq_0_iff)
  have "\<not> bit x n" for n
  proof (induction "64 - n" arbitrary: n rule: less_induct)
    case less
    have step: "bit (drop_bit k x) n \<longleftrightarrow> bit x (n + k)" by (simp add: bit_drop_bit_eq add.commute)
    show ?case
    proof (cases "n < 64")
      case True
      then have "\<not> bit x (n + k)" using assms(1) by (intro less) simp
      then show ?thesis using step unfolding e by simp
    next
      case False
      then show ?thesis using bit_imp_le_length [of x n] by auto
    qed
  qed
  then show ?thesis by (simp add: bit_eq_iff)
qed

lemma inj_linear:
  fixes f :: "u64 \<Rightarrow> u64"
  assumes "\<And>x y. f (x XOR y) = f x XOR f y" "\<And>x. f x = 0 \<Longrightarrow> x = 0"
  shows "inj f"
proof (rule injI)
  fix x y assume "f x = f y"
  then have "f (x XOR y) = 0" by (simp add: assms(1))
  then have "x XOR y = 0" by (rule assms(2))
  then show "x = y" by (simp add: word_xor_eq_0_iff)
qed

lemma xor_pairs: "(a XOR b) XOR (c XOR d) = (a XOR c) XOR (b XOR d :: u64)"
  by (rule bit_word_eqI) (auto simp: bit_xor_iff)

lemma inj_shift_left:
  assumes "0 < k"
  shows "inj (\<lambda>x :: u64. x XOR push_bit k x)"
proof (rule inj_linear)
  show "(x XOR y) XOR push_bit k (x XOR y) = (x XOR push_bit k x) XOR (y XOR push_bit k y)" for x y :: u64
    unfolding push_bit_xor by (rule xor_pairs)
qed (rule shift_left_kernel [OF assms])

lemma inj_shift_right:
  assumes "0 < k"
  shows "inj (\<lambda>x :: u64. x XOR drop_bit k x)"
proof (rule inj_linear)
  show "(x XOR y) XOR drop_bit k (x XOR y) = (x XOR drop_bit k x) XOR (y XOR drop_bit k y)" for x y :: u64
    unfolding drop_bit_xor by (rule xor_pairs)
qed (rule shift_right_kernel [OF assms])

text \<open>
  the pseudo-random step loses nothing: it is a permutation of the 64-bit words, and
  since it fixes zero, a generator started from a nonzero seed never reaches the zero state
  in which it would return zeros forever.
\<close>

theorem xorshift_permutation:
  "bij xorshift \<and> (xorshift s = 0 \<longleftrightarrow> s = 0) \<and> ((xorshift ^^ n) s = 0 \<longleftrightarrow> s = 0)"
proof -
  have eq: "xorshift = (\<lambda>x. x XOR push_bit 17 x) \<circ> (\<lambda>x. x XOR drop_bit 7 x) \<circ> (\<lambda>x. x XOR push_bit 13 x)"
    by (simp add: fun_eq_iff xorshift_def Let_def)
  have inj: "inj xorshift"
    unfolding eq by (intro inj_compose inj_shift_left inj_shift_right) simp_all
  then have "bij xorshift" by (intro bijI finite_UNIV_inj_surj) simp_all
  moreover have "xorshift 0 = 0" by (simp add: xorshift_def)
  then have zero: "xorshift s = 0 \<longleftrightarrow> s = 0" for s using inj by (metis injD)
  moreover have "(xorshift ^^ n) s = 0 \<longleftrightarrow> s = 0" by (induction n) (simp_all add: zero)
  ultimately show ?thesis by blast
qed

section \<open>Shapes\<close>

lemma uniform_row_shape:
  "uniform_row nodes k src seed = (es, seed') \<Longrightarrow> 0 < nodes \<Longrightarrow>
   length es = k \<and> (\<forall>e \<in> set es. fst e = src \<and> snd e < nodes)"
proof (induction k arbitrary: seed es)
  case (Suc k)
  then show ?case
    by (fastforce simp: Let_def word_mod_less_divisor split: prod.splits)
qed simp

lemma uniform_rows_shape:
  assumes "0 < nodes" "distinct srcs"
  shows "length (uniform_rows nodes k srcs seed) = length srcs * k \<and>
    (\<forall>e \<in> set (uniform_rows nodes k srcs seed). fst e \<in> set srcs \<and> snd e < nodes) \<and>
    (\<forall>v \<in> set srcs. length (filter (\<lambda>e. fst e = v) (uniform_rows nodes k srcs seed)) = k)"
  using assms(2)
proof (induction srcs arbitrary: seed)
  case (Cons s srcs)
  obtain es seed' where r: "uniform_row nodes k s seed = (es, seed')" by fastforce
  note row = uniform_row_shape [OF r assms(1)]
  let ?rest = "uniform_rows nodes k srcs seed'"
  have rest: "length ?rest = length srcs * k" "\<forall>e \<in> set ?rest. fst e \<in> set srcs \<and> snd e < nodes"
    "\<forall>v \<in> set srcs. length (filter (\<lambda>e. fst e = v) ?rest) = k"
    using Cons by auto
  have "filter (\<lambda>e. fst e = s) es = es" "filter (\<lambda>e. fst e = s) ?rest = []"
    using row rest(2) Cons.prems by (auto simp: filter_id_conv filter_empty_conv)
  moreover have "filter (\<lambda>e. fst e = v) es = []" if "v \<in> set srcs" for v
    using row that Cons.prems by (auto simp: filter_empty_conv)
  ultimately show ?case using r row rest by auto
qed simp

lemma uniform_Ok:
  assumes "unat nodes * unat degree < 2 ^ 64"
  obtains es where "uniform nodes degree seed = (Ok es :: ('e, (u64 \<times> u64) list) res)"
    "length es = unat nodes * unat degree" "\<And>a b. (a, b) \<in> set es \<Longrightarrow> a < nodes \<and> b < nodes"
    "\<And>v. v < nodes \<Longrightarrow> length (filter (\<lambda>e. fst e = v) es) = unat degree"
proof -
  let ?srcs = "map of_nat [0..<unat nodes] :: u64 list"
  have of_nat_less: "of_nat i < nodes \<and> unat (of_nat i :: u64) = i" if "i < unat nodes" for i
  proof -
    have "i < 2 ^ 64" using that unsigned_less [of nodes, where 'a = nat] by simp
    then show ?thesis using that by (simp add: word_less_nat_alt unat_of_nat)
  qed
  have srcs: "v \<in> set ?srcs \<longleftrightarrow> v < nodes" for v
    using of_nat_less by (auto simp: word_less_nat_alt image_iff intro!: bexI [of _ "unat v"])
  have "inj_on (of_nat :: nat \<Rightarrow> u64) {0..<unat nodes}"
    by (rule inj_on_inverseI [of _ unat]) (use of_nat_less in auto)
  then have d: "distinct ?srcs" by (simp add: distinct_map)
  show thesis
  proof (cases "nodes = 0")
    case True
    then show ?thesis by (intro that [of "[]"]) (simp_all add: uniform_def)
  next
    case False
    then have "0 < nodes" by (simp add: word_gt_0)
    note shape = uniform_rows_shape [OF this d, of "unat degree" seed]
    show ?thesis
    proof (rule that [of "uniform_rows nodes (unat degree) ?srcs seed"])
      show "uniform nodes degree seed = Ok (uniform_rows nodes (unat degree) ?srcs seed)"
        using assms by (simp only: uniform_def if_True)
      show "length (uniform_rows nodes (unat degree) ?srcs seed) = unat nodes * unat degree"
        using shape by simp
      show "a < nodes \<and> b < nodes" if "(a, b) \<in> set (uniform_rows nodes (unat degree) ?srcs seed)" for a b
        using bspec [OF conjunct1 [OF conjunct2 [OF shape]] that] srcs [of a] by simp
      show "length (filter (\<lambda>e. fst e = v) (uniform_rows nodes (unat degree) ?srcs seed)) = unat degree"
        if "v < nodes" for v
        using conjunct2 [OF conjunct2 [OF shape]] that srcs [of v] by blast
    qed
  qed
qed

lemma unat_exp: "k < 64 \<Longrightarrow> unat (2 ^ k :: u64) = 2 ^ k"
proof -
  assume "k < 64"
  then have "(2 :: nat) ^ k < 2 ^ 64" by (rule power_strict_increasing) simp
  then have "unat (of_nat (2 ^ k) :: u64) = 2 ^ k" by (simp only: unat_of_nat) simp
  then show ?thesis by simp
qed

lemma less_pow_take_bit: "unat (x :: u64) < 2 ^ n \<longleftrightarrow> take_bit n x = x"
proof
  assume "unat x < 2 ^ n"
  then show "take_bit n x = x" by (simp add: word_unat_eq_iff unsigned_take_bit_eq take_bit_nat_eq_self)
next
  assume "take_bit n x = x"
  then have "unat x = take_bit n (unat x)" by (metis unsigned_take_bit_eq)
  then show "unat x < 2 ^ n" by (metis take_bit_nat_less_exp)
qed

lemma or_less_pow:
  "unat (x :: u64) < 2 ^ n \<Longrightarrow> unat y < 2 ^ n \<Longrightarrow> unat (x OR y) < 2 ^ n"
  by (simp add: less_pow_take_bit take_bit_or)

lemma quadrant_bit_less_pow:
  assumes "level < n" "rmat_quadrant r = (a, b)"
  shows "unat (push_bit level a) < 2 ^ n \<and> unat (push_bit level b) < 2 ^ n"
proof -
  have "take_bit n (push_bit level 1 :: u64) = push_bit level 1"
    using assms(1) by (intro bit_word_eqI) (auto simp: bit_take_bit_iff bit_push_bit_iff bit_exp_iff)
  moreover have "a \<in> {0, 1}" "b \<in> {0, 1}"
    using assms(2) by (auto simp: rmat_quadrant_def split: if_splits)
  ultimately show ?thesis unfolding less_pow_take_bit by auto
qed

lemma rmat_edge_shape:
  "rmat_edge level (src, dst) seed = ((a, b), seed') \<Longrightarrow> level \<le> scale \<Longrightarrow>
   unat src < 2 ^ scale \<Longrightarrow> unat dst < 2 ^ scale \<Longrightarrow> unat a < 2 ^ scale \<and> unat b < 2 ^ scale"
proof (induction level arbitrary: src dst seed)
  case (Suc level)
  obtain x y where q: "rmat_quadrant (xorshift seed AND 0xFFFF) = (x, y)" by fastforce
  from quadrant_bit_less_pow [OF _ q, of level scale] Suc.prems(2)
  have "unat (push_bit level x) < 2 ^ scale" "unat (push_bit level y) < 2 ^ scale" by simp_all
  then have "unat (src OR push_bit level x) < 2 ^ scale" "unat (dst OR push_bit level y) < 2 ^ scale"
    using Suc.prems(3,4) by (simp_all add: or_less_pow)
  then show ?case
    using Suc.IH [of "src OR push_bit level x" "dst OR push_bit level y"] Suc.prems(1,2) q
    by (simp add: Let_def)
qed simp

lemma rmat_edges_shape:
  "length (rmat_edges scale k seed) = k \<and>
   (\<forall>(a, b) \<in> set (rmat_edges scale k seed). unat a < 2 ^ scale \<and> unat b < 2 ^ scale)"
proof (induction k arbitrary: seed)
  case (Suc k)
  obtain a b seed' where e: "rmat_edge scale (0, 0) seed = ((a, b), seed')" by (metis surj_pair)
  from rmat_edge_shape [OF e order_refl] Suc [of seed'] show ?case by (simp add: e)
qed simp

text \<open>
  R-MAT generation: for a scale below 64 whose edge count is a machine word it returns
  exactly \<open>edge_factor * 2 ^ scale\<close> edges over \<open>2 ^ scale\<close> nodes; a larger scale or an
  edge count that overflows panics.
\<close>

theorem rmat_shape:
  "(if unat scale < 64 \<and> edge_factor * 2 ^ unat scale \<le> usize_max
    then \<exists>es. rmat scale edge_factor seed = Ok es \<and> length es = edge_factor * 2 ^ unat scale \<and>
      (\<forall>(a, b) \<in> set es. unat a < 2 ^ unat scale \<and> unat b < 2 ^ unat scale)
    else rmat scale edge_factor seed = Panic)"
proof (cases "unat scale < 64")
  case True
  then have n: "unat (push_bit (unat scale) 1 :: u64) = 2 ^ unat scale"
    by (simp add: push_bit_eq_mult unat_exp)
  have "usize_of_u64 (push_bit (unat scale) 1 :: u64) = Some (2 ^ unat scale)"
    using usize_of_u64_Some [of "push_bit (unat scale) 1 :: u64"] unfolding n .
  then show ?thesis
    using True rmat_edges_shape [of "unat scale" "edge_factor * 2 ^ unat scale" seed]
    by (simp add: rmat_def Let_def word_le_nat_alt)
next
  case False
  then show ?thesis by (simp add: rmat_def word_le_nat_alt)
qed

theorem rmat_shape_witness:
  "\<exists>es. rmat 2 3 88172645463325252 = Ok es \<and> length es = 12 \<and> (\<forall>(a, b) \<in> set es. unat a < 4)"
proof -
  have "unat (2 :: u32) < 64" "3 * 2 ^ unat (2 :: u32) \<le> usize_max" by (simp_all add: usize_max_def)
  with rmat_shape [of 2 3 88172645463325252] show ?thesis by fastforce
qed

text \<open>
  uniform generation: when \<open>nodes * degree\<close> is a machine word it returns exactly that many
  edges, all of whose ends are below \<open>nodes\<close>, and every node is the source of exactly
  \<open>degree\<close> of them; a larger product overflows and panics.
\<close>

theorem uniform_shape:
  "(if unat nodes * unat degree < 2 ^ 64
    then \<exists>es. uniform nodes degree seed = (Ok es :: ('e, _) res) \<and> length es = unat nodes * unat degree \<and>
      (\<forall>(a, b) \<in> set es. a < nodes \<and> b < nodes) \<and>
      (\<forall>v < nodes. length (filter (\<lambda>e. fst e = v) es) = unat degree)
    else uniform nodes degree seed = Panic)"
proof (cases "unat nodes * unat degree < 2 ^ 64")
  case True
  obtain es where es: "uniform nodes degree seed = (Ok es :: ('e, _) res)" "length es = unat nodes * unat degree"
    "\<And>a b. (a, b) \<in> set es \<Longrightarrow> a < nodes \<and> b < nodes"
    "\<And>v. v < nodes \<Longrightarrow> length (filter (\<lambda>e. fst e = v) es) = unat degree"
    by (rule uniform_Ok [OF True]) (rule that, assumption+)
  have "\<forall>(a, b) \<in> set es. a < nodes \<and> b < nodes" using es(3) by blast
  moreover have "\<forall>v < nodes. length (filter (\<lambda>e. fst e = v) es) = unat degree" using es(4) by blast
  ultimately show ?thesis using es(1,2) True by (simp only: if_True) blast
next
  case False
  then show ?thesis by (simp add: uniform_def)
qed

theorem uniform_shape_witness:
  "\<exists>es. uniform 3 2 42 = Ok es \<and> length es = 6 \<and> length (filter (\<lambda>e. fst e = 1) es) = 2"
proof -
  have "unat (3 :: u64) * unat (2 :: u64) < 2 ^ 64" "(1 :: u64) < 3" by simp_all
  with uniform_shape [of 3 2 42] show ?thesis by fastforce
qed

end
