(* ===== verification/Ontology.thy ===== *)
theory Ontology
  imports Prelude "HOL-Library.Sublist"
begin

text \<open>
  The ontology crate: schema types with the defaults that deserialisation fills in
  (\<open>schema.rs\<close>), errors (\<open>error.rs\<close>), parsing (\<open>parser.rs\<close>) and validation
  (\<open>validation.rs\<close>).  The TOML and JSON readers are third-party crates and parameters here.
\<close>

section \<open>Schema (schema.rs)\<close>

datatype id_type = IdU32 | IdU64 | IdU128 | IdString

datatype edge_direction = Directed | Undirected

datatype id_transform = Passthrough | HashU64 | HashU32 | UuidToU128 | ExtractNumeric

datatype id_column = SingleColumn string | CompositeColumns "string list" string

definition id_column_columns :: "id_column \<Rightarrow> string list" where
  "id_column_columns c = (case c of SingleColumn col \<Rightarrow> [col] | CompositeColumns cols _ \<Rightarrow> cols)"

record ontology_meta =
  om_name :: string
  om_version :: string
  om_description :: string

record ontology_settings =
  os_default_node_id_type :: id_type
  os_edge_direction :: edge_direction
  os_allow_self_loops :: bool
  os_allow_parallel_edges :: bool

record node_definition =
  nd_label :: string
  nd_source :: string
  nd_id_column :: id_column
  nd_id_transform :: id_transform
  nd_properties :: "string list"
  nd_filter :: "string option"

record edge_definition =
  ed_label :: string
  ed_source :: string
  ed_from_node :: string
  ed_from_column :: string
  ed_to_node :: string
  ed_to_column :: string
  ed_properties :: "string list"
  ed_weight_column :: "string option"
  ed_weight_default :: f64
  ed_implicit :: bool
  ed_skip_null_targets :: bool
  ed_valid_from_column :: "string option"
  ed_valid_to_column :: "string option"
  ed_partition_column :: "string option"

record computed_property =
  cp_name :: string
  cp_node :: "string option"
  cp_edge :: "string option"
  cp_expression :: string
  cp_materialized :: bool

record ontology =
  on_ontology :: ontology_meta
  on_settings :: ontology_settings
  on_nodes :: "node_definition list"
  on_edges :: "edge_definition list"
  on_properties :: "computed_property list"

definition ontology_name :: "ontology \<Rightarrow> string" where
  "ontology_name ont = om_name (on_ontology ont)"

definition ontology_version :: "ontology \<Rightarrow> string" where
  "ontology_version ont = om_version (on_ontology ont)"

definition node_labels :: "ontology \<Rightarrow> string list" where
  "node_labels ont = map nd_label (on_nodes ont)"

definition edge_labels :: "ontology \<Rightarrow> string list" where
  "edge_labels ont = map ed_label (on_edges ont)"

definition ontology_node :: "ontology \<Rightarrow> string \<Rightarrow> node_definition option" where
  "ontology_node ont l = find (\<lambda>n. nd_label n = l) (on_nodes ont)"

definition ontology_edge :: "ontology \<Rightarrow> string \<Rightarrow> edge_definition option" where
  "ontology_edge ont l = find (\<lambda>e. ed_label e = l) (on_edges ont)"

subsection \<open>Defaults\<close>

definition default_version :: string where
  "default_version = ''1.0''"

definition default_true :: bool where
  "default_true = True"

definition default_separator :: string where
  "default_separator = ''::''"

text \<open>The IEEE representation of 1.0.\<close>

definition default_weight :: f64 where
  "default_weight = 0x3FF0000000000000"

text \<open>\<open>#[derive(Default)]\<close> on \<open>OntologyMeta\<close>: every field is the empty string.\<close>

definition ontology_meta_default :: ontology_meta where
  "ontology_meta_default = \<lparr>om_name = '''', om_version = '''', om_description = ''''\<rparr>"

definition ontology_settings_default :: ontology_settings where
  "ontology_settings_default = \<lparr>os_default_node_id_type = IdU64, os_edge_direction = Directed,
     os_allow_self_loops = False, os_allow_parallel_edges = True\<rparr>"

text \<open>
  A document before its missing fields are filled in: \<open>None\<close> where the document has no such
  key.  The \<open>read\<close> functions follow the \<open>#[serde(default)]\<close> attributes.
\<close>

record meta_fields =
  mf_name :: "string option"
  mf_version :: "string option"
  mf_description :: "string option"

definition read_meta :: "meta_fields \<Rightarrow> ontology_meta" where
  "read_meta f = \<lparr>om_name = (case mf_name f of None \<Rightarrow> '''' | Some x \<Rightarrow> x),
     om_version = (case mf_version f of None \<Rightarrow> default_version | Some x \<Rightarrow> x),
     om_description = (case mf_description f of None \<Rightarrow> '''' | Some x \<Rightarrow> x)\<rparr>"

record settings_fields =
  sf_default_node_id_type :: "id_type option"
  sf_edge_direction :: "edge_direction option"
  sf_allow_self_loops :: "bool option"
  sf_allow_parallel_edges :: "bool option"

definition read_settings :: "settings_fields \<Rightarrow> ontology_settings" where
  "read_settings f =
     \<lparr>os_default_node_id_type = (case sf_default_node_id_type f of None \<Rightarrow> IdU64 | Some x \<Rightarrow> x),
      os_edge_direction = (case sf_edge_direction f of None \<Rightarrow> Directed | Some x \<Rightarrow> x),
      os_allow_self_loops = (case sf_allow_self_loops f of None \<Rightarrow> False | Some x \<Rightarrow> x),
      os_allow_parallel_edges =
        (case sf_allow_parallel_edges f of None \<Rightarrow> default_true | Some x \<Rightarrow> x)\<rparr>"

record ontology_fields =
  of_ontology :: "meta_fields option"
  of_settings :: "settings_fields option"
  of_nodes :: "node_definition list option"
  of_edges :: "edge_definition list option"
  of_properties :: "computed_property list option"

definition read_ontology :: "ontology_fields \<Rightarrow> ontology" where
  "read_ontology f =
     \<lparr>on_ontology = (case of_ontology f of None \<Rightarrow> ontology_meta_default | Some m \<Rightarrow> read_meta m),
      on_settings =
        (case of_settings f of None \<Rightarrow> ontology_settings_default | Some s \<Rightarrow> read_settings s),
      on_nodes = (case of_nodes f of None \<Rightarrow> [] | Some ns \<Rightarrow> ns),
      on_edges = (case of_edges f of None \<Rightarrow> [] | Some es \<Rightarrow> es),
      on_properties = (case of_properties f of None \<Rightarrow> [] | Some ps \<Rightarrow> ps)\<rparr>"

section \<open>Errors (error.rs)\<close>

text \<open>\<open>Io\<close> carries the text of the operating system's error.\<close>

datatype ontology_error =
    ParseError string
  | JsonError string
  | MissingField string string
  | DanglingEdge string string
  | DuplicateLabel string string
  | TypeMismatch string string string
  | InvalidComputedPropertyTarget string "string option" "string option"
  | Io string

type_synonym 'a ontology_result = "(ontology_error, 'a) res"

text \<open>\<open>{:?}\<close> on an optional string, with the escapes of \<open>str::escape_debug\<close> for ASCII.\<close>

definition debug_char :: "char \<Rightarrow> string" where
  "debug_char c =
     (let n = of_char c :: nat
      in if c = CHR 0x22 then [CHR 0x5C, CHR 0x22]
         else if c = CHR 0x5C then [CHR 0x5C, CHR 0x5C]
         else if n = 0 then [CHR 0x5C, CHR ''0'']
         else if n = 9 then [CHR 0x5C, CHR ''t'']
         else if n = 10 then [CHR 0x5C, CHR ''n'']
         else if n = 13 then [CHR 0x5C, CHR ''r'']
         else if n < 32 \<or> n = 127 then [CHR 0x5C, CHR ''u'', CHR 0x7B] @ show_hex n @ [CHR 0x7D]
         else [c])"

definition debug_opt :: "string option \<Rightarrow> string" where
  "debug_opt x = (case x of None \<Rightarrow> ''None''
     | Some s \<Rightarrow> ''Some('' @ [CHR 0x22] @ concat (map debug_char s) @ [CHR 0x22] @ '')'')"

definition quoted :: "string \<Rightarrow> string" where
  "quoted s = [CHR 0x27] @ s @ [CHR 0x27]"

fun ontology_error_display :: "ontology_error \<Rightarrow> string" where
  "ontology_error_display (ParseError message) = ''FG-ONT-E001: Parse error: '' @ message"
| "ontology_error_display (JsonError message) = ''FG-ONT-E001: JSON parse error: '' @ message"
| "ontology_error_display (MissingField field ctxt) =
     ''FG-ONT-E002: Missing required field '' @ quoted field @ '' in '' @ ctxt"
| "ontology_error_display (DanglingEdge edge node) =
     ''FG-ONT-E003: Edge '' @ quoted edge @ '' references undefined node '' @ quoted node"
| "ontology_error_display (DuplicateLabel kind l) =
     ''FG-ONT-E004: Duplicate '' @ kind @ '' label '' @ quoted l"
| "ontology_error_display (TypeMismatch transform column column_type) =
     ''FG-ONT-E005: Cannot apply '' @ quoted transform @ '' to column '' @ quoted column @
     '' of type '' @ quoted column_type"
| "ontology_error_display (InvalidComputedPropertyTarget property node edge) =
     ''FG-ONT-E007: Computed property '' @ quoted property @
     '' must target exactly one of node or edge (node='' @ debug_opt node @
     '', edge='' @ debug_opt edge @ '')''"
| "ontology_error_display (Io e) = ''IO error: '' @ e"

fun ontology_error_code :: "ontology_error \<Rightarrow> string" where
  "ontology_error_code (ParseError _) = ''FG-ONT-E001''"
| "ontology_error_code (JsonError _) = ''FG-ONT-E001''"
| "ontology_error_code (MissingField _ _) = ''FG-ONT-E002''"
| "ontology_error_code (DanglingEdge _ _) = ''FG-ONT-E003''"
| "ontology_error_code (DuplicateLabel _ _) = ''FG-ONT-E004''"
| "ontology_error_code (TypeMismatch _ _ _) = ''FG-ONT-E005''"
| "ontology_error_code (InvalidComputedPropertyTarget _ _ _) = ''FG-ONT-E007''"
| "ontology_error_code (Io _) = ''FG-ONT-E006''"

section \<open>Validation (validation.rs)\<close>

datatype validation_error_kind =
    KindDanglingEdge string string
  | KindDuplicateLabel string string
  | KindInvalidComputedPropertyTarget string "string option" "string option"

record validation_error =
  ve_code :: string
  ve_message :: string
  ve_kind :: validation_error_kind

record validation_warning =
  vw_code :: string
  vw_message :: string

record validation_result =
  vr_errors :: "validation_error list"
  vr_warnings :: "validation_warning list"

definition is_valid :: "validation_result \<Rightarrow> bool" where
  "is_valid r \<longleftrightarrow> vr_errors r = []"

definition has_warnings :: "validation_result \<Rightarrow> bool" where
  "has_warnings r \<longleftrightarrow> vr_warnings r \<noteq> []"

definition duplicate_error :: "string \<Rightarrow> string \<Rightarrow> validation_error" where
  "duplicate_error kind l =
     \<lparr>ve_code = ''FG-ONT-E004'', ve_message = ''Duplicate '' @ kind @ '' label '' @ quoted l,
      ve_kind = KindDuplicateLabel kind l\<rparr>"

text \<open>The loop with the set of the labels seen so far; it returns that set, too.\<close>

fun check_duplicates :: "string \<Rightarrow> string list \<Rightarrow> string set \<Rightarrow> validation_error list \<times> string set" where
  "check_duplicates kind [] seen = ([], seen)"
| "check_duplicates kind (l # ls) seen =
     (case check_duplicates kind ls (insert l seen) of (errs, seen') \<Rightarrow>
        (if l \<in> seen then duplicate_error kind l # errs else errs, seen'))"

definition dangling_error :: "string \<Rightarrow> string \<Rightarrow> validation_error" where
  "dangling_error edge node =
     \<lparr>ve_code = ''FG-ONT-E003'',
      ve_message = ''Edge '' @ quoted edge @ '' references undefined node '' @ quoted node,
      ve_kind = KindDanglingEdge edge node\<rparr>"

definition check_dangling :: "string set \<Rightarrow> edge_definition \<Rightarrow> validation_error list" where
  "check_dangling known e =
     (if ed_from_node e \<notin> known then [dangling_error (ed_label e) (ed_from_node e)] else []) @
     (if ed_to_node e \<notin> known then [dangling_error (ed_label e) (ed_to_node e)] else [])"

definition check_property :: "computed_property \<Rightarrow> validation_error list" where
  "check_property p =
     (if (cp_node p \<noteq> None) = (cp_edge p \<noteq> None)
      then [\<lparr>ve_code = ''FG-ONT-E007'',
             ve_message = ''Computed property '' @ quoted (cp_name p) @
               '' must target exactly one of node or edge'',
             ve_kind = KindInvalidComputedPropertyTarget (cp_name p) (cp_node p) (cp_edge p)\<rparr>]
      else [])"

definition check_partition :: "edge_definition \<Rightarrow> validation_warning list" where
  "check_partition e =
     (if ed_valid_from_column e \<noteq> None \<and> ed_partition_column e = None
      then [\<lparr>vw_code = ''FG-ONT-W002'',
             vw_message = ''Temporal edge '' @ quoted (ed_label e) @
               '' has no partition hint; full scans may occur''\<rparr>]
      else [])"

definition validate :: "ontology \<Rightarrow> validation_result" where
  "validate ont =
     (let (node_errs, known) = check_duplicates ''node'' (map nd_label (on_nodes ont)) {};
          (edge_errs, _) = check_duplicates ''edge'' (map ed_label (on_edges ont)) {}
      in \<lparr>vr_errors = node_errs @ edge_errs @
            concat (map (check_dangling known) (on_edges ont)) @
            concat (map check_property (on_properties ont)),
          vr_warnings = concat (map check_partition (on_edges ont))\<rparr>)"

fun error_of_kind :: "validation_error_kind \<Rightarrow> ontology_error" where
  "error_of_kind (KindDanglingEdge edge node) = DanglingEdge edge node"
| "error_of_kind (KindDuplicateLabel kind l) = DuplicateLabel kind l"
| "error_of_kind (KindInvalidComputedPropertyTarget property node edge) =
     InvalidComputedPropertyTarget property node edge"

definition validate_or_error :: "ontology \<Rightarrow> unit ontology_result" where
  "validate_or_error ont =
     (case vr_errors (validate ont) of [] \<Rightarrow> Ok () | err # _ \<Rightarrow> Err (error_of_kind (ve_kind err)))"

section \<open>Parsing (parser.rs)\<close>

text \<open>
  The readers of the crates \<open>toml\<close> and \<open>serde_json\<close> give a document or the text of their
  error; reading a file gives its contents or the text of the operating system's error.
\<close>

type_synonym reader = "string \<Rightarrow> (string, ontology) res"

definition parse_toml :: "reader \<Rightarrow> string \<Rightarrow> ontology ontology_result" where
  "parse_toml toml_from_str content = (case toml_from_str content of
     Ok ont \<Rightarrow> Ok ont | Err e \<Rightarrow> Err (ParseError e) | Panic \<Rightarrow> Panic)"

definition parse_json :: "reader \<Rightarrow> string \<Rightarrow> ontology ontology_result" where
  "parse_json json_from_str content = (case json_from_str content of
     Ok ont \<Rightarrow> Ok ont | Err e \<Rightarrow> Err (JsonError e) | Panic \<Rightarrow> Panic)"

text \<open>
  \<open>Path::extension\<close>: of the last component, what follows its last dot, unless the dot is
  its first character; a component \<open>..\<close> has no name, \<open>.\<close> components do not count.
\<close>

fun split_on :: "char \<Rightarrow> string \<Rightarrow> string list" where
  "split_on c [] = [[]]"
| "split_on c (x # xs) =
     (if x = c then [] # split_on c xs
      else (case split_on c xs of [] \<Rightarrow> [[x]] | s # ss \<Rightarrow> (x # s) # ss))"

definition path_file_name :: "string \<Rightarrow> string option" where
  "path_file_name path =
     (case rev (filter (\<lambda>s. s \<noteq> [] \<and> s \<noteq> ''.'') (split_on (CHR ''/'') path)) of
        [] \<Rightarrow> None | s # _ \<Rightarrow> if s = ''..'' then None else Some s)"

definition path_extension :: "string \<Rightarrow> string option" where
  "path_extension path =
     (case path_file_name path of None \<Rightarrow> None | Some name \<Rightarrow>
        let after = takeWhile (\<lambda>c. c \<noteq> CHR ''.'') (rev name);
            before = drop (length after + 1) (rev name)
        in if length after = length name \<or> before = [] then None else Some (rev after))"

definition parse_file ::
  "reader \<Rightarrow> reader \<Rightarrow> (string \<Rightarrow> (string, string) res) \<Rightarrow> string \<Rightarrow> ontology ontology_result" where
  "parse_file toml_from_str json_from_str read_to_string path =
     (case read_to_string path of
        Err e \<Rightarrow> Err (Io e)
      | Panic \<Rightarrow> Panic
      | Ok content \<Rightarrow>
          if path_extension path = Some ''toml'' then parse_toml toml_from_str content
          else if path_extension path = Some ''json'' then parse_json json_from_str content
          else (case parse_toml toml_from_str content of
                  Ok ont \<Rightarrow> Ok ont
                | Err _ \<Rightarrow> parse_json json_from_str content
                | Panic \<Rightarrow> Panic))"

definition ontology_from_toml :: "reader \<Rightarrow> string \<Rightarrow> ontology ontology_result" where
  "ontology_from_toml toml_from_str content = parse_toml toml_from_str content"

definition ontology_from_json :: "reader \<Rightarrow> string \<Rightarrow> ontology ontology_result" where
  "ontology_from_json json_from_str content = parse_json json_from_str content"

definition ontology_from_file ::
  "reader \<Rightarrow> reader \<Rightarrow> (string \<Rightarrow> (string, string) res) \<Rightarrow> string \<Rightarrow> ontology ontology_result" where
  "ontology_from_file toml_from_str json_from_str read_to_string path =
     parse_file toml_from_str json_from_str read_to_string path"

section \<open>Duplicates\<close>

lemma check_duplicates_seen: "snd (check_duplicates kind ls seen) = seen \<union> set ls"
proof (induction ls arbitrary: seen)
  case (Cons l ls)
  then show ?case using Cons [of "insert l seen"]
    by (cases "check_duplicates kind ls (insert l seen)") auto
qed simp

text \<open>The repeated labels, in order: those that occur earlier in the list.\<close>

definition repeated :: "string list \<Rightarrow> string list" where
  "repeated ls = map (\<lambda>i. ls ! i) (filter (\<lambda>i. ls ! i \<in> set (take i ls)) [0..<length ls])"

lemma check_duplicates_errors:
  "fst (check_duplicates kind ls seen) =
     map (\<lambda>i. duplicate_error kind (ls ! i))
       (filter (\<lambda>i. ls ! i \<in> seen \<or> ls ! i \<in> set (take i ls)) [0..<length ls])"
proof (induction ls arbitrary: seen)
  case (Cons l ls)
  have upt: "[0..<length (l # ls)] = 0 # map Suc [0..<length ls]"
    by (simp add: upt_conv_Cons map_Suc_upt del: upt_Suc)
  have cong: "filter (\<lambda>i. ls ! i \<in> insert l seen \<or> ls ! i \<in> set (take i ls)) [0..<length ls] =
      filter (\<lambda>i. ls ! i \<in> seen \<or> ls ! i = l \<or> ls ! i \<in> set (take i ls)) [0..<length ls]"
    by (rule filter_cong) auto
  show ?case
    using Cons [of "insert l seen"] unfolding upt cong
    by (cases "check_duplicates kind ls (insert l seen)") (simp add: filter_map comp_def del: upt_Suc)
qed simp

lemma check_duplicates_repeated:
  "fst (check_duplicates kind ls {}) = map (duplicate_error kind) (repeated ls)"
  by (simp add: check_duplicates_errors repeated_def comp_def)

lemma repeated_Nil_iff: "repeated ls = [] \<longleftrightarrow> distinct ls"
proof -
  have "repeated ls = [] \<longleftrightarrow> (\<forall>i < length ls. ls ! i \<notin> set (take i ls))"
    by (auto simp: repeated_def filter_empty_conv)
  also have "\<dots> \<longleftrightarrow> distinct ls"
    by (auto simp: distinct_conv_nth in_set_conv_nth) (metis nat_neq_iff)+
  finally show ?thesis .
qed

lemma validate_eq:
  "validate ont =
     \<lparr>vr_errors = map (duplicate_error ''node'') (repeated (node_labels ont)) @
        map (duplicate_error ''edge'') (repeated (edge_labels ont)) @
        concat (map (check_dangling (set (node_labels ont))) (on_edges ont)) @
        concat (map check_property (on_properties ont)),
      vr_warnings = concat (map check_partition (on_edges ont))\<rparr>"
proof -
  have c: "check_duplicates kind ls {} = (map (duplicate_error kind) (repeated ls), set ls)" for kind ls
    using check_duplicates_repeated [of kind ls] check_duplicates_seen [of kind ls "{}"]
    by (cases "check_duplicates kind ls {}") simp
  show ?thesis by (simp add: validate_def c node_labels_def edge_labels_def)
qed

section \<open>Properties\<close>

definition well_formed_ontology :: "ontology \<Rightarrow> bool" where
  "well_formed_ontology ont \<longleftrightarrow>
     distinct (node_labels ont) \<and> distinct (edge_labels ont) \<and>
     (\<forall>e \<in> set (on_edges ont). ed_from_node e \<in> set (node_labels ont) \<and>
        ed_to_node e \<in> set (node_labels ont)) \<and>
     (\<forall>p \<in> set (on_properties ont). (cp_node p = None) \<noteq> (cp_edge p = None))"

lemma check_dangling_Nil:
  "check_dangling known e = [] \<longleftrightarrow> ed_from_node e \<in> known \<and> ed_to_node e \<in> known"
  by (simp add: check_dangling_def)

lemma check_property_Nil: "check_property p = [] \<longleftrightarrow> (cp_node p = None) \<noteq> (cp_edge p = None)"
  by (cases "cp_node p"; cases "cp_edge p") (simp_all add: check_property_def)

lemma check_property_kinds:
  "map ve_kind (check_property p) =
     (if (cp_node p = None) = (cp_edge p = None)
      then [KindInvalidComputedPropertyTarget (cp_name p) (cp_node p) (cp_edge p)] else [])"
  by (cases "cp_node p"; cases "cp_edge p") (simp_all add: check_property_def)

lemma check_partition_Nil:
  "check_partition e = [] \<longleftrightarrow> ed_valid_from_column e = None \<or> ed_partition_column e \<noteq> None"
  by (auto simp: check_partition_def)

lemma is_valid_iff: "is_valid (validate ont) \<longleftrightarrow> well_formed_ontology ont"
  by (simp add: is_valid_def validate_eq repeated_Nil_iff well_formed_ontology_def
      check_dangling_Nil check_property_Nil)

text \<open>
  Validation looks at the ontology alone: nothing but dangling edges, repeated labels and the targets
  of computed properties is ever reported, and the only warning is the missing partition hint.  The
  rules of the ontology documentation that need the catalog (missing tables and columns, the types
  of identifier columns, the number of rows) and the one on cycles of implicit edges are not
  checked here.
\<close>

theorem validation_codes:
  "ve_code ` set (vr_errors (validate ont)) \<subseteq> {''FG-ONT-E003'', ''FG-ONT-E004'', ''FG-ONT-E007''} \<and>
   vw_code ` set (vr_warnings (validate ont)) \<subseteq> {''FG-ONT-W002''}"
  by (auto simp: validate_eq duplicate_error_def dangling_error_def check_dangling_def check_property_def
      check_partition_def split: if_splits)

text \<open>
  C37: the checks of \<open>validate\<close> are complete: of the three rules it enforces, which concern the
  ontology alone, none is violated exactly when it reports no error: the node labels and the edge
  labels are each distinct, every edge ends at declared nodes and every computed property targets
  exactly one of node and edge; \<open>validate_or_error\<close> accepts exactly the ontologies without a
  reported error; and there is a warning exactly when a temporal edge has no partition column,
  which never blocks.  Whether tables and columns exist and have suitable types is not among its
  rules, although the documentation lists it.
\<close>

theorem validate_complete:
  "(is_valid (validate ont) \<longleftrightarrow>
      distinct (node_labels ont) \<and> distinct (edge_labels ont) \<and>
      (\<forall>e \<in> set (on_edges ont). ed_from_node e \<in> set (node_labels ont) \<and>
         ed_to_node e \<in> set (node_labels ont)) \<and>
      (\<forall>p \<in> set (on_properties ont). (cp_node p = None) \<noteq> (cp_edge p = None))) \<and>
   (validate_or_error ont = Ok () \<longleftrightarrow> is_valid (validate ont)) \<and>
   (has_warnings (validate ont) \<longleftrightarrow>
      (\<exists>e \<in> set (on_edges ont). ed_valid_from_column e \<noteq> None \<and> ed_partition_column e = None))"
proof -
  have "validate_or_error ont = Ok () \<longleftrightarrow> is_valid (validate ont)"
    by (simp add: validate_or_error_def is_valid_def split: list.split)
  moreover have "has_warnings (validate ont) \<longleftrightarrow>
      (\<exists>e \<in> set (on_edges ont). ed_valid_from_column e \<noteq> None \<and> ed_partition_column e = None)"
    by (auto simp: has_warnings_def validate_eq check_partition_Nil)
  ultimately show ?thesis by (simp add: is_valid_iff well_formed_ontology_def)
qed

text \<open>Two nodes and an edge; and the same with a temporal edge to a missing node.\<close>

definition example_node :: "string \<Rightarrow> node_definition" where
  "example_node l = \<lparr>nd_label = l, nd_source = ''t'', nd_id_column = SingleColumn ''id'',
     nd_id_transform = Passthrough, nd_properties = [], nd_filter = None\<rparr>"

definition example_edge :: "string \<Rightarrow> string option \<Rightarrow> edge_definition" where
  "example_edge to valid_from = \<lparr>ed_label = ''E'', ed_source = ''t'', ed_from_node = ''A'',
     ed_from_column = ''a'', ed_to_node = to, ed_to_column = ''b'', ed_properties = [],
     ed_weight_column = None, ed_weight_default = default_weight, ed_implicit = False,
     ed_skip_null_targets = default_true, ed_valid_from_column = valid_from,
     ed_valid_to_column = None, ed_partition_column = None\<rparr>"

definition example_ontology :: "string \<Rightarrow> string option \<Rightarrow> ontology" where
  "example_ontology to valid_from = \<lparr>on_ontology = ontology_meta_default,
     on_settings = ontology_settings_default, on_nodes = [example_node ''A'', example_node ''B''],
     on_edges = [example_edge to valid_from], on_properties = []\<rparr>"

theorem validate_complete_witness:
  "is_valid (validate (example_ontology ''B'' None)) \<and>
   validate_or_error (example_ontology ''B'' None) = Ok () \<and>
   \<not> is_valid (validate (example_ontology ''C'' None)) \<and>
   has_warnings (validate (example_ontology ''B'' (Some ''t'')))"
  using validate_complete [of "example_ontology ''B'' None"] validate_complete [of "example_ontology ''C'' None"]
    validate_complete [of "example_ontology ''B'' (Some ''t'')"]
  by (simp add: example_ontology_def node_labels_def edge_labels_def example_node_def example_edge_def)

lemma find_map_of:
  "k \<in> set (map f xs) \<Longrightarrow> \<exists>x \<in> set xs. find (\<lambda>x. f x = k) xs = Some x \<and> f x = k"
  by (induction xs) auto

lemma find_distinct:
  "distinct (map f xs) \<Longrightarrow> x \<in> set xs \<Longrightarrow> find (\<lambda>y. f y = f x) xs = Some x"
  by (induction xs) auto

text \<open>
  lookups on an accepted ontology never fail: the nodes an edge names are found under
  their labels, and looking up the label of a declared node or edge gives that declaration.
\<close>

theorem valid_ontology_lookups:
  assumes "validate_or_error ont = Ok ()"
  shows "(e \<in> set (on_edges ont) \<longrightarrow> ontology_edge ont (ed_label e) = Some e \<and>
      (\<exists>a \<in> set (on_nodes ont). ontology_node ont (ed_from_node e) = Some a \<and> nd_label a = ed_from_node e) \<and>
      (\<exists>b \<in> set (on_nodes ont). ontology_node ont (ed_to_node e) = Some b \<and> nd_label b = ed_to_node e)) \<and>
    (n \<in> set (on_nodes ont) \<longrightarrow> ontology_node ont (nd_label n) = Some n)"
proof -
  have "is_valid (validate ont)"
    using assms by (simp add: validate_or_error_def is_valid_def split: list.splits)
  then have wf: "well_formed_ontology ont" by (simp add: is_valid_iff)
  then have d: "distinct (map nd_label (on_nodes ont))" "distinct (map ed_label (on_edges ont))"
    by (simp_all add: well_formed_ontology_def node_labels_def edge_labels_def)
  have "ed_from_node e \<in> set (map nd_label (on_nodes ont))" "ed_to_node e \<in> set (map nd_label (on_nodes ont))"
    if "e \<in> set (on_edges ont)"
    using wf that by (simp_all add: well_formed_ontology_def node_labels_def)
  from find_map_of [OF this(1)] find_map_of [OF this(2)] find_distinct [OF d(1), of n]
    find_distinct [OF d(2), of e]
  show ?thesis unfolding ontology_node_def ontology_edge_def by simp
qed

theorem valid_ontology_lookups_witness:
  "ontology_edge (example_ontology ''B'' None) ''E'' = Some (example_edge ''B'' None) \<and>
   ontology_node (example_ontology ''B'' None) ''B'' = Some (example_node ''B'')"
proof -
  have "validate_or_error (example_ontology ''B'' None) = Ok ()"
    by (simp add: validate_or_error_def validate_def example_ontology_def example_node_def
        example_edge_def check_dangling_def)
  from valid_ontology_lookups [OF this, of "example_edge ''B'' None" "example_node ''B''"]
  show ?thesis by (simp add: example_ontology_def example_node_def example_edge_def)
qed

text \<open>The kinds of error, and what conversion to \<open>OntologyError\<close> preserves.\<close>

lemma validate_codes:
  assumes "err \<in> set (vr_errors (validate ont))"
  shows "ontology_error_code (error_of_kind (ve_kind err)) = ve_code err \<and>
    prefix (ve_code err @ '': '' @ ve_message err) (ontology_error_display (error_of_kind (ve_kind err)))"
proof -
  consider l where "err = duplicate_error ''node'' l" | l where "err = duplicate_error ''edge'' l"
    | a b where "err = dangling_error a b" | p where "err \<in> set (check_property p)"
    using assms by (force simp: validate_eq check_dangling_def split: if_splits)
  then show ?thesis
  proof cases
    case (4 p)
    then show ?thesis by (simp add: check_property_def split: if_splits)
  qed (simp_all add: duplicate_error_def dangling_error_def)
qed

text \<open>
  the error reported for a rejected ontology is the first validation error, without
  loss: its code is the code of that error and its text begins with that code and message;
  and errors come in a fixed order: repeated node labels first (the second and every later
  use of a label, in order), then repeated edge labels, dangling references (source before
  target), and computed properties.
\<close>

theorem validate_or_error_first:
  "(case vr_errors (validate ont) of
      [] \<Rightarrow> validate_or_error ont = Ok ()
    | err # _ \<Rightarrow> \<exists>x. validate_or_error ont = Err x \<and> ontology_error_code x = ve_code err \<and>
        prefix (ve_code err @ '': '' @ ve_message err) (ontology_error_display x)) \<and>
   map ve_kind (vr_errors (validate ont)) =
     map (KindDuplicateLabel ''node'') (repeated (node_labels ont)) @
     map (KindDuplicateLabel ''edge'') (repeated (edge_labels ont)) @
     concat (map (\<lambda>e.
       map (KindDanglingEdge (ed_label e))
         (filter (\<lambda>n. n \<notin> set (node_labels ont)) [ed_from_node e, ed_to_node e])) (on_edges ont)) @
     map (\<lambda>p. KindInvalidComputedPropertyTarget (cp_name p) (cp_node p) (cp_edge p))
       (filter (\<lambda>p. (cp_node p = None) = (cp_edge p = None)) (on_properties ont))"
proof -
  have "map ve_kind (check_dangling known e) =
      map (KindDanglingEdge (ed_label e)) (filter (\<lambda>n. n \<notin> known) [ed_from_node e, ed_to_node e])"
    for known e by (simp add: check_dangling_def dangling_error_def)
  moreover have "map ve_kind (concat (map check_property ps)) =
      map (\<lambda>p. KindInvalidComputedPropertyTarget (cp_name p) (cp_node p) (cp_edge p))
        (filter (\<lambda>p. (cp_node p = None) = (cp_edge p = None)) ps)" for ps
    by (induction ps) (simp_all add: check_property_kinds)
  ultimately have kinds: "map ve_kind (vr_errors (validate ont)) =
     map (KindDuplicateLabel ''node'') (repeated (node_labels ont)) @
     map (KindDuplicateLabel ''edge'') (repeated (edge_labels ont)) @
     concat (map (\<lambda>e.
       map (KindDanglingEdge (ed_label e))
         (filter (\<lambda>n. n \<notin> set (node_labels ont)) [ed_from_node e, ed_to_node e])) (on_edges ont)) @
     map (\<lambda>p. KindInvalidComputedPropertyTarget (cp_name p) (cp_node p) (cp_edge p))
       (filter (\<lambda>p. (cp_node p = None) = (cp_edge p = None)) (on_properties ont))"
    by (simp add: validate_eq map_concat comp_def duplicate_error_def)
  show ?thesis
  proof (cases "vr_errors (validate ont)")
    case Nil
    then show ?thesis using kinds by (simp add: validate_or_error_def)
  next
    case (Cons err errs)
    then show ?thesis using kinds validate_codes [of err ont] by (simp add: validate_or_error_def)
  qed
qed

section \<open>Parsing\<close>

text \<open>
  a file is read in the format its extension names and in no other; a file with another
  extension, or with none, is read as TOML, and only if that fails as JSON, whose error is
  then the one reported; an unreadable file is an input/output error.
\<close>

theorem parse_file_formats:
  "parse_file toml json (\<lambda>_. Ok content) ''conf/schema.toml'' = parse_toml toml content \<and>
   parse_file toml json (\<lambda>_. Ok content) ''conf.d/schema.json'' = parse_json json content \<and>
   (\<exists>r. parse_file toml json (\<lambda>_. Ok content) ''schema.toml/.json'' = r \<and>
      (case toml content of
         Ok ont \<Rightarrow> r = Ok ont
       | Err _ \<Rightarrow> r = parse_json json content
       | Panic \<Rightarrow> r = Panic)) \<and>
   parse_file toml json (\<lambda>_. Err e) path = Err (Io e)"
proof -
  have ext: "path_extension ''conf/schema.toml'' = Some ''toml''"
    "path_extension ''conf.d/schema.json'' = Some ''json''"
    "path_extension ''schema.toml/.json'' = None"
    by (simp_all add: path_extension_def path_file_name_def Let_def)
  show ?thesis
    by (simp add: parse_file_def ext) (simp add: parse_toml_def split: res.split)
qed

text \<open>
  the default version depends on how little the document says: with an
  \<open>[ontology]\<close> table that has no version the version is 1.0, without the table it is the
  empty string; all other omitted settings come out the same either way.
\<close>

theorem omitted_version_differs:
  "ontology_version (read_ontology (f\<lparr>of_ontology := None\<rparr>)) = '''' \<and>
   ontology_version (read_ontology (f\<lparr>of_ontology := Some \<lparr>mf_name = n, mf_version = None,
     mf_description = d\<rparr>\<rparr>)) = ''1.0'' \<and>
   on_settings (read_ontology (f\<lparr>of_settings := None\<rparr>)) =
   on_settings (read_ontology (f\<lparr>of_settings := Some \<lparr>sf_default_node_id_type = None,
     sf_edge_direction = None, sf_allow_self_loops = None, sf_allow_parallel_edges = None\<rparr>\<rparr>))"
  by (simp add: read_ontology_def ontology_version_def ontology_meta_default_def read_meta_def
      default_version_def read_settings_def ontology_settings_default_def default_true_def)

end
