(* ===== verification/Arrow.thy ===== *)
theory Arrow
  imports Errors Ontology
begin

text \<open>
  What the query crate uses of the columnar library: schemas, arrays of nullable values and
  record batches, as data; the two library functions the code calls on them are parameters
  whose documented behaviour is \<open>arrow_laws\<close>.  The errors of the query engine, and those of
  the crate itself (\<open>error.rs\<close> of \<open>fusiongraph-datafusion\<close>).
\<close>

section \<open>Schemas, arrays and batches\<close>

datatype data_type =
    DtUInt32
  | DtUInt64
  | DtUtf8
  | DtFloat32
  | DtFloat64
  | DtFixedSizeBinary nat
  | DtList string data_type bool
  | DtOther string

record field =
  field_name :: string
  field_type :: data_type
  field_nullable :: bool

type_synonym schema = "field list"

definition field_new :: "string \<Rightarrow> data_type \<Rightarrow> bool \<Rightarrow> field" where
  "field_new n t nullable = \<lparr>field_name = n, field_type = t, field_nullable = nullable\<rparr>"

text \<open>An array by its element type; \<open>None\<close> is a null.  Of a type the code never reads, an
  array keeps which of its entries are values.\<close>

datatype arrow_array =
    UInt64Array "u64 option list"
  | UInt32Array "u32 option list"
  | StringArray "string option list"
  | Float32Array "f32 option list"
  | UInt64ListArray "u64 list option list"
  | OtherArray data_type "bool list"

fun array_length :: "arrow_array \<Rightarrow> usize" where
  "array_length (UInt64Array xs) = length xs"
| "array_length (UInt32Array xs) = length xs"
| "array_length (StringArray xs) = length xs"
| "array_length (Float32Array xs) = length xs"
| "array_length (UInt64ListArray xs) = length xs"
| "array_length (OtherArray _ vs) = length vs"

fun array_type :: "arrow_array \<Rightarrow> data_type" where
  "array_type (UInt64Array _) = DtUInt64"
| "array_type (UInt32Array _) = DtUInt32"
| "array_type (StringArray _) = DtUtf8"
| "array_type (Float32Array _) = DtFloat32"
| "array_type (UInt64ListArray _) = DtList ''item'' DtUInt64 False"
| "array_type (OtherArray t _) = t"

fun array_null_free :: "arrow_array \<Rightarrow> bool" where
  "array_null_free (UInt64Array xs) \<longleftrightarrow> None \<notin> set xs"
| "array_null_free (UInt32Array xs) \<longleftrightarrow> None \<notin> set xs"
| "array_null_free (StringArray xs) \<longleftrightarrow> None \<notin> set xs"
| "array_null_free (Float32Array xs) \<longleftrightarrow> None \<notin> set xs"
| "array_null_free (UInt64ListArray xs) \<longleftrightarrow> None \<notin> set xs"
| "array_null_free (OtherArray _ vs) \<longleftrightarrow> False \<notin> set vs"

text \<open>\<open>as_any().downcast_ref::<T>()\<close>\<close>

fun as_uint64 :: "arrow_array \<Rightarrow> u64 option list option" where
  "as_uint64 (UInt64Array xs) = Some xs"
| "as_uint64 _ = None"

fun as_strings :: "arrow_array \<Rightarrow> string option list option" where
  "as_strings (StringArray xs) = Some xs"
| "as_strings _ = None"

fun as_float32 :: "arrow_array \<Rightarrow> f32 option list option" where
  "as_float32 (Float32Array xs) = Some xs"
| "as_float32 _ = None"

record record_batch =
  batch_schema :: schema
  batch_columns :: "arrow_array list"
  batch_rows :: usize

text \<open>What \<open>try_new\<close> asks of its arguments.\<close>

definition batch_fits :: "schema \<Rightarrow> arrow_array list \<Rightarrow> bool" where
  "batch_fits s cols \<longleftrightarrow> cols \<noteq> [] \<and>
     list_all2 (\<lambda>f c. array_type c = field_type f \<and> (field_nullable f \<or> array_null_free c)) s cols \<and>
     (\<forall>c \<in> set cols. array_length c = array_length (hd cols))"

text \<open>
  The library: \<open>RecordBatch::try_new\<close> and \<open>Schema::index_of\<close>.  The error carries its text.
\<close>

record arrow =
  aw_try_new :: "schema \<Rightarrow> arrow_array list \<Rightarrow> (string, record_batch) res"
  aw_index_of :: "schema \<Rightarrow> string \<Rightarrow> usize option"

definition arrow_laws :: "arrow \<Rightarrow> bool" where
  "arrow_laws A \<longleftrightarrow>
     (\<forall>s cols. batch_fits s cols \<longrightarrow>
        aw_try_new A s cols =
          Ok \<lparr>batch_schema = s, batch_columns = cols, batch_rows = array_length (hd cols)\<rparr>) \<and>
     (\<forall>s n. case aw_index_of A s n of
        None \<Rightarrow> n \<notin> field_name ` set s
      | Some i \<Rightarrow> i < length s \<and> field_name (s ! i) = n)"

lemma try_new_fits:
  "arrow_laws A \<Longrightarrow> batch_fits s cols \<Longrightarrow>
   aw_try_new A s cols =
     Ok \<lparr>batch_schema = s, batch_columns = cols, batch_rows = array_length (hd cols)\<rparr>"
  by (simp add: arrow_laws_def)

lemma index_of_None: "arrow_laws A \<Longrightarrow> aw_index_of A s n = None \<longleftrightarrow> n \<notin> field_name ` set s"
  unfolding arrow_laws_def
  by (drule conjunct2, drule spec [of _ s], drule spec [of _ n]) (force split: option.splits)

lemma index_of_Some:
  "arrow_laws A \<Longrightarrow> aw_index_of A s n = Some i \<Longrightarrow> i < length s \<and> field_name (s ! i) = n"
  unfolding arrow_laws_def
  by (drule conjunct2, drule spec [of _ s], drule spec [of _ n]) simp

text \<open>A library that meets the laws.\<close>

definition list_arrow :: arrow where
  "list_arrow =
     \<lparr>aw_try_new = (\<lambda>s cols. if batch_fits s cols
        then Ok \<lparr>batch_schema = s, batch_columns = cols, batch_rows = array_length (hd cols)\<rparr>
        else Err ''invalid batch''),
      aw_index_of = (\<lambda>s n. let i = length (takeWhile (\<lambda>f. field_name f \<noteq> n) s)
        in if i < length s then Some i else None)\<rparr>"

lemma list_arrow_laws: "arrow_laws list_arrow"
proof -
  have "case aw_index_of list_arrow s n of None \<Rightarrow> n \<notin> field_name ` set s
      | Some i \<Rightarrow> i < length s \<and> field_name (s ! i) = n" for s n
  proof (cases "length (takeWhile (\<lambda>f. field_name f \<noteq> n) s) < length s")
    case True
    from nth_length_takeWhile [OF this] True show ?thesis by (simp add: list_arrow_def Let_def)
  next
    case False
    then have "takeWhile (\<lambda>f. field_name f \<noteq> n) s = s"
      by (metis length_takeWhile_le nless_le takeWhile_eq_take take_all)
    then have "\<forall>f \<in> set s. field_name f \<noteq> n" by (simp only: takeWhile_eq_all_conv)
    with False show ?thesis by (auto simp: list_arrow_def Let_def)
  qed
  then show ?thesis by (simp add: arrow_laws_def list_arrow_def)
qed

section \<open>Errors\<close>

text \<open>
  The errors of the query engine that the code makes or passes on.  An \<open>External\<close> error boxes an
  error of the graph library, or one of the Iceberg library, of which the text is kept.
\<close>

datatype df_error =
    DfExecution string
  | DfPlan string
  | DfNotImplemented string
  | DfArrow string
  | DfExternal graph_error
  | DfExternalIceberg string
  | DfContext string df_error
  | DfOther string

type_synonym 'a df_result = "(df_error, 'a) res"

fun map_err :: "('e \<Rightarrow> 'f) \<Rightarrow> ('e, 'a) res \<Rightarrow> ('f, 'a) res" where
  "map_err f (Ok x) = Ok x"
| "map_err f (Err e) = Err (f e)"
| "map_err f Panic = Panic"

lemma map_err_Ok_iff [simp]: "map_err f m = Ok x \<longleftrightarrow> m = Ok x"
  by (cases m) simp_all

datatype query_error =
    QeGraph graph_error
  | QeOntology ontology_error
  | QeDataFusion df_error
  | QeArrow string
  | PlanGenerationFailed string
  | NotImplementedYet string
  | ExecutionFailed string string

type_synonym 'a query_result = "(query_error, 'a) res"

text \<open>The display text, given that of the engine's errors.\<close>

fun query_error_display :: "(df_error \<Rightarrow> string) \<Rightarrow> query_error \<Rightarrow> string" where
  "query_error_display df (QeGraph e) = ''Graph error: '' @ error_display e"
| "query_error_display df (QeOntology e) = ''Ontology error: '' @ ontology_error_display e"
| "query_error_display df (QeDataFusion e) = ''DataFusion error: '' @ df e"
| "query_error_display df (QeArrow e) = ''Arrow error: '' @ e"
| "query_error_display df (PlanGenerationFailed reason) =
     ''FG-DFN-E001: Failed to generate execution plan: '' @ reason"
| "query_error_display df (NotImplementedYet what) = ''FG-DFN-E003: Not implemented: '' @ what"
| "query_error_display df (ExecutionFailed operator reason) =
     ''FG-DFN-E002: Execution failed in '' @ operator @ '': '' @ reason"

end
