(* ===== verification/Dictionary.thy ===== *)
theory Dictionary
  imports Arrow
begin

text \<open>
  The node-key dictionary (\<open>dictionary.rs\<close>): string keys to dense identifiers and back.
  The hash map is a map; the vector of keys is a list.
\<close>

section \<open>State and operations\<close>

record node_dictionary =
  to_id :: "string \<rightharpoonup> u64"
  dict_keys :: "string list"

definition dictionary_new :: node_dictionary where
  "dictionary_new = \<lparr>to_id = Map.empty, dict_keys = []\<rparr>"

definition get_or_insert :: "string \<Rightarrow> node_dictionary \<Rightarrow> u64 \<times> node_dictionary" where
  "get_or_insert key d =
     (case to_id d key of
        Some i \<Rightarrow> (i, d)
      | None \<Rightarrow>
          (let i = of_nat (length (dict_keys d))
           in (i, d\<lparr>to_id := (to_id d)(key \<mapsto> i), dict_keys := dict_keys d @ [key]\<rparr>)))"

definition id_of :: "node_dictionary \<Rightarrow> string \<Rightarrow> u64 option" where
  "id_of d key = to_id d key"

definition key_of :: "node_dictionary \<Rightarrow> u64 \<Rightarrow> string option" where
  "key_of d i = (case usize_of_u64 i of None \<Rightarrow> None | Some n \<Rightarrow> get_vec (dict_keys d) n)"

definition dictionary_len :: "node_dictionary \<Rightarrow> usize" where
  "dictionary_len d = length (dict_keys d)"

definition dictionary_is_empty :: "node_dictionary \<Rightarrow> bool" where
  "dictionary_is_empty d \<longleftrightarrow> dict_keys d = []"

definition dictionary_schema :: schema where
  "dictionary_schema = [field_new ''node_id'' DtUInt64 False, field_new ''node_key'' DtUtf8 False]"

definition to_batch :: "arrow \<Rightarrow> node_dictionary \<Rightarrow> (string, record_batch) res" where
  "to_batch A d =
     aw_try_new A dictionary_schema
       [UInt64Array (map (\<lambda>n. Some (of_nat n)) [0..<length (dict_keys d)]),
        StringArray (map Some (dict_keys d))]"

text \<open>Interning a sequence of keys, as the loader does row by row.\<close>

fun intern_all :: "string list \<Rightarrow> node_dictionary \<Rightarrow> u64 list \<times> node_dictionary" where
  "intern_all [] d = ([], d)"
| "intern_all (k # ks) d =
     (let (i, d') = get_or_insert k d; (ids, d'') = intern_all ks d' in (i # ids, d''))"

section \<open>The invariant\<close>

text \<open>Distinct keys, each mapped to its position; every position is a 64-bit word.\<close>

definition wf_dictionary :: "node_dictionary \<Rightarrow> bool" where
  "wf_dictionary d \<longleftrightarrow> distinct (dict_keys d) \<and> length (dict_keys d) < 2 ^ 64 \<and>
     (\<forall>k i. to_id d k = Some i \<longleftrightarrow> unat i < length (dict_keys d) \<and> dict_keys d ! unat i = k)"

lemma wf_dictionary_new [simp]: "wf_dictionary dictionary_new"
  by (simp add: wf_dictionary_def dictionary_new_def)

lemma wf_dictionaryD:
  assumes "wf_dictionary d"
  shows "distinct (dict_keys d)" "length (dict_keys d) < 2 ^ 64"
    "to_id d k = Some i \<longleftrightarrow> unat i < length (dict_keys d) \<and> dict_keys d ! unat i = k"
  using assms unfolding wf_dictionary_def by blast+

lemma unat_of_nat_u64: "n < 2 ^ 64 \<Longrightarrow> unat (of_nat n :: u64) = n"
  by (simp add: unat_of_nat)

lemma to_id_dom: "wf_dictionary d \<Longrightarrow> to_id d k = None \<longleftrightarrow> k \<notin> set (dict_keys d)"
proof -
  assume wf: "wf_dictionary d"
  note d = wf_dictionaryD [OF wf]
  have "(\<exists>i. to_id d k = Some i) \<longleftrightarrow> k \<in> set (dict_keys d)"
  proof
    assume "k \<in> set (dict_keys d)"
    then obtain n where n: "n < length (dict_keys d)" "dict_keys d ! n = k" by (auto simp: in_set_conv_nth)
    then have "unat (of_nat n :: u64) = n" using d(2) by (intro unat_of_nat_u64) simp
    with n d(3) [of k "of_nat n"] show "\<exists>i. to_id d k = Some i" by auto
  qed (use d(3) in auto)
  then show ?thesis by (cases "to_id d k") auto
qed

text \<open>A key is interned once; the identifier is its position, and earlier keys keep theirs.\<close>

lemma get_or_insert_wf:
  assumes wf: "wf_dictionary d" and room: "Suc (length (dict_keys d)) < 2 ^ 64"
    and "get_or_insert k d = (i, d')"
  shows "wf_dictionary d' \<and> to_id d' k = Some i \<and>
    dict_keys d' = dict_keys d @ (if k \<in> set (dict_keys d) then [] else [k])"
proof (cases "to_id d k")
  case None
  note d = wf_dictionaryD [OF wf]
  have k: "k \<notin> set (dict_keys d)" using to_id_dom [OF wf] None by simp
  let ?n = "length (dict_keys d)"
  have d': "i = of_nat ?n" "d' = d\<lparr>to_id := (to_id d)(k \<mapsto> i), dict_keys := dict_keys d @ [k]\<rparr>"
    using assms(3) None by (auto simp: get_or_insert_def Let_def)
  have i: "unat i = ?n" using d(2) by (simp add: d'(1) unat_of_nat_u64)
  have "to_id d' k' = Some j \<longleftrightarrow> unat j < length (dict_keys d') \<and> dict_keys d' ! unat j = k'" for k' j
  proof (cases "unat j = ?n")
    case True
    then have "j = i" using i by (simp add: word_unat_eq_iff)
    moreover have "to_id d k' \<noteq> Some j" using d(3) [of k' j] True by simp
    ultimately show ?thesis using i by (auto simp: d'(2))
  next
    case False
    then have "j \<noteq> i" using i by auto
    moreover have "dict_keys d ! unat j \<noteq> k" if "unat j < ?n"
      using that k nth_mem by blast
    ultimately show ?thesis
      using False d(3) [of k' j] by (auto simp: d'(2) nth_append less_Suc_eq)
  qed
  then have "wf_dictionary d'"
    using k d(1,2) room unfolding wf_dictionary_def by (simp add: d'(2))
  then show ?thesis using k by (simp add: d'(2))
next
  case (Some j)
  then have "k \<in> set (dict_keys d)" using to_id_dom [OF wf, of k] by auto
  then show ?thesis using assms(3) Some wf by (auto simp: get_or_insert_def)
qed

lemma get_or_insert_keeps:
  "get_or_insert k d = (i, d') \<Longrightarrow> to_id d k' = Some j \<Longrightarrow> to_id d' k' = Some j"
  by (auto simp: get_or_insert_def Let_def split: option.splits)

lemma intern_all_keeps:
  "intern_all ks d = (ids, d') \<Longrightarrow> to_id d k = Some i \<Longrightarrow> to_id d' k = Some i"
  by (induction ks arbitrary: d ids)
    (auto simp: Let_def split: prod.splits intro: get_or_insert_keeps)

lemma intern_all_spec:
  assumes "wf_dictionary d" "length (dict_keys d) + length ks < 2 ^ 64"
    and "intern_all ks d = (ids, d')"
  shows "wf_dictionary d' \<and> map Some ids = map (to_id d') ks \<and>
    set (dict_keys d') = set (dict_keys d) \<union> set ks \<and>
    (\<exists>new. dict_keys d' = dict_keys d @ new \<and> subseq new ks) \<and>
    length (dict_keys d') \<le> length (dict_keys d) + length ks"
  using assms
proof (induction ks arbitrary: d ids)
  case (Cons k ks)
  obtain i d1 where g: "get_or_insert k d = (i, d1)" by fastforce
  obtain js where r: "intern_all ks d1 = (js, d')" "ids = i # js"
    using Cons.prems(3) g by (auto simp: Let_def split: prod.splits)
  have g1: "wf_dictionary d1" "to_id d1 k = Some i"
    "dict_keys d1 = dict_keys d @ (if k \<in> set (dict_keys d) then [] else [k])"
    using get_or_insert_wf [OF Cons.prems(1) _ g] Cons.prems(2) by auto
  then have len: "length (dict_keys d1) + length ks < 2 ^ 64" using Cons.prems(2) by simp
  from Cons.IH [OF g1(1) len r(1)] obtain new where IH: "wf_dictionary d'"
    "map Some js = map (to_id d') ks" "set (dict_keys d') = set (dict_keys d1) \<union> set ks"
    "dict_keys d' = dict_keys d1 @ new" "subseq new ks"
    "length (dict_keys d') \<le> length (dict_keys d1) + length ks"
    by blast
  have "to_id d' k = Some i" using intern_all_keeps [OF r(1) g1(2)] .
  moreover have "set (dict_keys d') = set (dict_keys d) \<union> set (k # ks)"
    using IH(3) g1(3) by auto
  moreover have "\<exists>new. dict_keys d' = dict_keys d @ new \<and> subseq new (k # ks)"
    using IH(4,5) g1(3) by (cases "k \<in> set (dict_keys d)") (auto intro: subseq_Cons')
  moreover have "length (dict_keys d1) \<le> Suc (length (dict_keys d))" using g1(3) by simp
  then have "length (dict_keys d') \<le> length (dict_keys d) + length (k # ks)" using IH(6) by simp
  ultimately show ?case using IH(1,2) r(2) by simp
qed simp

section \<open>Properties\<close>

text \<open>
  C33: interning is deterministic, collision-free and reversible: from an empty dictionary any
  sequence of fewer than 2^64 keys gets identifiers that are equal exactly where the keys are;
  the keys are kept without duplicates in order of first occurrence and get the identifiers
  from 0 on; \<open>id_of\<close> and \<open>key_of\<close> are inverse to each other, and interning a key again
  changes nothing.
\<close>

theorem interning_roundtrip:
  assumes "length ks < 2 ^ 64" "intern_all ks dictionary_new = (ids, d)"
  shows "length ids = length ks \<and> distinct (dict_keys d) \<and> set (dict_keys d) = set ks \<and>
    subseq (dict_keys d) ks \<and>
    (i < length ks \<and> j < length ks \<longrightarrow> (ids ! i = ids ! j \<longleftrightarrow> ks ! i = ks ! j)) \<and>
    (i < length ks \<longrightarrow> id_of d (ks ! i) = Some (ids ! i) \<and> key_of d (ids ! i) = Some (ks ! i) \<and>
       get_or_insert (ks ! i) d = (ids ! i, d)) \<and>
    (id_of d k = Some n \<longleftrightarrow> key_of d n = Some k) \<and>
    (key_of d n \<noteq> None \<longleftrightarrow> unat n < dictionary_len d)"
proof -
  have r: "wf_dictionary d" "map Some ids = map (to_id d) ks" "set (dict_keys d) = set ks"
    "subseq (dict_keys d) ks"
    using intern_all_spec [OF wf_dictionary_new _ assms(2)] assms(1)
    by (auto simp: dictionary_new_def)
  note d = wf_dictionaryD [OF r(1)]
  have len: "length ids = length ks" using arg_cong [OF r(2), of length] by simp
  have at: "to_id d (ks ! i) = Some (ids ! i)" if "i < length ks" for i
    using arg_cong [OF r(2), of "\<lambda>l. l ! i"] that len by simp
  have key: "key_of d n = Some k \<longleftrightarrow> to_id d k = Some n" for k n
    unfolding d(3) by (auto simp: key_of_def get_vec_def)
  have "ids ! i = ids ! j \<longleftrightarrow> ks ! i = ks ! j" if "i < length ks" "j < length ks" for i j
    using at [OF that(1)] at [OF that(2)] d(3) [of "ks ! i"] d(3) [of "ks ! j"] by force
  moreover have "id_of d (ks ! i) = Some (ids ! i) \<and> key_of d (ids ! i) = Some (ks ! i) \<and>
      get_or_insert (ks ! i) d = (ids ! i, d)" if "i < length ks" for i
    using at [OF that] by (simp add: key id_of_def get_or_insert_def)
  moreover have "key_of d n \<noteq> None \<longleftrightarrow> unat n < dictionary_len d"
    by (simp add: key_of_def get_vec_def dictionary_len_def)
  ultimately show ?thesis using d(1) r(3,4) key len by (simp add: id_of_def)
qed

theorem interning_roundtrip_witness:
  "key_of (snd (intern_all [''alice'', ''bob'', ''alice''] dictionary_new)) 1 = Some ''bob''"
proof -
  let ?ks = "[''alice'', ''bob'', ''alice'']"
  have "length ?ks < 2 ^ 64" by simp
  moreover obtain ids d where r: "intern_all ?ks dictionary_new = (ids, d)" "ids ! 1 = 1"
    by (simp add: get_or_insert_def dictionary_new_def Let_def)
  ultimately have "1 < length ?ks \<longrightarrow> id_of d (?ks ! 1) = Some (ids ! 1) \<and>
      key_of d (ids ! 1) = Some (?ks ! 1) \<and> get_or_insert (?ks ! 1) d = (ids ! 1, d)"
    using interning_roundtrip [of ?ks ids d] by blast
  with r show ?thesis by simp
qed

text \<open>
  the table of a well-formed dictionary: its batch never fails, has a row for every key,
  and joining a row's identifier back through the dictionary gives the row's key.
\<close>

theorem dictionary_batch_rows:
  assumes "arrow_laws A" "wf_dictionary d"
  shows "\<exists>b ids ks. to_batch A d = Ok b \<and> batch_schema b = dictionary_schema \<and>
    batch_columns b = [UInt64Array (map Some ids), StringArray (map Some ks)] \<and>
    batch_rows b = dictionary_len d \<and> ks = dict_keys d \<and> map (key_of d) ids = map Some ks"
proof -
  let ?n = "length (dict_keys d)"
  let ?ids = "map of_nat [0..<?n] :: u64 list"
  let ?cols = "[UInt64Array (map Some ?ids), StringArray (map Some (dict_keys d))]"
  let ?b = "\<lparr>batch_schema = dictionary_schema, batch_columns = ?cols, batch_rows = ?n\<rparr>"
  have "batch_fits dictionary_schema ?cols"
    by (auto simp: batch_fits_def dictionary_schema_def field_new_def)
  from try_new_fits [OF assms(1) this]
  have "to_batch A d = Ok \<lparr>batch_schema = dictionary_schema, batch_columns = ?cols, batch_rows = ?n\<rparr>"
    by (simp add: to_batch_def comp_def)
  moreover have "map (key_of d) ?ids = map Some (dict_keys d)"
    using wf_dictionaryD(2) [OF assms(2)]
    by (auto intro!: nth_equalityI simp: key_of_def get_vec_def unat_of_nat_u64)
  ultimately show ?thesis by (intro exI [of _ ?b] exI [of _ ?ids] exI conjI) (simp_all add: dictionary_len_def)
qed

theorem dictionary_batch_rows_witness:
  "\<exists>b. to_batch list_arrow (snd (get_or_insert ''a'' dictionary_new)) = Ok b \<and> batch_rows b = 1"
proof -
  have "wf_dictionary (snd (get_or_insert ''a'' dictionary_new))"
    using get_or_insert_wf [OF wf_dictionary_new _ prod.collapse [symmetric]]
    by (simp add: dictionary_new_def)
  from dictionary_batch_rows [OF list_arrow_laws this] show ?thesis
    by (auto simp: dictionary_len_def get_or_insert_def dictionary_new_def)
qed

end
