(* ===== verification/Traversal_Exec.thy ===== *)
theory Traversal_Exec
  imports Dobfs Compaction Arrow
begin

text \<open>
  The traversal operator (\<open>exec/graph_traversal.rs\<close>): checking the specification, choosing
  the search, and turning its result into a record batch.  The graphs an operator holds are
  those that its shared references show while it runs.
\<close>

section \<open>State and operations\<close>

record ('m, 's) traversal_exec =
  te_graph :: "('m, 's) csr_graph"
  te_reverse :: "('m, 's) csr_graph option"
  te_spec :: traversal_spec

definition output_schema :: schema where
  "output_schema =
     [field_new ''node_id'' DtUInt64 False, field_new ''depth'' DtUInt32 False,
      field_new ''path'' (DtList ''item'' DtUInt64 False) True]"

definition traversal_exec_new ::
  "('m, 's) csr_graph \<Rightarrow> traversal_spec \<Rightarrow> ('m, 's) traversal_exec" where
  "traversal_exec_new g spec = \<lparr>te_graph = g, te_reverse = None, te_spec = spec\<rparr>"

definition with_reverse ::
  "('m, 's) csr_graph \<Rightarrow> ('m, 's) traversal_exec \<Rightarrow> ('m, 's) traversal_exec" where
  "with_reverse r ex = ex\<lparr>te_reverse := Some r\<rparr>"

fun algorithm_debug :: "traversal_algorithm \<Rightarrow> string" where
  "algorithm_debug AlgorithmBfs = ''Bfs''"
| "algorithm_debug AlgorithmDfs = ''Dfs''"
| "algorithm_debug AlgorithmDijkstra = ''Dijkstra''"

definition incoming_needs_reverse :: string where
  "incoming_needs_reverse =
     ''incoming traversal requires the transposed graph; attach it '' @
     ''with GraphTraversalExec::with_reverse (built via '' @
     ''CsrGraph::transpose) or register the graph with a reverse '' @
     ''in the GraphCatalog''"

definition validate_spec :: "('m, 's) traversal_exec \<Rightarrow> unit df_result" where
  "validate_spec ex =
     (if ts_algorithm (te_spec ex) \<noteq> AlgorithmBfs
      then Err (DfNotImplemented (''GraphTraversalExec only supports BFS traversal, got '' @
        algorithm_debug (ts_algorithm (te_spec ex))))
      else case ts_direction (te_spec ex) of
        Outgoing \<Rightarrow> Ok ()
      | Incoming \<Rightarrow>
          (if te_reverse ex \<noteq> None then Ok () else Err (DfPlan incoming_needs_reverse))
      | Both \<Rightarrow>
          Err (DfNotImplemented ''GraphTraversalExec does not support bidirectional traversal yet''))"

text \<open>\<open>Result::unwrap_or_else\<close>\<close>

fun or_else :: "('e, 'a) res \<Rightarrow> ('e, 'a) res \<Rightarrow> ('e, 'a) res" where
  "or_else (Ok x) f = Ok x"
| "or_else (Err _) f = f"
| "or_else Panic f = Panic"

text \<open>
  The pair of graphs that is searched, \<open>expect\<close>ing the reverse graph for an incoming
  traversal, and the choice between the two searches.
\<close>

definition search_graphs ::
  "('m, 's) traversal_exec \<Rightarrow> (('m, 's) csr_graph \<times> ('m, 's) csr_graph option) result" where
  "search_graphs ex = (case ts_direction (te_spec ex) of
     Incoming \<Rightarrow>
       (case te_reverse ex of None \<Rightarrow> Panic | Some r \<Rightarrow> Ok (r, Some (te_graph ex)))
   | _ \<Rightarrow> Ok (te_graph ex, te_reverse ex))"

definition run_search ::
  "platform \<Rightarrow> ('m, 's) dash \<Rightarrow> traversal_spec \<Rightarrow> usize option \<Rightarrow>
   ('m, 's) csr_graph \<Rightarrow> ('m, 's) csr_graph option \<Rightarrow> bfs_result result" where
  "run_search P D spec bounded forward reverse =
     (let plain = bfs_bounded P D forward (ts_start spec) (ts_max_depth spec) bounded
      in case (reverse, bounded, ts_start spec) of
           (Some reversed, None, [start]) \<Rightarrow>
             or_else (bfs_direction_optimized P D forward reversed start (ts_max_depth spec)) plain
         | _ \<Rightarrow> plain)"

definition collect_bfs_rows ::
  "platform \<Rightarrow> ('m, 's) dash \<Rightarrow> ('m, 's) traversal_exec \<Rightarrow> usize \<Rightarrow> (u64 list \<times> u32 list) result" where
  "collect_bfs_rows P D ex max_nodes =
     (if max_nodes = 0 then Ok ([], [])
      else
        let bounded = (if max_nodes \<noteq> usize_max then Some max_nodes else None)
        in bind_res (search_graphs ex) (\<lambda>(forward, reverse).
           map_res (\<lambda>r. (map as_u64 (r_visited r), r_depths r))
             (run_search P D (te_spec ex) bounded forward reverse)))"

text \<open>The engine's errors: a \<open>?\<close> on a library error wraps it.  The core search returns none.\<close>

fun lift_err :: "('e \<Rightarrow> df_error) \<Rightarrow> ('e, 'a) res \<Rightarrow> 'a df_result" where
  "lift_err f (Ok x) = Ok x"
| "lift_err f (Err e) = Err (f e)"
| "lift_err f Panic = Panic"

text \<open>The output is a stream with this one batch.\<close>

definition traversal_execute ::
  "arrow \<Rightarrow> platform \<Rightarrow> ('m, 's) dash \<Rightarrow> ('m, 's) traversal_exec \<Rightarrow> usize \<Rightarrow> record_batch df_result" where
  "traversal_execute A P D ex part_idx =
     (if part_idx \<noteq> 0
      then Err (DfExecution (''GraphTraversalExec only supports partition 0, got '' @ show_nat part_idx))
      else
        bind_res (validate_spec ex) (\<lambda>_.
        let max_nodes = (case ts_max_nodes (te_spec ex) of None \<Rightarrow> usize_max | Some n \<Rightarrow> n)
        in bind_res (lift_err DfExternal (collect_bfs_rows P D ex max_nodes)) (\<lambda>(ids, ds).
           lift_err DfArrow (aw_try_new A output_schema
             [UInt64Array (map Some ids), UInt32Array (map Some ds),
              UInt64ListArray (replicate (length ids) None)]))))"

text \<open>\<open>EXPLAIN\<close> text.\<close>

definition traversal_display :: "('m, 's) traversal_exec \<Rightarrow> string" where
  "traversal_display ex =
     ''GraphTraversalExec: algorithm='' @ algorithm_debug (ts_algorithm (te_spec ex)) @
     '', max_depth='' @ show_nat (unat (ts_max_depth (te_spec ex))) @
     '', starts='' @ show_nat (length (ts_start (te_spec ex)))"

section \<open>Which reverse graphs are harmless\<close>

text \<open>
  A reverse graph is used only when both deltas are empty and the counts agree; then it has
  to be the transpose.
\<close>

definition reverse_fits ::
  "('m, 's) dash \<Rightarrow> ('m, 's) csr_graph \<Rightarrow> ('m, 's) csr_graph \<Rightarrow> bool" where
  "reverse_fits D f r \<longleftrightarrow>
     (node_count f = node_count r \<and> edge_count f = edge_count r \<and>
      delta_is_empty D (delta f) \<and> delta_is_empty D (delta r)
      \<longrightarrow> dense_graph D f \<and> dense_graph D r \<and> transposed f r)"

lemma base_row_neighbors:
  assumes "wf_graph D g" "delta_is_empty D (delta g)"
  shows "u \<in> set (base_row g v) \<longleftrightarrow> dense_node u \<in> set (neighbor_list D g v)"
proof -
  have laws: "dash_laws D" by (rule wf_graphD(3) [OF assms(1)])
  then have "inserted D (delta g) = Map.empty" "deleted D (delta g) = {}"
    using assms(2) by (simp_all add: delta_is_empty_iff)
  from neighbor_list_no_delta [OF laws this, of v] show ?thesis
    by (auto simp: node_of_u32_def)
qed

lemma transpose_edges:
  assumes "wf_graph D g" "compactable D g" "transpose D g = Ok r"
  shows "wf_graph D r" "delta r = delta_new D" "node_count r \<le> u32_max"
    "graph_edges D r = (graph_edges D g)\<inverse>"
proof -
  obtain r' where r': "transpose D g = Ok r'" "wf_graph D r'" "delta r' = delta_new D"
    "node_count r' \<le> u32_max"
    "\<And>a b. count_list (neighbor_list D r' b) a = count_list (neighbor_list D g a) b"
    using transpose_Ok [OF assms(1,2)] by metis
  then have [simp]: "r' = r" using assms(3) by simp
  show "wf_graph D r" "delta r = delta_new D" "node_count r \<le> u32_max" using r' by simp_all
  have "a \<in> set (neighbor_list D r b) \<longleftrightarrow> b \<in> set (neighbor_list D g a)" for a b
    using r'(5) by (metis \<open>r' = r\<close> count_list_0_iff)
  then have "(b, a) \<in> graph_edges D r \<longleftrightarrow> (a, b) \<in> graph_edges D g" for a b
    by (simp add: set_neighbor_list [OF wf_graphD(3) [OF assms(1)]])
  then show "graph_edges D r = (graph_edges D g)\<inverse>" by auto
qed

text \<open>A graph and what \<open>transpose\<close> makes of it fit, both ways round.\<close>

lemma transpose_fits:
  assumes g: "wf_graph D g" "compactable D g" and r: "transpose D g = Ok r"
  shows "reverse_fits D g r" "reverse_fits D r g"
proof -
  note t = transpose_edges [OF g r]
  have laws: "dash_laws D" by (rule wf_graphD(3) [OF g(1)])
  have d: "dense_graph D g" "dense_graph D r"
    using g t by (simp_all add: dense_graph_def compactable_def u32_max_def)
  have e: "delta_is_empty D (delta r)" using t(2) laws by (simp add: delta_is_empty_iff)
  have "transposed g r \<and> transposed r g" if "node_count g = node_count r" "delta_is_empty D (delta g)"
    using that set_neighbor_list [OF laws] t(4)
    by (auto simp: transposed_def base_row_neighbors [OF g(1)] base_row_neighbors [OF t(1) e])
  then show "reverse_fits D g r" "reverse_fits D r g" using d by (auto simp: reverse_fits_def)
qed

section \<open>Rows\<close>

lemma dobfs_misfit:
  assumes "\<not> (node_count f = node_count r \<and> edge_count f = edge_count r \<and> delta_is_empty D (delta r))"
  shows "\<exists>e. bfs_direction_optimized P D f r start md = Err e"
  using assms by (auto simp: bfs_direction_optimized_def)

text \<open>Whichever search runs, the result pairs the same nodes with the same depths.\<close>

definition same_rows :: "bfs_result \<Rightarrow> bfs_result \<Rightarrow> bool" where
  "same_rows x y \<longleftrightarrow> mset (zip (r_visited x) (r_depths x)) = mset (zip (r_visited y) (r_depths y)) \<and>
     mset (r_visited x) = mset (r_visited y) \<and> r_depths x = r_depths y"

lemma optimized_rows:
  assumes s: "searchable D f" and fit: "reverse_fits D f r"
  shows "\<exists>x y. or_else (bfs_direction_optimized P D f r start md) (bfs P D f start md) = Ok x \<and>
    bfs P D f start md = Ok y \<and> same_rows x y"
proof -
  obtain y where y: "bfs P D f start md = Ok y"
    using bfs_multi_order [OF s] unfolding bfs_multi_def bfs_def by metis
  consider (misfit) "\<not> (node_count f = node_count r \<and> edge_count f = edge_count r \<and> delta_is_empty D (delta r))"
    | (delta) "node_count f = node_count r" "edge_count f = edge_count r" "delta_is_empty D (delta r)"
        "\<not> delta_is_empty D (delta f)"
    | (fits) "node_count f = node_count r" "edge_count f = edge_count r" "delta_is_empty D (delta r)"
        "delta_is_empty D (delta f)"
    by blast
  then show ?thesis
  proof cases
    case misfit
    from dobfs_misfit [OF this, of P start md] obtain e where
      "bfs_direction_optimized P D f r start md = Err e" ..
    with y show ?thesis by (simp add: same_rows_def)
  next
    case delta
    then have "bfs_direction_optimized P D f r start md = bfs P D f start md"
      by (simp add: bfs_direction_optimized_def)
    with y show ?thesis by (simp add: same_rows_def)
  next
    case fits
    then have "dense_graph D f" "dense_graph D r" "transposed f r"
      using fit by (auto simp: reverse_fits_def)
    from dobfs_agrees [OF this fits(2,3), of P start md] show ?thesis
      by (auto simp: same_rows_def)
  qed
qed

lemma run_search_rows:
  assumes s: "searchable D f" and fit: "\<And>r. reverse = Some r \<Longrightarrow> reverse_fits D f r"
  shows "\<exists>x y. run_search P D spec None f reverse = Ok x \<and>
    bfs_multi P D f (ts_start spec) (ts_max_depth spec) = Ok y \<and> same_rows x y"
proof -
  obtain y where y: "bfs_multi P D f (ts_start spec) (ts_max_depth spec) = Ok y"
    using bfs_multi_order [OF s] by metis
  show ?thesis
  proof (cases "\<exists>r start. reverse = Some r \<and> ts_start spec = [start]")
    case True
    then obtain r start where r: "reverse = Some r" "ts_start spec = [start]" by blast
    from optimized_rows [OF s fit [OF r(1)], of P start "ts_max_depth spec"] show ?thesis
      by (simp add: run_search_def r bfs_def bfs_multi_def)
  next
    case False
    then have "run_search P D spec None f reverse = bfs_multi P D f (ts_start spec) (ts_max_depth spec)"
      by (auto simp: run_search_def bfs_multi_def Let_def split: option.splits list.splits)
    with y show ?thesis by (simp add: same_rows_def)
  qed
qed

text \<open>The batch that \<open>execute\<close> makes of the rows.\<close>

definition rows_batch :: "u64 list \<Rightarrow> u32 list \<Rightarrow> record_batch" where
  "rows_batch ids ds =
     \<lparr>batch_schema = output_schema,
      batch_columns = [UInt64Array (map Some ids), UInt32Array (map Some ds),
        UInt64ListArray (replicate (length ids) None)],
      batch_rows = length ids\<rparr>"

lemma execute_batch:
  assumes A: "arrow_laws A" and "validate_spec ex = Ok ()"
    and rows: "collect_bfs_rows P D ex (case ts_max_nodes (te_spec ex) of None \<Rightarrow> usize_max | Some n \<Rightarrow> n) =
      Ok (ids, ds)" "length ds = length ids"
  shows "traversal_execute A P D ex 0 = Ok (rows_batch ids ds)"
proof -
  let ?cols = "[UInt64Array (map Some ids), UInt32Array (map Some ds),
    UInt64ListArray (replicate (length ids) None)]"
  have "batch_fits output_schema ?cols"
    using rows(2) by (auto simp: batch_fits_def output_schema_def field_new_def)
  from try_new_fits [OF A this] assms(2) rows(1) show ?thesis
    by (simp add: traversal_execute_def Let_def rows_batch_def)
qed

lemma set_zip_node_ids:
  "(v, d) \<in> set (zip (map as_u64 ns) ds) \<longleftrightarrow> (NodeId v, d) \<in> set (zip ns ds)"
  by (force simp: in_set_zip)

lemma uncapped_rows:
  assumes A: "arrow_laws A" and valid: "validate_spec ex = Ok ()"
    and graphs: "search_graphs ex = Ok (f, reverse)"
    and s: "searchable D f" and fit: "\<And>r. reverse = Some r \<Longrightarrow> reverse_fits D f r"
    and none: "ts_max_nodes (te_spec ex) = None"
  obtains ids ds where "traversal_execute A P D ex 0 = Ok (rows_batch ids ds)"
    "distinct ids" "sorted (map unat ds)" "length ds = length ids"
    "\<And>v d. (v, d) \<in> set (zip ids ds) \<longleftrightarrow> d \<le> ts_max_depth (te_spec ex) \<and>
       reach_distance D f {s \<in> set (ts_start (te_spec ex)). graph_contains f s} (unat d) (NodeId v)"
proof -
  let ?ss = "ts_start (te_spec ex)" and ?md = "ts_max_depth (te_spec ex)"
  let ?F = "search_order D f ?ss ?md"
  obtain x y where xy: "run_search P D (te_spec ex) None f reverse = Ok x"
    "bfs_multi P D f ?ss ?md = Ok y" "same_rows x y"
    using run_search_rows [where P = P and spec = "te_spec ex" and reverse = reverse, OF s fit] by auto
  obtain y' where y': "bfs_multi P D f ?ss ?md = Ok y'" "r_visited y' = map fst ?F"
    "map unat (r_depths y') = map snd ?F"
    using bfs_multi_order [OF s] .
  then have y: "r_visited y = map fst ?F" "map unat (r_depths y) = map snd ?F"
    using xy(2) by simp_all
  have D: "dash_laws D" using s by (auto simp: searchable_def dest: wf_graphD)
  have len: "length (r_depths y) = length (r_visited y)"
    using y(1) map_eq_imp_length_eq [OF y(2)] by simp
  have "distinct (r_visited y)" "sorted (map unat (r_depths y))"
    using y distinct_search_order [of "length ?F" D f ?ss ?md]
      sorted_search_order [of "length ?F" D f ?ss ?md] by simp_all
  then have x: "distinct (r_visited x)" "sorted (map unat (r_depths x))"
    "length (r_depths x) = length (r_visited x)"
    using xy(3) len mset_eq_imp_distinct_iff mset_eq_length unfolding same_rows_def by metis+
  have mem: "(v, d) \<in> set (zip (r_visited x) (r_depths x)) \<longleftrightarrow>
      d \<le> ?md \<and> reach_distance D f {s \<in> set ?ss. graph_contains f s} (unat d) v" for v d
  proof -
    have "(v, d) \<in> set (zip (r_visited x) (r_depths x)) \<longleftrightarrow> (v, d) \<in> set (zip (r_visited y) (r_depths y))"
      using xy(3) unfolding same_rows_def by (metis set_mset_mset)
    also have "\<dots> \<longleftrightarrow> (v, unat d) \<in> set ?F"
      using nth_pair_in_set [of ?F "r_visited y" "r_depths y" v d] y len by (auto simp: in_set_zip)
    also have "\<dots> \<longleftrightarrow> d \<le> ?md \<and> reach_distance D f {s \<in> set ?ss. graph_contains f s} (unat d) v"
      using search_order_spec [OF D] by (simp add: word_le_nat_alt)
    finally show ?thesis .
  qed
  have "collect_bfs_rows P D ex usize_max = Ok (map as_u64 (r_visited x), r_depths x)"
    using graphs xy(1) by (simp add: collect_bfs_rows_def usize_max_def)
  then have "traversal_execute A P D ex 0 = Ok (rows_batch (map as_u64 (r_visited x)) (r_depths x))"
    using x(3) none by (intro execute_batch [OF A valid]) simp_all
  moreover have "distinct (map as_u64 (r_visited x))"
    using x(1) by (simp add: distinct_map inj_on_def node_id.expand)
  ultimately show thesis
    using that [of "map as_u64 (r_visited x)" "r_depths x"] x(2,3) mem by (simp add: set_zip_node_ids)
qed

section \<open>Properties\<close>

lemma compactable_searchable:
  "wf_graph D g \<Longrightarrow> compactable D g \<Longrightarrow> searchable D g"
  by (simp add: searchable_def compactable_def u32_max_def)

lemma outgoing_rows:
  assumes "arrow_laws A" "searchable D g"
    and "ts_algorithm spec = AlgorithmBfs" "ts_direction spec = Outgoing" "ts_max_nodes spec = None"
    and "rev_graph = None \<or>
      (compactable D g \<and> (\<exists>r. transpose D g = Ok r \<and> rev_graph = Some r))"
  shows "\<exists>ids ds.
    traversal_execute A P D \<lparr>te_graph = g, te_reverse = rev_graph, te_spec = spec\<rparr> 0 =
      Ok (rows_batch ids ds) \<and>
    distinct ids \<and> sorted (map unat ds) \<and> length ds = length ids \<and>
    (\<forall>v d. (v, d) \<in> set (zip ids ds) \<longleftrightarrow> d \<le> ts_max_depth spec \<and>
       reach_distance D g {s \<in> set (ts_start spec). graph_contains g s} (unat d) (NodeId v))"
proof -
  let ?ex = "\<lparr>te_graph = g, te_reverse = rev_graph, te_spec = spec\<rparr>"
  have "validate_spec ?ex = Ok ()" using assms(3,4) by (simp add: validate_spec_def)
  moreover have "search_graphs ?ex = Ok (g, rev_graph)"
    using assms(4) by (simp add: search_graphs_def)
  moreover have "reverse_fits D g r" if "rev_graph = Some r" for r
    using that assms(2,6) transpose_fits(1) by (auto simp: searchable_def)
  moreover have "ts_max_nodes (te_spec ?ex) = None" using assms(5) by simp
  ultimately obtain ids ds where "traversal_execute A P D ?ex 0 = Ok (rows_batch ids ds)"
    "distinct ids" "sorted (map unat ds)" "length ds = length ids"
    "\<And>v d. (v, d) \<in> set (zip ids ds) \<longleftrightarrow> d \<le> ts_max_depth (te_spec ?ex) \<and>
       reach_distance D g {s \<in> set (ts_start (te_spec ?ex)). graph_contains g s} (unat d) (NodeId v)"
    using uncapped_rows [where P = P and ex = ?ex, OF assms(1) _ _ assms(2)] by blast
  then show ?thesis by auto
qed

text \<open>
  The transpose is not looked at while the graph has a delta.  So on two graphs with the same
  search order, neither of which uses its transpose, an outgoing traversal returns the same batch,
  with a cap or without.
\<close>

lemma run_search_plain:
  assumes "reverse = None \<or> \<not> delta_is_empty D (delta f)"
  shows "run_search P D spec bounded f reverse = bfs_bounded P D f (ts_start spec) (ts_max_depth spec) bounded"
proof (cases "\<exists>r start. reverse = Some r \<and> bounded = None \<and> ts_start spec = [start]")
  case True
  then obtain r start where r: "reverse = Some r" "bounded = None" "ts_start spec = [start]" by blast
  have "bfs_direction_optimized P D f r start md = bfs P D f start md \<or>
      (\<exists>e. bfs_direction_optimized P D f r start md = Err e)" for md
    using assms r(1) by (auto simp: bfs_direction_optimized_def)
  moreover have "bfs P D f start md = bfs_bounded P D f [start] md None" for md
    by (simp add: bfs_def bfs_multi_def)
  moreover have "or_else x x = x" for x :: "bfs_result result" by (cases x) simp_all
  ultimately show ?thesis by (simp add: run_search_def r) (metis or_else.simps(2))
qed (auto simp: run_search_def Let_def split: option.splits list.splits)

lemma outgoing_same_batch:
  assumes A: "arrow_laws A" and g: "wf_graph D g" "wf_graph D g'"
    and order: "search_order D g (ts_start spec) (ts_max_depth spec) =
      search_order D g' (ts_start spec) (ts_max_depth spec)"
    and plain: "reverse = None \<or> \<not> delta_is_empty D (delta g)" "reverse' = None \<or> \<not> delta_is_empty D (delta g')"
    and spec: "ts_algorithm spec = AlgorithmBfs" "ts_direction spec = Outgoing"
  shows "\<exists>b. traversal_execute A P D \<lparr>te_graph = g, te_reverse = reverse, te_spec = spec\<rparr> 0 = Ok b \<and>
    traversal_execute A P D \<lparr>te_graph = g', te_reverse = reverse', te_spec = spec\<rparr> 0 = Ok b"
proof -
  let ?ex = "\<lparr>te_graph = g, te_reverse = reverse, te_spec = spec\<rparr>"
  let ?ex' = "\<lparr>te_graph = g', te_reverse = reverse', te_spec = spec\<rparr>"
  let ?n = "case ts_max_nodes spec of None \<Rightarrow> usize_max | Some n \<Rightarrow> n"
  have valid: "validate_spec ?ex = Ok ()" "validate_spec ?ex' = Ok ()"
    using spec by (simp_all add: validate_spec_def)
  have "\<exists>ids ds. collect_bfs_rows P D ?ex ?n = Ok (ids, ds) \<and> collect_bfs_rows P D ?ex' ?n = Ok (ids, ds) \<and>
      length ds = length ids"
  proof (cases "?n = 0")
    case False
    define bounded where "bounded = (if ?n \<noteq> usize_max then Some ?n else None)"
    obtain r r' where r: "bfs_bounded P D g (ts_start spec) (ts_max_depth spec) bounded = Ok r"
      "bfs_bounded P D g' (ts_start spec) (ts_max_depth spec) bounded = Ok r'"
      "r_visited r = r_visited r'" "r_depths r = r_depths r'"
      using bfs_bounded_cong [OF g order, of P bounded] by blast
    have "length (r_depths r) = length (r_visited r)"
      using bfs_refines_order [OF g(1) selected.lawful_backend_axioms, of "ts_start spec" "ts_max_depth spec" bounded P]
        r(1) by (auto simp: bfs_bounded_def result_matches_def dest: map_eq_imp_length_eq)
    then show ?thesis
      using False r spec(2) run_search_plain [OF plain(1), of P spec bounded]
        run_search_plain [OF plain(2), of P spec bounded]
      by (auto simp: collect_bfs_rows_def search_graphs_def bounded_def Let_def)
  qed (simp add: collect_bfs_rows_def)
  then obtain ids ds where rows: "collect_bfs_rows P D ?ex ?n = Ok (ids, ds)"
    "collect_bfs_rows P D ?ex' ?n = Ok (ids, ds)" "length ds = length ids" by blast
  then show ?thesis
    using execute_batch [OF A valid(1), of P D ids ds] execute_batch [OF A valid(2), of P D ids ds] by simp
qed

text \<open>
  an outgoing traversal without a node cap, with or without the resident transpose:
  \<open>execute\<close> returns one batch with a row per node within the depth limit of a start, with the
  node's shortest-path distance over the live edges, each node once and in order of depth.
  Attaching the transpose changes which search runs, never the set of rows.
\<close>

theorem outgoing_traversal_rows:
  assumes "arrow_laws A" "searchable D g"
    and "ts_algorithm spec = AlgorithmBfs" "ts_direction spec = Outgoing" "ts_max_nodes spec = None"
    and "rev_graph = None \<or>
      (compactable D g \<and> (\<exists>r. transpose D g = Ok r \<and> rev_graph = Some r))"
  shows "\<exists>ids ds.
    traversal_execute A P D \<lparr>te_graph = g, te_reverse = rev_graph, te_spec = spec\<rparr> 0 =
      Ok (rows_batch ids ds) \<and>
    distinct ids \<and> sorted (map unat ds) \<and> length ds = length ids \<and>
    (\<forall>v d. (v, d) \<in> set (zip ids ds) \<longleftrightarrow> d \<le> ts_max_depth spec \<and>
       reach_distance D g {s \<in> set (ts_start spec). graph_contains g s} (unat d) (NodeId v))"
  using assms by (rule outgoing_rows)

definition example_spec :: "traversal_direction \<Rightarrow> traversal_spec" where
  "example_spec d = \<lparr>ts_start = [NodeId 0], ts_max_depth = 3, ts_max_nodes = None,
     ts_algorithm = AlgorithmBfs, ts_direction = d\<rparr>"

lemma example_transpose:
  obtains r where "transpose list_dash example_graph = Ok r"
  using transpose_Ok [OF wf_example_graph compactable_example] by metis

theorem outgoing_traversal_rows_witness:
  "\<exists>r ids ds. transpose list_dash example_graph = Ok r \<and>
     traversal_execute list_arrow example_platform list_dash
       \<lparr>te_graph = example_graph, te_reverse = Some r, te_spec = example_spec Outgoing\<rparr> 0 =
       Ok (rows_batch ids ds) \<and> distinct ids"
proof -
  obtain r where r: "transpose list_dash example_graph = Ok r" by (rule example_transpose)
  have "ts_algorithm (example_spec Outgoing) = AlgorithmBfs"
    "ts_direction (example_spec Outgoing) = Outgoing" "ts_max_nodes (example_spec Outgoing) = None"
    by (simp_all add: example_spec_def)
  from outgoing_traversal_rows [OF list_arrow_laws searchable_example this, of "Some r"] r
    compactable_example
  show ?thesis by blast
qed

lemma converse_relpow: "((R :: ('a \<times> 'a) set)\<inverse>) ^^ k = (R ^^ k)\<inverse>"
proof (induction k)
  case (Suc k)
  have "R\<inverse> ^^ Suc k = (R O R ^^ k)\<inverse>" by (simp add: Suc converse_relcomp)
  then show ?case by (simp add: relpow_commute)
qed simp

lemma incoming_rows:
  assumes "arrow_laws A" "wf_graph D g" "compactable D g" "transpose D g = Ok r"
    and "ts_algorithm spec = AlgorithmBfs" "ts_direction spec = Incoming" "ts_max_nodes spec = None"
  shows "\<exists>ids ds.
    traversal_execute A P D (with_reverse r (traversal_exec_new g spec)) 0 = Ok (rows_batch ids ds) \<and>
    distinct ids \<and> sorted (map unat ds) \<and> length ds = length ids \<and>
    (\<forall>v d. (v, d) \<in> set (zip ids ds) \<longleftrightarrow> d \<le> ts_max_depth spec \<and>
       (\<exists>s \<in> {s \<in> set (ts_start spec). graph_contains r s}. (NodeId v, s) \<in> graph_edges D g ^^ unat d) \<and>
       (\<forall>e < unat d. \<forall>s \<in> {s \<in> set (ts_start spec). graph_contains r s}.
          (NodeId v, s) \<notin> graph_edges D g ^^ e))"
proof -
  let ?ex = "with_reverse r (traversal_exec_new g spec)"
  note t = transpose_edges [OF assms(2-4)]
  have ex: "te_graph ?ex = g" "te_reverse ?ex = Some r" "te_spec ?ex = spec"
    by (simp_all add: with_reverse_def traversal_exec_new_def)
  have "validate_spec ?ex = Ok ()" using assms(5,6) by (simp add: validate_spec_def ex)
  moreover have "search_graphs ?ex = Ok (r, Some g)" using assms(6) by (simp add: search_graphs_def ex)
  moreover have "searchable D r"
    using t(1,2) wf_graphD(3) [OF t(1)] by (simp add: searchable_def delta_insertion_count_def
      delta_new_def dash_laws_def dash_map_laws_def)
  moreover have "ts_max_nodes (te_spec ?ex) = None" using assms(7) by (simp add: ex)
  ultimately obtain ids ds where rows: "traversal_execute A P D ?ex 0 = Ok (rows_batch ids ds)"
    "distinct ids" "sorted (map unat ds)" "length ds = length ids"
    "\<And>v d. (v, d) \<in> set (zip ids ds) \<longleftrightarrow> d \<le> ts_max_depth (te_spec ?ex) \<and>
       reach_distance D r {s \<in> set (ts_start (te_spec ?ex)). graph_contains r s} (unat d) (NodeId v)"
    using uncapped_rows [where P = P and ex = ?ex and reverse = "Some g", OF assms(1)]
      transpose_fits(2) [OF assms(2-4)] by blast
  have "(s, v) \<in> graph_edges D r ^^ k \<longleftrightarrow> (v, s) \<in> graph_edges D g ^^ k" for s v k
    by (simp add: t(4) converse_relpow)
  with rows(5) have "(v, d) \<in> set (zip ids ds) \<longleftrightarrow> d \<le> ts_max_depth spec \<and>
      (\<exists>s \<in> {s \<in> set (ts_start spec). graph_contains r s}. (NodeId v, s) \<in> graph_edges D g ^^ unat d) \<and>
      (\<forall>e < unat d. \<forall>s \<in> {s \<in> set (ts_start spec). graph_contains r s}.
         (NodeId v, s) \<notin> graph_edges D g ^^ e)" for v d
    by (simp add: ex reach_distance_def)
  with rows(1-4) show ?thesis by blast
qed

text \<open>
  an incoming traversal, which needs the transpose, answers who can reach the starts: a
  node is reported at depth \<open>d\<close> exactly when \<open>d\<close> is within the limit and the shortest path
  over the live edges of the graph from the node to a start has \<open>d\<close> edges.
\<close>

theorem incoming_traversal_rows:
  assumes "arrow_laws A" "wf_graph D g" "compactable D g" "transpose D g = Ok r"
    and "ts_algorithm spec = AlgorithmBfs" "ts_direction spec = Incoming" "ts_max_nodes spec = None"
  shows "\<exists>ids ds.
    traversal_execute A P D (with_reverse r (traversal_exec_new g spec)) 0 = Ok (rows_batch ids ds) \<and>
    distinct ids \<and> sorted (map unat ds) \<and> length ds = length ids \<and>
    (\<forall>v d. (v, d) \<in> set (zip ids ds) \<longleftrightarrow> d \<le> ts_max_depth spec \<and>
       (\<exists>s \<in> {s \<in> set (ts_start spec). graph_contains r s}. (NodeId v, s) \<in> graph_edges D g ^^ unat d) \<and>
       (\<forall>e < unat d. \<forall>s \<in> {s \<in> set (ts_start spec). graph_contains r s}.
          (NodeId v, s) \<notin> graph_edges D g ^^ e))"
  using assms by (rule incoming_rows)

theorem incoming_traversal_rows_witness:
  "\<exists>r ids ds. transpose list_dash example_graph = Ok r \<and>
     traversal_execute list_arrow example_platform list_dash
       (with_reverse r (traversal_exec_new example_graph (example_spec Incoming))) 0 =
       Ok (rows_batch ids ds) \<and> distinct ids"
proof -
  obtain r where r: "transpose list_dash example_graph = Ok r" by (rule example_transpose)
  have "ts_algorithm (example_spec Incoming) = AlgorithmBfs"
    "ts_direction (example_spec Incoming) = Incoming" "ts_max_nodes (example_spec Incoming) = None"
    by (simp_all add: example_spec_def)
  from incoming_traversal_rows [OF list_arrow_laws wf_example_graph compactable_example r this,
      of example_platform] r
  show ?thesis by blast
qed

text \<open>
  a node cap below \<open>usize::MAX\<close> returns that many rows at most: the first rows of the
  uncapped plain search; zero returns none.
\<close>

theorem capped_traversal_rows:
  assumes "arrow_laws A" "searchable D g"
    and "ts_algorithm spec = AlgorithmBfs" "ts_direction spec = Outgoing"
    and "ts_max_nodes spec = Some n" "n < usize_max"
  shows "\<exists>ids ds y.
    traversal_execute A P D \<lparr>te_graph = g, te_reverse = rev_graph, te_spec = spec\<rparr> 0 =
      Ok (rows_batch ids ds) \<and>
    bfs_multi P D g (ts_start spec) (ts_max_depth spec) = Ok y \<and>
    ids = map as_u64 (take n (r_visited y)) \<and> ds = take n (r_depths y) \<and> length ids \<le> n"
proof -
  let ?ex = "\<lparr>te_graph = g, te_reverse = rev_graph, te_spec = spec\<rparr>"
  let ?F = "search_order D g (ts_start spec) (ts_max_depth spec)"
  have g: "wf_graph D g" using assms(2) by (simp add: searchable_def)
  obtain y where y: "bfs_multi P D g (ts_start spec) (ts_max_depth spec) = Ok y"
    "r_visited y = map fst ?F" "map unat (r_depths y) = map snd ?F"
    using bfs_multi_order [OF assms(2)] .
  obtain x where x: "bfs_bounded P D g (ts_start spec) (ts_max_depth spec) (Some n) = Ok x"
    "result_matches x (take n ?F)"
    using bfs_refines_order [OF g selected.lawful_backend_axioms, of "ts_start spec" "ts_max_depth spec" "Some n" P]
    by (auto simp: bfs_bounded_def)
  have vis: "r_visited x = take n (r_visited y)"
    using x(2) y(2) by (simp add: result_matches_def take_map)
  have "map unat (r_depths x) = map unat (take n (r_depths y))"
    using x(2) y(3) by (simp add: result_matches_def take_map [symmetric])
  then have dep: "r_depths x = take n (r_depths y)"
    by (rule map_injective) (simp add: inj_unat)
  have valid: "validate_spec ?ex = Ok ()" using assms(3,4) by (simp add: validate_spec_def)
  have rows: "collect_bfs_rows P D ?ex n = Ok (map as_u64 (take n (r_visited y)), take n (r_depths y))"
  proof (cases "n = 0")
    case False
    then show ?thesis
      using assms(4,6) x(1) vis dep
      by (auto simp: collect_bfs_rows_def search_graphs_def run_search_def Let_def split: option.splits)
  qed (simp add: collect_bfs_rows_def)
  moreover have "length (r_depths y) = length (r_visited y)"
    using y(2) map_eq_imp_length_eq [OF y(3)] by simp
  ultimately have "traversal_execute A P D ?ex 0 =
      Ok (rows_batch (map as_u64 (take n (r_visited y))) (take n (r_depths y)))"
    using assms(5) by (intro execute_batch [OF assms(1) valid]) simp_all
  with y(1) show ?thesis by auto
qed

theorem capped_traversal_rows_witness:
  "\<exists>ids ds. traversal_execute list_arrow example_platform list_dash
      \<lparr>te_graph = example_graph, te_reverse = None,
       te_spec = (example_spec Outgoing)\<lparr>ts_max_nodes := Some 2\<rparr>\<rparr> 0 = Ok (rows_batch ids ds) \<and>
    length ids \<le> 2"
  using capped_traversal_rows [OF list_arrow_laws searchable_example,
      of "(example_spec Outgoing)\<lparr>ts_max_nodes := Some 2\<rparr>" 2]
  by (fastforce simp: example_spec_def usize_max_def)

text \<open>
  every request the operator does not support is refused with the error of its kind, in
  this order: another partition than 0, an algorithm other than breadth-first search, both
  directions at once, an incoming traversal without a transpose; nothing else is refused
  before the search.
\<close>

theorem traversal_refusals:
  "(k \<noteq> 0 \<longrightarrow> (\<exists>m. traversal_execute A P D ex k = Err (DfExecution m))) \<and>
   (ts_algorithm (te_spec ex) \<noteq> AlgorithmBfs \<longrightarrow>
      (\<exists>m. traversal_execute A P D ex 0 = Err (DfNotImplemented m))) \<and>
   (ts_algorithm (te_spec ex) = AlgorithmBfs \<and> ts_direction (te_spec ex) = Both \<longrightarrow>
      (\<exists>m. traversal_execute A P D ex 0 = Err (DfNotImplemented m))) \<and>
   (ts_algorithm (te_spec ex) = AlgorithmBfs \<and> ts_direction (te_spec ex) = Incoming \<and>
      te_reverse ex = None \<longrightarrow> traversal_execute A P D ex 0 = Err (DfPlan incoming_needs_reverse)) \<and>
   (validate_spec ex = Ok () \<longleftrightarrow> ts_algorithm (te_spec ex) = AlgorithmBfs \<and>
      (ts_direction (te_spec ex) = Outgoing \<or>
       ts_direction (te_spec ex) = Incoming \<and> te_reverse ex \<noteq> None)) \<and>
   (validate_spec ex = Ok () \<longrightarrow> search_graphs ex \<noteq> Panic)"
  by (auto simp: traversal_execute_def validate_spec_def search_graphs_def
      split: traversal_direction.splits)

theorem traversal_refusals_witness:
  "\<exists>m. traversal_execute list_arrow example_platform list_dash
      (traversal_exec_new example_graph (example_spec Both)) 0 = Err (DfNotImplemented m)"
  using traversal_refusals [of 0 list_arrow example_platform list_dash
      "traversal_exec_new example_graph (example_spec Both)"]
  by (simp add: traversal_exec_new_def example_spec_def)

end
