(* ===== verification/Csr_Exec.thy ===== *)
theory Csr_Exec
  imports Compaction Arrow
begin

text \<open>
  The graph-building operator (\<open>exec/csr_builder.rs\<close>): a stream that collects edges from
  the record batches of its input, one batch per poll, and when the input ends builds the
  graph, publishes it in a sink and yields one batch of statistics.
\<close>

section \<open>Configuration, sinks and the operator\<close>

text \<open>
  A sink is a write-once cell shared between operators: an address into a store, so that the
  configuration can name one and a later reader sees what a run has put there.
\<close>

type_synonym sink_addr = nat

type_synonym ('m, 's) sinks = "sink_addr \<Rightarrow> ('m, 's) csr_graph option"

definition new_graph_sink :: "sink_addr \<Rightarrow> ('m, 's) sinks \<Rightarrow> ('m, 's) sinks" where
  "new_graph_sink a sinks = sinks(a := None)"

text \<open>\<open>OnceLock::set\<close> leaves a filled cell alone.\<close>

definition sink_set :: "sink_addr \<Rightarrow> ('m, 's) csr_graph \<Rightarrow> ('m, 's) sinks \<Rightarrow> ('m, 's) sinks" where
  "sink_set a g sinks = (case sinks a of None \<Rightarrow> sinks(a \<mapsto> g) | Some _ \<Rightarrow> sinks)"

record build_exec_config =
  xc_shard_size :: usize
  xc_build_parallelism :: usize
  xc_memory_limit :: "usize option"
  xc_source_column :: string
  xc_target_column :: string
  xc_graph_sink :: "sink_addr option"
  xc_weight_column :: "string option"

definition build_exec_config_default :: "usize \<Rightarrow> build_exec_config" where
  "build_exec_config_default cpus =
     \<lparr>xc_shard_size = 64 * 1024 * 1024, xc_build_parallelism = cpus, xc_memory_limit = None,
      xc_source_column = ''source'', xc_target_column = ''target'', xc_graph_sink = None,
      xc_weight_column = None\<rparr>"

definition stats_schema :: schema where
  "stats_schema =
     [field_new ''node_count'' DtUInt64 False, field_new ''edge_count'' DtUInt64 False,
      field_new ''shard_count'' DtUInt64 False, field_new ''build_time_ms'' DtUInt64 False]"

text \<open>
  An asynchronous stream is what it answers to successive polls; after these it has ended.
  The plan the operator reads from: its partition count, schema and the outcome of executing
  its only partition.
\<close>

datatype 'a poll = Pending | Ready "'a option"

type_synonym batch_stream = "record_batch df_result poll list"

record input_plan =
  ip_partitions :: usize
  ip_schema :: schema
  ip_execute :: "batch_stream df_result"

fun poll_input :: "batch_stream \<Rightarrow> record_batch df_result poll \<times> batch_stream" where
  "poll_input [] = (Ready None, [])"
| "poll_input (p # ps) = (p, ps)"

record csr_builder_exec =
  bx_input :: input_plan
  bx_config :: build_exec_config

definition csr_builder_exec_new :: "input_plan \<Rightarrow> build_exec_config \<Rightarrow> csr_builder_exec" where
  "csr_builder_exec_new inp cfg = \<lparr>bx_input = inp, bx_config = cfg\<rparr>"

definition csr_builder_display :: "csr_builder_exec \<Rightarrow> string" where
  "csr_builder_display ex =
     ''CSRBuilderExec: shard_size='' @ show_nat (xc_shard_size (bx_config ex)) @
     '', parallelism='' @ show_nat (xc_build_parallelism (bx_config ex)) @
     '', source='' @ xc_source_column (bx_config ex) @
     '', target='' @ xc_target_column (bx_config ex)"

text \<open>\<open>children[0]\<close> panics on an empty vector.\<close>

definition csr_builder_with_children ::
  "csr_builder_exec \<Rightarrow> input_plan list \<Rightarrow> csr_builder_exec df_result" where
  "csr_builder_with_children ex children =
     bind_res (index_vec children 0) (\<lambda>inp. Ok (csr_builder_exec_new inp (bx_config ex)))"

section \<open>The stream\<close>

record build_stream =
  bs_input :: batch_stream
  bs_config :: build_exec_config
  bs_input_schema :: schema
  bs_edges :: "(u64 \<times> u64) list"
  bs_weights :: "f32 list"
  bs_finished :: bool

definition build_stream_new :: "batch_stream \<Rightarrow> build_exec_config \<Rightarrow> schema \<Rightarrow> build_stream" where
  "build_stream_new inp cfg s =
     \<lparr>bs_input = inp, bs_config = cfg, bs_input_schema = s, bs_edges = [], bs_weights = [],
      bs_finished = False\<rparr>"

definition csr_builder_execute :: "csr_builder_exec \<Rightarrow> usize \<Rightarrow> build_stream df_result" where
  "csr_builder_execute ex part_idx =
     (if part_idx \<noteq> 0
      then Err (DfExecution (''CSRBuilderExec produces a single output partition, but partition '' @
        show_nat part_idx @ '' was requested''))
      else if ip_partitions (bx_input ex) \<noteq> 1
      then Err (DfExecution (''CSRBuilderExec requires a single input partition, but the input has '' @
        show_nat (ip_partitions (bx_input ex)) @
        '' partitions; coalesce the input before execution''))
      else bind_res (ip_execute (bx_input ex)) (\<lambda>inp.
        Ok (build_stream_new inp (bx_config ex) (ip_schema (bx_input ex)))))"

subsection \<open>Memory accounting\<close>

text \<open>\<open>size_of::<(u64, u64)>()\<close> is 16.\<close>

definition edge_buffer_bytes :: "usize \<Rightarrow> usize df_result" where
  "edge_buffer_bytes n =
     (if n * 16 \<le> usize_max then Ok (n * 16)
      else Err (DfExecution ''CSRBuilderExec edge buffer size overflowed usize accounting''))"

definition memory_limit_error :: "usize \<Rightarrow> usize \<Rightarrow> df_error" where
  "memory_limit_error bytes limit =
     DfExecution (''CSRBuilderExec edge buffer exceeded memory limit ('' @ show_nat bytes @
       '' bytes > '' @ show_nat limit @ '' bytes)'')"

definition enforce_memory_limit :: "build_exec_config \<Rightarrow> usize \<Rightarrow> unit df_result" where
  "enforce_memory_limit cfg n =
     (case xc_memory_limit cfg of
        None \<Rightarrow> Ok ()
      | Some limit \<Rightarrow>
          bind_res (edge_buffer_bytes n) (\<lambda>bytes.
            if bytes > limit then Err (memory_limit_error bytes limit) else Ok ()))"

subsection \<open>Extracting the edges of a batch\<close>

definition find_column :: "arrow \<Rightarrow> schema \<Rightarrow> string \<Rightarrow> string \<Rightarrow> usize df_result" where
  "find_column A s kind name =
     ok_or (aw_index_of A s name)
       (DfExecution (kind @ '' column '' @ quoted name @ '' not found in input schema''))"

definition id_column_values :: "record_batch \<Rightarrow> usize \<Rightarrow> string \<Rightarrow> string \<Rightarrow> u64 option list df_result" where
  "id_column_values b idx kind name =
     bind_res (index_vec (batch_columns b) idx) (\<lambda>c.
       ok_or (as_uint64 c) (DfExecution (kind @ '' column '' @ quoted name @ '' must be UInt64'')))"

definition weight_column_values ::
  "arrow \<Rightarrow> schema \<Rightarrow> string option \<Rightarrow> record_batch \<Rightarrow> f32 option list option df_result" where
  "weight_column_values A s weight_column b =
     (case weight_column of
        None \<Rightarrow> Ok None
      | Some name \<Rightarrow>
          bind_res (find_column A s ''Weight'' name) (\<lambda>idx.
          bind_res (index_vec (batch_columns b) idx) (\<lambda>c.
          map_res Some (ok_or (as_float32 c)
            (DfExecution (''Weight column '' @ quoted name @ '' must be Float32''))))))"

definition weight_or_one :: "f32 option \<Rightarrow> f32" where
  "weight_or_one w = (case w of None \<Rightarrow> f32_one | Some x \<Rightarrow> x)"

text \<open>One row: a null end skips it; the limit is checked before the edge is kept.\<close>

definition extract_row ::
  "build_exec_config \<Rightarrow> u64 option list \<Rightarrow> u64 option list \<Rightarrow> f32 option list option \<Rightarrow>
   (u64 \<times> u64) list \<times> f32 list \<Rightarrow> usize \<Rightarrow> ((u64 \<times> u64) list \<times> f32 list) df_result" where
  "extract_row cfg sources targets weights st i =
     bind_res (index_vec sources i) (\<lambda>src. case src of None \<Rightarrow> Ok st | Some x \<Rightarrow>
     bind_res (index_vec targets i) (\<lambda>tgt. case tgt of None \<Rightarrow> Ok st | Some y \<Rightarrow>
     bind_res (if length (fst st) + 1 \<le> usize_max then Ok (length (fst st) + 1)
        else Err (DfExecution ''CSRBuilderExec edge count overflowed usize accounting'')) (\<lambda>n.
     bind_res (enforce_memory_limit cfg n) (\<lambda>_.
     case weights of
       None \<Rightarrow> Ok (fst st @ [(x, y)], snd st)
     | Some ws \<Rightarrow>
         bind_res (index_vec ws i) (\<lambda>w. Ok (fst st @ [(x, y)], snd st @ [weight_or_one w]))))))"

text \<open>The rows before a failing one have been pushed when the loop returns early.\<close>

fun extract_rows ::
  "build_exec_config \<Rightarrow> u64 option list \<Rightarrow> u64 option list \<Rightarrow> f32 option list option \<Rightarrow>
   usize list \<Rightarrow> (u64 \<times> u64) list \<times> f32 list \<Rightarrow>
   unit df_result \<times> (u64 \<times> u64) list \<times> f32 list" where
  "extract_rows cfg sources targets weights [] st = (Ok (), st)"
| "extract_rows cfg sources targets weights (i # rows) st =
     (case extract_row cfg sources targets weights st i of
        Ok st' \<Rightarrow> extract_rows cfg sources targets weights rows st'
      | Err e \<Rightarrow> (Err e, st)
      | Panic \<Rightarrow> (Panic, st))"

definition extract_columns ::
  "arrow \<Rightarrow> build_exec_config \<Rightarrow> schema \<Rightarrow> record_batch \<Rightarrow>
   (u64 option list \<times> u64 option list \<times> f32 option list option) df_result" where
  "extract_columns A cfg s b =
     bind_res (find_column A s ''Source'' (xc_source_column cfg)) (\<lambda>source_idx.
     bind_res (find_column A s ''Target'' (xc_target_column cfg)) (\<lambda>target_idx.
     bind_res (id_column_values b source_idx ''Source'' (xc_source_column cfg)) (\<lambda>sources.
     bind_res (id_column_values b target_idx ''Target'' (xc_target_column cfg)) (\<lambda>targets.
     bind_res (weight_column_values A s (xc_weight_column cfg) b) (\<lambda>weights.
     Ok (sources, targets, weights))))))"

definition extract_edges ::
  "arrow \<Rightarrow> record_batch \<Rightarrow> build_stream \<Rightarrow> unit df_result \<times> build_stream" where
  "extract_edges A b s =
     (case extract_columns A (bs_config s) (bs_input_schema s) b of
        Ok (sources, targets, weights) \<Rightarrow>
          (let (r, es, ws) = extract_rows (bs_config s) sources targets weights
             [0..<batch_rows b] (bs_edges s, bs_weights s)
           in (r, s\<lparr>bs_edges := es, bs_weights := ws\<rparr>))
      | Err e \<Rightarrow> (Err e, s)
      | Panic \<Rightarrow> (Panic, s))"

subsection \<open>Building\<close>

definition stream_builder :: "build_stream \<Rightarrow> csr_builder" where
  "stream_builder s =
     (let b = with_shard_size (xc_shard_size (bs_config s)) builder_new
      in if xc_weight_column (bs_config s) \<noteq> None
         then with_weighted_edges (map (\<lambda>((f, t), w). (f, t, w)) (zip (bs_edges s) (bs_weights s))) b
         else with_edges (bs_edges s) b)"

definition stats_columns :: "('m, 's) csr_graph \<Rightarrow> nat \<Rightarrow> arrow_array list" where
  "stats_columns g elapsed_millis =
     [UInt64Array [Some (of_nat (node_count g))], UInt64Array [Some (of_nat (edge_count g))],
      UInt64Array [Some (of_nat (graph_shard_count g))],
      UInt64Array [Some (of_nat (min elapsed_millis (2 ^ 64 - 1)))]]"

text \<open>
  The buffers are emptied whatever the outcome; the graph is published before the batch of
  statistics is made.  The elapsed time is an input.
\<close>

definition build_csr ::
  "arrow \<Rightarrow> ('m, 's) dash \<Rightarrow> nat \<Rightarrow> build_stream \<Rightarrow> ('m, 's) sinks \<Rightarrow>
   record_batch df_result \<times> build_stream \<times> ('m, 's) sinks" where
  "build_csr A D elapsed_millis s sinks =
     (let s' = s\<lparr>bs_edges := [],
            bs_weights := (if xc_weight_column (bs_config s) \<noteq> None then [] else bs_weights s)\<rparr>
      in case build D (stream_builder s) of
           Ok g \<Rightarrow>
             (let sinks' = (case xc_graph_sink (bs_config s) of
                 None \<Rightarrow> sinks | Some a \<Rightarrow> sink_set a g sinks)
              in (map_err DfArrow (aw_try_new A stats_schema (stats_columns g elapsed_millis)), s', sinks'))
         | Err e \<Rightarrow> (Err (DfExecution (''CSR build failed: '' @ error_display e)), s', sinks)
         | Panic \<Rightarrow> (Panic, s', sinks))"

subsection \<open>Polling\<close>

text \<open>
  At most one input batch per poll.  \<open>Ready (Some Panic)\<close> stands for a poll that panics.
\<close>

definition poll_next ::
  "arrow \<Rightarrow> ('m, 's) dash \<Rightarrow> nat \<Rightarrow> build_stream \<times> ('m, 's) sinks \<Rightarrow>
   record_batch df_result poll \<times> build_stream \<times> ('m, 's) sinks" where
  "poll_next A D elapsed_millis = (\<lambda>(s, sinks).
     if bs_finished s then (Ready None, s, sinks)
     else
       let (p, rest) = poll_input (bs_input s); s1 = s\<lparr>bs_input := rest\<rparr>
       in case p of
            Ready (Some (Ok b)) \<Rightarrow>
              (case extract_edges A b s1 of
                 (Ok _, s2) \<Rightarrow> (Pending, s2, sinks)
               | (Err e, s2) \<Rightarrow> (Ready (Some (Err e)), s2\<lparr>bs_finished := True\<rparr>, sinks)
               | (Panic, s2) \<Rightarrow> (Ready (Some Panic), s2, sinks))
          | Ready (Some (Err e)) \<Rightarrow> (Ready (Some (Err e)), s1\<lparr>bs_finished := True\<rparr>, sinks)
          | Ready (Some Panic) \<Rightarrow> (Ready (Some Panic), s1, sinks)
          | Ready None \<Rightarrow>
              (case build_csr A D elapsed_millis s1 sinks of
                 (Panic, s2, sinks') \<Rightarrow> (Ready (Some Panic), s2, sinks')
               | (r, s2, sinks') \<Rightarrow> (Ready (Some r), s2\<lparr>bs_finished := True\<rparr>, sinks'))
          | Pending \<Rightarrow> (Pending, s1, sinks))"

text \<open>What successive polls return.\<close>

fun run_polls ::
  "arrow \<Rightarrow> ('m, 's) dash \<Rightarrow> nat \<Rightarrow> nat \<Rightarrow> build_stream \<times> ('m, 's) sinks \<Rightarrow>
   record_batch df_result poll list \<times> build_stream \<times> ('m, 's) sinks" where
  "run_polls A D elapsed_millis 0 st = ([], st)"
| "run_polls A D elapsed_millis (Suc n) st =
     (let (p, st') = poll_next A D elapsed_millis st;
          (ps, st'') = run_polls A D elapsed_millis n st'
      in (p # ps, st''))"

section \<open>The graph of a list of rows\<close>

text \<open>What a list of weighted rows builds; the weights count only when they are asked for.\<close>

definition rows_builder :: "usize \<Rightarrow> bool \<Rightarrow> ((u64 \<times> u64) \<times> f32) list \<Rightarrow> csr_builder" where
  "rows_builder bytes weighted rows =
     (let b = with_shard_size bytes builder_new
      in if weighted then with_weighted_edges (map (\<lambda>((f, t), w). (f, t, w)) rows) b
         else with_edges (map fst rows) b)"

definition small_ids :: "((u64 \<times> u64) \<times> f32) list \<Rightarrow> bool" where
  "small_ids rows \<longleftrightarrow> length rows \<le> u32_max \<and>
     (\<forall>r \<in> set rows. unat (fst (fst r)) < u32_max \<and> unat (snd (fst r)) < u32_max)"

definition row_targets :: "((u64 \<times> u64) \<times> f32) list \<Rightarrow> u64 \<Rightarrow> ((u64 \<times> u64) \<times> f32) list" where
  "row_targets rows v = filter (\<lambda>r. fst (fst r) = v) rows"

lemma rows_builder_props:
  "b_edges (rows_builder bytes weighted rows) = map fst rows"
  "cfg_shard_size (config (rows_builder bytes weighted rows)) = bytes"
  "cfg_include_weights (config (rows_builder bytes weighted rows)) = weighted"
  "built_edges (rows_builder bytes weighted rows) =
     map (\<lambda>r. (fst r, if weighted then Some (snd r) else None)) rows"
proof -
  have w: "rows_builder bytes True rows = \<lparr>config = \<lparr>cfg_shard_size = bytes, cfg_include_weights = True\<rparr>,
      b_edges = map fst rows, b_weights = map snd rows\<rparr>"
    by (simp add: rows_builder_def with_weighted_edges_eq with_shard_size_def builder_new_def
        csr_build_config_default_def comp_def case_prod_beta)
  have p: "rows_builder bytes False rows = \<lparr>config = \<lparr>cfg_shard_size = bytes, cfg_include_weights = False\<rparr>,
      b_edges = map fst rows, b_weights = []\<rparr>"
    by (simp add: rows_builder_def with_edges_def with_shard_size_def builder_new_def
        csr_build_config_default_def)
  show "b_edges (rows_builder bytes weighted rows) = map fst rows"
    "cfg_shard_size (config (rows_builder bytes weighted rows)) = bytes"
    "cfg_include_weights (config (rows_builder bytes weighted rows)) = weighted"
    "built_edges (rows_builder bytes weighted rows) =
       map (\<lambda>r. (fst r, if weighted then Some (snd r) else None)) rows"
    using w p by (cases weighted; simp add: built_edges_def zip_map_fst_snd case_prod_beta)+
qed

lemma rows_graph:
  assumes "small_ids rows" "bytes \<le> usize_max" "dash_laws D"
  obtains g where "build D (rows_builder bytes weighted rows) = Ok g" "wf_graph D g"
    "delta g = delta_new D" "edge_count g = length rows"
    "\<And>v. neighbor_list D g (NodeId v) = map (\<lambda>r. NodeId (snd (fst r))) (row_targets rows v)"
    "\<And>v. unat v < node_count g \<Longrightarrow> base_row_weights g (NodeId v) =
       (if weighted then Some (map snd (row_targets rows v)) else None)"
    "\<And>r. r \<in> set rows \<Longrightarrow> graph_contains g (NodeId (fst (fst r))) \<and> graph_contains g (NodeId (snd (fst r)))"
proof -
  let ?b = "rows_builder bytes weighted rows"
  have ok: "buildable ?b"
    using assms(1,2) by (auto simp: buildable_def rows_builder_props small_ids_def)
  have from_rows: "edges_from ?b v =
      map (\<lambda>r. (fst r, if weighted then Some (snd r) else None)) (row_targets rows v)" for v
    by (simp add: edges_from_def rows_builder_props row_targets_def filter_map comp_def)
  obtain g where g: "build D ?b = Ok g" "wf_graph D g" "delta g = delta_new D"
    "node_count g = built_node_count ?b" "edge_count g = length (built_edges ?b)"
    "\<And>v. unat v < node_count g \<Longrightarrow> base_row_weights g (NodeId v) =
       (if cfg_include_weights (config ?b) then Some (map (the \<circ> snd) (edges_from ?b v)) else None)"
    by (rule build_spec [OF ok assms(3)]) (rule that, assumption+)
  have "neighbor_list D g (NodeId v) = map (\<lambda>r. NodeId (snd (fst r))) (row_targets rows v)" for v
    using build_neighbor_list [OF ok assms(3) g(1), of v] by (simp add: from_rows comp_def case_prod_beta)
  moreover have "base_row_weights g (NodeId v) =
      (if weighted then Some (map snd (row_targets rows v)) else None)" if "unat v < node_count g" for v
    using g(6) [OF that] unfolding from_rows rows_builder_props
    by (simp add: comp_def case_prod_beta)
  moreover have "graph_contains g (NodeId (fst (fst r))) \<and> graph_contains g (NodeId (snd (fst r)))"
    if r: "r \<in> set rows" for r
  proof -
    have "fst r \<in> set (b_edges (sort_edges ?b))"
      unfolding sort_edges_props(4) rows_builder_props(4) using r by force
    from max_node_id_ge [OF this] r show ?thesis
      by (auto simp: graph_contains_iff g(4) built_node_count_def rows_builder_props
          word_le_nat_alt less_Suc_eq_le)
  qed
  ultimately show thesis using that g(1-3,5) by (simp add: rows_builder_props)
qed

section \<open>What a batch and an input stream hold\<close>

definition row_edge ::
  "'k option list \<Rightarrow> 'k option list \<Rightarrow> f32 option list option \<Rightarrow> nat \<Rightarrow> (('k \<times> 'k) \<times> f32) list" where
  "row_edge ss ts ws i =
     (case (ss ! i, ts ! i) of
        (Some x, Some y) \<Rightarrow> [((x, y), case ws of None \<Rightarrow> f32_one | Some w \<Rightarrow> weight_or_one (w ! i))]
      | _ \<Rightarrow> [])"

text \<open>The rows of a batch whose columns have the configured types; \<open>None\<close> for any other.\<close>

definition batch_edges ::
  "arrow \<Rightarrow> build_exec_config \<Rightarrow> schema \<Rightarrow> record_batch \<Rightarrow> ((u64 \<times> u64) \<times> f32) list option" where
  "batch_edges A cfg s b =
     (case extract_columns A cfg s b of
        Ok (ss, ts, ws) \<Rightarrow>
          if length ss = batch_rows b \<and> length ts = batch_rows b \<and>
             (case ws of None \<Rightarrow> True | Some w \<Rightarrow> length w = batch_rows b)
          then Some (concat (map (row_edge ss ts ws) [0..<batch_rows b])) else None
      | _ \<Rightarrow> None)"

fun input_edges ::
  "arrow \<Rightarrow> build_exec_config \<Rightarrow> schema \<Rightarrow> batch_stream \<Rightarrow> ((u64 \<times> u64) \<times> f32) list option" where
  "input_edges A cfg s [] = Some []"
| "input_edges A cfg s (Pending # ps) = input_edges A cfg s ps"
| "input_edges A cfg s (Ready (Some (Ok b)) # ps) =
     (case (batch_edges A cfg s b, input_edges A cfg s ps) of
        (Some rows, Some rest) \<Rightarrow> Some (rows @ rest) | _ \<Rightarrow> None)"
| "input_edges A cfg s (_ # ps) = None"

definition within_limit :: "build_exec_config \<Rightarrow> nat \<Rightarrow> bool" where
  "within_limit cfg n \<longleftrightarrow> n * 16 \<le> usize_max \<and>
     (case xc_memory_limit cfg of None \<Rightarrow> True | Some limit \<Rightarrow> n * 16 \<le> limit)"

lemma within_limit_mono: "within_limit cfg n \<Longrightarrow> m \<le> n \<Longrightarrow> within_limit cfg m"
  by (auto simp: within_limit_def split: option.splits)

lemma enforce_within: "within_limit cfg n \<Longrightarrow> enforce_memory_limit cfg n = Ok ()"
  by (auto simp: within_limit_def enforce_memory_limit_def edge_buffer_bytes_def split: option.splits)

definition push_rows ::
  "f32 option list option \<Rightarrow> (u64 \<times> u64) list \<times> f32 list \<Rightarrow> ((u64 \<times> u64) \<times> f32) list \<Rightarrow>
   (u64 \<times> u64) list \<times> f32 list" where
  "push_rows ws st rows = (fst st @ map fst rows, snd st @ (if ws = None then [] else map snd rows))"

lemma extract_row_Ok:
  assumes "i < length ss" "i < length ts" "case ws of None \<Rightarrow> True | Some w \<Rightarrow> i < length w"
    and "within_limit cfg (length (fst st) + length (row_edge ss ts ws i))"
  shows "extract_row cfg ss ts ws st i = Ok (push_rows ws st (row_edge ss ts ws i))"
proof (cases "ss ! i = None \<or> ts ! i = None")
  case True
  then show ?thesis
    using assms(1,2) by (auto simp: extract_row_def push_rows_def row_edge_def split: option.splits)
next
  case False
  then obtain x y where xy: "ss ! i = Some x" "ts ! i = Some y" by auto
  have "within_limit cfg (length (fst st) + 1)" using assms(4) xy by (simp add: row_edge_def)
  then have "enforce_memory_limit cfg (length (fst st) + 1) = Ok ()" "length (fst st) + 1 \<le> usize_max"
    by (simp add: enforce_within, simp add: within_limit_def)
  then show ?thesis
    using assms(1-3) xy
    by (auto simp: extract_row_def push_rows_def row_edge_def split: option.splits)
qed

lemma extract_rows_Ok:
  assumes "\<And>i. i \<in> set rows \<Longrightarrow> i < length ss \<and> i < length ts \<and>
      (case ws of None \<Rightarrow> True | Some w \<Rightarrow> i < length w)"
    and "within_limit cfg (length (fst st) + length (concat (map (row_edge ss ts ws) rows)))"
  shows "extract_rows cfg ss ts ws rows st =
    (Ok (), push_rows ws st (concat (map (row_edge ss ts ws) rows)))"
  using assms
proof (induction rows arbitrary: st)
  case (Cons i rows)
  let ?st = "push_rows ws st (row_edge ss ts ws i)"
  have "extract_row cfg ss ts ws st i = Ok ?st"
    using Cons.prems by (intro extract_row_Ok) (auto elim: within_limit_mono)
  moreover have "within_limit cfg (length (fst ?st) + length (concat (map (row_edge ss ts ws) rows)))"
    using Cons.prems(2) by (simp add: push_rows_def add.assoc)
  ultimately show ?case using Cons by (simp add: push_rows_def)
qed (simp add: push_rows_def)

text \<open>The first row over the limit stops the loop with the number of bytes it would need.\<close>

lemma extract_rows_exceeds:
  assumes "xc_memory_limit cfg = Some limit" "limit + 16 \<le> usize_max"
    and "\<And>i. i \<in> set rows \<Longrightarrow> i < length ss \<and> i < length ts \<and>
      (case ws of None \<Rightarrow> True | Some w \<Rightarrow> i < length w)"
    and "length (fst st) * 16 \<le> limit"
    and "limit < (length (fst st) + length (concat (map (row_edge ss ts ws) rows))) * 16"
  shows "\<exists>st'. extract_rows cfg ss ts ws rows st =
    (Err (memory_limit_error ((limit div 16 + 1) * 16) limit), st')"
  using assms(3-5)
proof (induction rows arbitrary: st)
  case (Cons i rows)
  let ?st = "push_rows ws st (row_edge ss ts ws i)"
  show ?case
  proof (cases "(length (fst st) + length (row_edge ss ts ws i)) * 16 \<le> limit")
    case True
    then have "extract_row cfg ss ts ws st i = Ok ?st"
      using assms(1,2) Cons.prems(1) by (intro extract_row_Ok) (auto simp: within_limit_def)
    then show ?thesis
      using Cons.IH [of ?st] Cons.prems True by (simp add: push_rows_def add.assoc)
  next
    case False
    then obtain x y where xy: "ss ! i = Some x" "ts ! i = Some y"
      using Cons.prems(2) by (cases "ss ! i"; cases "ts ! i") (auto simp: row_edge_def)
    then have n: "length (fst st) + 1 = limit div 16 + 1"
      using False Cons.prems(2) by (simp add: row_edge_def)
    have "(limit div 16 + 1) * 16 \<le> usize_max" using assms(2) by simp
    moreover have "limit < (limit div 16 + 1) * 16" by simp
    moreover have "length (fst st) + 1 \<le> usize_max" using assms(2) unfolding n by simp
    ultimately have "extract_row cfg ss ts ws st i =
        Err (memory_limit_error ((limit div 16 + 1) * 16) limit)"
      using assms(1) Cons.prems(1) xy n
      by (simp add: extract_row_def enforce_memory_limit_def edge_buffer_bytes_def)
    then show ?thesis by simp
  qed
qed simp

lemma extract_columns_weights:
  "extract_columns A cfg s b = Ok (ss, ts, ws) \<Longrightarrow> ws = None \<longleftrightarrow> xc_weight_column cfg = None"
  by (auto simp: extract_columns_def weight_column_values_def bind_res_Ok_iff map_res_Ok_iff
      split: option.splits)

lemma batch_edges_cases:
  assumes "batch_edges A cfg s b = Some rows"
  obtains ss ts ws where "extract_columns A cfg s b = Ok (ss, ts, ws)"
    "rows = concat (map (row_edge ss ts ws) [0..<batch_rows b])"
    "\<And>i. i \<in> set [0..<batch_rows b] \<Longrightarrow> i < length ss \<and> i < length ts \<and>
      (case ws of None \<Rightarrow> True | Some w \<Rightarrow> i < length w)"
    "ws = None \<longleftrightarrow> xc_weight_column cfg = None"
proof -
  obtain ss ts ws where c: "extract_columns A cfg s b = Ok (ss, ts, ws)"
    using assms by (auto simp: batch_edges_def split: res.splits)
  with assms extract_columns_weights [OF c] show thesis
    by (intro that [OF c]) (auto simp: batch_edges_def split: if_splits option.splits)
qed

text \<open>A stream that has taken the rows.\<close>

definition take_rows :: "((u64 \<times> u64) \<times> f32) list \<Rightarrow> build_stream \<Rightarrow> build_stream" where
  "take_rows rows s = s\<lparr>bs_edges := bs_edges s @ map fst rows,
     bs_weights := bs_weights s @ (if xc_weight_column (bs_config s) = None then [] else map snd rows)\<rparr>"

lemma take_rows_sel [simp]:
  "bs_config (take_rows rows s) = bs_config s" "bs_input (take_rows rows s) = bs_input s"
  "bs_input_schema (take_rows rows s) = bs_input_schema s"
  "bs_finished (take_rows rows s) = bs_finished s"
  "length (bs_edges (take_rows rows s)) = length (bs_edges s) + length rows"
  by (simp_all add: take_rows_def)

lemma take_rows_append: "take_rows (xs @ ys) s = take_rows ys (take_rows xs s)"
  by (simp add: take_rows_def)

lemma take_rows_input: "take_rows rows (s\<lparr>bs_input := i\<rparr>) = (take_rows rows s)\<lparr>bs_input := i\<rparr>"
  by (simp add: take_rows_def)

lemma take_rows_Nil [simp]: "take_rows [] s = s"
  by (simp add: take_rows_def)

lemma extract_edges_Ok:
  assumes "batch_edges A (bs_config s) (bs_input_schema s) b = Some rows"
    and "within_limit (bs_config s) (length (bs_edges s) + length rows)"
  shows "extract_edges A b s = (Ok (), take_rows rows s)"
proof -
  obtain ss ts ws where c: "extract_columns A (bs_config s) (bs_input_schema s) b = Ok (ss, ts, ws)"
    "rows = concat (map (row_edge ss ts ws) [0..<batch_rows b])"
    "\<And>i. i \<in> set [0..<batch_rows b] \<Longrightarrow> i < length ss \<and> i < length ts \<and>
      (case ws of None \<Rightarrow> True | Some w \<Rightarrow> i < length w)"
    "ws = None \<longleftrightarrow> xc_weight_column (bs_config s) = None"
    by (rule batch_edges_cases [OF assms(1)]) (rule that, assumption+)
  have "extract_rows (bs_config s) ss ts ws [0..<batch_rows b] (bs_edges s, bs_weights s) =
      (Ok (), push_rows ws (bs_edges s, bs_weights s) rows)"
    unfolding c(2) using c(3) assms(2) by (intro extract_rows_Ok) (simp_all add: c(2))
  then show ?thesis using c(1,4) by (simp add: extract_edges_def take_rows_def push_rows_def)
qed

lemma run_polls_append:
  "run_polls A D t (m + n) st =
     (let (ps, st') = run_polls A D t m st; (qs, st'') = run_polls A D t n st' in (ps @ qs, st''))"
  by (induction m arbitrary: st) (simp_all add: Let_def split: prod.splits)

lemma run_polls_finished:
  "bs_finished s \<Longrightarrow> run_polls A D t n (s, sinks) = (replicate n (Ready None), s, sinks)"
  by (induction n) (simp_all add: poll_next_def)

lemma input_edges_cases:
  assumes "input_edges A cfg s (ev # evs) = Some rows"
  obtains "ev = Pending" "input_edges A cfg s evs = Some rows"
    | b xs ys where "ev = Ready (Some (Ok b))" "batch_edges A cfg s b = Some xs"
      "input_edges A cfg s evs = Some ys" "rows = xs @ ys"
  using assms
  by (cases "(A, cfg, s, ev # evs)" rule: input_edges.cases) (auto split: option.splits)

text \<open>Conforming input is taken silently.\<close>

lemma run_polls_input:
  assumes "\<not> bs_finished s" "bs_input s = evs @ rest"
    and "input_edges A (bs_config s) (bs_input_schema s) evs = Some rows"
    and "within_limit (bs_config s) (length (bs_edges s) + length rows)"
  shows "run_polls A D t (length evs) (s, sinks) =
    (replicate (length evs) Pending, (take_rows rows s)\<lparr>bs_input := rest\<rparr>, sinks)"
  using assms
proof (induction evs arbitrary: s rows)
  case Nil
  then show ?case by simp
next
  case (Cons ev evs)
  from Cons.prems(3) show ?case
  proof (cases rule: input_edges_cases)
    case 1
    have "poll_next A D t (s, sinks) = (Pending, s\<lparr>bs_input := evs @ rest\<rparr>, sinks)"
      using Cons.prems(1,2) 1(1) by (simp add: poll_next_def)
    with Cons.IH [of "s\<lparr>bs_input := evs @ rest\<rparr>" rows] Cons.prems 1(2) show ?thesis
      by (simp add: take_rows_input)
  next
    case (2 b xs ys)
    let ?s = "s\<lparr>bs_input := evs @ rest\<rparr>"
    have "within_limit (bs_config s) (length (bs_edges s) + length xs)"
      using Cons.prems(4) 2(4) by (auto elim: within_limit_mono)
    then have "extract_edges A b ?s = (Ok (), take_rows xs ?s)"
      using 2(2) by (intro extract_edges_Ok) simp_all
    then have "poll_next A D t (s, sinks) = (Pending, take_rows xs ?s, sinks)"
      using Cons.prems(1,2) 2(1) by (simp add: poll_next_def)
    with Cons.IH [of "take_rows xs ?s" ys] Cons.prems 2(3,4) show ?thesis
      by (simp add: take_rows_input take_rows_append add.assoc)
  qed
qed

text \<open>Input that exceeds the limit is refused at the batch that crosses it.\<close>

lemma extract_edges_exceeds:
  assumes "batch_edges A (bs_config s) (bs_input_schema s) b = Some rows"
    and "xc_memory_limit (bs_config s) = Some limit" "limit + 16 \<le> usize_max"
    and "length (bs_edges s) * 16 \<le> limit" "limit < (length (bs_edges s) + length rows) * 16"
  shows "\<exists>s'. extract_edges A b s = (Err (memory_limit_error ((limit div 16 + 1) * 16) limit), s')"
proof -
  obtain ss ts ws where c: "extract_columns A (bs_config s) (bs_input_schema s) b = Ok (ss, ts, ws)"
    "rows = concat (map (row_edge ss ts ws) [0..<batch_rows b])"
    "\<And>i. i \<in> set [0..<batch_rows b] \<Longrightarrow> i < length ss \<and> i < length ts \<and>
      (case ws of None \<Rightarrow> True | Some w \<Rightarrow> i < length w)"
    "ws = None \<longleftrightarrow> xc_weight_column (bs_config s) = None"
    by (rule batch_edges_cases [OF assms(1)]) (rule that, assumption+)
  obtain st' where "extract_rows (bs_config s) ss ts ws [0..<batch_rows b] (bs_edges s, bs_weights s) =
      (Err (memory_limit_error ((limit div 16 + 1) * 16) limit), st')"
    using extract_rows_exceeds [where rows = "[0..<batch_rows b]" and ss = ss and ts = ts and ws = ws
        and st = "(bs_edges s, bs_weights s)", OF assms(2,3) c(3)] assms(4,5)
    unfolding c(2) by auto
  then show ?thesis using c(1) by (cases st') (simp add: extract_edges_def)
qed

lemma run_polls_exceeds:
  assumes "\<not> bs_finished s" "bs_input s = evs"
    and "input_edges A (bs_config s) (bs_input_schema s) evs = Some rows"
    and "xc_memory_limit (bs_config s) = Some limit" "limit + 16 \<le> usize_max"
    and "length (bs_edges s) * 16 \<le> limit" "limit < (length (bs_edges s) + length rows) * 16"
  shows "\<exists>k s'. k < length evs \<and> bs_finished s' \<and> run_polls A D t (Suc k) (s, sinks) =
    (replicate k Pending @ [Ready (Some (Err (memory_limit_error ((limit div 16 + 1) * 16) limit)))],
     s', sinks)"
  using assms
proof (induction evs arbitrary: s rows)
  case (Cons ev evs)
  let ?s = "s\<lparr>bs_input := evs\<rparr>"
  have step: "\<exists>k s'. k < length (ev # evs) \<and> bs_finished s' \<and> run_polls A D t (Suc k) (s, sinks) =
      (replicate k Pending @ [Ready (Some (Err (memory_limit_error ((limit div 16 + 1) * 16) limit)))],
       s', sinks)"
    if "poll_next A D t (s, sinks) = (Pending, s1, sinks)" and
      "\<exists>k s'. k < length evs \<and> bs_finished s' \<and> run_polls A D t (Suc k) (s1, sinks) =
        (replicate k Pending @ [Ready (Some (Err (memory_limit_error ((limit div 16 + 1) * 16) limit)))],
         s', sinks)" for s1
  proof -
    from that(2) obtain k s' where k: "k < length evs" "bs_finished s'"
      "run_polls A D t (Suc k) (s1, sinks) =
        (replicate k Pending @ [Ready (Some (Err (memory_limit_error ((limit div 16 + 1) * 16) limit)))],
         s', sinks)" by blast
    then show ?thesis
      using that(1) by (intro exI [of _ "Suc k"] exI [of _ s'])
        (simp add: run_polls.simps(2) [of _ _ _ "Suc k"] del: run_polls.simps(2))
  qed
  from Cons.prems(3) show ?case
  proof (cases rule: input_edges_cases)
    case 1
    have "poll_next A D t (s, sinks) = (Pending, ?s, sinks)"
      using Cons.prems(1,2) 1(1) by (simp add: poll_next_def)
    then show ?thesis
      using Cons.IH [of ?s rows] Cons.prems 1(2) by (intro step [of ?s]) simp_all
  next
    case (2 b xs ys)
    show ?thesis
    proof (cases "(length (bs_edges s) + length xs) * 16 \<le> limit")
      case True
      then have "within_limit (bs_config s) (length (bs_edges s) + length xs)"
        using Cons.prems(4,5) by (simp add: within_limit_def)
      then have "extract_edges A b ?s = (Ok (), take_rows xs ?s)"
        using 2(2) by (intro extract_edges_Ok) simp_all
      then have "poll_next A D t (s, sinks) = (Pending, take_rows xs ?s, sinks)"
        using Cons.prems(1,2) 2(1) by (simp add: poll_next_def)
      then show ?thesis
        using Cons.IH [of "take_rows xs ?s" ys] Cons.prems 2(3,4) True
        by (intro step [of "take_rows xs ?s"]) (simp_all add: add.assoc)
    next
      case False
      then obtain s' where
        "extract_edges A b ?s = (Err (memory_limit_error ((limit div 16 + 1) * 16) limit), s')"
        using extract_edges_exceeds [of A ?s b xs limit] Cons.prems(4-6) 2(2) by auto
      then have "poll_next A D t (s, sinks) =
          (Ready (Some (Err (memory_limit_error ((limit div 16 + 1) * 16) limit))),
           s'\<lparr>bs_finished := True\<rparr>, sinks)"
        using Cons.prems(1,2) 2(1) by (simp add: poll_next_def)
      then show ?thesis by (intro exI [of _ 0] exI [of _ "s'\<lparr>bs_finished := True\<rparr>"]) simp
    qed
  qed
qed simp

section \<open>Properties\<close>

text \<open>The builder of a stream that has taken the rows is the builder of the rows.\<close>

lemma stream_builder_rows:
  "stream_builder ((take_rows rows (build_stream_new evs cfg s))\<lparr>bs_input := rest\<rparr>) =
   rows_builder (xc_shard_size cfg) (xc_weight_column cfg \<noteq> None) rows"
  by (simp add: stream_builder_def rows_builder_def take_rows_def build_stream_new_def
      zip_map_fst_snd)

definition stats_batch :: "('m, 's) csr_graph \<Rightarrow> nat \<Rightarrow> record_batch" where
  "stats_batch g elapsed_millis =
     \<lparr>batch_schema = stats_schema, batch_columns = stats_columns g elapsed_millis, batch_rows = 1\<rparr>"

lemma stats_try_new:
  "arrow_laws A \<Longrightarrow> aw_try_new A stats_schema (stats_columns g t) = Ok (stats_batch g t)"
proof -
  assume A: "arrow_laws A"
  have "batch_fits stats_schema (stats_columns g t)"
    by (simp add: batch_fits_def stats_schema_def stats_columns_def field_new_def)
  from try_new_fits [OF A this] show ?thesis by (simp add: stats_batch_def stats_columns_def)
qed

lemma small_within: "small_ids rows \<Longrightarrow> xc_memory_limit cfg = None \<Longrightarrow> within_limit cfg (length rows)"
  by (simp add: within_limit_def small_ids_def u32_max_def usize_max_def)

text \<open>The polls of a stream whose rows build a graph.\<close>

lemma stream_polls:
  assumes "arrow_laws A" "dash_laws D"
    and "input_edges A cfg s evs = Some rows" "within_limit cfg (length rows)"
    and "build D (rows_builder (xc_shard_size cfg) (xc_weight_column cfg \<noteq> None) rows) = Ok g"
  shows "\<exists>st. run_polls A D t (length evs + 1 + n) (build_stream_new evs cfg s, sinks) =
      (replicate (length evs) Pending @ [Ready (Some (Ok (stats_batch g t)))] @ replicate n (Ready None),
       st, case xc_graph_sink cfg of None \<Rightarrow> sinks | Some a \<Rightarrow> sink_set a g sinks)"
proof -
  let ?s = "build_stream_new evs cfg s" and ?s1 = "(take_rows rows (build_stream_new evs cfg s))\<lparr>bs_input := []\<rparr>"
  let ?sinks = "case xc_graph_sink cfg of None \<Rightarrow> sinks | Some a \<Rightarrow> sink_set a g sinks"
  have new: "\<not> bs_finished ?s" "bs_input ?s = evs @ []" "bs_config ?s = cfg" "bs_input_schema ?s = s"
    "bs_edges ?s = []" by (simp_all add: build_stream_new_def)
  have polls: "run_polls A D t (length evs) (?s, sinks) = (replicate (length evs) Pending, ?s1, sinks)"
    by (rule run_polls_input) (use new assms(3,4) in simp_all)
  have "stream_builder ?s1 = rows_builder (xc_shard_size cfg) (xc_weight_column cfg \<noteq> None) rows" by (rule stream_builder_rows)
  then obtain s2 where b: "build_csr A D t ?s1 sinks = (Ok (stats_batch g t), s2, ?sinks)"
    using assms(5) new(3) by (simp add: build_csr_def Let_def stats_try_new [OF assms(1)])
  have "?s1\<lparr>bs_input := []\<rparr> = ?s1" by simp
  then have fin: "poll_next A D t (?s1, sinks) =
      (Ready (Some (Ok (stats_batch g t))), s2\<lparr>bs_finished := True\<rparr>, ?sinks)"
    using new(1) b by (simp add: poll_next_def)
  have "run_polls A D t (length evs + 1 + n) (?s, sinks) =
      (replicate (length evs) Pending @ [Ready (Some (Ok (stats_batch g t)))] @ replicate n (Ready None),
       s2\<lparr>bs_finished := True\<rparr>, ?sinks)"
    unfolding run_polls_append [of A D t "length evs + 1"] run_polls_append [of A D t "length evs"]
    using polls fin by (simp add: run_polls_finished)
  then show ?thesis by blast
qed

text \<open>
  C12: the stream builds the graph of its input: when every batch has the configured columns,
  the rows without null ends fit the memory limit and 32 bits, and the input ends, then
  however the rows are split into batches and however often the input is pending, the polls
  return \<open>Pending\<close> for every input poll, then exactly one batch of statistics, then nothing
  forever.  The sink, unless it was already filled, holds the graph described: its neighbour
  lists are the targets of the rows in input order, and in weighted mode its row weights are
  theirs, null weights counting 1.
\<close>

theorem stream_builds_graph:
  assumes "arrow_laws A" "dash_laws D"
    and "input_edges A cfg s evs = Some rows" "within_limit cfg (length rows)"
    and "small_ids rows" "xc_shard_size cfg \<le> usize_max"
  shows "\<exists>g st. run_polls A D t (length evs + 1 + n) (build_stream_new evs cfg s, sinks) =
      (replicate (length evs) Pending @ [Ready (Some (Ok (stats_batch g t)))] @ replicate n (Ready None),
       st, case xc_graph_sink cfg of None \<Rightarrow> sinks | Some a \<Rightarrow> sink_set a g sinks) \<and>
    wf_graph D g \<and> edge_count g = length rows \<and>
    neighbors D g (NodeId v) = Ok (map (\<lambda>r. NodeId (snd (fst r))) (row_targets rows v)) \<and>
    (unat v < node_count g \<and> xc_weight_column cfg \<noteq> None \<longrightarrow>
       base_row_weights g (NodeId v) = Some (map snd (row_targets rows v)))"
proof -
  let ?w = "xc_weight_column cfg \<noteq> None"
  obtain g where g: "build D (rows_builder (xc_shard_size cfg) ?w rows) = Ok g" "wf_graph D g"
    "delta g = delta_new D" "edge_count g = length rows"
    "\<And>v. neighbor_list D g (NodeId v) = map (\<lambda>r. NodeId (snd (fst r))) (row_targets rows v)"
    "\<And>v. unat v < node_count g \<Longrightarrow> base_row_weights g (NodeId v) =
       (if ?w then Some (map snd (row_targets rows v)) else None)"
    by (rule rows_graph [OF assms(5,6,2)]) (rule that, assumption+)
  have "\<exists>st. run_polls A D t (length evs + 1 + n) (build_stream_new evs cfg s, sinks) =
      (replicate (length evs) Pending @ [Ready (Some (Ok (stats_batch g t)))] @ replicate n (Ready None),
       st, case xc_graph_sink cfg of None \<Rightarrow> sinks | Some a \<Rightarrow> sink_set a g sinks)"
    by (rule stream_polls [OF assms(1-4) g(1)])
  with g show ?thesis using neighbors_Ok [OF wf_graphD(1) [OF g(2)]] by auto
qed

definition example_batch :: "u64 option list \<Rightarrow> u64 option list \<Rightarrow> record_batch" where
  "example_batch ss ts =
     \<lparr>batch_schema = [field_new ''source'' DtUInt64 True, field_new ''target'' DtUInt64 True],
      batch_columns = [UInt64Array ss, UInt64Array ts], batch_rows = length ss\<rparr>"

definition example_input :: batch_stream where
  "example_input = [Pending, Ready (Some (Ok (example_batch [Some 0, None] [Some 1, Some 2]))),
     Ready (Some (Ok (example_batch [Some 1] [Some 2])))]"

abbreviation example_build_schema :: schema where
  "example_build_schema \<equiv> [field_new ''source'' DtUInt64 True, field_new ''target'' DtUInt64 True]"

lemma example_input_edges:
  "xc_source_column cfg = ''source'' \<Longrightarrow> xc_target_column cfg = ''target'' \<Longrightarrow> xc_weight_column cfg = None \<Longrightarrow>
   input_edges list_arrow cfg example_build_schema example_input =
     Some [((0, 1), f32_one), ((1, 2), f32_one)]"
  by (simp add: example_input_def example_batch_def batch_edges_def extract_columns_def find_column_def
      id_column_values_def weight_column_values_def list_arrow_def field_new_def row_edge_def
      upt_rec Let_def)

theorem stream_builds_graph_witness:
  "\<exists>(g :: ((edge_key \<times> edge_data) list, edge_key list) csr_graph) st. run_polls list_arrow list_dash 7 5
      (build_stream_new example_input (build_exec_config_default 1) example_build_schema, \<lambda>_. None) =
    ([Pending, Pending, Pending, Ready (Some (Ok (stats_batch g 7))), Ready None], st, \<lambda>_. None) \<and>
    edge_count g = 2"
proof -
  let ?rows = "[((0, 1), f32_one), ((1, 2), f32_one)] :: ((u64 \<times> u64) \<times> f32) list" and ?cfg = "build_exec_config_default 1"
  have "input_edges list_arrow ?cfg example_build_schema example_input = Some ?rows"
    by (rule example_input_edges) (simp_all add: build_exec_config_default_def)
  moreover have small: "small_ids ?rows" by (simp add: small_ids_def u32_max_def)
  moreover have "within_limit ?cfg (length ?rows)"
    by (rule small_within [OF small]) (simp add: build_exec_config_default_def)
  moreover have "xc_shard_size ?cfg \<le> usize_max"
    by (simp add: build_exec_config_default_def usize_max_def)
  ultimately obtain g st where
    "run_polls list_arrow list_dash 7 (length example_input + 1 + 1)
       (build_stream_new example_input ?cfg example_build_schema, \<lambda>_. None) =
      (replicate (length example_input) Pending @ [Ready (Some (Ok (stats_batch g 7)))] @
         replicate 1 (Ready None),
       st, case xc_graph_sink ?cfg of None \<Rightarrow> \<lambda>_. None | Some a \<Rightarrow> sink_set a g (\<lambda>_. None))"
    "edge_count g = length ?rows"
    using stream_builds_graph [OF list_arrow_laws list_dash_laws, of ?cfg example_build_schema
        example_input ?rows 7 1 "\<lambda>_. None"] by blast
  moreover have "length example_input = 3" "xc_graph_sink ?cfg = None"
    by (simp_all add: example_input_def build_exec_config_default_def)
  ultimately show ?thesis
    by (intro exI [of _ g] exI [of _ st]) (simp add: numeral_eq_Suc del: run_polls.simps)
qed

text \<open>
  C36: the first failure ends the stream: an error of the input, or a batch that lacks a
  configured column or has it with another type, is returned as it is, once; no poll after
  that returns anything, and nothing is published.
\<close>

theorem stream_stops_at_error:
  assumes "input_edges A cfg s pre = Some rows" "within_limit cfg (length rows)"
    and "ev = Ready (Some (Err e)) \<or> (\<exists>b. ev = Ready (Some (Ok b)) \<and> extract_columns A cfg s b = Err e)"
  shows "\<exists>st. run_polls A D t (length pre + 1 + n) (build_stream_new (pre @ ev # rest) cfg s, sinks) =
    (replicate (length pre) Pending @ [Ready (Some (Err e))] @ replicate n (Ready None), st, sinks)"
proof -
  let ?s = "build_stream_new (pre @ ev # rest) cfg s"
  let ?s1 = "(take_rows rows ?s)\<lparr>bs_input := ev # rest\<rparr>"
  have new: "\<not> bs_finished ?s" "bs_input ?s = pre @ ev # rest" "bs_config ?s = cfg"
    "bs_input_schema ?s = s" "bs_edges ?s = []" by (simp_all add: build_stream_new_def)
  have polls: "run_polls A D t (length pre) (?s, sinks) = (replicate (length pre) Pending, ?s1, sinks)"
    by (rule run_polls_input) (use new assms(1,2) in simp_all)
  obtain s2 where fin: "poll_next A D t (?s1, sinks) = (Ready (Some (Err e)), s2, sinks)" "bs_finished s2"
    using assms(3) new(1,3,4) by (auto simp: poll_next_def extract_edges_def)
  have "run_polls A D t (length pre + 1 + n) (?s, sinks) =
      (replicate (length pre) Pending @ [Ready (Some (Err e))] @ replicate n (Ready None), s2, sinks)"
    unfolding run_polls_append [of A D t "length pre + 1"] run_polls_append [of A D t "length pre"]
    using polls fin by (simp add: run_polls_finished)
  then show ?thesis ..
qed

theorem stream_stops_at_error_witness:
  "\<exists>st. run_polls list_arrow list_dash 0 6
      (build_stream_new (example_input @ [Ready (Some (Err (DfOther ''boom'')))])
         (build_exec_config_default 1) example_build_schema, \<lambda>_. None) =
    ([Pending, Pending, Pending, Ready (Some (Err (DfOther ''boom''))), Ready None, Ready None],
     st, \<lambda>_. None)"
proof -
  let ?rows = "[((0, 1), f32_one), ((1, 2), f32_one)] :: ((u64 \<times> u64) \<times> f32) list" and ?cfg = "build_exec_config_default 1"
  have "input_edges list_arrow ?cfg example_build_schema example_input = Some ?rows"
    by (rule example_input_edges) (simp_all add: build_exec_config_default_def)
  moreover have "within_limit ?cfg (length ?rows)"
    by (simp add: within_limit_def build_exec_config_default_def usize_max_def)
  ultimately obtain st where "run_polls list_arrow list_dash 0 (length example_input + 1 + 2)
      (build_stream_new (example_input @ [Ready (Some (Err (DfOther ''boom'')))]) ?cfg example_build_schema,
       \<lambda>_. None) =
    (replicate (length example_input) Pending @ [Ready (Some (Err (DfOther ''boom'')))] @
       replicate 2 (Ready None), st, \<lambda>_. None)"
    using stream_stops_at_error [of list_arrow ?cfg example_build_schema example_input ?rows
        "Ready (Some (Err (DfOther ''boom'')))" "DfOther ''boom''" list_dash 0 2 "[]" "\<lambda>_. None"]
    by blast
  then show ?thesis by (simp add: example_input_def numeral_eq_Suc)
qed

text \<open>
  C35: the memory limit: 16 bytes are counted per kept edge; input whose edges need more than
  the limit is refused with an error that names the first byte count over it, at some poll
  before the input has ended, after which the stream is over and nothing is published.
\<close>

theorem memory_limit_enforced:
  assumes "input_edges A cfg s evs = Some rows"
    and "xc_memory_limit cfg = Some limit" "limit + 16 \<le> usize_max" "limit < length rows * 16"
  shows "\<exists>k st. k < length evs \<and>
    run_polls A D t (k + 1 + n) (build_stream_new evs cfg s, sinks) =
    (replicate k Pending @
       [Ready (Some (Err (memory_limit_error ((limit div 16 + 1) * 16) limit)))] @
       replicate n (Ready None), st, sinks)"
proof -
  let ?s = "build_stream_new evs cfg s"
  obtain k s' where k: "k < length evs" "bs_finished s'" "run_polls A D t (Suc k) (?s, sinks) =
      (replicate k Pending @ [Ready (Some (Err (memory_limit_error ((limit div 16 + 1) * 16) limit)))],
       s', sinks)"
    using run_polls_exceeds [of ?s evs A rows limit D t sinks] assms
    by (auto simp: build_stream_new_def)
  have "run_polls A D t (k + 1 + n) (?s, sinks) =
      (replicate k Pending @
         [Ready (Some (Err (memory_limit_error ((limit div 16 + 1) * 16) limit)))] @
         replicate n (Ready None), s', sinks)"
    unfolding run_polls_append [of A D t "k + 1"]
    using k by (simp add: run_polls_finished del: run_polls.simps)
  with k(1) show ?thesis by blast
qed

theorem memory_limit_enforced_witness:
  "\<exists>k st. k < 3 \<and> run_polls list_arrow list_dash 0 (k + 1 + 1)
      (build_stream_new example_input ((build_exec_config_default 1)\<lparr>xc_memory_limit := Some 20\<rparr>)
         example_build_schema, \<lambda>_. None) =
    (replicate k Pending @ [Ready (Some (Err (memory_limit_error 32 20)))] @ [Ready None],
     st, \<lambda>_. None)"
proof -
  let ?rows = "[((0, 1), f32_one), ((1, 2), f32_one)] :: ((u64 \<times> u64) \<times> f32) list"
  let ?cfg = "(build_exec_config_default 1)\<lparr>xc_memory_limit := Some 20\<rparr>"
  have "input_edges list_arrow ?cfg example_build_schema example_input = Some ?rows"
    by (rule example_input_edges) (simp_all add: build_exec_config_default_def)
  moreover have "xc_memory_limit ?cfg = Some 20" by simp
  moreover have "20 + 16 \<le> usize_max" "20 < length ?rows * 16" by (simp_all add: usize_max_def)
  moreover have "length example_input = 3" by (simp add: example_input_def)
  moreover have "((20 :: nat) div 16 + 1) * 16 = 32" "replicate 1 (Ready None) = [Ready None]" by simp_all
  ultimately show ?thesis
    using memory_limit_enforced [of list_arrow ?cfg example_build_schema example_input ?rows 20
        list_dash 0 1 "\<lambda>_. None"] by metis
qed

end
