(* ===== verification/Catalog.thy ===== *)
theory Catalog
  imports Traversal_Exec Dictionary "HOL-Library.AList" "HOL-Library.List_Lexorder" "HOL-Library.Char_ord"
begin

text \<open>
  The graph catalog (\<open>udtf.rs\<close>): a registry of named graphs with lazily built, memoised
  transposes and optional key dictionaries, and the compaction of a registered graph in its
  three steps.  The table functions over the catalog are in \<open>Traverse_Udtf\<close>.

  Graphs and entries are shared (\<open>Arc\<close>) and have interior mutability (a graph's delta layer,
  an entry's transpose cell), so both live in stores and are referred to by address.  Poisoned
  locks are not modelled: no operation panics while it holds one.
\<close>

section \<open>State\<close>

type_synonym graph_addr = nat
type_synonym entry_addr = nat

record graph_entry =
  ge_forward :: graph_addr
  ge_reverse :: "graph_addr option"
  ge_dictionary :: "node_dictionary option"

record ('m, 's) catalog =
  gc_heap :: "graph_addr \<Rightarrow> ('m, 's) csr_graph"
  gc_next_graph :: graph_addr
  gc_entries :: "entry_addr \<Rightarrow> graph_entry"
  gc_next_entry :: entry_addr
  gc_registry :: "(string \<times> entry_addr) list"

text \<open>A new catalog; the graphs and entries that exist elsewhere stay where they are.\<close>

definition catalog_new :: "(graph_addr \<Rightarrow> ('m, 's) csr_graph) \<Rightarrow> graph_addr \<Rightarrow> ('m, 's) catalog" where
  "catalog_new heap next_graph =
     \<lparr>gc_heap = heap, gc_next_graph = next_graph, gc_entries = (\<lambda>_. \<lparr>ge_forward = 0,
        ge_reverse = None, ge_dictionary = None\<rparr>), gc_next_entry = 0, gc_registry = []\<rparr>"

text \<open>\<open>Arc::new\<close>\<close>

definition alloc_graph ::
  "('m, 's) csr_graph \<Rightarrow> ('m, 's) catalog \<Rightarrow> graph_addr \<times> ('m, 's) catalog" where
  "alloc_graph g c = (gc_next_graph c,
     c\<lparr>gc_heap := (gc_heap c)(gc_next_graph c := g), gc_next_graph := Suc (gc_next_graph c)\<rparr>)"

definition entry_new :: "graph_addr \<Rightarrow> graph_entry" where
  "entry_new a = \<lparr>ge_forward = a, ge_reverse = None, ge_dictionary = None\<rparr>"

text \<open>\<open>Arc::new\<close> of an entry, inserted into the registry under a name.\<close>

definition put_entry :: "string \<Rightarrow> graph_entry \<Rightarrow> ('m, 's) catalog \<Rightarrow> ('m, 's) catalog" where
  "put_entry name e c =
     c\<lparr>gc_entries := (gc_entries c)(gc_next_entry c := e), gc_next_entry := Suc (gc_next_entry c),
       gc_registry := AList.update name (gc_next_entry c) (gc_registry c)\<rparr>"

definition catalog_entry :: "('m, 's) catalog \<Rightarrow> string \<Rightarrow> entry_addr option" where
  "catalog_entry c name = map_of (gc_registry c) name"

definition entry_of :: "('m, 's) catalog \<Rightarrow> string \<Rightarrow> graph_entry option" where
  "entry_of c name = map_option (gc_entries c) (catalog_entry c name)"

section \<open>Operations of the catalog\<close>

definition catalog_get :: "('m, 's) catalog \<Rightarrow> string \<Rightarrow> graph_addr option" where
  "catalog_get c name = map_option ge_forward (entry_of c name)"

definition catalog_dictionary :: "('m, 's) catalog \<Rightarrow> string \<Rightarrow> node_dictionary option" where
  "catalog_dictionary c name = Option.bind (entry_of c name) ge_dictionary"

definition register ::
  "string \<Rightarrow> graph_addr \<Rightarrow> ('m, 's) catalog \<Rightarrow> graph_addr option \<times> ('m, 's) catalog" where
  "register name g c = (catalog_get c name, put_entry name (entry_new g) c)"

definition register_with_reverse ::
  "string \<Rightarrow> graph_addr \<Rightarrow> graph_addr \<Rightarrow> ('m, 's) catalog \<Rightarrow> ('m, 's) catalog" where
  "register_with_reverse name forward reverse c =
     put_entry name ((entry_new forward)\<lparr>ge_reverse := Some reverse\<rparr>) c"

definition register_with_dictionary ::
  "string \<Rightarrow> graph_addr \<Rightarrow> node_dictionary \<Rightarrow> ('m, 's) catalog \<Rightarrow> ('m, 's) catalog" where
  "register_with_dictionary name forward d c =
     put_entry name \<lparr>ge_forward = forward, ge_reverse = None, ge_dictionary = Some d\<rparr> c"

definition deregister :: "string \<Rightarrow> ('m, 's) catalog \<Rightarrow> graph_addr option \<times> ('m, 's) catalog" where
  "deregister name c = (catalog_get c name, c\<lparr>gc_registry := AList.delete name (gc_registry c)\<rparr>)"

text \<open>Strings sort by their bytes.\<close>

definition catalog_names :: "('m, 's) catalog \<Rightarrow> string list" where
  "catalog_names c = sort (map fst (gc_registry c))"

text \<open>
  The memoised transpose.  The result is the address of what the entry's cell holds in the
  end; the cell is written only when it is empty.
\<close>

definition catalog_reverse ::
  "('m, 's) dash \<Rightarrow> string \<Rightarrow> ('m, 's) catalog \<Rightarrow> graph_addr option df_result \<times> ('m, 's) catalog" where
  "catalog_reverse D name c =
     (case catalog_entry c name of
        None \<Rightarrow> (Ok None, c)
      | Some e \<Rightarrow>
          (case ge_reverse (gc_entries c e) of
             Some r \<Rightarrow> (Ok (Some r), c)
           | None \<Rightarrow>
               (case transpose D (gc_heap c (ge_forward (gc_entries c e))) of
                  Ok g \<Rightarrow>
                    (let (built, c1) = alloc_graph g c
                     in (Ok (Some built),
                         c1\<lparr>gc_entries := (gc_entries c1)
                           (e := (gc_entries c1 e)\<lparr>ge_reverse := Some built\<rparr>)\<rparr>))
                | Err err \<Rightarrow> (Err (DfExternal err), c)
                | Panic \<Rightarrow> (Panic, c))))"

subsection \<open>Compaction of a registered graph\<close>

text \<open>
  The three steps between which other threads can run: compacting, which drains the delta of
  the registered graph (a single step here: writes between its two drains are not covered); moving mutations that arrived meanwhile to the compacted graph; and
  swapping the registry entry.  The compacted graph is not shared before the swap.
\<close>

datatype ('m, 's) compaction =
    NotNeeded
  | Compacted entry_addr "('m, 's) csr_graph"

definition compaction_begin ::
  "('m, 's) dash \<Rightarrow> string \<Rightarrow> compaction_policy \<Rightarrow> ('m, 's) catalog \<Rightarrow>
   ('m, 's) compaction df_result \<times> ('m, 's) catalog" where
  "compaction_begin D name policy c =
     (case catalog_entry c name of
        None \<Rightarrow> (Ok NotNeeded, c)
      | Some e \<Rightarrow>
          (let a = ge_forward (gc_entries c e); g = gc_heap c a
           in if \<not> should_compact D g policy then (Ok NotNeeded, c)
              else
                (let (r, old) = compact D g
                 in (map_res (Compacted e) (lift_err DfExternal r),
                     c\<lparr>gc_heap := (gc_heap c)(a := old)\<rparr>))))"

definition compaction_replay ::
  "('m, 's) dash \<Rightarrow> entry_addr \<Rightarrow> ('m, 's) csr_graph \<Rightarrow> ('m, 's) catalog \<Rightarrow>
   ('m, 's) csr_graph \<times> ('m, 's) catalog" where
  "compaction_replay D e compacted c =
     (let a = ge_forward (gc_entries c e); g = gc_heap c a;
          (ins, d1) = delta_drain_insertions D (delta g);
          (dels, d2) = delta_drain_deletions D d1;
          new1 = fold (\<lambda>((f, t), data) d. delta_insert D f t data d) ins (delta compacted);
          new2 = fold (\<lambda>(f, t) d. delta_delete D f t d) dels new1
      in (compacted\<lparr>delta := new2\<rparr>, c\<lparr>gc_heap := (gc_heap c)(a := g\<lparr>delta := d2\<rparr>)\<rparr>))"

definition compaction_swap ::
  "string \<Rightarrow> entry_addr \<Rightarrow> ('m, 's) csr_graph \<Rightarrow> ('m, 's) catalog \<Rightarrow> ('m, 's) catalog" where
  "compaction_swap name e compacted c =
     (let (a, c1) = alloc_graph compacted c
      in put_entry name
           \<lparr>ge_forward = a, ge_reverse = None, ge_dictionary = ge_dictionary (gc_entries c e)\<rparr> c1)"

definition compact_if_needed ::
  "('m, 's) dash \<Rightarrow> string \<Rightarrow> compaction_policy \<Rightarrow> ('m, 's) catalog \<Rightarrow>
   bool df_result \<times> ('m, 's) catalog" where
  "compact_if_needed D name policy c =
     (case compaction_begin D name policy c of
        (Ok NotNeeded, c1) \<Rightarrow> (Ok False, c1)
      | (Ok (Compacted e g), c1) \<Rightarrow>
          (let (g', c2) = compaction_replay D e g c1
           in (Ok True, compaction_swap name e g' c2))
      | (Err err, c1) \<Rightarrow> (Err err, c1)
      | (Panic, c1) \<Rightarrow> (Panic, c1))"

section \<open>The registry\<close>

text \<open>
  What a client of a registry relies on: a lookup after a registration or a removal, whatever
  else is registered, as long as what is registered fits the store.
\<close>

datatype 'e registry_op = Put string 'e | Remove string

fun registry_key :: "'e registry_op \<Rightarrow> string" where
  "registry_key (Put n _) = n"
| "registry_key (Remove n) = n"

definition last_put :: "'e registry_op list \<Rightarrow> string \<Rightarrow> (string \<rightharpoonup> 'e) \<Rightarrow> 'e option" where
  "last_put ops n before = (case rev (filter (\<lambda>p. registry_key p = n) ops) of
     [] \<Rightarrow> before n | Put _ e # _ \<Rightarrow> Some e | Remove _ # _ \<Rightarrow> None)"

lemma last_put_Nil [simp]: "last_put [] n before = before n"
  by (simp add: last_put_def)

lemma last_put_snoc [simp]:
  "last_put (ops @ [p]) n before =
     (if registry_key p = n then (case p of Put _ e \<Rightarrow> Some e | Remove _ \<Rightarrow> None)
      else last_put ops n before)"
  by (simp add: last_put_def)

locale named_registry =
  fixes inv :: "'c \<Rightarrow> bool"
    and fits :: "'c \<Rightarrow> 'e \<Rightarrow> bool"
    and lookup :: "'c \<Rightarrow> string \<rightharpoonup> 'e"
    and put :: "string \<Rightarrow> 'e \<Rightarrow> 'c \<Rightarrow> 'c"
    and remove :: "string \<Rightarrow> 'c \<Rightarrow> 'c"
  assumes inv_put: "inv c \<Longrightarrow> fits c e \<Longrightarrow> inv (put n e c)"
    and inv_remove: "inv c \<Longrightarrow> inv (remove n c)"
    and fits_put: "fits c e \<Longrightarrow> fits (put n e' c) e"
    and fits_remove: "fits c e \<Longrightarrow> fits (remove n c) e"
    and lookup_put: "inv c \<Longrightarrow> lookup (put n e c) = (lookup c)(n \<mapsto> e)"
    and lookup_remove: "inv c \<Longrightarrow> lookup (remove n c) = (lookup c)(n := None)"
begin

definition step :: "'e registry_op \<Rightarrow> 'c \<Rightarrow> 'c" where
  "step p = (case p of Put n e \<Rightarrow> put n e | Remove n \<Rightarrow> remove n)"

lemma step_simps [simp]: "step (Put n e) c = put n e c" "step (Remove n) c = remove n c"
  by (simp_all add: step_def)

lemma run_last_put:
  assumes "inv c" "\<And>n e. Put n e \<in> set ops \<Longrightarrow> fits c e"
  shows "inv (fold step ops c) \<and> (\<forall>e. fits c e \<longrightarrow> fits (fold step ops c) e) \<and>
    lookup (fold step ops c) n = last_put ops n (lookup c)"
  using assms(2)
proof (induction ops rule: rev_induct)
  case Nil
  then show ?case using assms(1) by simp
next
  case (snoc p ops)
  let ?c = "fold step ops c"
  have IH: "inv ?c" "\<And>e. fits c e \<Longrightarrow> fits ?c e" "lookup ?c n = last_put ops n (lookup c)"
    using snoc by auto
  show ?case
  proof (cases p)
    case (Put m e)
    then have "fits c e" using snoc.prems [of m e] by simp
    then have "fits ?c e" by (rule IH(2))
    with Put IH show ?thesis
      by (auto simp: inv_put fits_put lookup_put)
  next
    case (Remove m)
    with IH show ?thesis
      by (auto simp: inv_remove fits_remove lookup_remove)
  qed
qed

end

definition entry_fits :: "('m, 's) catalog \<Rightarrow> graph_entry \<Rightarrow> bool" where
  "entry_fits c e \<longleftrightarrow> ge_forward e < gc_next_graph c \<and>
     (\<forall>r. ge_reverse e = Some r \<longrightarrow> r < gc_next_graph c)"

text \<open>Names are unique and no reference dangles.\<close>

definition wf_catalog :: "('m, 's) catalog \<Rightarrow> bool" where
  "wf_catalog c \<longleftrightarrow> distinct (map fst (gc_registry c)) \<and>
     (\<forall>(n, e) \<in> set (gc_registry c). e < gc_next_entry c) \<and>
     (\<forall>e < gc_next_entry c. entry_fits c (gc_entries c e))"

lemma catalog_entry_less:
  "wf_catalog c \<Longrightarrow> catalog_entry c n = Some e \<Longrightarrow> e < gc_next_entry c"
  by (force simp: wf_catalog_def catalog_entry_def dest: map_of_SomeD)

lemma entry_of_fits:
  assumes "wf_catalog c" "entry_of c n = Some e"
  shows "entry_fits c e"
proof -
  obtain a where "catalog_entry c n = Some a" "e = gc_entries c a"
    using assms(2) by (auto simp: entry_of_def)
  with catalog_entry_less [OF assms(1)] assms(1) show ?thesis by (auto simp: wf_catalog_def)
qed

lemma wf_put_entry:
  assumes "wf_catalog c" "entry_fits c e"
  shows "wf_catalog (put_entry n e c)"
proof -
  have "distinct (map fst (AList.update n (gc_next_entry c) (gc_registry c)))"
    using assms(1) by (simp add: wf_catalog_def distinct_update)
  moreover have "e' < Suc (gc_next_entry c)"
    if "(m, e') \<in> set (AList.update n (gc_next_entry c) (gc_registry c))" for m e'
  proof -
    have "map_of (AList.update n (gc_next_entry c) (gc_registry c)) m = Some e'"
      using that calculation by (rule map_of_is_SomeI [rotated])
    then show ?thesis
      using catalog_entry_less [OF assms(1), of m e']
      by (auto simp: update_conv' catalog_entry_def split: if_splits)
  qed
  ultimately show ?thesis
    using assms by (auto simp: wf_catalog_def put_entry_def entry_fits_def less_Suc_eq)
qed

lemma entry_of_put:
  assumes "wf_catalog c"
  shows "entry_of (put_entry n e c) = (entry_of c)(n \<mapsto> e)"
proof
  fix m
  show "entry_of (put_entry n e c) m = ((entry_of c)(n \<mapsto> e)) m"
  proof (cases "m = n")
    case False
    have "e' \<noteq> gc_next_entry c" if "map_of (gc_registry c) m = Some e'" for e'
      using catalog_entry_less [OF assms, of m e'] that by (auto simp: catalog_entry_def)
    with False show ?thesis
      by (cases "map_of (gc_registry c) m")
        (auto simp: entry_of_def catalog_entry_def put_entry_def update_conv')
  qed (simp add: entry_of_def catalog_entry_def put_entry_def update_conv')
qed

lemma wf_deregister: "wf_catalog c \<Longrightarrow> wf_catalog (snd (deregister n c))"
  using distinct_delete [of "gc_registry c" n]
  by (auto simp: wf_catalog_def deregister_def entry_fits_def AList.delete_eq)

lemma entry_of_deregister: "entry_of (snd (deregister n c)) = (entry_of c)(n := None)"
  by (auto simp: entry_of_def catalog_entry_def deregister_def delete_conv' fun_eq_iff)

interpretation graphs: named_registry wf_catalog entry_fits entry_of put_entry
  "\<lambda>n c. snd (deregister n c)"
proof
  show "entry_fits c e \<Longrightarrow> entry_fits (put_entry n e' c) e"
    "entry_fits c e \<Longrightarrow> entry_fits (snd (deregister n c)) e"
    for c :: "('m, 's) catalog" and n e e'
    by (simp_all add: entry_fits_def put_entry_def deregister_def)
qed (simp_all add: wf_put_entry wf_deregister entry_of_put entry_of_deregister)

section \<open>Compaction and concurrent writes\<close>

text \<open>A writer that holds a graph applies operations to its delta layer.\<close>

definition apply_writes ::
  "('m, 's) dash \<Rightarrow> graph_addr \<Rightarrow> delta_op list \<Rightarrow> ('m, 's) catalog \<Rightarrow> ('m, 's) catalog" where
  "apply_writes D a ops c =
     c\<lparr>gc_heap := (gc_heap c)(a := (gc_heap c a)
       \<lparr>delta := fold (delta_step D) ops (delta (gc_heap c a))\<rparr>)\<rparr>"

lemma fold_insert_drained:
  assumes "dash_laws D"
  shows "dom (inserted D (fold (\<lambda>((f, t), x) d. delta_insert D f t x d) es d)) =
      dom (inserted D d) \<union> fst ` set es"
    "deleted D (fold (\<lambda>((f, t), x) d. delta_insert D f t x d) es d) = deleted D d - fst ` set es"
  using assms by (induction es arbitrary: d) (auto simp: case_prod_beta)

lemma fold_delete_drained:
  assumes "dash_laws D"
  shows "dom (inserted D (fold (\<lambda>(f, t) d. delta_delete D f t d) ks d)) = dom (inserted D d) - set ks"
    "deleted D (fold (\<lambda>(f, t) d. delta_delete D f t d) ks d) = deleted D d \<union> set ks"
  using assms by (induction ks arbitrary: d) (auto simp: case_prod_beta)

lemma compaction_replay_eq:
  assumes D: "dash_laws D" and e: "ge_forward (gc_entries c e) = a"
    and new: "inserted D (delta g') = Map.empty" "deleted D (delta g') = {}"
    and old: "wf_delta D (delta (gc_heap c a))"
  obtains d d' where "compaction_replay D e g' c =
      (g'\<lparr>delta := d\<rparr>, c\<lparr>gc_heap := (gc_heap c)(a := (gc_heap c a)\<lparr>delta := d'\<rparr>)\<rparr>)"
    "wf_delta D d" "dom (inserted D d) = dom (inserted D (delta (gc_heap c a)))"
    "deleted D d = deleted D (delta (gc_heap c a))"
    "inserted D d' = Map.empty" "deleted D d' = {}"
proof -
  let ?d = "delta (gc_heap c a)"
  obtain ins d1 where i: "delta_drain_insertions D ?d = (ins, d1)" by fastforce
  obtain dels d2 where x: "delta_drain_deletions D d1 = (dels, d2)" by fastforce
  note i' = drain_insertions [OF D i] and x' = drain_deletions [OF D x]
  let ?new = "fold (\<lambda>(f, t) d. delta_delete D f t d) dels
    (fold (\<lambda>((f, t), x) d. delta_insert D f t x d) ins (delta g'))"
  have ins: "fst ` set ins = dom (inserted D ?d)"
    using i' by (simp add: inserted_def dom_map_of_conv_image_fst)
  have dels: "set dels = deleted D ?d" using i' x' by (simp add: deleted_def)
  have disjoint: "dom (inserted D ?d) \<inter> deleted D ?d = {}" using old by (simp add: wf_delta_def)
  have new': "dom (inserted D ?new) = dom (inserted D ?d)" "deleted D ?new = deleted D ?d"
    using disjoint by (auto simp: fold_insert_drained [OF D] fold_delete_drained [OF D] ins dels new)
  then have wf: "wf_delta D ?new" using D disjoint by (simp add: wf_delta_def)
  have empty: "inserted D d2 = Map.empty" "deleted D d2 = {}"
    using i' x' by (simp_all add: inserted_def)
  have replay: "compaction_replay D e g' c =
      (g'\<lparr>delta := ?new\<rparr>, c\<lparr>gc_heap := (gc_heap c)(a := (gc_heap c a)\<lparr>delta := d2\<rparr>)\<rparr>)"
    using i x e by (simp add: compaction_replay_def Let_def)
  show thesis by (rule that [OF replay wf new' empty])
qed

text \<open>
  Compaction with writes between the draining and the replay: what the registered graph is
  afterwards.
\<close>

definition write_effect :: "delta_op list \<Rightarrow> edge_key \<Rightarrow> bool \<Rightarrow> bool" where
  "write_effect ops k before = (case last_op ops k of
     None \<Rightarrow> before | Some (Insert _ _ _) \<Rightarrow> True | Some (Delete _ _) \<Rightarrow> False)"

lemma compaction_begin_Ok:
  assumes "entry_of c name = Some en" "gc_heap c (ge_forward en) = g"
    and "wf_graph D g" "compactable D g" "should_compact D g policy"
  obtains e g' d where "catalog_entry c name = Some e" "gc_entries c e = en"
    "compaction_begin D name policy c =
       (Ok (Compacted e g'), c\<lparr>gc_heap := (gc_heap c)(ge_forward en := g\<lparr>delta := d\<rparr>)\<rparr>)"
    "wf_graph D g'" "delta g' = delta_new D" "base_edges g' = graph_edges D g"
    "inserted D d = Map.empty" "deleted D d = {}" "compactable D g'"
    "\<And>a. neighbor_list D g' a = neighbor_list D g a"
proof -
  obtain e where e: "catalog_entry c name = Some e" "gc_entries c e = en"
    using assms(1) by (auto simp: entry_of_def)
  obtain g' d where g': "compact D g = (Ok g', g\<lparr>delta := d\<rparr>)" "build D (compact_builder D g) = Ok g'"
    "wf_graph D g'" "delta g' = delta_new D" "inserted D d = Map.empty" "deleted D d = {}"
    "\<And>a. neighbor_list D g' a = neighbor_list D g a"
    by (rule compact_Ok [OF assms(3,4)]) (rule that, assumption+)
  have D: "dash_laws D" by (rule wf_graphD(3) [OF assms(3)])
  have "(a, b) \<in> graph_edges D g' \<longleftrightarrow> (a, b) \<in> graph_edges D g" for a b
    using set_neighbor_list [OF D, of g' a] set_neighbor_list [OF D, of g a] g'(7) [of a] by auto
  then have "graph_edges D g' = graph_edges D g" by auto
  then have "base_edges g' = graph_edges D g"
    using g'(4) D by (simp add: graph_edges_def)
  moreover have "compaction_begin D name policy c =
      (Ok (Compacted e g'), c\<lparr>gc_heap := (gc_heap c)(ge_forward en := g\<lparr>delta := d\<rparr>)\<rparr>)"
    using e g'(1) assms(2,5) by (simp add: compaction_begin_def Let_def)
  moreover have "compactable D g'"
    by (rule buildable_compactable [OF buildable_compact [OF assms(3,4)] D g'(2)])
  ultimately show thesis using that e g' by blast
qed

lemma wf_catalog_heap [simp]: "wf_catalog (c\<lparr>gc_heap := h\<rparr>) = wf_catalog c"
  by (simp add: wf_catalog_def entry_fits_def)

lemma entry_of_heap [simp]: "entry_of (c\<lparr>gc_heap := h\<rparr>) = entry_of c"
  by (simp add: entry_of_def catalog_entry_def fun_eq_iff)

lemma wf_alloc: "wf_catalog c \<Longrightarrow> wf_catalog (snd (alloc_graph g c))"
  by (fastforce simp: alloc_graph_def wf_catalog_def entry_fits_def)

lemma compaction_swap_props:
  assumes "wf_catalog c" "gc_entries c e = en"
  defines "en' \<equiv> \<lparr>ge_forward = gc_next_graph c, ge_reverse = None, ge_dictionary = ge_dictionary en\<rparr>"
  shows "wf_catalog (compaction_swap name e g c)"
    "entry_of (compaction_swap name e g c) = (entry_of c)(name \<mapsto> en')"
    "gc_heap (compaction_swap name e g c) = (gc_heap c)(gc_next_graph c := g)"
proof -
  let ?c = "snd (alloc_graph g c)"
  have swap: "compaction_swap name e g c = put_entry name en' ?c"
    using assms(2) by (simp add: compaction_swap_def en'_def alloc_graph_def Let_def)
  have wf: "wf_catalog ?c" by (rule wf_alloc [OF assms(1)])
  have "entry_fits ?c en'" by (simp add: entry_fits_def en'_def alloc_graph_def)
  with wf show "wf_catalog (compaction_swap name e g c)" unfolding swap by (rule wf_put_entry)
  have "entry_of ?c = entry_of c" by (simp add: alloc_graph_def entry_of_def catalog_entry_def fun_eq_iff)
  then show "entry_of (compaction_swap name e g c) = (entry_of c)(name \<mapsto> en')"
    unfolding swap by (simp add: entry_of_put [OF wf])
  show "gc_heap (compaction_swap name e g c) = (gc_heap c)(gc_next_graph c := g)"
    unfolding swap by (simp add: put_entry_def alloc_graph_def)
qed

text \<open>Writes to a drained delta, then the replay into the compacted graph.\<close>

lemma written_delta:
  assumes D: "dash_laws D" and "inserted D d = Map.empty" "deleted D d = {}"
  shows "wf_delta D (fold (delta_step D) ops d)"
    "k \<in> dom (inserted D (fold (delta_step D) ops d)) \<or>
       k \<in> X - deleted D (fold (delta_step D) ops d) \<longleftrightarrow> write_effect ops k (k \<in> X)"
proof -
  have wf: "wf_delta D d" using assms by (simp add: wf_delta_def)
  show "wf_delta D (fold (delta_step D) ops d)"
    using overlay.run_refines_spec [OF wf] by (simp add: delta_step_fold)
  show "k \<in> dom (inserted D (fold (delta_step D) ops d)) \<or>
       k \<in> X - deleted D (fold (delta_step D) ops d) \<longleftrightarrow> write_effect ops k (k \<in> X)"
    using overlay.run_last_op [OF wf, of ops k] assms(2,3)
    by (auto simp: delta_step_fold write_effect_def split: option.splits delta_op.splits)
qed

text \<open>
  The compaction of a registered graph, with writes before the replay.  The entries and the
  registry are those of the start until the swap.
\<close>

lemma raced_compaction:
  assumes wf: "wf_catalog c" and en: "entry_of c name = Some en"
    and g: "wf_graph D (gc_heap c (ge_forward en))" "compactable D (gc_heap c (ge_forward en))"
      "should_compact D (gc_heap c (ge_forward en)) policy"
  obtains e g1 c1 g2 h where "compaction_begin D name policy c = (Ok (Compacted e g1), c1)"
    "gc_entries c e = en"
    "compaction_replay D e g1 (apply_writes D (ge_forward en) ops c1) = (g2, c\<lparr>gc_heap := h\<rparr>)"
    "wf_graph D g2"
    "\<And>k. k \<in> graph_edges D g2 \<longleftrightarrow> write_effect ops k (k \<in> graph_edges D (gc_heap c (ge_forward en)))"
    "\<And>d. wf_delta D d \<Longrightarrow> wf_graph D ((h (ge_forward en))\<lparr>delta := d\<rparr>)"
    "inserted D (delta (h (ge_forward en))) = Map.empty"
    "deleted D (delta (h (ge_forward en))) = {}"
    "base_edges (h (ge_forward en)) = base_edges (gc_heap c (ge_forward en))"
proof -
  let ?a = "ge_forward en" and ?g = "gc_heap c (ge_forward en)"
  obtain e g1 d where b: "catalog_entry c name = Some e" "gc_entries c e = en"
    "compaction_begin D name policy c =
       (Ok (Compacted e g1), c\<lparr>gc_heap := (gc_heap c)(?a := ?g\<lparr>delta := d\<rparr>)\<rparr>)"
    "wf_graph D g1" "delta g1 = delta_new D" "base_edges g1 = graph_edges D ?g"
    "inserted D d = Map.empty" "deleted D d = {}"
    by (rule compaction_begin_Ok [OF en refl g]) (rule that, assumption+)
  have D: "dash_laws D" by (rule wf_graphD(3) [OF g(1)])
  let ?c1 = "c\<lparr>gc_heap := (gc_heap c)(?a := ?g\<lparr>delta := d\<rparr>)\<rparr>"
  let ?w = "fold (delta_step D) ops d"
  have heap: "gc_heap (apply_writes D ?a ops ?c1) = (gc_heap c)(?a := ?g\<lparr>delta := ?w\<rparr>)"
    by (simp add: apply_writes_def)
  note written = written_delta [OF D b(7,8)]
  have new: "inserted D (delta g1) = Map.empty" "deleted D (delta g1) = {}" using b(5) D by simp_all
  have fw: "ge_forward (gc_entries (apply_writes D ?a ops ?c1) e) = ?a"
    using b(2) by (simp add: apply_writes_def)
  have old: "wf_delta D (delta (gc_heap (apply_writes D ?a ops ?c1) ?a))"
    unfolding heap using written(1) by simp
  obtain d2 d' where r: "compaction_replay D e g1 (apply_writes D ?a ops ?c1) =
      (g1\<lparr>delta := d2\<rparr>, (apply_writes D ?a ops ?c1)\<lparr>gc_heap := (gc_heap (apply_writes D ?a ops ?c1))
         (?a := (gc_heap (apply_writes D ?a ops ?c1) ?a)\<lparr>delta := d'\<rparr>)\<rparr>)"
    "wf_delta D d2" "dom (inserted D d2) = dom (inserted D (delta (gc_heap (apply_writes D ?a ops ?c1) ?a)))"
    "deleted D d2 = deleted D (delta (gc_heap (apply_writes D ?a ops ?c1) ?a))"
    "inserted D d' = Map.empty" "deleted D d' = {}"
    by (rule compaction_replay_eq [OF D fw new old]) (rule that, assumption+)
  let ?h = "(gc_heap c)(?a := ?g\<lparr>delta := d'\<rparr>)"
  have replay: "compaction_replay D e g1 (apply_writes D ?a ops ?c1) =
      (g1\<lparr>delta := d2\<rparr>, c\<lparr>gc_heap := ?h\<rparr>)"
    using r(1) by (simp add: heap) (simp add: apply_writes_def)
  have wf2: "wf_graph D (g1\<lparr>delta := d2\<rparr>)" using b(4) r(2) by (simp add: wf_graph_def)
  have "base_edges (g1\<lparr>delta := d2\<rparr>) = graph_edges D ?g"
    using b(6) by simp
  then have "graph_edges D (g1\<lparr>delta := d2\<rparr>) = graph_edges D ?g - deleted D ?w \<union> dom (inserted D ?w)"
    unfolding graph_edges_def [of D "g1\<lparr>delta := d2\<rparr>"] using r(3,4) by (simp add: heap)
  then have edges: "k \<in> graph_edges D (g1\<lparr>delta := d2\<rparr>) \<longleftrightarrow>
      write_effect ops k (k \<in> graph_edges D ?g)" for k
    using written(2) [where k = k and X = "graph_edges D ?g" and ops = ops] by blast
  have rewf: "wf_graph D ((?h ?a)\<lparr>delta := d\<rparr>)" if "wf_delta D d" for d
    using g(1) that by (simp add: wf_graph_def)
  show thesis
    by (rule that [OF b(3,2) replay wf2 edges rewf]) (use r(5,6) in simp_all)
qed

section \<open>Properties of the catalog\<close>

text \<open>The calls that change the registry, and what each says of the name it is about.\<close>

datatype registration =
    RegisterCall string graph_addr
  | RegisterWithReverseCall string graph_addr graph_addr
  | RegisterWithDictionaryCall string graph_addr node_dictionary
  | DeregisterCall string

fun run_registration :: "registration \<Rightarrow> ('m, 's) catalog \<Rightarrow> ('m, 's) catalog" where
  "run_registration (RegisterCall n g) c = snd (register n g c)"
| "run_registration (RegisterWithReverseCall n g r) c = register_with_reverse n g r c"
| "run_registration (RegisterWithDictionaryCall n g d) c = register_with_dictionary n g d c"
| "run_registration (DeregisterCall n) c = snd (deregister n c)"

fun registration_name :: "registration \<Rightarrow> string" where
  "registration_name (RegisterCall n _) = n"
| "registration_name (RegisterWithReverseCall n _ _) = n"
| "registration_name (RegisterWithDictionaryCall n _ _) = n"
| "registration_name (DeregisterCall n) = n"

fun registered_graph :: "registration \<Rightarrow> graph_addr option" where
  "registered_graph (RegisterCall _ g) = Some g"
| "registered_graph (RegisterWithReverseCall _ g _) = Some g"
| "registered_graph (RegisterWithDictionaryCall _ g _) = Some g"
| "registered_graph (DeregisterCall _) = None"

fun registered_reverse :: "registration \<Rightarrow> graph_addr option" where
  "registered_reverse (RegisterWithReverseCall _ _ r) = Some r"
| "registered_reverse _ = None"

fun registered_dictionary :: "registration \<Rightarrow> node_dictionary option" where
  "registered_dictionary (RegisterWithDictionaryCall _ _ d) = Some d"
| "registered_dictionary _ = None"

definition last_call :: "registration list \<Rightarrow> string \<Rightarrow> registration option" where
  "last_call ops n = find (\<lambda>p. registration_name p = n) (rev ops)"

text \<open>The graphs that a call refers to exist.\<close>

definition registration_fits :: "graph_addr \<Rightarrow> registration \<Rightarrow> bool" where
  "registration_fits k p \<longleftrightarrow> (\<forall>a. registered_graph p = Some a \<or> registered_reverse p = Some a \<longrightarrow> a < k)"

text \<open>Each is an insertion into the registry or a removal from it.\<close>

fun registration_op :: "registration \<Rightarrow> graph_entry registry_op" where
  "registration_op (RegisterCall n g) = Put n (entry_new g)"
| "registration_op (RegisterWithReverseCall n g r) = Put n ((entry_new g)\<lparr>ge_reverse := Some r\<rparr>)"
| "registration_op (RegisterWithDictionaryCall n g d) =
     Put n \<lparr>ge_forward = g, ge_reverse = None, ge_dictionary = Some d\<rparr>"
| "registration_op (DeregisterCall n) = Remove n"

lemma run_registration_step: "run_registration p = graphs.step (registration_op p)"
proof
  show "run_registration p c = graphs.step (registration_op p) c" for c :: "('m, 's) catalog"
    by (cases p) (simp_all add: register_def register_with_reverse_def register_with_dictionary_def)
qed

lemma run_registrations_step: "fold run_registration ops = fold graphs.step (map registration_op ops)"
  by (induction ops) (simp_all add: run_registration_step)

lemma last_put_registrations:
  "last_put (map registration_op ops) n Map.empty = (case last_call ops n of None \<Rightarrow> None
     | Some p \<Rightarrow> map_option (\<lambda>g. \<lparr>ge_forward = g, ge_reverse = registered_reverse p,
         ge_dictionary = registered_dictionary p\<rparr>) (registered_graph p))"
proof (induction ops rule: rev_induct)
  case (snoc p ops)
  have "registry_key (registration_op p) = registration_name p" by (cases p) simp_all
  with snoc show ?case by (cases p) (simp_all add: last_call_def entry_new_def)
qed (simp add: last_call_def)

lemma registration_op_fits:
  assumes "registration_fits (gc_next_graph c) p" "registration_op p = Put n e"
  shows "entry_fits c e"
  using assms by (cases p) (auto simp: registration_fits_def entry_fits_def entry_new_def)

lemma wf_catalog_new [simp]: "wf_catalog (catalog_new h k)"
  by (simp add: wf_catalog_def catalog_new_def)

lemma entry_of_new [simp]: "entry_of (catalog_new h k) n = None"
  by (simp add: entry_of_def catalog_entry_def catalog_new_def)

lemma heap_registration [simp]: "gc_heap (run_registration p c) = gc_heap c"
  by (cases p) (simp_all add: register_def register_with_reverse_def register_with_dictionary_def
      deregister_def put_entry_def)

lemma heap_registrations: "gc_heap (fold run_registration ops c) = gc_heap c"
  by (induction ops arbitrary: c) simp_all

lemma registrations_run:
  fixes h :: "graph_addr \<Rightarrow> ('m, 's) csr_graph"
  assumes "\<And>p. p \<in> set ops \<Longrightarrow> registration_fits k p"
  defines "c \<equiv> fold run_registration ops (catalog_new h k)"
  shows "wf_catalog c" "gc_heap c = h"
    "entry_of c n = (case last_call ops n of None \<Rightarrow> None
     | Some p \<Rightarrow> map_option (\<lambda>g. \<lparr>ge_forward = g, ge_reverse = registered_reverse p,
         ge_dictionary = registered_dictionary p\<rparr>) (registered_graph p))"
proof -
  have "entry_fits (catalog_new h k) e" if e: "Put n e \<in> set (map registration_op ops)" for n e
  proof -
    obtain p where p: "p \<in> set ops" "registration_op p = Put n e" using e by force
    have "gc_next_graph (catalog_new h k) = k" by (simp add: catalog_new_def)
    with assms(1) [OF p(1)] p(2) registration_op_fits show ?thesis by metis
  qed
  then have run: "wf_catalog c \<and> entry_of c n = last_put (map registration_op ops) n (entry_of (catalog_new h k))" for n
    unfolding c_def run_registrations_step
    using graphs.run_last_put [OF wf_catalog_new, where ops = "map registration_op ops"] by blast
  have "entry_of (catalog_new h k) = Map.empty" by (simp add: fun_eq_iff)
  with run show "wf_catalog c" and "entry_of c n = (case last_call ops n of None \<Rightarrow> None
     | Some p \<Rightarrow> map_option (\<lambda>g. \<lparr>ge_forward = g, ge_reverse = registered_reverse p,
         ge_dictionary = registered_dictionary p\<rparr>) (registered_graph p))"
    by (simp_all only: last_put_registrations)
  show "gc_heap c = h" unfolding c_def heap_registrations by (simp add: catalog_new_def)
qed

lemma set_catalog_names: "set (catalog_names c) = {n. entry_of c n \<noteq> None}"
  by (auto simp: catalog_names_def entry_of_def catalog_entry_def map_of_eq_None_iff)

lemma reverse_builds:
  assumes "wf_catalog c" "entry_of c name = Some en" "ge_reverse en = None"
    and "transpose D (gc_heap c (ge_forward en)) = Ok r"
  shows "\<exists>a c'. catalog_reverse D name c = (Ok (Some a), c') \<and> gc_heap c' a = r \<and>
    wf_catalog c' \<and> (\<forall>b < gc_next_graph c. gc_heap c' b = gc_heap c b) \<and>
    entry_of c' name = Some (en\<lparr>ge_reverse := Some a\<rparr>) \<and>
    (\<forall>h. catalog_reverse D name (c'\<lparr>gc_heap := h\<rparr>) = (Ok (Some a), c'\<lparr>gc_heap := h\<rparr>))"
proof -
  obtain e where e: "catalog_entry c name = Some e" "gc_entries c e = en"
    using assms(2) by (auto simp: entry_of_def)
  let ?a = "gc_next_graph c"
  let ?c1 = "snd (alloc_graph r c)"
  let ?c = "?c1\<lparr>gc_entries := (gc_entries ?c1)(e := en\<lparr>ge_reverse := Some ?a\<rparr>)\<rparr>"
  have run: "catalog_reverse D name c = (Ok (Some ?a), ?c)"
    using e assms(3,4) by (simp add: catalog_reverse_def alloc_graph_def Let_def)
  have entry: "catalog_entry ?c name = Some e"
    using e(1) by (simp add: catalog_entry_def alloc_graph_def)
  have "entry_fits c en" by (rule entry_of_fits [OF assms(1,2)])
  then have "wf_catalog ?c"
    using wf_alloc [OF assms(1), of r]
    by (auto simp: wf_catalog_def entry_fits_def alloc_graph_def)
  moreover have "gc_heap ?c ?a = r" "\<forall>b < ?a. gc_heap ?c b = gc_heap c b"
    by (simp_all add: alloc_graph_def)
  moreover have "entry_of ?c name = Some (en\<lparr>ge_reverse := Some ?a\<rparr>)"
    using entry by (simp add: entry_of_def)
  moreover have "catalog_reverse D name (?c\<lparr>gc_heap := h\<rparr>) = (Ok (Some ?a), ?c\<lparr>gc_heap := h\<rparr>)" for h
    using entry by (simp add: catalog_reverse_def catalog_entry_def)
  ultimately show ?thesis using run by blast
qed

text \<open>
  C24: registration is by the last call: after any sequence of calls of \<open>register\<close>,
  \<open>register_with_reverse\<close>, \<open>register_with_dictionary\<close> and \<open>deregister\<close> on a new catalog, the graph,
  the dictionary and the transpose under a name are those the last call with that name gave, and
  there is none after a removal: \<open>get\<close> and \<open>dictionary\<close> return them, \<open>reverse\<close> returns the
  transpose that came with the graph, or builds the transpose of the graph where none did, and
  the next \<open>register\<close> or \<open>deregister\<close> returns the graph it replaces or removes; \<open>names\<close> lists
  exactly the names with a graph, sorted and without duplicates, and no graph is changed.
\<close>

theorem last_registration_wins:
  fixes h :: "graph_addr \<Rightarrow> ('m, 's) csr_graph"
  assumes "\<And>p. p \<in> set ops \<Longrightarrow> registration_fits k p"
  defines "c \<equiv> fold run_registration ops (catalog_new h k)"
  shows "catalog_get c n = Option.bind (last_call ops n) registered_graph \<and>
    catalog_dictionary c n = Option.bind (last_call ops n) registered_dictionary \<and>
    (case Option.bind (last_call ops n) registered_graph of
       None \<Rightarrow> catalog_reverse D n c = (Ok None, c)
     | Some g \<Rightarrow>
         (case Option.bind (last_call ops n) registered_reverse of
            Some r \<Rightarrow> catalog_reverse D n c = (Ok (Some r), c)
          | None \<Rightarrow> (\<forall>t. transpose D (h g) = Ok t \<longrightarrow>
              (\<exists>a c'. catalog_reverse D n c = (Ok (Some a), c') \<and> gc_heap c' a = t \<and>
                 catalog_get c' n = Some g \<and> catalog_dictionary c' n = catalog_dictionary c n)))) \<and>
    fst (register n x c) = Option.bind (last_call ops n) registered_graph \<and>
    fst (deregister n c) = Option.bind (last_call ops n) registered_graph \<and>
    set (catalog_names c) = {m. Option.bind (last_call ops m) registered_graph \<noteq> None} \<and>
    sorted (catalog_names c) \<and> distinct (catalog_names c) \<and> gc_heap c = h"
proof -
  note run = registrations_run [OF assms(1), of ops h, folded c_def]
  have get: "catalog_get c m = Option.bind (last_call ops m) registered_graph" for m
    by (simp add: catalog_get_def run(3) option.map_comp comp_def option.map_ident split: option.split)
  have given: "Option.bind (map_option (\<lambda>g. \<lparr>ge_forward = g, ge_reverse = registered_reverse p,
      ge_dictionary = registered_dictionary p\<rparr>) (registered_graph p)) ge_dictionary = registered_dictionary p" for p
    by (cases p) simp_all
  have dict: "catalog_dictionary c n = Option.bind (last_call ops n) registered_dictionary"
    by (simp add: catalog_dictionary_def run(3) given split: option.split)
  have names: "set (catalog_names c) = {m. Option.bind (last_call ops m) registered_graph \<noteq> None}"
    unfolding set_catalog_names by (auto simp: get [symmetric] catalog_get_def)
  have rev_none: "catalog_reverse D n c = (Ok None, c)"
    if "Option.bind (last_call ops n) registered_graph = None"
    using that by (auto simp: get [symmetric] catalog_get_def entry_of_def catalog_reverse_def)
  have rev_some: "catalog_reverse D n c = (Ok (Some r), c)"
    if "Option.bind (last_call ops n) registered_graph = Some g"
      "Option.bind (last_call ops n) registered_reverse = Some r" for g r
    using that run(3) [of n]
    by (auto simp: entry_of_def catalog_reverse_def split: option.splits)
  have rev_new: "\<exists>a c'. catalog_reverse D n c = (Ok (Some a), c') \<and> gc_heap c' a = t \<and>
      catalog_get c' n = Some g \<and> catalog_dictionary c' n = catalog_dictionary c n"
    if "Option.bind (last_call ops n) registered_graph = Some g"
      "Option.bind (last_call ops n) registered_reverse = None" "transpose D (h g) = Ok t" for g t
  proof -
    note g = that
    obtain en where en: "entry_of c n = Some en" "ge_forward en = g" "ge_reverse en = None"
      using g(1,2) run(3) [of n] by (auto split: option.splits)
    then show ?thesis
      using reverse_builds [OF run(1) en(1,3), of D t] g(3) run(2)
      by (auto simp: catalog_get_def catalog_dictionary_def)
  qed
  have "distinct (catalog_names c)" using run(1) by (simp add: catalog_names_def wf_catalog_def)
  with get dict names rev_none rev_some rev_new run(2) show ?thesis
    by (auto simp: register_def deregister_def catalog_names_def split: option.split)
qed

theorem last_registration_wins_witness:
  "catalog_dictionary (fold run_registration [RegisterCall ''g'' 0, RegisterWithDictionaryCall ''g'' 1 dictionary_new,
     RegisterWithReverseCall ''h'' 0 1] (catalog_new (\<lambda>_. example_graph) 2)) ''g'' = Some dictionary_new \<and>
   fst (catalog_reverse list_dash ''h'' (fold run_registration [RegisterCall ''g'' 0,
     RegisterWithDictionaryCall ''g'' 1 dictionary_new, RegisterWithReverseCall ''h'' 0 1]
     (catalog_new (\<lambda>_. example_graph) 2))) = Ok (Some 1)"
proof -
  let ?ops = "[RegisterCall ''g'' 0, RegisterWithDictionaryCall ''g'' 1 dictionary_new, RegisterWithReverseCall ''h'' 0 1]"
  have fits: "registration_fits 2 p" if "p \<in> set ?ops" for p
    using that by (auto simp: registration_fits_def)
  have last: "last_call ?ops ''g'' = Some (RegisterWithDictionaryCall ''g'' 1 dictionary_new)"
    "last_call ?ops ''h'' = Some (RegisterWithReverseCall ''h'' 0 1)"
    by (simp_all add: last_call_def)
  define c :: "((edge_key \<times> edge_data) list, edge_key list) catalog"
    where "c = fold run_registration ?ops (catalog_new (\<lambda>_. example_graph) 2)"
  from last_registration_wins [OF fits, of ?ops "\<lambda>_. example_graph" "''g''" list_dash 0]
  have "catalog_dictionary c ''g'' = Some dictionary_new" unfolding c_def [symmetric] last by simp
  moreover from last_registration_wins [OF fits, of ?ops "\<lambda>_. example_graph" "''h''" list_dash 0]
  have "catalog_reverse list_dash ''h'' c = (Ok (Some 1), c)" unfolding c_def [symmetric] last by simp
  ultimately show ?thesis unfolding c_def [symmetric] by simp
qed

text \<open>
  the transpose is built once: on an entry without one, \<open>reverse\<close> returns the address of a
  new graph, the transpose of the registered graph as it stands, changes no existing graph,
  and from then on returns the same address without building anything, whatever happens to
  the graphs in between.
\<close>

theorem reverse_memoised:
  assumes "wf_catalog c" "entry_of c name = Some en" "ge_reverse en = None"
    and "transpose D (gc_heap c (ge_forward en)) = Ok r"
  shows "\<exists>a c'. catalog_reverse D name c = (Ok (Some a), c') \<and> gc_heap c' a = r \<and>
    wf_catalog c' \<and> (\<forall>b < gc_next_graph c. gc_heap c' b = gc_heap c b) \<and>
    entry_of c' name = Some (en\<lparr>ge_reverse := Some a\<rparr>) \<and>
    (\<forall>h. catalog_reverse D name (c'\<lparr>gc_heap := h\<rparr>) = (Ok (Some a), c'\<lparr>gc_heap := h\<rparr>))"
  using assms by (rule reverse_builds)

definition example_catalog ::
  "((edge_key \<times> edge_data) list, edge_key list) catalog" where
  "example_catalog = put_entry ''g'' (entry_new 0) (catalog_new (\<lambda>_. example_graph) 1)"

lemma example_catalog_props:
  "wf_catalog example_catalog" "entry_of example_catalog ''g'' = Some (entry_new 0)"
  "gc_heap example_catalog a = example_graph"
proof -
  have "entry_fits (catalog_new (\<lambda>_. example_graph) 1) (entry_new 0)"
    by (simp add: entry_fits_def entry_new_def catalog_new_def)
  then show "wf_catalog example_catalog" "entry_of example_catalog ''g'' = Some (entry_new 0)"
    by (simp_all add: example_catalog_def wf_put_entry entry_of_put)
  show "gc_heap example_catalog a = example_graph"
    by (simp add: example_catalog_def put_entry_def catalog_new_def)
qed

theorem reverse_memoised_witness:
  "\<exists>a c'. catalog_reverse list_dash ''g'' example_catalog = (Ok (Some a), c') \<and>
     catalog_reverse list_dash ''g'' c' = (Ok (Some a), c')"
proof -
  obtain r where "transpose list_dash example_graph = Ok r" by (rule example_transpose)
  then have "transpose list_dash (gc_heap example_catalog (ge_forward (entry_new 0))) = Ok r"
    by (simp add: example_catalog_props)
  moreover have "ge_reverse (entry_new 0) = None" by (simp add: entry_new_def)
  ultimately obtain a c' where r: "catalog_reverse list_dash ''g'' example_catalog = (Ok (Some a), c')"
    "\<forall>h. catalog_reverse list_dash ''g'' (c'\<lparr>gc_heap := h\<rparr>) = (Ok (Some a), c'\<lparr>gc_heap := h\<rparr>)"
    using reverse_memoised [OF example_catalog_props(1,2)] by blast
  have "c'\<lparr>gc_heap := gc_heap c'\<rparr> = c'" by simp
  with r show ?thesis by metis
qed

text \<open>
  C19: compaction of a registered graph keeps what other threads write while it runs, up to the
  replay: with any operations applied to the old graph between the draining and the replay,
  the graph registered in the end has exactly the edges of the old graph overridden by those
  operations; it is well formed, the dictionary is kept, the stale transpose is dropped, and no
  other name changes.  Without such writes this is what \<open>compact_if_needed\<close> does.
\<close>

theorem racing_writes_survive_compaction:
  assumes "wf_catalog c" "entry_of c name = Some en"
    and "wf_graph D (gc_heap c (ge_forward en))" "compactable D (gc_heap c (ge_forward en))"
    and "should_compact D (gc_heap c (ge_forward en)) policy"
  shows "\<exists>e g1 c1 g2 c2 en'. compaction_begin D name policy c = (Ok (Compacted e g1), c1) \<and>
    compaction_replay D e g1 (apply_writes D (ge_forward en) ops c1) = (g2, c2) \<and>
    entry_of (compaction_swap name e g2 c2) = (entry_of c)(name \<mapsto> en') \<and>
    wf_catalog (compaction_swap name e g2 c2) \<and>
    ge_reverse en' = None \<and> ge_dictionary en' = ge_dictionary en \<and>
    wf_graph D (gc_heap (compaction_swap name e g2 c2) (ge_forward en')) \<and>
    (\<forall>k. k \<in> graph_edges D (gc_heap (compaction_swap name e g2 c2) (ge_forward en')) \<longleftrightarrow>
       write_effect ops k (k \<in> graph_edges D (gc_heap c (ge_forward en)))) \<and>
    (ops = [] \<longrightarrow> compact_if_needed D name policy c = (Ok True, compaction_swap name e g2 c2))"
proof -
  obtain e g1 c1 g2 h where r: "compaction_begin D name policy c = (Ok (Compacted e g1), c1)"
    "gc_entries c e = en"
    "compaction_replay D e g1 (apply_writes D (ge_forward en) ops c1) = (g2, c\<lparr>gc_heap := h\<rparr>)"
    "wf_graph D g2"
    "\<And>k. k \<in> graph_edges D g2 \<longleftrightarrow> write_effect ops k (k \<in> graph_edges D (gc_heap c (ge_forward en)))"
    by (rule raced_compaction [OF assms, of ops]) (rule that, assumption+)
  let ?c2 = "c\<lparr>gc_heap := h\<rparr>"
  let ?en = "\<lparr>ge_forward = gc_next_graph ?c2, ge_reverse = None, ge_dictionary = ge_dictionary en\<rparr>"
  have "wf_catalog ?c2" "gc_entries ?c2 e = en" using assms(1) r(2) by simp_all
  note swap = compaction_swap_props [OF this, of name g2]
  have "compact_if_needed D name policy c = (Ok True, compaction_swap name e g2 ?c2)" if "ops = []"
    using r(1,3) that by (simp add: compact_if_needed_def apply_writes_def)
  then show ?thesis using r(1,3-5) swap
    by (intro exI [of _ e] exI [of _ g1] exI [of _ c1] exI [of _ g2] exI [of _ ?c2] exI [of _ ?en]) simp
qed

definition eager_policy :: compaction_policy where
  "eager_policy = \<lparr>max_delta_entries = 1, max_delta_ratio = f64_one_percent\<rparr>"

lemma example_should_compact: "should_compact list_dash example_graph eager_policy"
  by (simp add: should_compact_def eager_policy_def example_graph_def delta_len_def Let_def)
    (simp add: delta_delete_def delta_insert_def delta_new_def list_dash_def Let_def)

lemma example_catalog_compactable:
  "wf_graph list_dash (gc_heap example_catalog (ge_forward (entry_new 0)))"
  "compactable list_dash (gc_heap example_catalog (ge_forward (entry_new 0)))"
  "should_compact list_dash (gc_heap example_catalog (ge_forward (entry_new 0))) eager_policy"
  by (simp_all add: example_catalog_props wf_example_graph compactable_example example_should_compact)

theorem racing_writes_survive_compaction_witness:
  "\<exists>c'. compact_if_needed list_dash ''g'' eager_policy example_catalog = (Ok True, c') \<and> wf_catalog c'"
  using racing_writes_survive_compaction [OF example_catalog_props(1,2) example_catalog_compactable, of "[]"]
  by blast

text \<open>Compaction without writers.\<close>

lemma compact_if_needed_Ok:
  assumes "wf_catalog c" "entry_of c name = Some en" "gc_heap c (ge_forward en) = g"
    and "wf_graph D g" "compactable D g" "should_compact D g policy"
  obtains c' en' where "compact_if_needed D name policy c = (Ok True, c')" "wf_catalog c'"
    "entry_of c' = (entry_of c)(name \<mapsto> en')" "ge_reverse en' = None" "ge_dictionary en' = ge_dictionary en"
    "wf_graph D (gc_heap c' (ge_forward en'))" "compactable D (gc_heap c' (ge_forward en'))"
    "graph_edges D (gc_heap c' (ge_forward en')) = graph_edges D g"
    "base_edges (gc_heap c' (ge_forward en')) = graph_edges D g"
    "\<And>a. neighbor_list D (gc_heap c' (ge_forward en')) a = neighbor_list D g a"
proof -
  have D: "dash_laws D" by (rule wf_graphD(3) [OF assms(4)])
  obtain e g' d where b: "catalog_entry c name = Some e" "gc_entries c e = en"
    "compaction_begin D name policy c =
       (Ok (Compacted e g'), c\<lparr>gc_heap := (gc_heap c)(ge_forward en := g\<lparr>delta := d\<rparr>)\<rparr>)"
    "wf_graph D g'" "delta g' = delta_new D" "base_edges g' = graph_edges D g"
    "inserted D d = Map.empty" "deleted D d = {}" "compactable D g'"
    "\<And>a. neighbor_list D g' a = neighbor_list D g a"
    by (rule compaction_begin_Ok [OF assms(2-6)]) (rule that, assumption+)
  let ?c1 = "c\<lparr>gc_heap := (gc_heap c)(ge_forward en := g\<lparr>delta := d\<rparr>)\<rparr>"
  obtain g2 c2 where r: "compaction_replay D e g' ?c1 = (g2, c2)" by fastforce
  have "dm_iter D (insertions d) = []" "ds_iter D (deletions d) = []"
    using b(7,8) dash_lawsD(15) [OF D] by (simp_all add: inserted_def deleted_def)
  then have "g2 = g'" "\<exists>h. c2 = c\<lparr>gc_heap := h\<rparr>"
    using r b(2)
    by (auto simp: compaction_replay_def delta_drain_insertions_def delta_drain_deletions_def Let_def)
  then obtain h where c2: "compaction_replay D e g' ?c1 = (g', c\<lparr>gc_heap := h\<rparr>)" using r by blast
  have "wf_catalog (c\<lparr>gc_heap := h\<rparr>)" "gc_entries (c\<lparr>gc_heap := h\<rparr>) e = en"
    using assms(1) b(2) by simp_all
  note swap = compaction_swap_props [OF this, of name g']
  have edges: "graph_edges D g' = graph_edges D g"
    using b(5,6) D by (simp add: graph_edges_def)
  show thesis
    by (rule that [of "compaction_swap name e g' (c\<lparr>gc_heap := h\<rparr>)"
          "\<lparr>ge_forward = gc_next_graph c, ge_reverse = None, ge_dictionary = ge_dictionary en\<rparr>"])
      (use b(3,4,6,9,10) c2 swap edges in \<open>simp_all add: compact_if_needed_def\<close>)
qed

text \<open>
  C40: While a compaction runs, readers of the catalog do not see the mutations it folds in: from
  the draining to the swap the registered graph is the base layer alone, so that inserted
  edges are missing and deleted ones are back, although they were there before the compaction
  and are there again after it.
\<close>

theorem compaction_hides_mutations:
  assumes "wf_catalog c" "entry_of c name = Some en" "gc_heap c (ge_forward en) = g"
    and "wf_graph D g" "compactable D g" "should_compact D g policy"
  shows "\<exists>e g1 c1 c2 en'. compaction_begin D name policy c = (Ok (Compacted e g1), c1) \<and>
    entry_of c1 name = Some en \<and> graph_edges D (gc_heap c1 (ge_forward en)) = base_edges g \<and>
    compact_if_needed D name policy c = (Ok True, c2) \<and> entry_of c2 name = Some en' \<and>
    graph_edges D (gc_heap c2 (ge_forward en')) = graph_edges D g"
proof -
  obtain e g' d where b: "compaction_begin D name policy c =
       (Ok (Compacted e g'), c\<lparr>gc_heap := (gc_heap c)(ge_forward en := g\<lparr>delta := d\<rparr>)\<rparr>)"
    "inserted D d = Map.empty" "deleted D d = {}"
    by (rule compaction_begin_Ok [OF assms(2-6)]) (rule that, assumption+)
  obtain c2 en' where c2: "compact_if_needed D name policy c = (Ok True, c2)"
    "entry_of c2 = (entry_of c)(name \<mapsto> en')"
    "graph_edges D (gc_heap c2 (ge_forward en')) = graph_edges D g"
    by (rule compact_if_needed_Ok [OF assms]) (rule that, assumption+)
  have "graph_edges D (g\<lparr>delta := d\<rparr>) = base_edges g"
    using b(2,3) by (simp add: graph_edges_def)
  then show ?thesis using b(1) c2 assms(2) by simp
qed

theorem compaction_hides_mutations_witness:
  "\<exists>e g1 c1. compaction_begin list_dash ''g'' eager_policy example_catalog = (Ok (Compacted e g1), c1) \<and>
     graph_edges list_dash (gc_heap c1 0) = base_edges example_graph"
proof -
  have "ge_forward (entry_new 0) = 0" by (simp add: entry_new_def)
  then show ?thesis
    using compaction_hides_mutations [OF example_catalog_props(1,2) example_catalog_props(3)
        wf_example_graph compactable_example example_should_compact] by auto
qed

text \<open>
  a graph that is registered under two names, when it is compacted under one of them: the other
  name keeps the old graph, whose mutations have been drained for good, so it goes back to the base
  layer.
\<close>

theorem compaction_drains_shared_graph:
  assumes "wf_catalog c" "entry_of c name = Some en" "gc_heap c (ge_forward en) = g"
    and "wf_graph D g" "compactable D g" "should_compact D g policy"
    and "other \<noteq> name" "entry_of c other = Some eo" "ge_forward eo = ge_forward en"
  shows "\<exists>c'. compact_if_needed D name policy c = (Ok True, c') \<and> entry_of c' other = Some eo \<and>
    graph_edges D (gc_heap c' (ge_forward eo)) = base_edges g"
proof -
  note g = assms(4-6) [folded assms(3)]
  obtain e g1 c1 g2 h where r: "compaction_begin D name policy c = (Ok (Compacted e g1), c1)"
    "gc_entries c e = en"
    "compaction_replay D e g1 (apply_writes D (ge_forward en) [] c1) = (g2, c\<lparr>gc_heap := h\<rparr>)" "wf_graph D g2"
    "\<And>k. k \<in> graph_edges D g2 \<longleftrightarrow> write_effect [] k (k \<in> graph_edges D (gc_heap c (ge_forward en)))"
    "\<And>d. wf_delta D d \<Longrightarrow> wf_graph D ((h (ge_forward en))\<lparr>delta := d\<rparr>)"
    "inserted D (delta (h (ge_forward en))) = Map.empty" "deleted D (delta (h (ge_forward en))) = {}"
    "base_edges (h (ge_forward en)) = base_edges (gc_heap c (ge_forward en))"
    by (rule raced_compaction [OF assms(1,2) g, of "[]"]) (rule that, assumption+)
  have "wf_catalog (c\<lparr>gc_heap := h\<rparr>)" "gc_entries (c\<lparr>gc_heap := h\<rparr>) e = en" using assms(1) r(2) by simp_all
  note swap = compaction_swap_props [OF this, of name g2]
  have "compact_if_needed D name policy c = (Ok True, compaction_swap name e g2 (c\<lparr>gc_heap := h\<rparr>))"
    using r(1,3) by (simp add: compact_if_needed_def apply_writes_def)
  moreover have "ge_forward en < gc_next_graph c"
    using entry_of_fits [OF assms(1,2)] by (simp add: entry_fits_def)
  moreover have "graph_edges D (h (ge_forward en)) = base_edges g"
    using r(7-9) assms(3) by (simp add: graph_edges_def)
  ultimately show ?thesis using swap assms(7-9) by simp
qed

theorem compaction_drains_shared_graph_witness:
  "\<exists>c'. compact_if_needed list_dash ''g'' eager_policy (put_entry ''h'' (entry_new 0) example_catalog) = (Ok True, c') \<and>
     graph_edges list_dash (gc_heap c' 0) = base_edges example_graph"
proof -
  let ?c = "put_entry ''h'' (entry_new 0) example_catalog"
  have fits: "entry_fits example_catalog (entry_new 0)"
    using entry_of_fits [OF example_catalog_props(1,2)] .
  have c: "wf_catalog ?c" "entry_of ?c ''g'' = Some (entry_new 0)" "entry_of ?c ''h'' = Some (entry_new 0)"
    using wf_put_entry [OF example_catalog_props(1) fits] entry_of_put [OF example_catalog_props(1)]
    by (simp_all add: example_catalog_props)
  have "gc_heap ?c (ge_forward (entry_new 0)) = example_graph"
    using example_catalog_props(3) by (simp add: put_entry_def)
  from compaction_drains_shared_graph [OF c(1,2) this wf_example_graph compactable_example example_should_compact
      _ c(3) refl]
  show ?thesis by (auto simp: entry_new_def)
qed

text \<open>
  a write that reaches the old graph after the replay and before the swap is lost: the
  writer sees its edge on the graph it holds, and the graph registered in the end does not
  have it.
\<close>

theorem write_after_replay_is_lost:
  assumes "wf_catalog c" "entry_of c name = Some en"
    and "wf_graph D (gc_heap c (ge_forward en))" "compactable D (gc_heap c (ge_forward en))"
    and "should_compact D (gc_heap c (ge_forward en)) policy"
    and "(a, b) \<notin> graph_edges D (gc_heap c (ge_forward en))"
  shows "\<exists>e g1 c1 g2 c2 en'. compaction_begin D name policy c = (Ok (Compacted e g1), c1) \<and>
    compaction_replay D e g1 c1 = (g2, c2) \<and>
    (let after = compaction_swap name e g2 (apply_writes D (ge_forward en) [Insert a b x] c2)
     in has_edge D (gc_heap after (ge_forward en)) a b = Ok True \<and>
        entry_of after name = Some en' \<and>
        has_edge D (gc_heap after (ge_forward en')) a b = Ok False)"
proof -
  let ?a = "ge_forward en"
  obtain e g1 c1 g2 h where r: "compaction_begin D name policy c = (Ok (Compacted e g1), c1)"
    "gc_entries c e = en"
    "compaction_replay D e g1 (apply_writes D ?a [] c1) = (g2, c\<lparr>gc_heap := h\<rparr>)" "wf_graph D g2"
    "\<And>k. k \<in> graph_edges D g2 \<longleftrightarrow> write_effect [] k (k \<in> graph_edges D (gc_heap c ?a))"
    "\<And>d. wf_delta D d \<Longrightarrow> wf_graph D ((h ?a)\<lparr>delta := d\<rparr>)"
    "inserted D (delta (h ?a)) = Map.empty" "deleted D (delta (h ?a)) = {}"
    by (rule raced_compaction [OF assms(1-5), of "[]"]) (rule that, assumption+)
  have D: "dash_laws D" by (rule wf_graphD(3) [OF assms(3)])
  let ?c2 = "apply_writes D ?a [Insert a b x] (c\<lparr>gc_heap := h\<rparr>)"
  let ?old = "(h ?a)\<lparr>delta := delta_insert D a b x (delta (h ?a))\<rparr>"
  have "wf_catalog ?c2" "gc_entries ?c2 e = en" using assms(1) r(2) by (simp_all add: apply_writes_def)
  note swap = compaction_swap_props [OF this, of name g2]
  have "?a < gc_next_graph c"
    using entry_of_fits [OF assms(1,2)] by (simp add: entry_fits_def)
  then have heap: "gc_heap (compaction_swap name e g2 ?c2) ?a = ?old"
    unfolding swap(3) by (simp add: apply_writes_def)
  have "wf_graph D ?old" using r(6) D r(7,8) by (simp add: wf_delta_def)
  from has_edge_Ok [OF this] have "has_edge D ?old a b = Ok True"
    using D by (simp add: graph_edges_def)
  moreover have "has_edge D g2 a b = Ok False"
    using has_edge_Ok [OF r(4)] r(5) assms(6) by (simp add: write_effect_def)
  ultimately show ?thesis
    using r(1,3) swap heap
    by (intro exI [of _ e] exI [of _ g1] exI [of _ c1] exI [of _ g2] exI [of _ "c\<lparr>gc_heap := h\<rparr>"]
        exI [of _ "\<lparr>ge_forward = gc_next_graph ?c2, ge_reverse = None, ge_dictionary = ge_dictionary en\<rparr>"])
      (simp add: apply_writes_def [of _ _ "[]"])
qed

theorem write_after_replay_is_lost_witness:
  "\<exists>e g1 c1. compaction_begin list_dash ''g'' eager_policy example_catalog = (Ok (Compacted e g1), c1)"
proof -
  have "(NodeId 7, NodeId 7) \<notin> graph_edges list_dash (gc_heap example_catalog (ge_forward (entry_new 0)))"
    using base_edges_node_bound [OF wf_graphD(1) [OF wf_example_graph], of "NodeId 7" "NodeId 7"]
    by (auto simp: example_catalog_props graph_edges_def) (simp_all add: example_graph_def list_dash_laws)
  from write_after_replay_is_lost [OF example_catalog_props(1,2) example_catalog_compactable this]
  show ?thesis by blast
qed

end
