(* ===== verification/Traverse_Udtf.thy ===== *)
theory Traverse_Udtf
  imports Catalog
begin

text \<open>
  The table functions of \<open>udtf.rs\<close>: \<open>graph_traverse\<close> and \<open>graph_nodes\<close> with their argument
  parsing, and the table that plans a traversal.  The query engine's literal expressions are
  data; its plan operators and tables are parameters (\<open>engine\<close>), and so is the debug text of
  an expression.
\<close>

section \<open>Arguments\<close>

datatype scalar_value =
    ScUtf8 "string option"
  | ScLargeUtf8 "string option"
  | ScInt64 "64 word option"
  | ScUInt64 "u64 option"
  | ScInt32 "32 word option"
  | ScUInt32 "u32 option"
  | ScOther string

datatype expr = Literal scalar_value | OtherExpr string

type_synonym expr_debug = "expr option \<Rightarrow> string"

fun string_literal :: "expr option \<Rightarrow> string option" where
  "string_literal (Some (Literal (ScUtf8 (Some s)))) = Some s"
| "string_literal (Some (Literal (ScLargeUtf8 (Some s)))) = Some s"
| "string_literal _ = None"

definition parse_string :: "expr_debug \<Rightarrow> expr option \<Rightarrow> string \<Rightarrow> string df_result" where
  "parse_string dbg ex position = (case string_literal ex of
     Some s \<Rightarrow> Ok s
   | None \<Rightarrow> Err (DfPlan (''graph_traverse: argument '' @ position @
       '' must be a string literal, got '' @ dbg ex)))"

definition show_int :: "int \<Rightarrow> string" where
  "show_int i = (if i < 0 then ''-'' @ show_nat (nat (- i)) else show_nat (nat i))"

definition bad_integer :: "string \<Rightarrow> string \<Rightarrow> df_error" where
  "bad_integer position got = DfPlan (''graph_traverse: argument '' @ position @
     '' must be a non-negative integer literal, got '' @ got)"

text \<open>\<open>u64::try_from\<close> of a signed integer fails on negative ones.\<close>

definition u64_of_signed :: "string \<Rightarrow> 'a::len word \<Rightarrow> u64 df_result" where
  "u64_of_signed position v =
     (if 0 \<le> sint v then Ok (of_int (sint v)) else Err (bad_integer position (show_int (sint v))))"

fun parse_u64 :: "expr_debug \<Rightarrow> expr option \<Rightarrow> string \<Rightarrow> u64 df_result" where
  "parse_u64 dbg (Some (Literal (ScInt64 (Some v)))) position = u64_of_signed position v"
| "parse_u64 dbg (Some (Literal (ScUInt64 (Some v)))) position = Ok v"
| "parse_u64 dbg (Some (Literal (ScInt32 (Some v)))) position = u64_of_signed position v"
| "parse_u64 dbg (Some (Literal (ScUInt32 (Some v)))) position = Ok (ucast v)"
| "parse_u64 dbg ex position = Err (bad_integer position (dbg ex))"

text \<open>\<open>{:?}\<close> on a list of strings.\<close>

fun comma_join :: "string list \<Rightarrow> string" where
  "comma_join [] = ''''"
| "comma_join [s] = s"
| "comma_join (s # ss) = s @ '', '' @ comma_join ss"

definition debug_names :: "string list \<Rightarrow> string" where
  "debug_names ns = ''['' @
     comma_join (map (\<lambda>s. [CHR 0x22] @ concat (map debug_char s) @ [CHR 0x22]) ns) @ '']''"

section \<open>graph_traverse\<close>

text \<open>The table it returns refers to the graphs by address; the schema is a constant.\<close>

record traversal_table =
  tt_graph :: graph_addr
  tt_reverse :: "graph_addr option"
  tt_spec :: traversal_spec

definition traversal_table_new ::
  "graph_addr \<Rightarrow> graph_addr option \<Rightarrow> traversal_spec \<Rightarrow> traversal_table" where
  "traversal_table_new g r spec = \<lparr>tt_graph = g, tt_reverse = r, tt_spec = spec\<rparr>"

definition parse_start_node ::
  "expr_debug \<Rightarrow> ('m, 's) catalog \<Rightarrow> string \<Rightarrow> expr option \<Rightarrow> u64 df_result" where
  "parse_start_node dbg c graph_name arg =
     (if string_literal arg \<noteq> None
      then
        bind_res (parse_string dbg arg ''2 (start_node)'') (\<lambda>key.
        bind_res (ok_or (catalog_dictionary c graph_name)
          (DfPlan (''graph_traverse: start node '' @ quoted key @ '' is a string but graph '' @
            quoted graph_name @ '' has no node-key dictionary; use an integer '' @
            ''node ID or project the graph from a string-keyed ontology''))) (\<lambda>d.
        ok_or (id_of d key)
          (DfPlan (''graph_traverse: node key '' @ quoted key @ '' not found in graph '' @
            quoted graph_name))))
      else parse_u64 dbg arg ''2 (start_node)'')"

text \<open>\<open>matches!\<close> on the fourth argument accepts null strings too, which then fail to parse.\<close>

fun string_typed :: "expr \<Rightarrow> bool" where
  "string_typed (Literal (ScUtf8 _)) = True"
| "string_typed (Literal (ScLargeUtf8 _)) = True"
| "string_typed _ = False"

definition parse_fourth ::
  "expr_debug \<Rightarrow> expr option \<Rightarrow> (usize option \<times> string option) df_result" where
  "parse_fourth dbg arg = (case arg of
     None \<Rightarrow> Ok (None, None)
   | Some ex \<Rightarrow>
       if string_typed ex
       then map_res (\<lambda>s. (None, Some s)) (parse_string dbg arg ''4 (direction)'')
       else
         bind_res (parse_u64 dbg arg ''4 (max_nodes)'') (\<lambda>n.
         map_res (\<lambda>m. (Some m, None))
           (ok_or (usize_of_u64 n) (DfPlan ''graph_traverse: max_nodes exceeds usize''))))"

definition parse_fifth ::
  "expr_debug \<Rightarrow> expr option \<Rightarrow> string option \<Rightarrow> string option df_result" where
  "parse_fifth dbg arg direction_arg = (case arg of
     None \<Rightarrow> Ok direction_arg
   | Some _ \<Rightarrow>
       if direction_arg \<noteq> None
       then Err (DfPlan ''graph_traverse: direction was already given in position 4'')
       else map_res Some (parse_string dbg arg ''5 (direction)''))"

definition parse_direction :: "string option \<Rightarrow> traversal_direction df_result" where
  "parse_direction direction_arg = (case direction_arg of
     None \<Rightarrow> Ok Outgoing
   | Some d \<Rightarrow>
       if d = ''out'' \<or> d = ''outgoing'' then Ok Outgoing
       else if d = ''in'' \<or> d = ''incoming'' then Ok Incoming
       else Err (DfPlan (''graph_traverse: direction must be '' @ quoted ''out'' @ '' or '' @
         quoted ''in'' @ '', got '' @ quoted d)))"

definition unknown_graph :: "('m, 's) catalog \<Rightarrow> string \<Rightarrow> df_error" where
  "unknown_graph c graph_name = DfPlan (''graph_traverse: no graph named '' @ quoted graph_name @
     '' is registered; available graphs: '' @ debug_names (catalog_names c))"

text \<open>What the arguments say, in the order they are read.\<close>

definition parse_arguments ::
  "expr_debug \<Rightarrow> ('m, 's) catalog \<Rightarrow> expr list \<Rightarrow>
   (string \<times> u64 \<times> u64 \<times> usize option \<times> traversal_direction) df_result" where
  "parse_arguments dbg c args =
     (if \<not> (3 \<le> length args \<and> length args \<le> 5)
      then Err (DfPlan (''graph_traverse expects 3 to 5 arguments '' @
        ''(graph_name, start_node, max_hops [, max_nodes] [, direction]), got '' @
        show_nat (length args)))
      else
        bind_res (parse_string dbg (get_vec args 0) ''1 (graph_name)'') (\<lambda>graph_name.
        bind_res (parse_start_node dbg c graph_name (get_vec args 1)) (\<lambda>start_node.
        bind_res (parse_u64 dbg (get_vec args 2) ''3 (max_hops)'') (\<lambda>max_hops.
        bind_res (parse_fourth dbg (get_vec args 3)) (\<lambda>(max_nodes, direction_arg).
        bind_res (parse_fifth dbg (get_vec args 4) direction_arg) (\<lambda>direction_arg'.
        bind_res (parse_direction direction_arg') (\<lambda>direction.
        Ok (graph_name, start_node, max_hops, max_nodes, direction))))))))"

text \<open>
  The reverse graph: built and memoised for an incoming traversal, taken if it is there for an
  outgoing one.
\<close>

definition reverse_for ::
  "('m, 's) dash \<Rightarrow> string \<Rightarrow> traversal_direction \<Rightarrow> ('m, 's) catalog \<Rightarrow>
   graph_addr option df_result \<times> ('m, 's) catalog" where
  "reverse_for D graph_name direction c =
     (if direction = Incoming then catalog_reverse D graph_name c
      else (Ok (Option.bind (entry_of c graph_name) ge_reverse), c))"

definition graph_traverse ::
  "expr_debug \<Rightarrow> ('m, 's) dash \<Rightarrow> expr list \<Rightarrow> ('m, 's) catalog \<Rightarrow>
   traversal_table df_result \<times> ('m, 's) catalog" where
  "graph_traverse dbg D args c =
     (case bind_res (parse_arguments dbg c args) (\<lambda>(graph_name, rest).
             map_res (\<lambda>g. (graph_name, rest, g)) (ok_or (catalog_get c graph_name) (unknown_graph c graph_name)))
      of
        Err e \<Rightarrow> (Err e, c)
      | Panic \<Rightarrow> (Panic, c)
      | Ok (graph_name, (start_node, max_hops, max_nodes, direction), graph) \<Rightarrow>
          (let (r, c1) = reverse_for D graph_name direction c
           in (bind_res r (\<lambda>rev_graph.
               map_res (\<lambda>max_depth.
                   traversal_table_new graph rev_graph
                     (traversal_spec_default\<lparr>ts_start := [node_new start_node], ts_max_depth := max_depth,
                        ts_max_nodes := max_nodes, ts_direction := direction\<rparr>))
                 (ok_or (u32_of_u64 max_hops) (DfPlan ''graph_traverse: max_hops exceeds u32''))),
               c1)))"

section \<open>The plan of a traversal table\<close>

text \<open>
  The engine: column references, a leaf plan that executes the traversal operator, a projection,
  a limit, and a table over batches in memory.
\<close>

record ('m, 's, 'p, 't) engine =
  en_column :: "schema \<Rightarrow> string \<Rightarrow> (string \<times> usize) df_result"
  en_traversal :: "('m, 's) traversal_exec \<Rightarrow> 'p"
  en_project :: "((string \<times> usize) \<times> string) list \<Rightarrow> 'p \<Rightarrow> 'p df_result"
  en_limit :: "usize \<Rightarrow> usize option \<Rightarrow> 'p \<Rightarrow> 'p"
  en_mem_table :: "schema \<Rightarrow> record_batch list list \<Rightarrow> 't df_result"

text \<open>The operator sees the graphs as they are while it runs.\<close>

definition table_exec :: "('m, 's) catalog \<Rightarrow> traversal_table \<Rightarrow> ('m, 's) traversal_exec" where
  "table_exec c t =
     (let ex = traversal_exec_new (gc_heap c (tt_graph t)) (tt_spec t)
      in case tt_reverse t of None \<Rightarrow> ex | Some r \<Rightarrow> with_reverse (gc_heap c r) ex)"

text \<open>\<open>schema.field(i)\<close> panics out of range.\<close>

definition project_column ::
  "('m, 's, 'p, 't) engine \<Rightarrow> usize \<Rightarrow> ((string \<times> usize) \<times> string) df_result" where
  "project_column E i =
     bind_res (index_vec output_schema i) (\<lambda>f.
     map_res (\<lambda>e. (e, field_name f)) (en_column E output_schema (field_name f)))"

definition table_scan ::
  "('m, 's, 'p, 't) engine \<Rightarrow> ('m, 's) catalog \<Rightarrow> traversal_table \<Rightarrow>
   usize list option \<Rightarrow> usize option \<Rightarrow> 'p df_result" where
  "table_scan E c t projection limit =
     (let plan = en_traversal E (table_exec c t)
      in bind_res (case projection of
             None \<Rightarrow> Ok plan
           | Some indices \<Rightarrow>
               bind_res (map_list_res (project_column E) indices) (\<lambda>exprs. en_project E exprs plan))
         (\<lambda>plan'. Ok (case limit of None \<Rightarrow> plan' | Some fetch \<Rightarrow> en_limit E 0 (Some fetch) plan')))"

section \<open>graph_nodes\<close>

definition no_dictionary :: "('m, 's) catalog \<Rightarrow> string \<Rightarrow> df_error" where
  "no_dictionary c name = DfPlan (''graph_nodes: graph '' @ quoted name @
     '' has no node-key dictionary (only '' @
     ''graphs projected from string-keyed ontologies have one); '' @
     ''available graphs: '' @ debug_names (catalog_names c))"

definition graph_nodes ::
  "expr_debug \<Rightarrow> arrow \<Rightarrow> ('m, 's, 'p, 't) engine \<Rightarrow> ('m, 's) catalog \<Rightarrow> expr list \<Rightarrow> 't df_result" where
  "graph_nodes dbg A E c args =
     (if length args \<noteq> 1
      then Err (DfPlan (''graph_nodes expects 1 argument (graph_name), got '' @ show_nat (length args)))
      else
        bind_res (parse_string dbg (get_vec args 0) ''1 (graph_name)'') (\<lambda>name.
        bind_res (ok_or (catalog_dictionary c name) (no_dictionary c name)) (\<lambda>d.
        bind_res (map_err DfArrow (to_batch A d)) (\<lambda>b.
        en_mem_table E dictionary_schema [[b]]))))"

section \<open>Properties\<close>

text \<open>
  What the arguments of a query mean, independent of the parser.  An integer is a literal of any
  of the four integer types with a value that is not negative, a text is a literal of either
  string type.  The start is an integer, or a text that the dictionary of the graph knows.  After
  the three arguments come a cap, a direction, or a cap and a direction.
\<close>

fun integer_value :: "scalar_value \<Rightarrow> int option" where
  "integer_value (ScInt64 (Some v)) = Some (sint v)"
| "integer_value (ScUInt64 (Some v)) = Some (uint v)"
| "integer_value (ScInt32 (Some v)) = Some (sint v)"
| "integer_value (ScUInt32 (Some v)) = Some (uint v)"
| "integer_value _ = None"

fun text_value :: "scalar_value \<Rightarrow> string option" where
  "text_value (ScUtf8 v) = v"
| "text_value (ScLargeUtf8 v) = v"
| "text_value _ = None"

inductive denotes_int :: "expr \<Rightarrow> u64 \<Rightarrow> bool" where
  int_literal: "integer_value s = Some (uint n) \<Longrightarrow> denotes_int (Literal s) n"

inductive denotes_text :: "expr \<Rightarrow> string \<Rightarrow> bool" where
  text_literal: "text_value s = Some t \<Longrightarrow> denotes_text (Literal s) t"

definition direction_words :: "(string \<times> traversal_direction) set" where
  "direction_words = {(''out'', Outgoing), (''outgoing'', Outgoing), (''in'', Incoming), (''incoming'', Incoming)}"

inductive denotes_direction :: "expr \<Rightarrow> traversal_direction \<Rightarrow> bool" where
  direction_literal: "denotes_text e w \<Longrightarrow> (w, dir) \<in> direction_words \<Longrightarrow> denotes_direction e dir"

inductive denotes_start :: "('m, 's) catalog \<Rightarrow> string \<Rightarrow> expr \<Rightarrow> u64 \<Rightarrow> bool" for c name where
  start_id: "denotes_int e n \<Longrightarrow> denotes_start c name e n"
| start_key: "denotes_text e k \<Longrightarrow> catalog_dictionary c name = Some d \<Longrightarrow> id_of d k = Some n \<Longrightarrow>
    denotes_start c name e n"

inductive denotes_options :: "expr list \<Rightarrow> usize option \<Rightarrow> traversal_direction \<Rightarrow> bool" where
  no_options: "denotes_options [] None Outgoing"
| cap_only: "denotes_int e m \<Longrightarrow> denotes_options [e] (Some (unat m)) Outgoing"
| direction_only: "denotes_direction e dir \<Longrightarrow> denotes_options [e] None dir"
| cap_and_direction: "denotes_int e m \<Longrightarrow> denotes_direction e' dir \<Longrightarrow>
    denotes_options [e, e'] (Some (unat m)) dir"

inductive traverse_call ::
  "('m, 's) catalog \<Rightarrow> expr list \<Rightarrow> string \<Rightarrow> u64 \<Rightarrow> u64 \<Rightarrow> usize option \<Rightarrow> traversal_direction \<Rightarrow> bool"
  for c where
  call: "denotes_text a name \<Longrightarrow> denotes_start c name s n \<Longrightarrow> denotes_int h hops \<Longrightarrow>
    denotes_options opts cap dir \<Longrightarrow> traverse_call c ([a, s, h] @ opts) name n hops cap dir"

inductive_simps denotes_int_iff [simp]: "denotes_int (Literal s) n" "denotes_int (OtherExpr x) n"
inductive_simps denotes_text_iff [simp]: "denotes_text (Literal s) t" "denotes_text (OtherExpr x) t"
inductive_simps denotes_direction_iff: "denotes_direction e dir"
inductive_simps denotes_start_iff: "denotes_start c name e n"
inductive_simps denotes_options_iff: "denotes_options [] cap dir" "denotes_options [e] cap dir"
  "denotes_options [e, e'] cap dir" "denotes_options (e # e' # e'' # es) cap dir"
inductive_simps traverse_call_iff: "traverse_call c args name n hops cap dir"

lemmas denotes_iffs = denotes_direction_iff denotes_start_iff denotes_options_iff traverse_call_iff

subsection \<open>The parsers against the meaning\<close>

lemma string_literal_iff: "string_literal (Some e) = Some t \<longleftrightarrow> denotes_text e t"
proof (cases e)
  case (Literal s)
  then show ?thesis by (cases s) (auto elim: string_literal.elims)
qed simp

lemma parse_string_iff [simp]: "parse_string dbg (Some e) pos = Ok t \<longleftrightarrow> denotes_text e t"
  by (auto simp: parse_string_def string_literal_iff [symmetric] split: option.splits)

lemma u64_of_signed_iff: "u64_of_signed pos v = Ok n \<longleftrightarrow> uint n = sint (v :: 'a :: len word)"
  if "LENGTH('a) \<le> 64"
proof -
  have "sint v < 2 ^ 64"
  proof -
    have "sint v < 2 ^ (LENGTH('a) - 1)" by (rule sint_lt)
    also have "\<dots> \<le> 2 ^ 64" by (rule power_increasing) (use that in simp_all)
    finally show ?thesis .
  qed
  moreover have "uint (of_int i :: u64) = i" if "0 \<le> i" "i < 2 ^ 64" for i
    using that by (simp add: uint_word_of_int_eq take_bit_int_eq_self)
  ultimately have "uint (scast v :: u64) = sint v" if "0 \<le> sint v"
    using that by (metis of_int_sint)
  moreover have "0 \<le> sint v" if "uint n = sint v" using that [symmetric] by simp
  ultimately show ?thesis
    by (auto simp: u64_of_signed_def) (metis word_of_int_uint)
qed

lemma parse_u64_iff [simp]: "parse_u64 dbg (Some e) pos = Ok n \<longleftrightarrow> denotes_int e n"
proof (cases e)
  case (Literal s)
  have "uint (ucast v :: u64) = uint v" for v :: u32
    using unsigned_less [of v, where 'a = int] by (simp add: unsigned_ucast_eq take_bit_int_eq_self)
  then show ?thesis
    using Literal by (cases s rule: integer_value.cases) (auto simp: u64_of_signed_iff word_uint_eq_iff)
qed simp

lemma text_not_int: "denotes_text e t \<Longrightarrow> \<not> denotes_int e n"
  by (cases e rule: expr.exhaust) (auto elim!: text_value.elims)

lemma ok_or_Ok_iff: "ok_or x e = Ok y \<longleftrightarrow> x = Some y"
  by (cases x) simp_all

lemma parse_start_node_iff [simp]:
  "parse_start_node dbg c name (Some e) = Ok n \<longleftrightarrow> denotes_start c name e n"
proof (cases "string_literal (Some e)")
  case None
  then have "\<not> denotes_text e k" for k by (simp flip: string_literal_iff)
  with None show ?thesis by (simp add: parse_start_node_def denotes_start_iff)
next
  case (Some k)
  then have k: "denotes_text e t \<longleftrightarrow> t = k" for t by (auto simp flip: string_literal_iff)
  then have "\<not> denotes_int e n" using text_not_int by blast
  with Some k show ?thesis
    by (auto simp: parse_start_node_def parse_string_def bind_res_Ok_iff ok_or_Ok_iff denotes_start_iff)
qed

lemma parse_direction_iff: "parse_direction (Some w) = Ok dir \<longleftrightarrow> (w, dir) \<in> direction_words"
  by (auto simp: parse_direction_def direction_words_def)

lemma string_typed_text: "denotes_text e t \<Longrightarrow> string_typed e"
  by (cases e rule: expr.exhaust) (auto elim!: text_value.elims)

lemma string_typed_int: "denotes_int e n \<Longrightarrow> \<not> string_typed e"
  by (cases e rule: expr.exhaust) (auto elim!: integer_value.elims)

lemma parse_fourth_iff:
  "parse_fourth dbg (Some e) = Ok (cap, w) \<longleftrightarrow>
     (\<exists>m. denotes_int e m \<and> cap = Some (unat m) \<and> w = None) \<or> (\<exists>t. denotes_text e t \<and> cap = None \<and> w = Some t)"
  using string_typed_text [of e] string_typed_int [of e]
  by (auto simp: parse_fourth_def bind_res_Ok_iff map_res_Ok_iff)

lemma parse_options_iff:
  assumes "length opts \<le> 2"
  shows "(\<exists>cap w w'. parse_fourth dbg (get_vec (x # y # z # opts) 3) = Ok (cap, w) \<and>
      parse_fifth dbg (get_vec (x # y # z # opts) 4) w = Ok w' \<and> parse_direction w' = Ok dir \<and> cap = cap') \<longleftrightarrow>
    denotes_options opts cap' dir"
proof -
  consider "opts = []" | e where "opts = [e]" | e e' where "opts = [e, e']"
    using assms by (cases opts rule: remdups_adj.cases) auto
  then show ?thesis
  proof cases
    case 1
    then show ?thesis
      by (auto simp: get_vec_def parse_fourth_def parse_fifth_def parse_direction_def denotes_options_iff)
  next
    case 2
    have "(\<exists>w. denotes_text e w \<and> (w, dir) \<in> direction_words) \<longleftrightarrow> denotes_direction e dir"
      by (auto simp: denotes_direction_iff)
    with 2 show ?thesis
      by (auto simp: get_vec_def parse_fourth_iff parse_fifth_def parse_direction_iff parse_direction_def [of None]
          denotes_options_iff)
  next
    case 3
    then show ?thesis
      by (simp add: get_vec_def parse_fourth_iff parse_fifth_def map_res_Ok_iff denotes_direction_iff
          denotes_options_iff) (fastforce simp: parse_direction_iff)
  qed
qed

lemma parse_arguments_iff:
  "parse_arguments dbg c args = Ok (name, n, hops, cap, dir) \<longleftrightarrow> traverse_call c args name n hops cap dir"
proof (cases "\<exists>x y z opts. args = x # y # z # opts \<and> length opts \<le> 2")
  case True
  then obtain x y z opts where args: "args = x # y # z # opts" "length opts \<le> 2" by blast
  have "parse_arguments dbg c args = Ok (name, n, hops, cap, dir) \<longleftrightarrow>
      denotes_text x name \<and> denotes_start c name y n \<and> denotes_int z hops \<and> denotes_options opts cap dir"
    unfolding parse_options_iff [OF args(2), of dbg x y z dir cap, symmetric]
    using args(2) by (auto simp: args(1) parse_arguments_def get_vec_def [of _ 0] get_vec_def [of _ 1]
      get_vec_def [of _ "Suc 0"] get_vec_def [of _ 2] bind_res_Ok_iff)
  then show ?thesis by (auto simp: args(1) traverse_call_iff)
next
  case False
  have "length opts \<le> 2" if "denotes_options opts cap dir" for opts
    using that by cases simp_all
  with False have "\<not> traverse_call c args name n hops cap dir"
    by (auto simp: traverse_call_iff)
  moreover have "\<not> (3 \<le> length args \<and> length args \<le> 5)"
  proof
    assume "3 \<le> length args \<and> length args \<le> 5"
    then obtain x y z opts where "args = x # y # z # opts" "length opts \<le> 2"
      by (auto simp: Suc_le_length_iff numeral_3_eq_3)
    with False show False by blast
  qed
  ultimately show ?thesis by (simp add: parse_arguments_def)
qed

text \<open>The parsers end with a value or with a planning error.\<close>

definition planned :: "'a df_result \<Rightarrow> bool" where
  "planned r \<longleftrightarrow> (\<exists>x. r = Ok x) \<or> (\<exists>m. r = Err (DfPlan m))"

lemma planned_simps [simp]:
  "planned (Ok x)" "planned (Err (DfPlan m))" "planned (map_res f r) = planned r"
  by (cases r; auto simp: planned_def)+

lemma planned_bind: "planned r \<Longrightarrow> (\<And>x. r = Ok x \<Longrightarrow> planned (f x)) \<Longrightarrow> planned (bind_res r f)"
  by (auto simp: planned_def)

lemma planned_ok_or [simp]: "planned (ok_or x (DfPlan m))"
  by (cases x) simp_all

lemma planned_parsers [simp]:
  "planned (parse_string dbg e pos)" "planned (parse_u64 dbg e pos)" "planned (parse_start_node dbg c name e)"
  "planned (parse_fourth dbg e)" "planned (parse_fifth dbg e w)" "planned (parse_direction w)"
proof -
  show s: "planned (parse_string dbg e pos)" for pos by (simp add: parse_string_def split: option.splits)
  have "planned (u64_of_signed pos v)" for pos and v :: "'w :: len word"
    by (simp add: u64_of_signed_def bad_integer_def)
  show u: "planned (parse_u64 dbg e pos)" for pos
    by (cases "(dbg, e, pos)" rule: parse_u64.cases) (simp_all add: bad_integer_def u64_of_signed_def)
  show "planned (parse_start_node dbg c name e)" "planned (parse_fourth dbg e)" "planned (parse_fifth dbg e w)"
    "planned (parse_direction w)"
    using s u by (auto simp: parse_start_node_def parse_fourth_def parse_fifth_def parse_direction_def
        intro!: planned_bind split: option.splits)
qed

lemma planned_arguments: "planned (parse_arguments dbg c args)"
  by (auto simp: parse_arguments_def intro!: planned_bind)

lemma refused_arguments:
  assumes "\<And>name n hops cap dir. \<not> traverse_call c args name n hops cap dir"
  shows "\<exists>m. parse_arguments dbg c args = Err (DfPlan m)"
  using planned_arguments [of dbg c args] assms by (auto simp: planned_def parse_arguments_iff)

text \<open>
  C34: \<open>graph_traverse\<close> takes exactly the calls that mean something: parsing the arguments gives a
  name, a start node, a depth, a cap and a direction if and only if that is what they denote, with
  the integers as literals of any integer type, the start as an integer or as a key of the graph's
  dictionary, and the direction as \<open>out\<close>, \<open>outgoing\<close>, \<open>in\<close> or \<open>incoming\<close>, outgoing when there is none;
  any other arguments are refused with a planning error and leave the catalog as it is.
\<close>

theorem arguments_parsed_by_meaning:
  "(parse_arguments dbg c args = Ok (name, n, hops, cap, dir) \<longleftrightarrow> traverse_call c args name n hops cap dir) \<and>
   ((\<exists>name n hops cap dir. traverse_call c args name n hops cap dir) \<or>
    (\<exists>m. parse_arguments dbg c args = Err (DfPlan m) \<and> graph_traverse dbg D args c = (Err (DfPlan m), c)))"
proof -
  have "\<exists>m. parse_arguments dbg c args = Err (DfPlan m) \<and> graph_traverse dbg D args c = (Err (DfPlan m), c)"
    if "\<nexists>name n hops cap dir. traverse_call c args name n hops cap dir"
    using refused_arguments [of c args dbg] that by (auto simp: graph_traverse_def)
  then show ?thesis by (simp only: parse_arguments_iff) blast
qed

theorem arguments_parsed_by_meaning_witness:
  "parse_arguments (\<lambda>_. []) example_catalog [Literal (ScLargeUtf8 (Some ''g'')), Literal (ScInt32 (Some 4)),
     Literal (ScInt64 (Some 2)), Literal (ScUInt32 (Some 10)), Literal (ScUtf8 (Some ''outgoing''))] =
     Ok (''g'', 4, 2, Some 10, Outgoing) \<and>
   (\<exists>m. graph_traverse (\<lambda>_. []) list_dash [Literal (ScUtf8 (Some ''g'')), Literal (ScInt64 (Some (-1))),
     Literal (ScInt64 (Some 2))] example_catalog = (Err (DfPlan m), example_catalog))"
proof -
  have ten: "Some 10 = Some (unat (10 :: u64))" by simp
  have "traverse_call example_catalog ([Literal (ScLargeUtf8 (Some ''g'')), Literal (ScInt32 (Some 4)),
     Literal (ScInt64 (Some 2))] @ [Literal (ScUInt32 (Some 10)), Literal (ScUtf8 (Some ''outgoing''))])
     ''g'' 4 2 (Some 10) Outgoing"
    unfolding ten
    by (intro call cap_and_direction start_id direction_literal [where w = "''outgoing''"]) (simp_all add: direction_words_def)
  moreover have "\<not> traverse_call example_catalog [Literal (ScUtf8 (Some ''g'')), Literal (ScInt64 (Some (-1))),
     Literal (ScInt64 (Some 2))] name n hops cap dir" for name n hops cap dir
  proof -
    have "- 1 \<noteq> uint n" using uint_ge_0 [of n] by linarith
    then show ?thesis by (simp add: traverse_call_iff denotes_start_iff)
  qed
  ultimately show ?thesis
    using arguments_parsed_by_meaning [of "\<lambda>_. []" example_catalog] by simp blast
qed

text \<open>A call from SQL: integers come as \<open>Int64\<close>.\<close>

definition example_arguments :: "64 word \<Rightarrow> string \<Rightarrow> expr list" where
  "example_arguments n w = [Literal (ScUtf8 (Some ''g'')), Literal (ScInt64 (Some n)),
     Literal (ScInt64 (Some 3)), Literal (ScUtf8 (Some w))]"

lemma example_call:
  assumes "(w, dir) \<in> direction_words" "uint m = sint n"
  shows "traverse_call c (example_arguments n w) ''g'' m 3 None dir"
proof -
  have "denotes_options [Literal (ScUtf8 (Some w))] None dir"
    by (intro direction_only direction_literal [OF _ assms(1)]) simp
  with assms(2) show ?thesis by (simp add: example_arguments_def traverse_call_iff denotes_start_iff)
qed

text \<open>A query from its arguments to its batch: planned, then executed on the catalog as it is then.\<close>

definition run_query ::
  "arrow \<Rightarrow> platform \<Rightarrow> ('m, 's) dash \<Rightarrow> expr_debug \<Rightarrow> expr list \<Rightarrow> ('m, 's) catalog \<Rightarrow> record_batch df_result" where
  "run_query A P D dbg args c =
     (let (r, c1) = graph_traverse dbg D args c
      in bind_res r (\<lambda>t. traversal_execute A P D (table_exec c1 t) 0))"

lemma table_exec_eq:
  "table_exec c (traversal_table_new g r spec) =
     \<lparr>te_graph = gc_heap c g, te_reverse = map_option (gc_heap c) r, te_spec = spec\<rparr>"
  by (simp add: table_exec_def traversal_table_new_def traversal_exec_new_def with_reverse_def
      Let_def split: option.splits)

abbreviation query_spec :: "u64 \<Rightarrow> u64 \<Rightarrow> usize option \<Rightarrow> traversal_direction \<Rightarrow> traversal_spec" where
  "query_spec n hops cap dir \<equiv> traversal_spec_default\<lparr>ts_start := [node_new n],
     ts_max_depth := ucast hops, ts_max_nodes := cap, ts_direction := dir\<rparr>"

lemma query_spec_sel:
  "ts_algorithm (query_spec n hops cap dir) = AlgorithmBfs" "ts_direction (query_spec n hops cap dir) = dir"
  "ts_max_nodes (query_spec n hops cap dir) = cap"
  "{s \<in> set (ts_start (query_spec n hops cap dir)). Q s} = {s. s = NodeId n \<and> Q s}"
  by (auto simp: traversal_spec_default_def node_new_def)

lemma hops_le:
  assumes "unat (hops :: u64) \<le> u32_max"
  shows "(d :: u32) \<le> ts_max_depth (query_spec n hops cap dir) \<longleftrightarrow> unat d \<le> unat hops"
  using assms by (simp add: word_le_nat_alt unsigned_ucast_eq u32_max_def take_bit_nat_eq_self)

lemma traverse_outgoing_eq:
  assumes "traverse_call c args name n hops cap Outgoing"
    and "entry_of c name = Some en" "unat hops \<le> u32_max"
  shows "graph_traverse dbg D args c =
    (Ok (traversal_table_new (ge_forward en) (ge_reverse en) (query_spec n hops cap Outgoing)), c)"
  using assms(1) [folded parse_arguments_iff [of dbg]] assms(2,3)
  by (simp add: graph_traverse_def catalog_get_def reverse_for_def u32_of_u64_def)

lemma traverse_rows:
  assumes "arrow_laws A" "entry_of c name = Some en" "gc_heap c (ge_forward en) = g"
    and "wf_graph D g" "compactable D g"
    and "\<And>r. ge_reverse en = Some r \<Longrightarrow> transpose D g = Ok (gc_heap c r)"
    and "traverse_call c args name n hops None Outgoing" "unat hops \<le> u32_max"
  shows "\<exists>t ids ds.
    graph_traverse dbg D args c = (Ok t, c) \<and>
    traversal_execute A P D (table_exec c t) 0 = Ok (rows_batch ids ds) \<and>
    distinct ids \<and> sorted (map unat ds) \<and> length ds = length ids \<and>
    (\<forall>v d. (v, d) \<in> set (zip ids ds) \<longleftrightarrow> unat d \<le> unat hops \<and>
       reach_distance D g {s. s = NodeId n \<and> graph_contains g s} (unat d) (NodeId v))"
proof -
  let ?spec = "query_spec n hops None Outgoing"
  let ?t = "traversal_table_new (ge_forward en) (ge_reverse en) ?spec"
  have call: "graph_traverse dbg D args c = (Ok ?t, c)"
    using assms(7,2,8) by (rule traverse_outgoing_eq)
  have exec: "table_exec c ?t =
      \<lparr>te_graph = g, te_reverse = map_option (gc_heap c) (ge_reverse en), te_spec = ?spec\<rparr>"
    by (simp add: table_exec_eq assms(3))
  have rev_ok: "map_option (gc_heap c) (ge_reverse en) = None \<or>
      (compactable D g \<and> (\<exists>r. transpose D g = Ok r \<and> map_option (gc_heap c) (ge_reverse en) = Some r))"
    using assms(5,6) by (cases "ge_reverse en") auto
  note spec = query_spec_sel [where n = n and hops = hops and cap = None and dir = Outgoing]
  from outgoing_rows [OF assms(1) compactable_searchable [OF assms(4,5)] spec(1-3) rev_ok,
      of P, folded exec, unfolded spec(4) hops_le [OF assms(8)]] call
  show ?thesis by blast
qed

text \<open>
  C9: a query from planning to rows: for a registered graph whose memoised transpose, if there
  is one, is its transpose, any call of \<open>graph_traverse\<close> that means an outgoing query without a
  cap plans a table without touching the catalog; executing it returns exactly the nodes within the given number of hops
  of the start node, each once, at its shortest-path distance, in order of distance.
\<close>

theorem traverse_query_rows:
  assumes "arrow_laws A" "entry_of c name = Some en" "gc_heap c (ge_forward en) = g"
    and "wf_graph D g" "compactable D g"
    and "\<And>r. ge_reverse en = Some r \<Longrightarrow> transpose D g = Ok (gc_heap c r)"
    and "traverse_call c args name n hops None Outgoing" "unat hops \<le> u32_max"
  shows "\<exists>t ids ds.
    graph_traverse dbg D args c = (Ok t, c) \<and>
    traversal_execute A P D (table_exec c t) 0 = Ok (rows_batch ids ds) \<and>
    distinct ids \<and> sorted (map unat ds) \<and> length ds = length ids \<and>
    (\<forall>v d. (v, d) \<in> set (zip ids ds) \<longleftrightarrow> unat d \<le> unat hops \<and>
       reach_distance D g {s. s = NodeId n \<and> graph_contains g s} (unat d) (NodeId v))"
  using assms by (rule traverse_rows)

theorem traverse_query_rows_witness:
  "\<exists>t ids ds. graph_traverse (\<lambda>_. []) list_dash (example_arguments 0 ''out'') example_catalog =
      (Ok t, example_catalog) \<and>
    traversal_execute list_arrow example_platform list_dash (table_exec example_catalog t) 0 =
      Ok (rows_batch ids ds) \<and> distinct ids"
proof -
  have "\<And>r. ge_reverse (entry_new 0) = Some r \<Longrightarrow>
      transpose list_dash example_graph = Ok (gc_heap example_catalog r)"
    by (simp add: entry_new_def)
  moreover have "traverse_call example_catalog (example_arguments 0 ''out'') ''g'' 0 3 None Outgoing"
    by (rule example_call) (simp_all add: direction_words_def)
  moreover have "unat (3 :: u64) \<le> u32_max" by (simp add: u32_max_def)
  ultimately show ?thesis
    using traverse_query_rows [OF list_arrow_laws example_catalog_props(2,3) wf_example_graph
        compactable_example] by blast
qed

text \<open>The transpose that an incoming query uses: the memoised one, or a new one.\<close>

lemma reverse_current:
  assumes "wf_catalog c" "entry_of c name = Some en" "gc_heap c (ge_forward en) = g"
    and "transpose D g = Ok r" "\<And>a. ge_reverse en = Some a \<Longrightarrow> gc_heap c a = r"
  shows "\<exists>a c'. catalog_reverse D name c = (Ok (Some a), c') \<and> gc_heap c' a = r \<and>
    gc_heap c' (ge_forward en) = g \<and> entry_of c' name = Some (en\<lparr>ge_reverse := Some a\<rparr>)"
proof (cases "ge_reverse en")
  case None
  have "ge_forward en < gc_next_graph c"
    using entry_of_fits [OF assms(1,2)] by (simp add: entry_fits_def)
  then show ?thesis
    using reverse_builds [OF assms(1,2) None, of D r] assms(3,4) by blast
next
  case (Some a)
  then have "en\<lparr>ge_reverse := Some a\<rparr> = en" by simp
  with Some show ?thesis
    using assms(2,3,5) by (intro exI [of _ a] exI [of _ c]) (auto simp: catalog_reverse_def entry_of_def)
qed

lemma incoming_call_rows:
  assumes "arrow_laws A" "wf_catalog c" "entry_of c name = Some en"
    and "\<And>a. ge_reverse en = Some a \<Longrightarrow> transpose D g = Ok (gc_heap c a)"
    and "gc_heap c (ge_forward en) = g" "wf_graph D g" "compactable D g"
    and "traverse_call c args name n hops None Incoming" "unat hops \<le> u32_max"
  shows "\<exists>r a c' t ids ds.
    graph_traverse dbg D args c = (Ok t, c') \<and>
    entry_of c' name = Some (en\<lparr>ge_reverse := Some a\<rparr>) \<and>
    transpose D g = Ok r \<and> gc_heap c' a = r \<and>
    traversal_execute A P D (table_exec c' t) 0 = Ok (rows_batch ids ds) \<and> distinct ids \<and>
    (\<forall>v d. (v, d) \<in> set (zip ids ds) \<longleftrightarrow> unat d \<le> unat hops \<and> graph_contains r (NodeId n) \<and>
       (NodeId v, NodeId n) \<in> graph_edges D g ^^ unat d \<and>
       (\<forall>e < unat d. (NodeId v, NodeId n) \<notin> graph_edges D g ^^ e))"
proof -
  let ?spec = "query_spec n hops None Incoming"
  obtain r where r: "transpose D g = Ok r" using transpose_Ok [OF assms(6,7)] by metis
  have "gc_heap c a = r" if "ge_reverse en = Some a" for a using assms(4) [OF that] r by simp
  from reverse_current [OF assms(2,3,5) r this] obtain a c' where
    c': "catalog_reverse D name c = (Ok (Some a), c')" "gc_heap c' a = r"
      "gc_heap c' (ge_forward en) = g" "entry_of c' name = Some (en\<lparr>ge_reverse := Some a\<rparr>)"
    by blast
  let ?t = "traversal_table_new (ge_forward en) (Some a) ?spec"
  have call: "graph_traverse dbg D args c = (Ok ?t, c')"
    using assms(8) [folded parse_arguments_iff [of dbg]] assms(3,9) c'(1)
    by (simp add: graph_traverse_def catalog_get_def reverse_for_def u32_of_u64_def)
  have exec: "table_exec c' ?t = with_reverse r (traversal_exec_new g ?spec)"
    using c'(2,3) by (simp add: table_exec_eq with_reverse_def traversal_exec_new_def)
  note spec = query_spec_sel [where n = n and hops = hops and cap = None and dir = Incoming]
  from incoming_rows [OF assms(1,6,7) r spec(1-3), of P,
      folded exec, unfolded spec(4) hops_le [OF assms(9)]]
  obtain ids ds where "traversal_execute A P D (table_exec c' ?t) 0 = Ok (rows_batch ids ds)" "distinct ids"
    "\<forall>v d. (v, d) \<in> set (zip ids ds) \<longleftrightarrow> unat d \<le> unat hops \<and>
       (\<exists>s \<in> {s. s = NodeId n \<and> graph_contains r s}. (NodeId v, s) \<in> graph_edges D g ^^ unat d) \<and>
       (\<forall>e < unat d. \<forall>s \<in> {s. s = NodeId n \<and> graph_contains r s}. (NodeId v, s) \<notin> graph_edges D g ^^ e)"
    by blast
  then show ?thesis using call c'(2,4) r
    by (intro exI [of _ r] exI [of _ a] exI [of _ c'] exI [of _ ?t] exI [of _ ids] exI [of _ ds]) auto
qed

text \<open>From a node with a live edge, which the transpose always contains.\<close>

lemma incoming_call_distances:
  assumes "arrow_laws A" "wf_catalog c" "entry_of c name = Some en"
    and "\<And>a. ge_reverse en = Some a \<Longrightarrow> transpose D g = Ok (gc_heap c a)"
    and "gc_heap c (ge_forward en) = g" "wf_graph D g" "compactable D g"
    and "traverse_call c args name n hops None Incoming" "unat hops \<le> u32_max"
    and "NodeId n \<in> Field (graph_edges D g)"
  shows "\<exists>ids ds. run_query A P D dbg args c = Ok (rows_batch ids ds) \<and> distinct ids \<and>
    (\<forall>v d. (v, d) \<in> set (zip ids ds) \<longleftrightarrow> unat d \<le> unat hops \<and>
       (NodeId v, NodeId n) \<in> graph_edges D g ^^ unat d \<and>
       (\<forall>e < unat d. (NodeId v, NodeId n) \<notin> graph_edges D g ^^ e))"
proof -
  obtain r a c' t ids ds where q: "graph_traverse dbg D args c = (Ok t, c')" "transpose D g = Ok r"
    "traversal_execute A P D (table_exec c' t) 0 = Ok (rows_batch ids ds)" "distinct ids"
    "\<And>v d. (v, d) \<in> set (zip ids ds) \<longleftrightarrow> unat d \<le> unat hops \<and> graph_contains r (NodeId n) \<and>
       (NodeId v, NodeId n) \<in> graph_edges D g ^^ unat d \<and>
       (\<forall>e < unat d. (NodeId v, NodeId n) \<notin> graph_edges D g ^^ e)"
    using incoming_call_rows [OF assms(1-9), of dbg P] by blast
  note t = transpose_edges [OF assms(6,7) q(2)]
  have "base_edges r = (graph_edges D g)\<inverse>"
    using t wf_graphD(3) [OF t(1)] by (simp add: graph_edges_def)
  then have "unat (as_u64 a) < node_count r \<and> unat (as_u64 b) < node_count r"
    if "(b, a) \<in> graph_edges D g" for a b
    using that base_edges_bound [OF wf_graphD(1) [OF t(1)]] by auto
  then have "unat (as_u64 (NodeId n)) < node_count r" using assms(10) unfolding Field_def by blast
  then have "graph_contains r (NodeId n)" by (simp add: graph_contains_iff)
  with q(1,3-5) show ?thesis by (intro exI [of _ ids] exI [of _ ds]) (simp add: run_query_def)
qed

text \<open>
  C10: an incoming query without a cap, however its arguments are written, on a graph whose
  memoised transpose is absent or current, builds and memoises the transpose where there is none,
  and returns exactly the nodes from which the start node can be reached within the given number
  of hops, each once, at the length of its shortest path to the start.
\<close>

theorem incoming_query_rows:
  assumes "arrow_laws A" "wf_catalog c" "entry_of c name = Some en"
    and "\<And>a. ge_reverse en = Some a \<Longrightarrow> transpose D g = Ok (gc_heap c a)"
    and "gc_heap c (ge_forward en) = g" "wf_graph D g" "compactable D g"
    and "traverse_call c args name n hops None Incoming" "unat hops \<le> u32_max"
  shows "\<exists>r a c' t ids ds.
    graph_traverse dbg D args c = (Ok t, c') \<and>
    entry_of c' name = Some (en\<lparr>ge_reverse := Some a\<rparr>) \<and>
    transpose D g = Ok r \<and> gc_heap c' a = r \<and>
    traversal_execute A P D (table_exec c' t) 0 = Ok (rows_batch ids ds) \<and> distinct ids \<and>
    (\<forall>v d. (v, d) \<in> set (zip ids ds) \<longleftrightarrow> unat d \<le> unat hops \<and> graph_contains r (NodeId n) \<and>
       (NodeId v, NodeId n) \<in> graph_edges D g ^^ unat d \<and>
       (\<forall>e < unat d. (NodeId v, NodeId n) \<notin> graph_edges D g ^^ e))"
  using assms by (rule incoming_call_rows)

theorem incoming_query_rows_witness:
  "\<exists>c' t ids ds. graph_traverse (\<lambda>_. []) list_dash (example_arguments 2 ''incoming'') example_catalog = (Ok t, c') \<and>
    traversal_execute list_arrow example_platform list_dash (table_exec c' t) 0 = Ok (rows_batch ids ds)"
proof -
  have "\<And>a. ge_reverse (entry_new 0) = Some a \<Longrightarrow>
      transpose list_dash example_graph = Ok (gc_heap example_catalog a)"
    by (simp add: entry_new_def)
  moreover have "traverse_call example_catalog (example_arguments 2 ''incoming'') ''g'' 2 3 None Incoming"
    by (rule example_call) (simp_all add: direction_words_def)
  moreover have "unat (3 :: u64) \<le> u32_max" by (simp add: u32_max_def)
  ultimately show ?thesis
    using incoming_query_rows [OF list_arrow_laws example_catalog_props(1,2) _ example_catalog_props(3)
        wf_example_graph compactable_example] by blast
qed

end
