(* ===== verification/Loader.thy ===== *)
theory Loader
  imports Traverse_Udtf Csr_Exec
begin

text \<open>
  Registering the graphs of an ontology (\<open>loader.rs\<close>): every edge definition becomes a query
  on its source table, the query's rows become a graph, and the graph is registered under the
  edge's name.  The queries are data; the session that runs them is a parameter.
\<close>

section \<open>The query engine\<close>

text \<open>The expressions the loader writes; \<open>SqlText\<close> is a string literal.\<close>

datatype sql_expr =
    SqlCol string
  | SqlText string
  | SqlCast sql_expr data_type
  | SqlAlias sql_expr string
  | SqlRegexpReplace sql_expr sql_expr sql_expr "sql_expr option"
  | SqlLtEq sql_expr sql_expr
  | SqlGt sql_expr sql_expr
  | SqlIsNull sql_expr
  | SqlOr sql_expr sql_expr

text \<open>
  A session: its tables, the operations on data frames, planning, the operator that coalesces
  the partitions of a plan, collecting a frame, and driving a stream, given by its state and
  what a poll does, to its end.  The clock and the number of processors are read from it too.
\<close>

record ('d, 'p, 'st) session =
  ss_table :: "string \<Rightarrow> 'd df_result"
  ss_filter :: "sql_expr \<Rightarrow> 'd \<Rightarrow> 'd df_result"
  ss_select :: "sql_expr list \<Rightarrow> 'd \<Rightarrow> 'd df_result"
  ss_plan :: "'d \<Rightarrow> 'p df_result"
  ss_coalesce :: "'p \<Rightarrow> input_plan"
  ss_collect :: "'d \<Rightarrow> record_batch list df_result"
  ss_drive :: "('st \<Rightarrow> record_batch df_result poll \<times> 'st) \<Rightarrow> 'st \<Rightarrow> record_batch list df_result \<times> 'st"
  ss_elapsed_millis :: nat
  ss_cpus :: usize

text \<open>
  What driving a stream is for: it is polled until it ends or fails, again when it is pending;
  the batches it was ready with are the result.
\<close>

fun poll_times :: "('st \<Rightarrow> 'b poll \<times> 'st) \<Rightarrow> nat \<Rightarrow> 'st \<Rightarrow> 'b poll list \<times> 'st" where
  "poll_times poll 0 st = ([], st)"
| "poll_times poll (Suc n) st =
     (let (p, st1) = poll st; (ps, st2) = poll_times poll n st1 in (p # ps, st2))"

fun polled_batches :: "record_batch df_result poll list \<Rightarrow> record_batch list option" where
  "polled_batches [] = Some []"
| "polled_batches (Pending # ps) = polled_batches ps"
| "polled_batches (Ready (Some (Ok b)) # ps) = map_option (Cons b) (polled_batches ps)"
| "polled_batches (_ # ps) = None"

definition drives_streams :: "('d, 'p, 'st) session \<Rightarrow> bool" where
  "drives_streams S \<longleftrightarrow>
     (\<forall>poll n st ps bs st'.
        poll_times poll n st = (ps @ [Ready None], st') \<and> polled_batches ps = Some bs \<longrightarrow>
        ss_drive S poll st = (Ok bs, st')) \<and>
     (\<forall>poll n st ps bs e st'.
        poll_times poll n st = (ps @ [Ready (Some (Err e))], st') \<and> polled_batches ps = Some bs \<longrightarrow>
        ss_drive S poll st = (Err e, st'))"

section \<open>Projecting an edge definition\<close>

definition graph_name :: "ontology \<Rightarrow> edge_definition \<Rightarrow> string" where
  "graph_name ont edge =
     (if ontology_name ont = [] then ed_label edge else ontology_name ont @ ''.'' @ ed_label edge)"

definition needs_dictionary :: "ontology \<Rightarrow> edge_definition \<Rightarrow> bool" where
  "needs_dictionary ont edge \<longleftrightarrow>
     os_default_node_id_type (on_settings ont) = IdString \<or>
     list_ex (\<lambda>n. nd_id_transform n \<in> {HashU64, HashU32, UuidToU128})
       (List.map_filter (ontology_node ont) [ed_from_node edge, ed_to_node edge])"

text \<open>Numeric identifiers: the digits of the column, or the column itself, cast to 64 bits.\<close>

definition numeric_id_expr :: "ontology \<Rightarrow> string \<Rightarrow> string \<Rightarrow> sql_expr" where
  "numeric_id_expr ont node_label column =
     (let extract = (case ontology_node ont node_label of
            None \<Rightarrow> False | Some n \<Rightarrow> nd_id_transform n = ExtractNumeric);
          source = (if extract
            then SqlRegexpReplace (SqlCol column) (SqlText ''[^0-9]'') (SqlText []) (Some (SqlText ''g''))
            else SqlCol column)
      in SqlAlias (SqlCast source DtUInt64) column)"

definition filter_from :: "('d, 'p, 'st) session \<Rightarrow> edge_definition \<Rightarrow> string \<Rightarrow> 'd \<Rightarrow> 'd df_result" where
  "filter_from S edge instant df = (case ed_valid_from_column edge of
     None \<Rightarrow> Ok df
   | Some from_col \<Rightarrow> ss_filter S (SqlLtEq (SqlCol from_col) (SqlText instant)) df)"

definition filter_to :: "('d, 'p, 'st) session \<Rightarrow> edge_definition \<Rightarrow> string \<Rightarrow> 'd \<Rightarrow> 'd df_result" where
  "filter_to S edge instant df = (case ed_valid_to_column edge of
     None \<Rightarrow> Ok df
   | Some to_col \<Rightarrow> ss_filter S (SqlOr (SqlIsNull (SqlCol to_col))
       (SqlGt (SqlCol to_col) (SqlText instant))) df)"

definition apply_temporal_filter ::
  "('d, 'p, 'st) session \<Rightarrow> 'd \<Rightarrow> edge_definition \<Rightarrow> string option \<Rightarrow> 'd df_result" where
  "apply_temporal_filter S df edge as_of = (case as_of of
     None \<Rightarrow> Ok df
   | Some instant \<Rightarrow> bind_res (filter_from S edge instant df) (filter_to S edge instant))"

definition weight_projection :: "edge_definition \<Rightarrow> sql_expr list" where
  "weight_projection edge = (case ed_weight_column edge of
     None \<Rightarrow> [] | Some w \<Rightarrow> [SqlAlias (SqlCast (SqlCol w) DtFloat32) w])"

definition numeric_projection :: "ontology \<Rightarrow> edge_definition \<Rightarrow> sql_expr list" where
  "numeric_projection ont edge =
     [numeric_id_expr ont (ed_from_node edge) (ed_from_column edge),
      numeric_id_expr ont (ed_to_node edge) (ed_to_column edge)] @ weight_projection edge"

text \<open>The sink of a build is its own: address 0 of a fresh store.\<close>

definition edge_build_config :: "usize \<Rightarrow> edge_definition \<Rightarrow> build_exec_config" where
  "edge_build_config cpus edge = (build_exec_config_default cpus)
     \<lparr>xc_source_column := ed_from_column edge, xc_target_column := ed_to_column edge,
      xc_graph_sink := Some 0, xc_weight_column := ed_weight_column edge\<rparr>"

type_synonym ('m, 's) stream_state = "build_stream \<times> ('m, 's) sinks"

definition build_edge_graph ::
  "arrow \<Rightarrow> ('m, 's) dash \<Rightarrow> ('d, 'p, ('m, 's) stream_state) session \<Rightarrow> ontology \<Rightarrow> edge_definition \<Rightarrow> string option \<Rightarrow>
   ('m, 's) csr_graph df_result" where
  "build_edge_graph A D S ont edge as_of =
     bind_res (ss_table S (ed_source edge)) (\<lambda>df.
     bind_res (apply_temporal_filter S df edge as_of) (\<lambda>df1.
     bind_res (ss_select S (numeric_projection ont edge) df1) (\<lambda>df2.
     bind_res (ss_plan S df2) (\<lambda>scan.
       let builder = csr_builder_exec_new (ss_coalesce S scan) (edge_build_config (ss_cpus S) edge)
       in bind_res (csr_builder_execute builder 0) (\<lambda>stream.
            let (collected, _, sinks) = ss_drive S (poll_next A D (ss_elapsed_millis S))
                  (stream, new_graph_sink 0 (\<lambda>_. None))
            in bind_res collected (\<lambda>_.
                 ok_or (sinks 0)
                   (DfExecution ''CSRBuilderExec completed without publishing a graph'')))))))"

subsection \<open>String-keyed edges\<close>

definition dictionary_projection :: "edge_definition \<Rightarrow> sql_expr list" where
  "dictionary_projection edge =
     [SqlAlias (SqlCast (SqlCol (ed_from_column edge)) DtUtf8) (ed_from_column edge),
      SqlAlias (SqlCast (SqlCol (ed_to_column edge)) DtUtf8) (ed_to_column edge)] @
     weight_projection edge"

record interned_edges =
  ie_dictionary :: node_dictionary
  ie_edges :: "(u64 \<times> u64) list"
  ie_weights :: "f32 list"

definition interned_new :: interned_edges where
  "interned_new = \<lparr>ie_dictionary = dictionary_new, ie_edges = [], ie_weights = []\<rparr>"

definition key_column :: "record_batch \<Rightarrow> usize \<Rightarrow> string \<Rightarrow> string option list df_result" where
  "key_column b i column =
     bind_res (index_vec (batch_columns b) i) (\<lambda>c.
       ok_or (as_strings c) (DfExecution (''ID column '' @ quoted column @ '' did not cast to Utf8'')))"

definition key_weights :: "edge_definition \<Rightarrow> record_batch \<Rightarrow> f32 option list option df_result" where
  "key_weights edge b =
     (if ed_weight_column edge \<noteq> None
      then bind_res (index_vec (batch_columns b) 2) (\<lambda>c.
        map_res Some (ok_or (as_float32 c) (DfExecution ''weight column did not cast to Float32'')))
      else Ok None)"

definition push_interned ::
  "string \<Rightarrow> string \<Rightarrow> f32 list \<Rightarrow> interned_edges \<Rightarrow> interned_edges" where
  "push_interned x y ws st =
     (let (f, d1) = get_or_insert x (ie_dictionary st);
          (t, d2) = get_or_insert y d1
      in \<lparr>ie_dictionary = d2, ie_edges = ie_edges st @ [(f, t)], ie_weights = ie_weights st @ ws\<rparr>)"

definition intern_row ::
  "string option list \<Rightarrow> string option list \<Rightarrow> f32 option list option \<Rightarrow>
   interned_edges \<Rightarrow> usize \<Rightarrow> interned_edges df_result" where
  "intern_row from to weights st i =
     bind_res (index_vec from i) (\<lambda>f. case f of None \<Rightarrow> Ok st | Some x \<Rightarrow>
     bind_res (index_vec to i) (\<lambda>t. case t of None \<Rightarrow> Ok st | Some y \<Rightarrow>
     case weights of
       None \<Rightarrow> Ok (push_interned x y [] st)
     | Some ws \<Rightarrow> bind_res (index_vec ws i) (\<lambda>w. Ok (push_interned x y [weight_or_one w] st))))"

definition intern_batch ::
  "edge_definition \<Rightarrow> interned_edges \<Rightarrow> record_batch \<Rightarrow> interned_edges df_result" where
  "intern_batch edge st b =
     bind_res (key_column b 0 (ed_from_column edge)) (\<lambda>from.
     bind_res (key_column b 1 (ed_to_column edge)) (\<lambda>to.
     bind_res (key_weights edge b) (\<lambda>weights.
     fold_res (intern_row from to weights) st [0..<batch_rows b])))"

definition interned_builder :: "edge_definition \<Rightarrow> interned_edges \<Rightarrow> csr_builder" where
  "interned_builder edge st =
     (if ed_weight_column edge \<noteq> None
      then with_weighted_edges (map (\<lambda>((f, t), w). (f, t, w)) (zip (ie_edges st) (ie_weights st))) builder_new
      else with_edges (ie_edges st) builder_new)"

definition build_edge_graph_with_dictionary ::
  "('m, 's) dash \<Rightarrow> ('d, 'p, 'st) session \<Rightarrow> edge_definition \<Rightarrow> string option \<Rightarrow>
   (('m, 's) csr_graph \<times> node_dictionary) df_result" where
  "build_edge_graph_with_dictionary D S edge as_of =
     bind_res (ss_table S (ed_source edge)) (\<lambda>df.
     bind_res (apply_temporal_filter S df edge as_of) (\<lambda>df1.
     bind_res (ss_select S (dictionary_projection edge) df1) (\<lambda>df2.
     bind_res (ss_collect S df2) (\<lambda>batches.
     bind_res (fold_res (intern_batch edge) interned_new batches) (\<lambda>st.
     map_res (\<lambda>g. (g, ie_dictionary st)) (map_err DfExternal (build D (interned_builder edge st))))))))"

section \<open>Registering\<close>

definition projection_context :: "edge_definition \<Rightarrow> df_error \<Rightarrow> df_error" where
  "projection_context edge = DfContext (''while projecting edge '' @ quoted (ed_label edge) @
     '' from table '' @ quoted (ed_source edge))"

text \<open>What one edge definition is built into: a graph and perhaps a dictionary.\<close>

definition project_edge ::
  "arrow \<Rightarrow> ('m, 's) dash \<Rightarrow> ('d, 'p, ('m, 's) stream_state) session \<Rightarrow> ontology \<Rightarrow> string option \<Rightarrow> edge_definition \<Rightarrow>
   (('m, 's) csr_graph \<times> node_dictionary option) df_result" where
  "project_edge A D S ont as_of edge =
     map_err (projection_context edge)
       (if needs_dictionary ont edge
        then map_res (\<lambda>(g, d). (g, Some d)) (build_edge_graph_with_dictionary D S edge as_of)
        else map_res (\<lambda>g. (g, None)) (build_edge_graph A D S ont edge as_of))"

definition register_projected ::
  "string \<Rightarrow> ('m, 's) csr_graph \<times> node_dictionary option \<Rightarrow> ('m, 's) catalog \<Rightarrow> ('m, 's) catalog" where
  "register_projected name = (\<lambda>(g, dict) c.
     let (a, c1) = alloc_graph g c
     in case dict of
          Some d \<Rightarrow> register_with_dictionary name a d c1
        | None \<Rightarrow> snd (register name a c1))"

text \<open>An error ends the loop; what was registered before it stays.\<close>

fun register_edges ::
  "arrow \<Rightarrow> ('m, 's) dash \<Rightarrow> ('d, 'p, ('m, 's) stream_state) session \<Rightarrow> ontology \<Rightarrow> string option \<Rightarrow> edge_definition list \<Rightarrow>
   ('m, 's) catalog \<Rightarrow> string list df_result \<times> ('m, 's) catalog" where
  "register_edges A D S ont as_of [] c = (Ok [], c)"
| "register_edges A D S ont as_of (edge # edges) c =
     (case project_edge A D S ont as_of edge of
        Err e \<Rightarrow> (Err e, c)
      | Panic \<Rightarrow> (Panic, c)
      | Ok built \<Rightarrow>
          (let (r, c') = register_edges A D S ont as_of edges
             (register_projected (graph_name ont edge) built c)
           in (map_res (Cons (graph_name ont edge)) r, c')))"

definition register_ontology_graphs_as_of ::
  "arrow \<Rightarrow> ('m, 's) dash \<Rightarrow> ('d, 'p, ('m, 's) stream_state) session \<Rightarrow> ontology \<Rightarrow> string option \<Rightarrow>
   ('m, 's) catalog \<Rightarrow> string list df_result \<times> ('m, 's) catalog" where
  "register_ontology_graphs_as_of A D S ont as_of c =
     (case validate_or_error ont of
        Err e \<Rightarrow> (Err (DfPlan (''ontology validation failed: '' @ ontology_error_display e)), c)
      | Panic \<Rightarrow> (Panic, c)
      | Ok _ \<Rightarrow> register_edges A D S ont as_of (on_edges ont) c)"

definition register_ontology_graphs ::
  "arrow \<Rightarrow> ('m, 's) dash \<Rightarrow> ('d, 'p, ('m, 's) stream_state) session \<Rightarrow> ontology \<Rightarrow>
   ('m, 's) catalog \<Rightarrow> string list df_result \<times> ('m, 's) catalog" where
  "register_ontology_graphs A D S ont c = register_ontology_graphs_as_of A D S ont None c"

section \<open>Streams that are driven\<close>

text \<open>
  What is left to do for a stream; every poll of an unfinished stream does some of it, unless
  it panics.
\<close>

definition stream_work :: "build_stream \<Rightarrow> nat" where
  "stream_work s = (if bs_finished s then 0 else Suc (length (bs_input s)))"

lemma extract_edges_keeps:
  "bs_finished (snd (extract_edges A b s)) = bs_finished s"
  "bs_input (snd (extract_edges A b s)) = bs_input s"
  by (auto simp: extract_edges_def Let_def split: res.splits prod.splits)

lemma poll_next_work:
  assumes "poll_next A D t (s, k) = (p, s', k')" "p = Pending \<or> (\<exists>b. p = Ready (Some (Ok b)))"
  shows "stream_work s' < stream_work s"
proof (cases "bs_finished s")
  case True
  then show ?thesis using assms by (auto simp: poll_next_def)
next
  case False
  show ?thesis
  proof (cases "bs_input s")
    case Nil
    then show ?thesis
      using assms False by (auto simp: poll_next_def stream_work_def split: prod.splits res.splits)
  next
    case (Cons ev evs)
    let ?s = "s\<lparr>bs_input := evs\<rparr>"
    consider "ev = Pending" | b where "ev = Ready (Some (Ok b))"
      | "ev \<noteq> Pending" "\<nexists>b. ev = Ready (Some (Ok b))" by blast
    then show ?thesis
    proof cases
      case 1
      then show ?thesis using assms(1) False Cons by (auto simp: poll_next_def stream_work_def)
    next
      case (2 b)
      obtain r s2 where e: "extract_edges A b ?s = (r, s2)" by fastforce
      then have "bs_input s2 = evs" using extract_edges_keeps(2) [of A b ?s] by simp
      then show ?thesis using assms False Cons 2 e
        by (auto simp: poll_next_def stream_work_def split: res.splits)
    next
      case 3
      then show ?thesis using assms False Cons
        by (auto simp: poll_next_def stream_work_def Let_def
            split: poll.splits option.splits prod.splits res.splits)
    qed
  qed
qed

lemma poll_next_progress:
  assumes "\<not> bs_finished s" "poll_next A D t (s, k) = (p, s', k')" "p \<noteq> Ready (Some Panic)"
  shows "stream_work s' < stream_work s"
proof (cases "bs_finished s'")
  case True
  then show ?thesis using assms(1) by (simp add: stream_work_def)
next
  case False
  have "p = Pending \<or> (\<exists>b. p = Ready (Some (Ok b)))"
  proof (cases p)
    case (Ready r)
    then show ?thesis using assms False
      by (auto simp: poll_next_def Let_def split: if_splits prod.splits poll.splits option.splits res.splits)
  qed simp
  then show ?thesis using poll_next_work [OF assms(2)] by simp
qed

lemma run_polls_ends:
  assumes "stream_work s \<le> n" "run_polls A D t n (s, k) = (ps, s', k')"
  shows "bs_finished s' \<or> Ready (Some Panic) \<in> set ps"
  using assms
proof (induction n arbitrary: s k ps)
  case 0
  then show ?case by (simp add: stream_work_def split: if_splits)
next
  case (Suc n)
  obtain p s1 k1 where p: "poll_next A D t (s, k) = (p, s1, k1)" by (metis prod_cases3)
  obtain qs where q: "run_polls A D t n (s1, k1) = (qs, s', k')" "ps = p # qs"
    using Suc.prems(2) p by (auto simp: Let_def split: prod.splits)
  show ?case
  proof (cases "bs_finished s \<or> p = Ready (Some Panic)")
    case True
    then show ?thesis
    proof
      assume "bs_finished s"
      with Suc.prems(2) show ?thesis by (simp add: run_polls_finished del: run_polls.simps)
    qed (simp add: q(2))
  next
    case False
    then have "stream_work s1 \<le> n" using poll_next_progress [OF _ p] Suc.prems(1) by simp
    from Suc.IH [OF this q(1)] show ?thesis by (auto simp: q(2))
  qed
qed

lemma run_polls_times: "run_polls A D t n st = poll_times (poll_next A D t) n st"
  by (induction n arbitrary: st) (simp_all add: Let_def split: prod.splits)

lemma drive_polls:
  assumes "drives_streams S"
    and "run_polls A D t (m + 2) st = (replicate m Pending @ [Ready (Some (Ok b)), Ready None], st')"
  shows "ss_drive S (poll_next A D t) st = (Ok [b], st')"
proof -
  let ?ps = "replicate m Pending @ [Ready (Some (Ok b))]"
  have "poll_times (poll_next A D t) (m + 2) st = (?ps @ [Ready None], st')"
    using assms(2) unfolding run_polls_times by simp
  moreover have "polled_batches ?ps = Some [b]" by (induction m) simp_all
  ultimately show ?thesis using assms(1) unfolding drives_streams_def by blast
qed

lemma built_compactable:
  assumes "small_ids rows" "bytes \<le> usize_max" "dash_laws D"
    and "build D (rows_builder bytes weighted rows) = Ok g"
  shows "compactable D g"
  using assms(1,2)
  by (intro buildable_compactable [OF _ assms(3,4)])
    (auto simp: buildable_def rows_builder_props small_ids_def)

section \<open>Graphs of numeric edges\<close>

text \<open>The query of an edge definition with a projection.\<close>

definition edge_query ::
  "('d, 'p, 'st) session \<Rightarrow> sql_expr list \<Rightarrow> edge_definition \<Rightarrow> string option \<Rightarrow> 'd df_result" where
  "edge_query S projection edge as_of =
     bind_res (ss_table S (ed_source edge)) (\<lambda>df.
     bind_res (apply_temporal_filter S df edge as_of) (ss_select S projection))"

lemma edge_query_bind:
  "bind_res (ss_table S (ed_source edge)) (\<lambda>df.
     bind_res (apply_temporal_filter S df edge as_of) (\<lambda>df1.
     bind_res (ss_select S projection df1) F)) = bind_res (edge_query S projection edge as_of) F"
  by (simp add: edge_query_def bind_res_assoc)

text \<open>What the scan of a frame delivers in a single partition.\<close>

definition scans :: "('d, 'p, 'st) session \<Rightarrow> 'd \<Rightarrow> schema \<Rightarrow> batch_stream \<Rightarrow> bool" where
  "scans S df s evs \<longleftrightarrow>
     (\<exists>scan. ss_plan S df = Ok scan \<and>
        ss_coalesce S scan = \<lparr>ip_partitions = 1, ip_schema = s, ip_execute = Ok evs\<rparr>)"

abbreviation default_shard_bytes :: usize where
  "default_shard_bytes \<equiv> 64 * 1024 * 1024"

abbreviation weighted_edge :: "edge_definition \<Rightarrow> bool" where
  "weighted_edge edge \<equiv> ed_weight_column edge \<noteq> None"

lemma build_edge_graph_Ok:
  assumes "arrow_laws A" "dash_laws D" "drives_streams S"
    and "edge_query S (numeric_projection ont edge) edge as_of = Ok df" "scans S df s evs"
    and "input_edges A (edge_build_config (ss_cpus S) edge) s evs = Some rows" "small_ids rows"
    and "build D (rows_builder default_shard_bytes (weighted_edge edge) rows) = Ok g"
  shows "build_edge_graph A D S ont edge as_of = Ok g"
proof -
  let ?cfg = "edge_build_config (ss_cpus S) edge" and ?t = "ss_elapsed_millis S"
  obtain scan where scan: "ss_plan S df = Ok scan"
    "ss_coalesce S scan = \<lparr>ip_partitions = 1, ip_schema = s, ip_execute = Ok evs\<rparr>"
    using assms(5) by (auto simp: scans_def)
  have cfg: "xc_shard_size ?cfg = default_shard_bytes" "xc_weight_column ?cfg = ed_weight_column edge"
    "xc_graph_sink ?cfg = Some 0" "xc_memory_limit ?cfg = None"
    by (simp_all add: edge_build_config_def build_exec_config_default_def)
  have "within_limit ?cfg (length rows)" using small_within [OF assms(7) cfg(4)] .
  from stream_polls [OF assms(1,2,6) this, of g ?t 1 "\<lambda>_. None"] assms(8)
  obtain st where "run_polls A D ?t (length evs + 2) (build_stream_new evs ?cfg s, \<lambda>_. None) =
      (replicate (length evs) Pending @ [Ready (Some (Ok (stats_batch g ?t))), Ready None], st,
       sink_set 0 g (\<lambda>_. None))"
    unfolding cfg by auto
  from drive_polls [OF assms(3) this]
  have "ss_drive S (poll_next A D ?t) (build_stream_new evs ?cfg s, new_graph_sink 0 (\<lambda>_. None)) =
      (Ok [stats_batch g ?t], st, sink_set 0 g (\<lambda>_. None))"
    by (simp add: new_graph_sink_def)
  then show ?thesis
    by (simp add: build_edge_graph_def edge_query_bind assms(4) scan csr_builder_exec_new_def
        csr_builder_execute_def sink_set_def)
qed

section \<open>Graphs of string-keyed edges\<close>

type_synonym key_row = "(string \<times> string) \<times> f32"

text \<open>The rows of a batch of keys; \<open>None\<close> when a column does not have the type asked for.\<close>

definition batch_keys :: "edge_definition \<Rightarrow> record_batch \<Rightarrow> key_row list option" where
  "batch_keys edge b =
     (case (key_column b 0 (ed_from_column edge), key_column b 1 (ed_to_column edge),
            key_weights edge b) of
        (Ok fs, Ok ts, Ok ws) \<Rightarrow>
          if length fs = batch_rows b \<and> length ts = batch_rows b \<and>
             (case ws of None \<Rightarrow> True | Some w \<Rightarrow> length w = batch_rows b)
          then Some (concat (map (row_edge fs ts ws) [0..<batch_rows b])) else None
      | _ \<Rightarrow> None)"

fun batches_keys :: "edge_definition \<Rightarrow> record_batch list \<Rightarrow> key_row list option" where
  "batches_keys edge [] = Some []"
| "batches_keys edge (b # bs) =
     (case (batch_keys edge b, batches_keys edge bs) of
        (Some rows, Some rest) \<Rightarrow> Some (rows @ rest) | _ \<Rightarrow> None)"

definition push_key_row :: "bool \<Rightarrow> key_row \<Rightarrow> interned_edges \<Rightarrow> interned_edges" where
  "push_key_row weighted = (\<lambda>((x, y), w). push_interned x y (if weighted then [w] else []))"

lemma intern_row_Ok:
  assumes "i < length fs" "i < length ts" "case ws of None \<Rightarrow> True | Some w \<Rightarrow> i < length w"
  shows "intern_row fs ts ws st i = Ok (fold (push_key_row (ws \<noteq> None)) (row_edge fs ts ws i) st)"
  using assms
  by (auto simp: intern_row_def row_edge_def push_key_row_def split: option.splits)

lemma intern_rows_Ok:
  assumes "\<And>i. i \<in> set js \<Longrightarrow> i < length fs \<and> i < length ts \<and>
      (case ws of None \<Rightarrow> True | Some w \<Rightarrow> i < length w)"
  shows "fold_res (intern_row fs ts ws) st js =
    Ok (fold (push_key_row (ws \<noteq> None)) (concat (map (row_edge fs ts ws) js)) st)"
  using assms
proof (induction js arbitrary: st)
  case (Cons i js)
  have "intern_row fs ts ws st i = Ok (fold (push_key_row (ws \<noteq> None)) (row_edge fs ts ws i) st)"
    using Cons.prems by (intro intern_row_Ok) auto
  then show ?case using Cons by simp
qed simp

lemma intern_batch_Ok:
  assumes "batch_keys edge b = Some rows"
  shows "intern_batch edge st b = Ok (fold (push_key_row (weighted_edge edge)) rows st)"
proof -
  obtain fs ts ws where c: "key_column b 0 (ed_from_column edge) = Ok fs"
    "key_column b 1 (ed_to_column edge) = Ok ts" "key_weights edge b = Ok ws"
    "length fs = batch_rows b" "length ts = batch_rows b"
    "case ws of None \<Rightarrow> True | Some w \<Rightarrow> length w = batch_rows b"
    "rows = concat (map (row_edge fs ts ws) [0..<batch_rows b])"
    using assms by (auto simp: batch_keys_def split: res.splits if_splits)
  have w: "(ws \<noteq> None) = weighted_edge edge"
    using c(3) by (auto simp: key_weights_def bind_res_Ok_iff map_res_Ok_iff split: if_splits)
  have "fold_res (intern_row fs ts ws) st [0..<batch_rows b] =
      Ok (fold (push_key_row (weighted_edge edge)) rows st)"
    unfolding c(7) w [symmetric] using c(4-6) by (intro intern_rows_Ok) (auto split: option.splits)
  then show ?thesis using c(1-3) by (simp add: intern_batch_def)
qed

lemma intern_batches_Ok:
  assumes "batches_keys edge bs = Some rows"
  shows "fold_res (intern_batch edge) st bs = Ok (fold (push_key_row (weighted_edge edge)) rows st)"
  using assms
proof (induction bs arbitrary: st rows)
  case (Cons b bs)
  then obtain xs ys where "batch_keys edge b = Some xs" "batches_keys edge bs = Some ys" "rows = xs @ ys"
    by (auto split: option.splits)
  with Cons.IH show ?case by (simp add: intern_batch_Ok)
qed simp

text \<open>What interning the rows leaves: the dictionary of their keys, and the rows encoded by it.\<close>

definition row_keys :: "key_row list \<Rightarrow> string set" where
  "row_keys rows = (\<Union>r \<in> set rows. {fst (fst r), snd (fst r)})"

definition key_id :: "node_dictionary \<Rightarrow> string \<Rightarrow> u64" where
  "key_id d k = the (id_of d k)"

definition encode_row :: "node_dictionary \<Rightarrow> key_row \<Rightarrow> (u64 \<times> u64) \<times> f32" where
  "encode_row d = (\<lambda>((x, y), w). ((key_id d x, key_id d y), w))"

lemma row_keys_snoc [simp]: "row_keys (rows @ [((x, y), w)]) = row_keys rows \<union> {x, y}"
  by (auto simp: row_keys_def)

lemma encode_row_sel [simp]:
  "fst (fst (encode_row d r)) = key_id d (fst (fst r))" "snd (fst (encode_row d r)) = key_id d (snd (fst r))"
  "snd (encode_row d r) = snd r"
  by (simp_all add: encode_row_def case_prod_beta)

lemma fst_encode_row: "fst (encode_row d r) = (key_id d (fst (fst r)), key_id d (snd (fst r)))"
  by (simp add: prod_eq_iff)

lemma row_keysI:
  "r \<in> set rows \<Longrightarrow> fst (fst r) \<in> row_keys rows" "r \<in> set rows \<Longrightarrow> snd (fst r) \<in> row_keys rows"
  by (auto simp: row_keys_def)

lemma row_keysE:
  assumes "x \<in> row_keys rows"
  obtains r where "r \<in> set rows" "x = fst (fst r) \<or> x = snd (fst r)"
  using assms by (auto simp: row_keys_def)

lemma push_interned_spec:
  assumes "wf_dictionary (ie_dictionary st)" "length (dict_keys (ie_dictionary st)) + 2 < 2 ^ 64"
    and "st' = push_interned x y ws st"
  shows "wf_dictionary (ie_dictionary st') \<and>
    length (dict_keys (ie_dictionary st')) \<le> length (dict_keys (ie_dictionary st)) + 2 \<and>
    set (dict_keys (ie_dictionary st')) = set (dict_keys (ie_dictionary st)) \<union> {x, y} \<and>
    (\<forall>k i. id_of (ie_dictionary st) k = Some i \<longrightarrow> id_of (ie_dictionary st') k = Some i) \<and>
    ie_edges st' = ie_edges st @ [(key_id (ie_dictionary st') x, key_id (ie_dictionary st') y)] \<and>
    ie_weights st' = ie_weights st @ ws"
proof -
  let ?d = "ie_dictionary st"
  obtain f d1 where f: "get_or_insert x ?d = (f, d1)" by fastforce
  obtain t d2 where t: "get_or_insert y d1 = (t, d2)" by fastforce
  have st': "st' = \<lparr>ie_dictionary = d2, ie_edges = ie_edges st @ [(f, t)], ie_weights = ie_weights st @ ws\<rparr>"
    using assms(3) f t by (simp add: push_interned_def)
  have d1: "wf_dictionary d1" "to_id d1 x = Some f"
    "dict_keys d1 = dict_keys ?d @ (if x \<in> set (dict_keys ?d) then [] else [x])"
    using get_or_insert_wf [OF assms(1) _ f] assms(2) by auto
  then have d2: "wf_dictionary d2" "to_id d2 y = Some t"
    "dict_keys d2 = dict_keys d1 @ (if y \<in> set (dict_keys d1) then [] else [y])"
    using get_or_insert_wf [OF d1(1) _ t] assms(2) by auto
  moreover have "to_id d2 x = Some f" using get_or_insert_keeps [OF t d1(2)] .
  ultimately show ?thesis
    using d1(3) get_or_insert_keeps [OF f] get_or_insert_keeps [OF t]
    by (auto simp: st' key_id_def id_of_def)
qed

lemma interned_rows:
  assumes "2 * length rows + 2 < 2 ^ 64" "st = fold (push_key_row weighted) rows interned_new"
  shows "wf_dictionary (ie_dictionary st) \<and> length (dict_keys (ie_dictionary st)) \<le> 2 * length rows \<and>
    set (dict_keys (ie_dictionary st)) = row_keys rows \<and>
    ie_edges st = map (fst \<circ> encode_row (ie_dictionary st)) rows \<and>
    ie_weights st = (if weighted then map snd rows else [])"
  using assms
proof (induction rows arbitrary: st rule: rev_induct)
  case Nil
  then show ?case by (simp add: interned_new_def dictionary_new_def row_keys_def
        wf_dictionary_new [unfolded dictionary_new_def])
next
  case (snoc r rows)
  obtain x y w where r: "r = ((x, y), w)" by (metis prod.collapse)
  define s where "s = fold (push_key_row weighted) rows interned_new"
  let ?d = "ie_dictionary s" and ?d' = "ie_dictionary st"
  have IH: "wf_dictionary ?d" "length (dict_keys ?d) \<le> 2 * length rows" "set (dict_keys ?d) = row_keys rows"
    "ie_edges s = map (fst \<circ> encode_row ?d) rows" "ie_weights s = (if weighted then map snd rows else [])"
    using snoc.IH [OF _ s_def] snoc.prems(1) by auto
  have st: "st = push_interned x y (if weighted then [w] else []) s"
    using snoc.prems(2) by (simp add: s_def r push_key_row_def)
  have "length (dict_keys ?d) + 2 < 2 ^ 64" using IH(2) snoc.prems(1) by simp
  from push_interned_spec [OF IH(1) this st] have p: "wf_dictionary ?d'"
    "length (dict_keys ?d') \<le> length (dict_keys ?d) + 2"
    "set (dict_keys ?d') = set (dict_keys ?d) \<union> {x, y}"
    "\<And>k i. id_of ?d k = Some i \<Longrightarrow> id_of ?d' k = Some i"
    "ie_edges st = ie_edges s @ [(key_id ?d' x, key_id ?d' y)]"
    "ie_weights st = ie_weights s @ (if weighted then [w] else [])"
    by blast+
  have key: "key_id ?d' k = key_id ?d k" if "k \<in> row_keys rows" for k
  proof -
    have "to_id ?d k \<noteq> None" using to_id_dom [OF IH(1), of k] that IH(3) by simp
    then obtain i where "id_of ?d k = Some i" by (auto simp: id_of_def)
    with p(4) show ?thesis by (simp add: key_id_def)
  qed
  have "map (fst \<circ> encode_row ?d') rows = map (fst \<circ> encode_row ?d) rows"
    by (rule map_cong [OF refl]) (simp add: fst_encode_row key row_keysI)
  with p IH show ?case by (simp add: r encode_row_def)
qed

text \<open>In a well-formed dictionary, its keys and their identifiers correspond one to one.\<close>

lemma key_id_Some: "wf_dictionary d \<Longrightarrow> k \<in> set (dict_keys d) \<Longrightarrow> id_of d k = Some (key_id d k)"
  using to_id_dom [of d k] by (auto simp: key_id_def id_of_def)

lemma key_of_id: "wf_dictionary d \<Longrightarrow> key_of d i = Some k \<longleftrightarrow> id_of d k = Some i"
  using wf_dictionaryD(3) [of d k i] by (auto simp: key_of_def get_vec_def id_of_def)

lemma key_id_key_of: "wf_dictionary d \<Longrightarrow> k \<in> set (dict_keys d) \<Longrightarrow> key_of d (key_id d k) = Some k"
  using key_id_Some key_of_id by metis

lemma key_id_inj: "wf_dictionary d \<Longrightarrow> inj_on (key_id d) (set (dict_keys d))"
  by (rule inj_onI) (metis key_id_key_of option.inject)

lemma key_id_less:
  assumes "wf_dictionary d" "k \<in> set (dict_keys d)"
  shows "unat (key_id d k) < length (dict_keys d)"
  using key_id_Some [OF assms] wf_dictionaryD(3) [OF assms(1), of k "key_id d k"] by (simp add: id_of_def)

lemma encode_row_targets:
  assumes "wf_dictionary d" "row_keys rows \<subseteq> set (dict_keys d)" "x \<in> set (dict_keys d)"
  shows "row_targets (map (encode_row d) rows) (key_id d x) =
    map (encode_row d) (filter (\<lambda>r. fst (fst r) = x) rows)"
proof -
  have "fst (fst (encode_row d r)) = key_id d x \<longleftrightarrow> fst (fst r) = x" if "r \<in> set rows" for r
  proof -
    have "fst (fst r) \<in> set (dict_keys d)" using row_keysI(1) [OF that] assms(2) by blast
    then show ?thesis using inj_on_eq_iff [OF key_id_inj [OF assms(1)]] assms(3) by simp
  qed
  then show ?thesis by (simp add: row_targets_def filter_map comp_def cong: filter_cong)
qed

text \<open>The graph that interned rows are built into.\<close>

lemma interned_builder_rows:
  assumes "st = fold (push_key_row (weighted_edge edge)) rows interned_new" "2 * length rows + 2 < 2 ^ 64"
  shows "interned_builder edge st = rows_builder default_shard_bytes (weighted_edge edge)
    (map (encode_row (ie_dictionary st)) rows)"
proof -
  have "with_shard_size default_shard_bytes builder_new = builder_new"
    by (simp add: with_shard_size_def builder_new_def csr_build_config_default_def default_shard_size_def)
  moreover have "zip (map (fst \<circ> encode_row d) rows) (map snd rows) = map (encode_row d) rows" for d
    by (induction rows) (simp_all add: prod_eq_iff)
  ultimately show ?thesis
    using interned_rows [OF assms(2,1)] by (simp add: interned_builder_def rows_builder_def)
qed

lemma small_encoded:
  assumes "wf_dictionary d" "row_keys rows \<subseteq> set (dict_keys d)" "length (dict_keys d) \<le> 2 * length rows"
    and "2 * length rows \<le> u32_max"
  shows "small_ids (map (encode_row d) rows)"
proof -
  have "unat (key_id d k) < u32_max" if "k \<in> row_keys rows" for k
    using key_id_less [OF assms(1), of k] that assms(2-4) by auto
  then show ?thesis
    using assms(4) by (auto simp: small_ids_def row_keysI)
qed

lemma in_row_targets:
  "NodeId b \<in> set (map (\<lambda>r. NodeId (snd (fst r))) (row_targets R a)) \<longleftrightarrow> (a, b) \<in> fst ` set R"
  by (force simp: row_targets_def)

text \<open>The targets of a key, and the edges between keys, that rows describe.\<close>

definition key_targets :: "key_row list \<Rightarrow> string \<Rightarrow> string list" where
  "key_targets rows x = map (\<lambda>r. snd (fst r)) (filter (\<lambda>r. fst (fst r) = x) rows)"

definition key_edges :: "key_row list \<Rightarrow> (string \<times> string) set" where
  "key_edges rows = fst ` set rows"

text \<open>
  A graph with a dictionary that represents rows of keys.
\<close>

definition represents ::
  "('m, 's) dash \<Rightarrow> ('m, 's) csr_graph \<Rightarrow> node_dictionary \<Rightarrow> bool \<Rightarrow> key_row list \<Rightarrow> bool" where
  "represents D g d weighted rows \<longleftrightarrow>
     wf_graph D g \<and> compactable D g \<and> wf_dictionary d \<and> set (dict_keys d) = row_keys rows \<and>
     edge_count g = length rows \<and>
     (\<forall>x \<in> row_keys rows. graph_contains g (NodeId (key_id d x)) \<and>
        neighbor_list D g (NodeId (key_id d x)) = map (NodeId \<circ> key_id d) (key_targets rows x) \<and>
        (weighted \<longrightarrow> base_row_weights g (NodeId (key_id d x)) =
           Some (map snd (filter (\<lambda>r. fst (fst r) = x) rows)))) \<and>
     graph_edges D g = (\<lambda>(x, y). (NodeId (key_id d x), NodeId (key_id d y))) ` key_edges rows"

lemma build_with_dictionary_Ok:
  assumes "dash_laws D" "edge_query S (dictionary_projection edge) edge as_of = Ok df"
    and "ss_collect S df = Ok bs" "batches_keys edge bs = Some rows" "2 * length rows \<le> u32_max"
  shows "\<exists>g d. build_edge_graph_with_dictionary D S edge as_of = Ok (g, d) \<and>
    represents D g d (weighted_edge edge) rows"
proof -
  let ?w = "weighted_edge edge"
  define st where "st = fold (push_key_row ?w) rows interned_new"
  define d where "d = ie_dictionary st"
  have fits: "2 * length rows + 2 < 2 ^ 64" using assms(5) by (simp add: u32_max_def)
  have d: "wf_dictionary d" "length (dict_keys d) \<le> 2 * length rows" "set (dict_keys d) = row_keys rows"
    using interned_rows [OF fits st_def] by (simp_all add: d_def)
  let ?rows = "map (encode_row d) rows"
  have small: "small_ids ?rows" using small_encoded [OF d(1) _ d(2) assms(5)] d(3) by simp
  obtain g where g: "build D (rows_builder default_shard_bytes ?w ?rows) = Ok g" "wf_graph D g"
    "delta g = delta_new D" "edge_count g = length ?rows"
    "\<And>v. neighbor_list D g (NodeId v) = map (\<lambda>r. NodeId (snd (fst r))) (row_targets ?rows v)"
    "\<And>v. unat v < node_count g \<Longrightarrow> base_row_weights g (NodeId v) =
       (if ?w then Some (map snd (row_targets ?rows v)) else None)"
    "\<And>r. r \<in> set ?rows \<Longrightarrow> graph_contains g (NodeId (fst (fst r))) \<and> graph_contains g (NodeId (snd (fst r)))"
    by (rule rows_graph [OF small _ assms(1), of default_shard_bytes ?w])
      (simp add: usize_max_def, rule that, assumption+)
  have "graph_contains g (NodeId (key_id d x))" if "x \<in> row_keys rows" for x
  proof -
    from that obtain r where "r \<in> set rows" "x = fst (fst r) \<or> x = snd (fst r)" by (rule row_keysE)
    then show ?thesis using g(7) [of "encode_row d r"] by auto
  qed
  moreover have nl: "neighbor_list D g (NodeId (key_id d x)) = map (NodeId \<circ> key_id d) (key_targets rows x)"
    and "?w \<longrightarrow> base_row_weights g (NodeId (key_id d x)) = Some (map snd (filter (\<lambda>r. fst (fst r) = x) rows))"
    if "x \<in> row_keys rows" for x
  proof -
    have t: "row_targets ?rows (key_id d x) = map (encode_row d) (filter (\<lambda>r. fst (fst r) = x) rows)"
      using encode_row_targets [OF d(1)] d(3) that by simp
    show "neighbor_list D g (NodeId (key_id d x)) = map (NodeId \<circ> key_id d) (key_targets rows x)"
      by (simp add: g(5) t key_targets_def comp_def)
    have "unat (key_id d x) < node_count g"
      using \<open>\<And>x. x \<in> row_keys rows \<Longrightarrow> graph_contains g (NodeId (key_id d x))\<close> [OF that]
      by (simp add: graph_contains_iff)
    from g(6) [OF this] show "?w \<longrightarrow> base_row_weights g (NodeId (key_id d x)) =
        Some (map snd (filter (\<lambda>r. fst (fst r) = x) rows))"
      by (simp add: t comp_def)
  qed
  moreover have "graph_edges D g = (\<lambda>(x, y). (NodeId (key_id d x), NodeId (key_id d y))) ` key_edges rows"
  proof -
    have "(NodeId a, NodeId b) \<in> graph_edges D g \<longleftrightarrow> (a, b) \<in> fst ` set ?rows" for a b
      using in_row_targets [of b ?rows a, folded g(5)] set_neighbor_list [OF assms(1), of g "NodeId a"]
      by simp
    moreover have "fst ` set ?rows = (\<lambda>(x, y). (key_id d x, key_id d y)) ` key_edges rows"
      by (simp add: key_edges_def fst_encode_row image_image case_prod_beta)
    ultimately have "p \<in> graph_edges D g \<longleftrightarrow>
        p \<in> (\<lambda>(x, y). (NodeId (key_id d x), NodeId (key_id d y))) ` key_edges rows" for p
      by (cases "fst p"; cases "snd p"; cases p) (auto simp: image_iff case_prod_beta)
    then show ?thesis by blast
  qed
  moreover have "compactable D g"
    by (rule built_compactable [OF small _ assms(1) g(1)]) (simp add: usize_max_def)
  ultimately have "represents D g d ?w rows"
    using g(2,4) d(1,3) unfolding represents_def by simp
  moreover have "build_edge_graph_with_dictionary D S edge as_of = Ok (g, d)"
    using interned_builder_rows [OF st_def fits] g(1)
    by (simp add: build_edge_graph_with_dictionary_def edge_query_bind assms(2,3)
        intern_batches_Ok [OF assms(4), of interned_new, folded st_def] d_def)
  ultimately show ?thesis by blast
qed

section \<open>Properties\<close>

text \<open>
  C13: the building stream ends: whatever its input holds, after one poll more than the input
  has answers the stream has finished, and then every further poll says so, or a poll has
  panicked.
\<close>

theorem stream_ends:
  "case run_polls A D t (length (bs_input s) + 1) (s, sinks) of (ps, s', sinks') \<Rightarrow>
     Ready (Some Panic) \<in> set ps \<or>
     bs_finished s' \<and> run_polls A D t n (s', sinks') = (replicate n (Ready None), s', sinks')"
proof -
  obtain ps s' k' where r: "run_polls A D t (length (bs_input s) + 1) (s, sinks) = (ps, s', k')"
    by (metis prod_cases3)
  have "stream_work s \<le> length (bs_input s) + 1" by (simp add: stream_work_def)
  from run_polls_ends [OF this r] run_polls_finished [of s' A D t n k'] show ?thesis
    unfolding r by auto
qed

text \<open>A driver, and a session over rows held in memory; frames of the unit type suffice.\<close>

partial_function (option) drive_stream ::
  "('st \<Rightarrow> record_batch df_result poll \<times> 'st) \<Rightarrow> 'st \<Rightarrow> (record_batch list df_result \<times> 'st) option" where
  "drive_stream poll st =
     (case poll st of
        (Pending, st1) \<Rightarrow> drive_stream poll st1
      | (Ready None, st1) \<Rightarrow> Some (Ok [], st1)
      | (Ready (Some (Ok b)), st1) \<Rightarrow>
          Option.bind (drive_stream poll st1) (\<lambda>(r, st2). Some (map_res (Cons b) r, st2))
      | (Ready (Some (Err e)), st1) \<Rightarrow> Some (Err e, st1)
      | (Ready (Some Panic), st1) \<Rightarrow> Some (Panic, st1))"

definition drive_all ::
  "('st \<Rightarrow> record_batch df_result poll \<times> 'st) \<Rightarrow> 'st \<Rightarrow> record_batch list df_result \<times> 'st" where
  "drive_all poll st = (case drive_stream poll st of Some r \<Rightarrow> r | None \<Rightarrow> (Panic, st))"

lemma drive_stream_polls:
  assumes "poll_times poll n st = (ps @ [p], st')" "polled_batches ps = Some bs"
    and "p = Ready None \<and> r = Ok bs \<or> (\<exists>e. p = Ready (Some (Err e)) \<and> r = Err e)"
  shows "drive_stream poll st = Some (r, st')"
  using assms
proof (induction n arbitrary: st ps bs r)
  case (Suc n)
  obtain q st1 where q: "poll st = (q, st1)" by fastforce
  obtain qs where qs: "poll_times poll n st1 = (qs, st')" "ps @ [p] = q # qs"
    using Suc.prems(1) q by (auto simp: Let_def split: prod.splits)
  show ?case
  proof (cases ps)
    case Nil
    then have "n = 0" using qs by (cases n) (auto simp: Let_def split: prod.splits)
    then show ?thesis
      using Nil qs q Suc.prems(2,3) by (auto simp: drive_stream.simps [of poll st])
  next
    case (Cons q' ps')
    then have rest: "poll_times poll n st1 = (ps' @ [p], st')" "q' = q" using qs by simp_all
    from Suc.prems(2) Cons rest(2)
    consider "q = Pending" "polled_batches ps' = Some bs"
      | b bs' where "q = Ready (Some (Ok b))" "polled_batches ps' = Some bs'" "bs = b # bs'"
      by (cases ps rule: polled_batches.cases) auto
    then show ?thesis
    proof cases
      case 1
      then show ?thesis
        using Suc.IH [OF rest(1) 1(2) Suc.prems(3)] q by (simp add: drive_stream.simps [of poll st])
    next
      case (2 b bs')
      let ?r = "if p = Ready None then Ok bs' else r"
      have "p = Ready None \<and> ?r = Ok bs' \<or> (\<exists>e. p = Ready (Some (Err e)) \<and> ?r = Err e)"
        using Suc.prems(3) by auto
      from Suc.IH [OF rest(1) 2(2) this] show ?thesis
        using q 2 Suc.prems(3) by (auto simp: drive_stream.simps [of poll st])
    qed
  qed
qed simp

definition example_session ::
  "record_batch list \<Rightarrow> schema \<Rightarrow> batch_stream \<Rightarrow> (unit, unit, 'st) session" where
  "example_session bs s evs =
     \<lparr>ss_table = (\<lambda>_. Ok ()), ss_filter = (\<lambda>_ _. Ok ()), ss_select = (\<lambda>_ _. Ok ()), ss_plan = (\<lambda>_. Ok ()),
      ss_coalesce = (\<lambda>_. \<lparr>ip_partitions = 1, ip_schema = s, ip_execute = Ok evs\<rparr>),
      ss_collect = (\<lambda>_. Ok bs), ss_drive = drive_all, ss_elapsed_millis = 0, ss_cpus = 1\<rparr>"

lemma example_session_drives: "drives_streams (example_session bs s evs)"
  using drive_stream_polls by (fastforce simp: drives_streams_def example_session_def drive_all_def)

lemma example_session_query: "edge_query (example_session bs s evs) proj e None = Ok ()"
  by (simp add: edge_query_def example_session_def apply_temporal_filter_def)

lemma example_session_scans: "scans (example_session bs s evs) () s evs"
  by (simp add: scans_def example_session_def)

text \<open>
  C17: a numeric edge definition becomes the graph of its query: when the projected scan yields
  batches with the edge's columns, the graph has one edge per row without null ends, the
  neighbours of every node are the targets of its rows in scan order, however the scan is
  batched, and with a weight column the weights are those of the rows, a null weight counting 1.
\<close>

theorem numeric_edge_graph:
  assumes "arrow_laws A" "dash_laws D" "drives_streams S"
    and "edge_query S (numeric_projection ont edge) edge as_of = Ok df" "scans S df s evs"
    and "input_edges A (edge_build_config (ss_cpus S) edge) s evs = Some rows" "small_ids rows"
  shows "\<exists>g. build_edge_graph A D S ont edge as_of = Ok g \<and> wf_graph D g \<and> edge_count g = length rows \<and>
    neighbors D g (NodeId v) = Ok (map (\<lambda>r. NodeId (snd (fst r))) (row_targets rows v)) \<and>
    (unat v < node_count g \<and> ed_weight_column edge \<noteq> None \<longrightarrow>
       base_row_weights g (NodeId v) = Some (map snd (row_targets rows v)))"
proof -
  have "default_shard_bytes \<le> usize_max" by (simp add: usize_max_def)
  then obtain g where g: "build D (rows_builder default_shard_bytes (weighted_edge edge) rows) = Ok g"
    "wf_graph D g" "delta g = delta_new D" "edge_count g = length rows"
    "\<And>v. neighbor_list D g (NodeId v) = map (\<lambda>r. NodeId (snd (fst r))) (row_targets rows v)"
    "\<And>v. unat v < node_count g \<Longrightarrow> base_row_weights g (NodeId v) =
       (if weighted_edge edge then Some (map snd (row_targets rows v)) else None)"
    by (rule rows_graph [OF assms(7) _ assms(2)]) (rule that, assumption+)
  have "build_edge_graph A D S ont edge as_of = Ok g"
    by (rule build_edge_graph_Ok [OF assms g(1)])
  then show ?thesis using g neighbors_Ok [OF wf_graphD(1) [OF g(2)]] by auto
qed

lemma example_ontology_valid: "validate_or_error (example_ontology ''B'' None) = Ok ()"
  by (simp add: validate_or_error_def validate_def example_ontology_def example_node_def
      example_edge_def check_dangling_def)

definition numeric_edge :: edge_definition where
  "numeric_edge = (example_edge ''B'' None)\<lparr>ed_from_column := ''source'', ed_to_column := ''target''\<rparr>"

lemma numeric_edge_input:
  "input_edges list_arrow (edge_build_config cpus numeric_edge) example_build_schema example_input =
     Some [((0, 1), f32_one), ((1, 2), f32_one)]"
  by (rule example_input_edges)
    (simp_all add: edge_build_config_def build_exec_config_default_def numeric_edge_def example_edge_def)

theorem numeric_edge_graph_witness:
  "\<exists>g :: ((edge_key \<times> edge_data) list, edge_key list) csr_graph.
     build_edge_graph list_arrow list_dash (example_session [] example_build_schema example_input)
       (example_ontology ''B'' None) numeric_edge None = Ok g \<and>
     neighbors list_dash g (NodeId 1) = Ok [NodeId 2]"
proof -
  let ?rows = "[((0, 1), f32_one), ((1, 2), f32_one)] :: ((u64 \<times> u64) \<times> f32) list"
  have "small_ids ?rows" by (simp add: small_ids_def u32_max_def)
  moreover have "map (\<lambda>r. NodeId (snd (fst r))) (row_targets ?rows 1) = [NodeId 2]"
    by (simp add: row_targets_def)
  ultimately show ?thesis
    using numeric_edge_graph [where v = 1, OF list_arrow_laws list_dash_laws
        example_session_drives example_session_query example_session_scans numeric_edge_input] by metis
qed

text \<open>
  C16: a string-keyed edge definition becomes a graph that its dictionary decodes: the
  dictionary has exactly the keys of the rows without null ends, and the neighbours of a key's
  node are, decoded, the targets of the key's rows in scan order, with their weights if the
  definition has a weight column.
\<close>

theorem dictionary_edge_graph:
  assumes "dash_laws D" "edge_query S (dictionary_projection edge) edge as_of = Ok df"
    and "ss_collect S df = Ok bs" "batches_keys edge bs = Some rows" "2 * length rows \<le> u32_max"
  shows "\<exists>g d. build_edge_graph_with_dictionary D S edge as_of = Ok (g, d) \<and> wf_graph D g \<and>
    edge_count g = length rows \<and> (id_of d x \<noteq> None \<longleftrightarrow> x \<in> row_keys rows) \<and>
    (id_of d x = Some i \<longrightarrow>
       (\<exists>ns. neighbors D g (NodeId i) = Ok ns \<and>
          map (key_of d \<circ> as_u64) ns = map Some (key_targets rows x)) \<and>
       (ed_weight_column edge \<noteq> None \<longrightarrow>
          base_row_weights g (NodeId i) = Some (map snd (filter (\<lambda>r. fst (fst r) = x) rows))))"
proof -
  obtain g d where g: "build_edge_graph_with_dictionary D S edge as_of = Ok (g, d)"
    "represents D g d (weighted_edge edge) rows"
    using build_with_dictionary_Ok [OF assms] by blast
  then have r: "wf_graph D g" "wf_dictionary d" "set (dict_keys d) = row_keys rows"
    "edge_count g = length rows"
    "\<And>y. y \<in> row_keys rows \<Longrightarrow>
       neighbor_list D g (NodeId (key_id d y)) = map (NodeId \<circ> key_id d) (key_targets rows y) \<and>
       (weighted_edge edge \<longrightarrow> base_row_weights g (NodeId (key_id d y)) =
          Some (map snd (filter (\<lambda>r. fst (fst r) = y) rows)))"
    unfolding represents_def by blast+
  have dom: "id_of d x \<noteq> None \<longleftrightarrow> x \<in> row_keys rows"
    using to_id_dom [OF r(2), of x] r(3) by (simp add: id_of_def)
  have "map (key_of d \<circ> as_u64) (map (NodeId \<circ> key_id d) (key_targets rows x)) = map Some (key_targets rows x)"
    using key_id_key_of [OF r(2)] r(3) by (auto simp: key_targets_def row_keysI)
  moreover have "key_id d x = i" "x \<in> row_keys rows" if "id_of d x = Some i"
    using that dom by (simp_all add: key_id_def)
  ultimately show ?thesis
    using g(1) r dom neighbors_Ok [OF wf_graphD(1) [OF r(1)]] by (intro exI [of _ g] exI [of _ d]) auto
qed

definition key_batch :: record_batch where
  "key_batch = \<lparr>batch_schema = [field_new ''a'' DtUtf8 True, field_new ''b'' DtUtf8 True],
     batch_columns = [StringArray [Some ''alice'', None, Some ''bob''],
       StringArray [Some ''bob'', Some ''eve'', Some ''carol'']], batch_rows = 3\<rparr>"

abbreviation key_batch_rows :: "key_row list" where
  "key_batch_rows \<equiv> [((''alice'', ''bob''), f32_one), ((''bob'', ''carol''), f32_one)]"

lemma key_batch_props:
  "ed_weight_column e = None \<Longrightarrow> batches_keys e [key_batch] = Some key_batch_rows"
  "2 * length key_batch_rows \<le> u32_max"
  by (simp_all add: batch_keys_def key_batch_def key_column_def key_weights_def row_edge_def upt_rec
      u32_max_def)

lemma example_session_collect: "ss_collect (example_session bs s evs) () = Ok bs"
  by (simp add: example_session_def)

theorem dictionary_edge_graph_witness:
  "\<exists>(g :: ((edge_key \<times> edge_data) list, edge_key list) csr_graph) d.
     build_edge_graph_with_dictionary list_dash (example_session [key_batch] [] [])
       (example_edge ''B'' None) None = Ok (g, d) \<and> edge_count g = 2 \<and> id_of d ''bob'' \<noteq> None"
proof -
  have "ed_weight_column (example_edge ''B'' None) = None" by (simp add: example_edge_def)
  from dictionary_edge_graph [where x = "''bob''" and i = 0, OF list_dash_laws
      example_session_query [where s = "[]" and evs = "[]"] example_session_collect
      key_batch_props(1) [OF this] key_batch_props(2)]
  show ?thesis by (auto simp: row_keys_def numeral_2_eq_2)
qed

text \<open>
  An engine whose filters keep the rows on which the predicate is true, with the comparisons
  and the three-valued \<open>OR\<close> of SQL; a null cell is \<open>None\<close>.
\<close>

definition filter_laws ::
  "('d, 'p, 'st) session \<Rightarrow> ('d \<Rightarrow> 'r list) \<Rightarrow> ('r \<Rightarrow> string \<Rightarrow> 'v::linorder option) \<Rightarrow> (string \<Rightarrow> 'v) \<Rightarrow>
   (sql_expr \<Rightarrow> 'r \<Rightarrow> bool option) \<Rightarrow> bool" where
  "filter_laws S frame_rows cell literal holds \<longleftrightarrow>
     (\<forall>e df df'. ss_filter S e df = Ok df' \<longrightarrow>
        frame_rows df' = filter (\<lambda>r. holds e r = Some True) (frame_rows df)) \<and>
     (\<forall>col t r. holds (SqlLtEq (SqlCol col) (SqlText t)) r = map_option (\<lambda>v. v \<le> literal t) (cell r col)) \<and>
     (\<forall>col t r. holds (SqlGt (SqlCol col) (SqlText t)) r = map_option (\<lambda>v. v > literal t) (cell r col)) \<and>
     (\<forall>col r. holds (SqlIsNull (SqlCol col)) r = Some (cell r col = None)) \<and>
     (\<forall>a b r. holds (SqlOr a b) r = Some True \<longleftrightarrow> holds a r = Some True \<or> holds b r = Some True)"

definition valid_at :: "('r \<Rightarrow> string \<Rightarrow> 'v::linorder option) \<Rightarrow> edge_definition \<Rightarrow> 'v \<Rightarrow> 'r \<Rightarrow> bool" where
  "valid_at cell edge instant r \<longleftrightarrow>
     (case ed_valid_from_column edge of None \<Rightarrow> True
      | Some col \<Rightarrow> (case cell r col of None \<Rightarrow> False | Some v \<Rightarrow> v \<le> instant)) \<and>
     (case ed_valid_to_column edge of None \<Rightarrow> True
      | Some col \<Rightarrow> (case cell r col of None \<Rightarrow> True | Some v \<Rightarrow> instant < v))"

text \<open>
  temporal filters: filtering as of an instant keeps
  exactly the rows whose validity has begun at the instant, a null beginning counting as
  never, and has not ended, a null end counting as never; an edge without validity columns,
  or no instant, keeps every row.
\<close>

theorem temporal_filter_keeps_valid_rows:
  assumes "filter_laws S frame_rows cell literal holds"
    and "apply_temporal_filter S df edge as_of = Ok df'"
  shows "frame_rows df' = (case as_of of None \<Rightarrow> frame_rows df
    | Some t \<Rightarrow> filter (valid_at cell edge (literal t)) (frame_rows df))"
proof (cases as_of)
  case None
  then show ?thesis using assms(2) by (simp add: apply_temporal_filter_def)
next
  case (Some t)
  obtain df1 where f: "filter_from S edge t df = Ok df1" "filter_to S edge t df1 = Ok df'"
    using assms(2) Some by (auto simp: apply_temporal_filter_def bind_res_Ok_iff)
  have laws: "\<And>e df df'. ss_filter S e df = Ok df' \<Longrightarrow>
      frame_rows df' = filter (\<lambda>r. holds e r = Some True) (frame_rows df)"
    "\<And>col t r. holds (SqlLtEq (SqlCol col) (SqlText t)) r = map_option (\<lambda>v. v \<le> literal t) (cell r col)"
    "\<And>col t r. holds (SqlGt (SqlCol col) (SqlText t)) r = map_option (\<lambda>v. v > literal t) (cell r col)"
    "\<And>col r. holds (SqlIsNull (SqlCol col)) r = Some (cell r col = None)"
    "\<And>a b r. holds (SqlOr a b) r = Some True \<longleftrightarrow> holds a r = Some True \<or> holds b r = Some True"
    using assms(1) unfolding filter_laws_def by blast+
  have "frame_rows df1 = filter (\<lambda>r. case ed_valid_from_column edge of None \<Rightarrow> True
      | Some col \<Rightarrow> (case cell r col of None \<Rightarrow> False | Some v \<Rightarrow> v \<le> literal t)) (frame_rows df)"
    using f(1) by (auto simp: filter_from_def laws split: option.splits dest!: laws(1) intro!: filter_cong)
  moreover have "frame_rows df' = filter (\<lambda>r. case ed_valid_to_column edge of None \<Rightarrow> True
      | Some col \<Rightarrow> (case cell r col of None \<Rightarrow> True | Some v \<Rightarrow> literal t < v)) (frame_rows df1)"
    using f(2) by (auto simp: filter_to_def laws split: option.splits dest!: laws(1) intro!: filter_cong)
  ultimately show ?thesis by (simp add: Some valid_at_def [abs_def] conj_commute)
qed

text \<open>An engine over rows in memory that evaluates these predicates.\<close>

fun sql_holds :: "sql_expr \<Rightarrow> (string \<Rightarrow> nat option) \<Rightarrow> bool option" where
  "sql_holds (SqlLtEq (SqlCol col) (SqlText t)) r = map_option (\<lambda>v. v \<le> length t) (r col)"
| "sql_holds (SqlGt (SqlCol col) (SqlText t)) r = map_option (\<lambda>v. v > length t) (r col)"
| "sql_holds (SqlIsNull (SqlCol col)) r = Some (r col = None)"
| "sql_holds (SqlOr a b) r =
     (if sql_holds a r = Some True \<or> sql_holds b r = Some True then Some True
      else if sql_holds a r = None \<or> sql_holds b r = None then None else Some False)"
| "sql_holds _ r = None"

definition rows_session :: "((string \<Rightarrow> nat option) list, unit, unit) session" where
  "rows_session =
     \<lparr>ss_table = (\<lambda>_. Ok []), ss_filter = (\<lambda>e rs. Ok (filter (\<lambda>r. sql_holds e r = Some True) rs)),
      ss_select = (\<lambda>_. Ok), ss_plan = (\<lambda>_. Ok ()),
      ss_coalesce = (\<lambda>_. \<lparr>ip_partitions = 1, ip_schema = [], ip_execute = Ok []\<rparr>),
      ss_collect = (\<lambda>_. Ok []), ss_drive = drive_all, ss_elapsed_millis = 0, ss_cpus = 1\<rparr>"

lemma rows_session_laws: "filter_laws rows_session (\<lambda>rs. rs) (\<lambda>r. r) length sql_holds"
  by (simp add: filter_laws_def rows_session_def)

theorem temporal_filter_keeps_valid_rows_witness:
  "apply_temporal_filter rows_session [Map.empty(''v'' \<mapsto> 1), Map.empty(''v'' \<mapsto> 3), Map.empty]
     (example_edge ''B'' (Some ''v'')) (Some ''ab'') = Ok [Map.empty(''v'' \<mapsto> 1)]"
proof -
  let ?rs = "[Map.empty(''v'' \<mapsto> 1), Map.empty(''v'' \<mapsto> 3), Map.empty] :: (string \<Rightarrow> nat option) list"
  obtain df where "apply_temporal_filter rows_session ?rs (example_edge ''B'' (Some ''v'')) (Some ''ab'') = Ok df"
    by (simp add: apply_temporal_filter_def filter_from_def filter_to_def rows_session_def example_edge_def)
  moreover from temporal_filter_keeps_valid_rows [OF rows_session_laws this]
  have "df = [Map.empty(''v'' \<mapsto> 1)]" by (simp add: valid_at_def example_edge_def)
  ultimately show ?thesis by simp
qed

text \<open>
  The schema fields that registration does not read: self loops, parallel edges and the
  direction of edges, and of an edge definition its default weight, its treatment of null
  targets and its partition column.  A null weight counts 1 whatever the default weight is.
\<close>

lemma unread_schema_fields:
  fixes ont edge dir loops parallel w skip part
  defines "ont' \<equiv> ont\<lparr>on_settings := (on_settings ont)\<lparr>os_edge_direction := dir,
    os_allow_self_loops := loops, os_allow_parallel_edges := parallel\<rparr>\<rparr>"
    and "edge' \<equiv> edge\<lparr>ed_weight_default := w, ed_skip_null_targets := skip, ed_partition_column := part\<rparr>"
  shows "project_edge A D S ont' as_of edge' = project_edge A D S ont as_of edge"
proof -
  have "ontology_node ont' = ontology_node ont" by (simp add: ont'_def ontology_node_def fun_eq_iff)
  then have "needs_dictionary ont' edge' = needs_dictionary ont edge"
    "numeric_projection ont' edge' = numeric_projection ont edge"
    by (simp_all add: needs_dictionary_def numeric_projection_def numeric_id_expr_def
        weight_projection_def ont'_def edge'_def)
  moreover have "apply_temporal_filter S df edge' as_of = apply_temporal_filter S df edge as_of" for df
    by (simp add: apply_temporal_filter_def filter_from_def filter_to_def [abs_def] edge'_def
        cong: option.case_cong)
  moreover have "edge_build_config n edge' = edge_build_config n edge" for n
    by (simp add: edge_build_config_def edge'_def)
  moreover have "intern_batch edge' = intern_batch edge" "interned_builder edge' = interned_builder edge"
    "dictionary_projection edge' = dictionary_projection edge"
    by (simp_all add: fun_eq_iff intern_batch_def key_weights_def interned_builder_def
        dictionary_projection_def weight_projection_def edge'_def)
  moreover have "projection_context edge' = projection_context edge" "ed_source edge' = ed_source edge"
    by (simp_all add: projection_context_def edge'_def fun_eq_iff)
  ultimately show ?thesis
    by (simp add: project_edge_def build_edge_graph_def build_edge_graph_with_dictionary_def)
qed

end
