(* ===== verification/Registration.thy ===== *)
theory Registration
  imports Loader
begin

text \<open>
  What registering an ontology (\<open>register_ontology_graphs_as_of\<close> of \<open>loader.rs\<close>) leaves in the
  catalog, and what queries on the registered graphs answer.
\<close>

section \<open>Registering all edges\<close>

text \<open>The entry a projected graph is registered as, at the next graph address.\<close>

definition projected_entry :: "graph_addr \<Rightarrow> node_dictionary option \<Rightarrow> graph_entry" where
  "projected_entry a dict = \<lparr>ge_forward = a, ge_reverse = None, ge_dictionary = dict\<rparr>"

lemma register_projected_props:
  assumes "wf_catalog c" "c' = register_projected name built c"
  shows "wf_catalog c'" "gc_heap c' = (gc_heap c)(gc_next_graph c := fst built)"
    "gc_next_graph c' = Suc (gc_next_graph c)"
    "entry_of c' = (entry_of c)(name \<mapsto> projected_entry (gc_next_graph c) (snd built))"
proof -
  obtain g dict where b: "built = (g, dict)" by fastforce
  let ?c1 = "snd (alloc_graph g c)"
  have c1: "wf_catalog ?c1" using wf_alloc [OF assms(1)] .
  have c': "c' = put_entry name (projected_entry (gc_next_graph c) dict) ?c1"
    by (cases dict)
      (simp_all add: assms(2) b register_projected_def alloc_graph_def register_with_dictionary_def
        register_def entry_new_def projected_entry_def)
  have sel: "gc_heap c' = (gc_heap c)(gc_next_graph c := g)" "gc_next_graph c' = Suc (gc_next_graph c)"
    by (simp_all add: c' put_entry_def alloc_graph_def)
  have "entry_fits ?c1 (projected_entry (gc_next_graph c) dict)"
    by (simp add: entry_fits_def alloc_graph_def projected_entry_def)
  from wf_put_entry [OF c1 this] show "wf_catalog c'" by (simp add: c')
  have "entry_of ?c1 = entry_of c"
    by (simp add: fun_eq_iff entry_of_def catalog_entry_def alloc_graph_def)
  then show "entry_of c' = (entry_of c)(name \<mapsto> projected_entry (gc_next_graph c) (snd built))"
    using entry_of_put [OF c1, of name "projected_entry (gc_next_graph c) dict"] by (simp add: c' b)
  show "gc_heap c' = (gc_heap c)(gc_next_graph c := fst built)" "gc_next_graph c' = Suc (gc_next_graph c)"
    using sel by (simp_all add: b)
qed

text \<open>
  Edges under distinct names are all registered, and nothing else changes: neither entries
  under other names nor the graphs that were there.
\<close>

lemma register_edges_Ok:
  assumes "wf_catalog c" "distinct (map (graph_name ont) edges)"
    and "\<And>e. e \<in> set edges \<Longrightarrow> project_edge A D S ont as_of e = Ok (built e)"
  shows "\<exists>c'. register_edges A D S ont as_of edges c = (Ok (map (graph_name ont) edges), c') \<and>
    wf_catalog c' \<and> gc_next_graph c \<le> gc_next_graph c' \<and>
    (\<forall>a < gc_next_graph c. gc_heap c' a = gc_heap c a) \<and>
    (\<forall>n. n \<notin> graph_name ont ` set edges \<longrightarrow> entry_of c' n = entry_of c n) \<and>
    (\<forall>e \<in> set edges. \<exists>a. entry_of c' (graph_name ont e) = Some (projected_entry a (snd (built e))) \<and>
       gc_heap c' a = fst (built e))"
  using assms
proof (induction edges arbitrary: c)
  case (Cons e es)
  define c1 where "c1 = register_projected (graph_name ont e) (built e) c"
  note c1 = register_projected_props [OF Cons.prems(1) c1_def]
  from Cons.IH [OF c1(1)] Cons.prems(2,3) obtain c' where c':
    "register_edges A D S ont as_of es c1 = (Ok (map (graph_name ont) es), c')"
    "wf_catalog c'" "gc_next_graph c1 \<le> gc_next_graph c'"
    "\<And>a. a < gc_next_graph c1 \<Longrightarrow> gc_heap c' a = gc_heap c1 a"
    "\<And>n. n \<notin> graph_name ont ` set es \<Longrightarrow> entry_of c' n = entry_of c1 n"
    "\<And>x. x \<in> set es \<Longrightarrow> \<exists>a. entry_of c' (graph_name ont x) = Some (projected_entry a (snd (built x))) \<and>
       gc_heap c' a = fst (built x)"
    by auto
  have reg: "register_edges A D S ont as_of (e # es) c = (Ok (map (graph_name ont) (e # es)), c')"
    using Cons.prems(3) [of e] c'(1) by (simp add: c1_def)
  have first: "entry_of c' (graph_name ont e) = Some (projected_entry (gc_next_graph c) (snd (built e)))"
    "gc_heap c' (gc_next_graph c) = fst (built e)"
    using c'(4) [of "gc_next_graph c"] c'(5) [of "graph_name ont e"] c1(2-4) Cons.prems(2) by simp_all
  have kept: "gc_heap c' a = gc_heap c a" if "a < gc_next_graph c" for a
    using c'(4) [of a] c1(2,3) that by simp
  have others: "entry_of c' n = entry_of c n" if "n \<notin> graph_name ont ` set (e # es)" for n
    using c'(5) [of n] c1(4) that by simp
  have "\<exists>a. entry_of c' (graph_name ont x) = Some (projected_entry a (snd (built x))) \<and>
      gc_heap c' a = fst (built x)" if "x \<in> set (e # es)" for x
    using that first c'(6) [of x] by auto
  with reg c'(2,3) c1(3) kept others show ?case by (intro exI [of _ c']) simp
qed simp

text \<open>The first edge that cannot be projected ends the registration.\<close>

lemma register_edges_stops:
  assumes "\<And>e. e \<in> set pre \<Longrightarrow> is_Ok (project_edge A D S ont as_of e)"
    and "project_edge A D S ont as_of bad = Err err"
  shows "register_edges A D S ont as_of (pre @ bad # post) c =
    (Err err, snd (register_edges A D S ont as_of pre c))"
  using assms
proof (induction pre arbitrary: c)
  case (Cons e pre)
  from Cons.prems(1) [of e] obtain built where "project_edge A D S ont as_of e = Ok built"
    by (auto simp: is_Ok_iff)
  with Cons show ?case by (simp add: Let_def case_prod_beta)
qed simp

lemma graph_name_inj: "graph_name ont e = graph_name ont e' \<Longrightarrow> ed_label e = ed_label e'"
  by (simp add: graph_name_def split: if_splits)

lemma valid_ontology_names:
  assumes "validate_or_error ont = Ok ()"
  shows "distinct (map (graph_name ont) (on_edges ont))"
proof -
  have "is_valid (validate ont)"
    using assms by (simp add: validate_or_error_def is_valid_def split: list.splits)
  then have "distinct (map ed_label (on_edges ont))"
    by (simp add: is_valid_iff well_formed_ontology_def edge_labels_def)
  then show ?thesis
    unfolding distinct_map by (auto simp: inj_on_def dest: graph_name_inj)
qed

section \<open>Paths between keys\<close>

lemma relpow_image:
  assumes "inj_on f K" "Field R \<subseteq> K" "x \<in> K"
  shows "(f x, n) \<in> ((\<lambda>(x, y). (f x, f y)) ` R) ^^ k \<longleftrightarrow> (\<exists>y \<in> K. n = f y \<and> (x, y) \<in> R ^^ k)"
proof (induction k arbitrary: n)
  case 0
  then show ?case using assms(3) by auto
next
  case (Suc k)
  let ?S = "(\<lambda>(x, y). (f x, f y)) ` R"
  have "(f x, n) \<in> ?S ^^ Suc k \<longleftrightarrow> (\<exists>m. (f x, m) \<in> ?S ^^ k \<and> (m, n) \<in> ?S)"
    unfolding relpow.simps by blast
  also have "\<dots> \<longleftrightarrow> (\<exists>y \<in> K. (x, y) \<in> R ^^ k \<and> (f y, n) \<in> ?S)"
    unfolding Suc.IH by blast
  also have "\<dots> \<longleftrightarrow> (\<exists>y \<in> K. (x, y) \<in> R ^^ k \<and> (\<exists>z \<in> K. (y, z) \<in> R \<and> n = f z))"
    using assms(1,2) by (fastforce simp: inj_on_eq_iff Field_def)
  also have "\<dots> \<longleftrightarrow> (\<exists>z \<in> K. n = f z \<and> (x, z) \<in> R ^^ Suc k)"
    using assms(2) by (fastforce simp: Field_def elim!: relpow_Suc_E intro: relpow_Suc_I)
  finally show ?case .
qed

lemma key_edges_Field: "Field (key_edges rows) \<subseteq> row_keys rows"
  by (auto simp: Field_def key_edges_def row_keys_def)

lemma key_paths:
  assumes "represents D g d weighted rows" "x \<in> row_keys rows"
  shows "(NodeId (key_id d x), n) \<in> graph_edges D g ^^ k \<longleftrightarrow>
    (\<exists>y \<in> row_keys rows. n = NodeId (key_id d y) \<and> (x, y) \<in> key_edges rows ^^ k)"
proof -
  have "inj_on (\<lambda>k. NodeId (key_id d k)) (row_keys rows)"
    using assms(1) key_id_inj [of d] by (auto simp: represents_def inj_on_def)
  moreover have "graph_edges D g = (\<lambda>(x, y). (NodeId (key_id d x), NodeId (key_id d y))) ` key_edges rows"
    using assms(1) by (simp add: represents_def)
  ultimately show ?thesis using relpow_image [OF _ key_edges_Field assms(2)] by simp
qed

text \<open>Distances from a key's node are distances between keys.\<close>

lemma key_distances:
  assumes "represents D g d weighted rows" "x \<in> row_keys rows"
  shows "(\<exists>i. key_of d i = Some y \<and>
      reach_distance D g {s. s = NodeId (key_id d x) \<and> graph_contains g s} k (NodeId i)) \<longleftrightarrow>
    (x, y) \<in> key_edges rows ^^ k \<and> (\<forall>m < k. (x, y) \<notin> key_edges rows ^^ m)"
proof -
  have r: "wf_dictionary d" "set (dict_keys d) = row_keys rows" "graph_contains g (NodeId (key_id d x))"
    using assms unfolding represents_def by blast+
  have dom: "id_of d y \<noteq> None \<longleftrightarrow> y \<in> row_keys rows" for y
    using to_id_dom [OF r(1), of y] r(2) by (simp add: id_of_def)
  have path: "(NodeId (key_id d x), NodeId i) \<in> graph_edges D g ^^ k \<longleftrightarrow> (x, y) \<in> key_edges rows ^^ k"
    if "key_of d i = Some y" for i y k
  proof -
    have y: "key_id d y = i" "y \<in> row_keys rows"
      using that key_of_id [OF r(1)] dom [of y] by (simp_all add: key_id_def)
    have "key_id d z = i \<longleftrightarrow> z = y" if "z \<in> row_keys rows" for z
      using inj_on_eq_iff [OF key_id_inj [OF r(1)], of z y] that y r(2) by auto
    then show ?thesis using key_paths [OF assms, of "NodeId i" k] y(2) by auto
  qed
  have dist: "reach_distance D g {s. s = NodeId (key_id d x) \<and> graph_contains g s} k (NodeId i) \<longleftrightarrow>
      (x, y) \<in> key_edges rows ^^ k \<and> (\<forall>m < k. (x, y) \<notin> key_edges rows ^^ m)"
    if "key_of d i = Some y" for i y k
    using path [OF that] r(3) by (auto simp: reach_distance_def)
  have "\<exists>i. key_of d i = Some y" if "(x, y) \<in> key_edges rows ^^ k" for k
  proof -
    have "y \<in> row_keys rows"
      using that assms(2) key_edges_Field [of rows] by (cases k) (auto simp: Field_def elim!: relpow_Suc_E)
    then show ?thesis using dom [of y] key_of_id [OF r(1)] by blast
  qed
  with dist show ?thesis by blast
qed

lemma project_keyed_edge:
  assumes "needs_dictionary ont edge" "build_edge_graph_with_dictionary D S edge as_of = Ok (g, d)"
  shows "project_edge A D S ont as_of edge = Ok (g, Some d)"
  using assms by (simp add: project_edge_def)

lemma registered_keyed_edge:
  assumes "wf_catalog c" "validate_or_error ont = Ok ()"
    and "\<And>e. e \<in> set (on_edges ont) \<Longrightarrow> is_Ok (project_edge A D S ont as_of e)"
    and "edge \<in> set (on_edges ont)" "project_edge A D S ont as_of edge = Ok (g, dict)"
  obtains c' a where "register_ontology_graphs_as_of A D S ont as_of c =
      (Ok (map (graph_name ont) (on_edges ont)), c')"
    "entry_of c' (graph_name ont edge) = Some (projected_entry a dict)" "gc_heap c' a = g"
proof -
  define built where "built e = (case project_edge A D S ont as_of e of Ok b \<Rightarrow> b)" for e
  have built: "project_edge A D S ont as_of e = Ok (built e)" if "e \<in> set (on_edges ont)" for e
    using assms(3) [OF that] by (auto simp: is_Ok_iff built_def)
  obtain c' where c': "register_edges A D S ont as_of (on_edges ont) c =
      (Ok (map (graph_name ont) (on_edges ont)), c')"
    "\<forall>e \<in> set (on_edges ont). \<exists>a.
       entry_of c' (graph_name ont e) = Some (projected_entry a (snd (built e))) \<and> gc_heap c' a = fst (built e)"
    using register_edges_Ok [OF assms(1) valid_ontology_names [OF assms(2)] built] by blast
  moreover have "built edge = (g, dict)" using built [OF assms(4)] assms(5) by simp
  ultimately show thesis
    using bspec [OF c'(2) assms(4)] that assms(2) by (auto simp: register_ontology_graphs_as_of_def)
qed

section \<open>Properties\<close>

text \<open>
  C14: registration is complete: for a valid ontology all of whose edges can be projected, the
  graph names are returned in the order of the definitions, no two the same; every edge's
  graph, with its dictionary if it has one, is registered under its name with no transpose
  yet, and neither entries under other names nor graphs that existed before are touched.
\<close>

theorem ontology_registration:
  assumes "wf_catalog c" "validate_or_error ont = Ok ()"
    and "\<And>e. e \<in> set (on_edges ont) \<Longrightarrow> project_edge A D S ont as_of e = Ok (built e)"
  shows "\<exists>c'. register_ontology_graphs_as_of A D S ont as_of c =
      (Ok (map (graph_name ont) (on_edges ont)), c') \<and> wf_catalog c' \<and>
    distinct (map (graph_name ont) (on_edges ont)) \<and>
    (e \<in> set (on_edges ont) \<longrightarrow> (\<exists>a.
       entry_of c' (graph_name ont e) =
         Some \<lparr>ge_forward = a, ge_reverse = None, ge_dictionary = snd (built e)\<rparr> \<and>
       gc_heap c' a = fst (built e))) \<and>
    (n \<notin> graph_name ont ` set (on_edges ont) \<longrightarrow> entry_of c' n = entry_of c n) \<and>
    (b < gc_next_graph c \<longrightarrow> gc_heap c' b = gc_heap c b)"
proof -
  note names = valid_ontology_names [OF assms(2)]
  obtain c' where "register_edges A D S ont as_of (on_edges ont) c =
      (Ok (map (graph_name ont) (on_edges ont)), c')" "wf_catalog c'"
    "\<forall>a < gc_next_graph c. gc_heap c' a = gc_heap c a"
    "\<forall>n. n \<notin> graph_name ont ` set (on_edges ont) \<longrightarrow> entry_of c' n = entry_of c n"
    "\<forall>e \<in> set (on_edges ont). \<exists>a.
       entry_of c' (graph_name ont e) = Some (projected_entry a (snd (built e))) \<and>
       gc_heap c' a = fst (built e)"
    using register_edges_Ok [OF assms(1) names assms(3)] by blast
  then show ?thesis
    using names assms(2)
    by (intro exI [of _ c']) (simp add: register_ontology_graphs_as_of_def projected_entry_def)
qed

text \<open>The example ontology with string identifiers.\<close>

definition string_ontology :: ontology where
  "string_ontology = (example_ontology ''B'' None)
     \<lparr>on_settings := ontology_settings_default\<lparr>os_default_node_id_type := IdString\<rparr>\<rparr>"

lemma string_ontology_props:
  "validate_or_error string_ontology = Ok ()" "on_edges string_ontology = [example_edge ''B'' None]"
  "needs_dictionary string_ontology e" "graph_name string_ontology (example_edge ''B'' None) = ''E''"
  using example_ontology_valid
  by (simp_all add: string_ontology_def validate_or_error_def validate_def example_ontology_def
      needs_dictionary_def graph_name_def ontology_name_def ontology_meta_default_def example_edge_def)

abbreviation key_session ::
  "(unit, unit, ((edge_key \<times> edge_data) list, edge_key list) stream_state) session" where
  "key_session \<equiv> example_session [key_batch] [] []"

lemma example_keyed_build:
  "\<exists>g d. build_edge_graph_with_dictionary list_dash key_session
     (example_edge ''B'' None) None = Ok (g, d)"
proof -
  have "ed_weight_column (example_edge ''B'' None) = None" by (simp add: example_edge_def)
  from build_with_dictionary_Ok [OF list_dash_laws example_session_query
      example_session_collect key_batch_props(1) [OF this] key_batch_props(2)]
  show ?thesis by blast
qed

theorem ontology_registration_witness:
  "\<exists>c' :: ((edge_key \<times> edge_data) list, edge_key list) catalog.
     register_ontology_graphs_as_of list_arrow list_dash key_session
       string_ontology None (catalog_new (\<lambda>_. example_graph) 0) = (Ok [''E''], c') \<and>
     wf_catalog c' \<and> entry_of c' ''F'' = None"
proof -
  obtain g d where "build_edge_graph_with_dictionary list_dash key_session
      (example_edge ''B'' None) None = Ok (g, d)"
    using example_keyed_build by blast
  then have "project_edge list_arrow list_dash key_session string_ontology None e =
      Ok (g, Some d)" if "e \<in> set (on_edges string_ontology)" for e
    using that by (simp add: string_ontology_props project_keyed_edge)
  from ontology_registration [where n = "''F''" and e = "example_edge ''B'' None" and b = 0, OF wf_catalog_new [of "\<lambda>_. example_graph" 0]
      string_ontology_props(1) this]
  show ?thesis by (auto simp: string_ontology_props)
qed

text \<open>
  C15: registration stops at the first edge that cannot be projected, with that edge's error in
  the context of its label and table: the edges before it stay registered, and no other name
  is touched.
\<close>

theorem registration_stops_at_error:
  assumes "wf_catalog c" "validate_or_error ont = Ok ()" "on_edges ont = pre @ bad # post"
    and "\<And>e. e \<in> set pre \<Longrightarrow> project_edge A D S ont as_of e = Ok (built e)"
    and "needs_dictionary ont bad \<Longrightarrow> build_edge_graph_with_dictionary D S bad as_of = Err err"
    and "\<not> needs_dictionary ont bad \<Longrightarrow> build_edge_graph A D S ont bad as_of = Err err"
  shows "\<exists>c'. register_ontology_graphs_as_of A D S ont as_of c =
      (Err (DfContext (''while projecting edge '' @ quoted (ed_label bad) @ '' from table '' @
         quoted (ed_source bad)) err), c') \<and> wf_catalog c' \<and>
    (e \<in> set pre \<longrightarrow> (\<exists>a.
       entry_of c' (graph_name ont e) =
         Some \<lparr>ge_forward = a, ge_reverse = None, ge_dictionary = snd (built e)\<rparr> \<and>
       gc_heap c' a = fst (built e))) \<and>
    (n \<notin> graph_name ont ` set pre \<longrightarrow> entry_of c' n = entry_of c n)"
proof -
  have names: "distinct (map (graph_name ont) pre)"
    using valid_ontology_names [OF assms(2)] by (simp add: assms(3))
  obtain c' where c': "register_edges A D S ont as_of pre c = (Ok (map (graph_name ont) pre), c')"
    "wf_catalog c'" "\<forall>n. n \<notin> graph_name ont ` set pre \<longrightarrow> entry_of c' n = entry_of c n"
    "\<forall>e \<in> set pre. \<exists>a. entry_of c' (graph_name ont e) = Some (projected_entry a (snd (built e))) \<and>
       gc_heap c' a = fst (built e)"
    using register_edges_Ok [OF assms(1) names assms(4)] by blast
  have "project_edge A D S ont as_of bad = Err (projection_context bad err)"
    using assms(5,6) by (simp add: project_edge_def)
  from register_edges_stops [where pre = pre, OF _ this, of post c] assms(4) c'(1)
  have "register_edges A D S ont as_of (on_edges ont) c = (Err (projection_context bad err), c')"
    by (simp add: assms(3))
  with c'(2-4) assms(2) show ?thesis
    by (intro exI [of _ c'])
      (simp add: register_ontology_graphs_as_of_def projected_entry_def projection_context_def)
qed

theorem registration_stops_at_error_witness:
  "\<exists>c' :: ((edge_key \<times> edge_data) list, edge_key list) catalog.
     register_ontology_graphs_as_of list_arrow list_dash
       ((example_session [] [] [])\<lparr>ss_table := \<lambda>_. Err (DfPlan ''no table'')\<rparr>)
       string_ontology None (catalog_new (\<lambda>_. example_graph) 0) =
     (Err (DfContext (''while projecting edge '' @ quoted ''E'' @ '' from table '' @ quoted ''t'')
        (DfPlan ''no table'')), c') \<and> entry_of c' ''E'' = None"
proof -
  let ?S = "(example_session [] [] [])\<lparr>ss_table := \<lambda>_. Err (DfPlan ''no table'')\<rparr>"
  let ?e = "example_edge ''B'' None"
  have edges: "on_edges string_ontology = [] @ ?e # []" by (simp add: string_ontology_props)
  have fails: "build_edge_graph_with_dictionary list_dash ?S ?e None = Err (DfPlan ''no table'')"
    by (simp add: build_edge_graph_with_dictionary_def)
  have "ed_label ?e = ''E''" "ed_source ?e = ''t''" by (simp_all add: example_edge_def)
  with registration_stops_at_error [where n = "''E''" and S = ?S and A = list_arrow and as_of = None,
      OF wf_catalog_new [of "\<lambda>_. example_graph" 0] string_ontology_props(1) edges _ fails]
  show ?thesis by (simp add: string_ontology_props) blast
qed

text \<open>
  C2: from tables to answers: after a valid ontology's graphs have been registered, a query
  \<open>graph_traverse\<close> on a string-keyed edge, starting from a key and without a cap, however its
  arguments are written, returns the identifiers of
  exactly the keys that paths of at most the given number of hops lead to in the rows of the
  edge's table, at the length of the shortest such path, each once; the registered dictionary
  decodes them.
\<close>

theorem registered_keys_are_queried:
  assumes "arrow_laws A" "dash_laws D" "wf_catalog c" "validate_or_error ont = Ok ()"
    and "\<And>e. e \<in> set (on_edges ont) \<Longrightarrow> is_Ok (project_edge A D S ont as_of e)"
    and "edge \<in> set (on_edges ont)" "needs_dictionary ont edge"
    and "edge_query S (dictionary_projection edge) edge as_of = Ok df" "ss_collect S df = Ok bs"
    and "batches_keys edge bs = Some rows" "2 * length rows \<le> u32_max"
    and "x \<in> row_keys rows" "unat hops \<le> u32_max"
    and "denotes_text name_arg (graph_name ont edge)" "denotes_text key_arg x"
    and "denotes_int hops_arg hops" "denotes_options opts None Outgoing"
  shows "\<exists>names c' d t ids ds.
    register_ontology_graphs_as_of A D S ont as_of c = (Ok names, c') \<and>
    graph_traverse dbg D ([name_arg, key_arg, hops_arg] @ opts) c' = (Ok t, c') \<and>
    traversal_execute A P D (table_exec c' t) 0 = Ok (rows_batch ids ds) \<and> distinct ids \<and>
    catalog_dictionary c' (graph_name ont edge) = Some d \<and>
    ((\<exists>i. (i, n) \<in> set (zip ids ds) \<and> key_of d i = Some y) \<longleftrightarrow>
       unat n \<le> unat hops \<and> (x, y) \<in> key_edges rows ^^ unat n \<and>
       (\<forall>m < unat n. (x, y) \<notin> key_edges rows ^^ m))"
proof -
  obtain g d where g: "build_edge_graph_with_dictionary D S edge as_of = Ok (g, d)"
    "represents D g d (weighted_edge edge) rows"
    using build_with_dictionary_Ok [OF assms(2,8-11)] by blast
  have r: "wf_graph D g" "compactable D g" "wf_dictionary d" "set (dict_keys d) = row_keys rows"
    "graph_contains g (NodeId (key_id d x))"
    using g(2) assms(12) unfolding represents_def by blast+
  obtain c' a where c': "register_ontology_graphs_as_of A D S ont as_of c =
      (Ok (map (graph_name ont) (on_edges ont)), c')"
    and a: "entry_of c' (graph_name ont edge) = Some (projected_entry a (Some d))" "gc_heap c' a = g"
    by (rule registered_keyed_edge [OF assms(3-6) project_keyed_edge [OF assms(7) g(1)]])
  have dict: "catalog_dictionary c' (graph_name ont edge) = Some d"
    by (simp add: catalog_dictionary_def a(1) projected_entry_def)
  let ?args = "[name_arg, key_arg, hops_arg] @ opts"
  have "id_of d x = Some (key_id d x)" using key_id_Some [OF r(3)] r(4) assms(12) by simp
  from call [OF assms(14) start_key [OF assms(15) dict this] assms(16,17)]
  have call: "traverse_call c' ?args (graph_name ont edge) (key_id d x) hops None Outgoing" .
  have fwd: "gc_heap c' (ge_forward (projected_entry a (Some d))) = g"
    "\<And>q. ge_reverse (projected_entry a (Some d)) = Some q \<Longrightarrow> transpose D g = Ok (gc_heap c' q)"
    using a(2) by (simp_all add: projected_entry_def)
  let ?dist = "\<lambda>v k. reach_distance D g {s. s = NodeId (key_id d x) \<and> graph_contains g s} k (NodeId v)"
  obtain t ids ds where rows: "graph_traverse dbg D ?args c' = (Ok t, c')"
    "traversal_execute A P D (table_exec c' t) 0 = Ok (rows_batch ids ds)" "distinct ids"
    "\<And>v k. (v, k) \<in> set (zip ids ds) \<longleftrightarrow> unat k \<le> unat hops \<and> ?dist v (unat k)"
    using traverse_rows [OF assms(1) a(1) fwd(1) r(1,2) fwd(2) call assms(13)] by blast
  have "(\<exists>i. (i, n) \<in> set (zip ids ds) \<and> key_of d i = Some y) \<longleftrightarrow>
       unat n \<le> unat hops \<and> (x, y) \<in> key_edges rows ^^ unat n \<and>
       (\<forall>m < unat n. (x, y) \<notin> key_edges rows ^^ m)"
    using key_distances [OF g(2) assms(12), of y "unat n"] rows(4) by blast
  then show ?thesis
    using c' rows dict by blast
qed

theorem registered_keys_are_queried_witness:
  "\<exists>names c' d t ids ds.
     register_ontology_graphs_as_of list_arrow list_dash key_session
       string_ontology None (catalog_new (\<lambda>_. example_graph) 0) = (Ok names, c') \<and>
     graph_traverse (\<lambda>_. []) list_dash ([Literal (ScUtf8 (Some ''E'')), Literal (ScUtf8 (Some ''alice'')),
       Literal (ScInt64 (Some 2))] @ []) c' = (Ok t, c') \<and>
     traversal_execute list_arrow example_platform list_dash (table_exec c' t) 0 = Ok (rows_batch ids ds) \<and>
     (\<exists>i. (i, 2) \<in> set (zip ids ds) \<and> key_of d i = Some ''carol'')"
proof -
  let ?S = key_session and ?e = "example_edge ''B'' None"
  have "is_Ok (project_edge list_arrow list_dash ?S string_ontology None e)"
    if "e \<in> set (on_edges string_ontology)" for e
    using that example_keyed_build by (auto simp: string_ontology_props project_keyed_edge)
  moreover have "?e \<in> set (on_edges string_ontology)" by (simp add: string_ontology_props)
  moreover have "batches_keys ?e [key_batch] = Some key_batch_rows"
    by (rule key_batch_props(1)) (simp add: example_edge_def)
  moreover have "''alice'' \<in> row_keys key_batch_rows" "unat (2 :: u64) \<le> u32_max"
    by (simp_all add: row_keys_def u32_max_def)
  moreover have "(''alice'', ''carol'') \<in> key_edges key_batch_rows ^^ 2"
    by (simp add: key_edges_def numeral_2_eq_2 relcomp_unfold)
  moreover have "\<forall>m < 2. (''alice'', ''carol'') \<notin> key_edges key_batch_rows ^^ m"
    by (simp add: key_edges_def numeral_2_eq_2 All_less_Suc)
  moreover have "unat (2 :: u32) = 2" "unat (2 :: u32) \<le> unat (2 :: u64)" by simp_all
  moreover have "denotes_text (Literal (ScUtf8 (Some ''E''))) (graph_name string_ontology ?e)"
    "denotes_text (Literal (ScUtf8 (Some ''alice''))) ''alice''" "denotes_int (Literal (ScInt64 (Some 2))) 2"
    by (simp_all add: string_ontology_props)
  moreover have "denotes_options [] None Outgoing" by (rule no_options)
  ultimately show ?thesis
    using registered_keys_are_queried [where A = list_arrow and D = list_dash and S = ?S and edge = ?e
        and x = "''alice''" and y = "''carol''" and hops = 2 and n = 2 and ont = string_ontology
        and as_of = None and rows = key_batch_rows and bs = "[key_batch]" and df = "()"
        and c = "catalog_new (\<lambda>_. example_graph) 0" and dbg = "\<lambda>_. []" and P = example_platform
        and name_arg = "Literal (ScUtf8 (Some ''E''))" and key_arg = "Literal (ScUtf8 (Some ''alice''))"
        and hops_arg = "Literal (ScInt64 (Some 2))" and opts = "[]",
        OF list_arrow_laws list_dash_laws wf_catalog_new string_ontology_props(1) _ _
          string_ontology_props(3) example_session_query example_session_collect]
      key_batch_props(2)
    unfolding string_ontology_props(4) by simp blast
qed

end
