(* ===== verification/Sessions.thy ===== *)
theory Sessions
  imports Registration
begin

text \<open>
  A catalog in use: clients call its operations, write to the graphs they hold, plan queries
  and register ontologies, in any order.  Whatever they do to other graphs, a registered graph
  goes on answering queries from its live edges.
\<close>

section \<open>Calls that leave a graph alone\<close>

text \<open>The graphs that a name refers to: its graph and the memoised transpose.\<close>

definition graphs_of :: "('m, 's) catalog \<Rightarrow> string \<Rightarrow> graph_addr set" where
  "graphs_of c n = (case entry_of c n of
     None \<Rightarrow> {} | Some en \<Rightarrow> insert (ge_forward en) (set_option (ge_reverse en)))"

text \<open>
  The calls of clients that neither register nor remove the name \<open>n\<close> nor write to its graphs.
  They may query it, have its transpose built and compact it.  The steps of a compaction are calls
  too, so that calls of other threads can come between them, but only of a compaction of another
  name: between its draining and its swap a graph under compaction does not show its live edges.
\<close>

inductive quiet_call ::
  "expr_debug \<Rightarrow> arrow \<Rightarrow> ('m, 's) dash \<Rightarrow> ('d, 'p, ('m, 's) stream_state) session \<Rightarrow> string \<Rightarrow>
   ('m, 's) catalog \<Rightarrow> ('m, 's) catalog \<Rightarrow> bool" for dbg A D S n where
  quiet_new_graph: "quiet_call dbg A D S n c (snd (alloc_graph g c))"
| quiet_write: "a \<notin> graphs_of c n \<Longrightarrow> quiet_call dbg A D S n c (apply_writes D a ops c)"
| quiet_register: "m \<noteq> n \<Longrightarrow> a < gc_next_graph c \<Longrightarrow> quiet_call dbg A D S n c (snd (register m a c))"
| quiet_register_with_reverse: "m \<noteq> n \<Longrightarrow> a < gc_next_graph c \<Longrightarrow> b < gc_next_graph c \<Longrightarrow>
    quiet_call dbg A D S n c (register_with_reverse m a b c)"
| quiet_register_with_dictionary: "m \<noteq> n \<Longrightarrow> a < gc_next_graph c \<Longrightarrow>
    quiet_call dbg A D S n c (register_with_dictionary m a dict c)"
| quiet_deregister: "m \<noteq> n \<Longrightarrow> quiet_call dbg A D S n c (snd (deregister m c))"
| quiet_reverse: "quiet_call dbg A D S n c (snd (catalog_reverse D m c))"
| quiet_traverse: "quiet_call dbg A D S n c (snd (graph_traverse dbg D args c))"
| quiet_compact: "(\<And>en. m \<noteq> n \<Longrightarrow> entry_of c m = Some en \<Longrightarrow> ge_forward en \<notin> graphs_of c n) \<Longrightarrow>
    quiet_call dbg A D S n c (snd (compact_if_needed D m policy c))"
| quiet_compaction_begin: "(\<And>en. entry_of c m = Some en \<Longrightarrow> ge_forward en \<notin> graphs_of c n) \<Longrightarrow>
    quiet_call dbg A D S n c (snd (compaction_begin D m policy c))"
| quiet_compaction_replay: "ge_forward (gc_entries c e) \<notin> graphs_of c n \<Longrightarrow>
    quiet_call dbg A D S n c (snd (compaction_replay D e g c))"
| quiet_compaction_swap: "m \<noteq> n \<Longrightarrow> quiet_call dbg A D S n c (compaction_swap m e g c)"
| quiet_ontology: "n \<notin> graph_name ont ` set (on_edges ont) \<Longrightarrow>
    quiet_call dbg A D S n c (snd (register_ontology_graphs_as_of A D S ont as_of c))"

text \<open>
  What a name serves: a well-formed graph with these live edges, all between nodes of its base, a
  dictionary or none, and no transpose other than its own.
\<close>

definition serves ::
  "('m, 's) dash \<Rightarrow> ('m, 's) catalog \<Rightarrow> string \<Rightarrow> edge_key set \<Rightarrow> node_dictionary option \<Rightarrow> bool" where
  "serves D c n E d \<longleftrightarrow> wf_catalog c \<and>
     (case entry_of c n of None \<Rightarrow> False | Some en \<Rightarrow>
        let g = gc_heap c (ge_forward en)
        in wf_graph D g \<and> compactable D g \<and> graph_edges D g = E \<and>
           (\<forall>v \<in> Field E. graph_contains g v) \<and> ge_dictionary en = d \<and>
           (\<forall>a. ge_reverse en = Some a \<longrightarrow> transpose D g = Ok (gc_heap c a)))"

section \<open>Later catalogs\<close>

text \<open>A later catalog: well-formed if the earlier one was, and with at least its graphs.\<close>

definition extends_catalog :: "('m, 's) catalog \<Rightarrow> ('m, 's) catalog \<Rightarrow> bool" where
  "extends_catalog c c' \<longleftrightarrow> (wf_catalog c \<longrightarrow> wf_catalog c') \<and> gc_next_graph c \<le> gc_next_graph c'"

lemma extends_refl: "extends_catalog c c"
  by (simp add: extends_catalog_def)

lemma extends_alloc: "extends_catalog c (snd (alloc_graph g c))"
  using wf_alloc [of c g] by (simp add: extends_catalog_def) (simp add: alloc_graph_def)

lemma extends_heap: "extends_catalog c (c\<lparr>gc_heap := h\<rparr>)"
  by (simp add: extends_catalog_def)

lemma extends_put: "entry_fits c e \<Longrightarrow> extends_catalog c (put_entry n e c)"
  using wf_put_entry [of c e n] by (simp add: extends_catalog_def) (simp add: put_entry_def)

lemma extends_deregister: "extends_catalog c (snd (deregister n c))"
  using wf_deregister [of c n] by (simp add: extends_catalog_def) (simp add: deregister_def)

lemma wf_update_entry:
  assumes "wf_catalog c" "entry_fits c en"
  shows "wf_catalog (c\<lparr>gc_entries := (gc_entries c)(e := en)\<rparr>)"
  using assms by (auto simp: wf_catalog_def entry_fits_def)

lemma extends_reverse: "extends_catalog c (snd (catalog_reverse D n c))"
proof (cases "catalog_entry c n")
  case (Some e)
  show ?thesis
  proof (cases "ge_reverse (gc_entries c e)")
    case None
    show ?thesis
    proof (cases "transpose D (gc_heap c (ge_forward (gc_entries c e)))")
      case (Ok g)
      let ?c1 = "snd (alloc_graph g c)" and ?en = "(gc_entries c e)\<lparr>ge_reverse := Some (gc_next_graph c)\<rparr>"
      have c': "snd (catalog_reverse D n c) = ?c1\<lparr>gc_entries := (gc_entries ?c1)(e := ?en)\<rparr>"
        using Some None Ok by (simp add: catalog_reverse_def alloc_graph_def Let_def)
      have "wf_catalog (snd (catalog_reverse D n c))" if wf: "wf_catalog c"
        unfolding c'
      proof (rule wf_update_entry [OF wf_alloc [OF wf]])
        have "entry_fits c (gc_entries c e)"
          using entry_of_fits [OF wf, of n] Some by (simp add: entry_of_def)
        then show "entry_fits ?c1 ?en" by (simp add: entry_fits_def alloc_graph_def)
      qed
      moreover have "gc_next_graph (snd (catalog_reverse D n c)) = Suc (gc_next_graph c)"
        by (simp add: c' alloc_graph_def)
      ultimately show ?thesis by (simp add: extends_catalog_def)
    qed (use Some None in \<open>simp_all add: catalog_reverse_def extends_refl\<close>)
  qed (use Some in \<open>simp_all add: catalog_reverse_def extends_refl\<close>)
qed (simp add: catalog_reverse_def extends_refl)

lemma extends_compaction_swap: "extends_catalog c (compaction_swap n e g c)"
  using compaction_swap_props(1) [OF _ refl, of c n e g]
  by (simp add: extends_catalog_def) (simp add: compaction_swap_def alloc_graph_def put_entry_def Let_def)

lemma extends_projected: "extends_catalog c (register_projected n built c)"
proof -
  have "wf_catalog (register_projected n built c)" if "wf_catalog c"
    using register_projected_props(1) [OF that refl] .
  moreover have "gc_next_graph (register_projected n built c) = Suc (gc_next_graph c)"
    by (cases built; cases "snd built")
      (simp_all add: register_projected_def alloc_graph_def register_with_dictionary_def register_def put_entry_def)
  ultimately show ?thesis by (simp add: extends_catalog_def)
qed

section \<open>What a name serves is kept\<close>

lemma serves_entry:
  assumes "serves D c n E d"
  shows "\<exists>en. wf_catalog c \<and> entry_of c n = Some en \<and> entry_fits c en \<and>
    wf_graph D (gc_heap c (ge_forward en)) \<and> compactable D (gc_heap c (ge_forward en)) \<and>
    graph_edges D (gc_heap c (ge_forward en)) = E \<and>
    (\<forall>v \<in> Field E. graph_contains (gc_heap c (ge_forward en)) v) \<and> ge_dictionary en = d \<and>
    (\<forall>a. ge_reverse en = Some a \<longrightarrow> transpose D (gc_heap c (ge_forward en)) = Ok (gc_heap c a))"
  using assms entry_of_fits [of c n] by (auto simp: serves_def Let_def split: option.splits)

text \<open>The frame of most calls: the entry and its graphs stay as they are.\<close>

lemma serves_frame:
  assumes "serves D c n E d" "extends_catalog c c'" "entry_of c' n = entry_of c n"
    and "\<And>a. a \<in> graphs_of c n \<Longrightarrow> a < gc_next_graph c \<Longrightarrow> gc_heap c' a = gc_heap c a"
  shows "serves D c' n E d"
proof -
  obtain en where en: "wf_catalog c" "entry_of c n = Some en" "entry_fits c en"
    using serves_entry [OF assms(1)] by blast
  have "gc_heap c' a = gc_heap c a" if "a = ge_forward en \<or> ge_reverse en = Some a" for a
    using assms(4) [of a] that en(2,3) by (auto simp: graphs_of_def entry_fits_def)
  then show ?thesis
    using assms(1-3) en(2) by (auto simp: serves_def extends_catalog_def Let_def)
qed

lemma serves_wf: "serves D c n E d \<Longrightarrow> wf_catalog c"
  by (simp add: serves_def)

lemma serves_put:
  assumes "serves D c n E d" "m \<noteq> n" "entry_fits c e"
  shows "serves D (put_entry m e c) n E d"
  by (rule serves_frame [OF assms(1) extends_put [OF assms(3)]])
    (use assms(2) entry_of_put [OF serves_wf [OF assms(1)]] in \<open>simp_all add: put_entry_def\<close>)

lemma serves_alloc:
  assumes "serves D c n E d"
  shows "serves D (snd (alloc_graph g c)) n E d"
  by (rule serves_frame [OF assms extends_alloc])
    (simp_all add: alloc_graph_def entry_of_def catalog_entry_def)

lemma serves_heap:
  assumes "serves D c n E d" "a \<notin> graphs_of c n"
  shows "serves D (c\<lparr>gc_heap := (gc_heap c)(a := g)\<rparr>) n E d"
  by (rule serves_frame [OF assms(1) extends_heap]) (use assms(2) in auto)

lemma serves_reverse:
  assumes s: "serves D c n E d"
  shows "serves D (snd (catalog_reverse D m c)) n E d"
proof (cases "\<exists>e g. catalog_entry c m = Some e \<and> ge_reverse (gc_entries c e) = None \<and>
    transpose D (gc_heap c (ge_forward (gc_entries c e))) = Ok g")
  case True
  then obtain e g where e: "catalog_entry c m = Some e" "ge_reverse (gc_entries c e) = None"
    "transpose D (gc_heap c (ge_forward (gc_entries c e))) = Ok g" by blast
  let ?a = "gc_next_graph c"
  let ?c = "snd (catalog_reverse D m c)"
  have c': "?c = (snd (alloc_graph g c))\<lparr>gc_entries := (gc_entries c)
      (e := (gc_entries c e)\<lparr>ge_reverse := Some ?a\<rparr>)\<rparr>"
    using e by (simp add: catalog_reverse_def alloc_graph_def Let_def)
  have "extends_catalog c ?c" by (rule extends_reverse)
  then have wf: "wf_catalog ?c" using serves_wf [OF s] by (simp add: extends_catalog_def)
  obtain en where en: "entry_of c n = Some en" "entry_fits c en" using serves_entry [OF s] by blast
  then obtain b where b: "catalog_entry c n = Some b" "gc_entries c b = en" by (auto simp: entry_of_def)
  have heap: "gc_heap ?c b = (if b = ?a then g else gc_heap c b)" for b
    by (simp add: c' alloc_graph_def)
  have old: "ge_forward en \<noteq> ?a" "ge_reverse en \<noteq> Some ?a" using en(2) by (auto simp: entry_fits_def)
  have entry: "entry_of ?c n = Some (if b = e then en\<lparr>ge_reverse := Some ?a\<rparr> else en)"
    using b by (auto simp: c' alloc_graph_def entry_of_def catalog_entry_def)
  show ?thesis
    using s wf en(1) entry heap old e(3) b(2)
    by (auto simp: serves_def Let_def)
next
  case False
  then have "snd (catalog_reverse D m c) = c"
    by (auto simp: catalog_reverse_def split: option.splits res.splits)
  with s show ?thesis by simp
qed

lemma serves_traverse:
  assumes "serves D c n E d"
  shows "serves D (snd (graph_traverse dbg D args c)) n E d"
  using assms serves_reverse [OF assms]
  by (auto simp: graph_traverse_def reverse_for_def Let_def case_prod_beta split: res.splits)

lemma serves_compact:
  assumes s: "serves D c n E d"
  shows "serves D (snd (compact_if_needed D n policy c)) n E d"
proof -
  obtain en where en: "wf_catalog c" "entry_of c n = Some en"
    "wf_graph D (gc_heap c (ge_forward en))" "compactable D (gc_heap c (ge_forward en))"
    "graph_edges D (gc_heap c (ge_forward en)) = E" "ge_dictionary en = d"
    using serves_entry [OF s] by blast
  show ?thesis
  proof (cases "should_compact D (gc_heap c (ge_forward en)) policy")
    case True
    obtain c' en' where c': "compact_if_needed D n policy c = (Ok True, c')" "wf_catalog c'"
      "entry_of c' = (entry_of c)(n \<mapsto> en')" "ge_reverse en' = None" "ge_dictionary en' = ge_dictionary en"
      "wf_graph D (gc_heap c' (ge_forward en'))" "compactable D (gc_heap c' (ge_forward en'))"
      "graph_edges D (gc_heap c' (ge_forward en')) = E" "base_edges (gc_heap c' (ge_forward en')) = E"
      by (rule compact_if_needed_Ok [OF en(1,2) refl en(3,4) True, unfolded en(5)]) (rule that, assumption+)
    have "graph_contains (gc_heap c' (ge_forward en')) v" if "v \<in> Field E" for v
      using that base_edges_bound [OF wf_graphD(1) [OF c'(6)]]
      by (auto simp: c'(9) Field_def graph_contains_iff)
    with c' en(6) show ?thesis by (simp add: serves_def)
  next
    case False
    then have "snd (compact_if_needed D n policy c) = c"
      using en(2) by (auto simp: entry_of_def compact_if_needed_def compaction_begin_def)
    with s show ?thesis by simp
  qed
qed

lemma serves_compaction_begin:
  assumes "serves D c n E d" "\<And>en. entry_of c m = Some en \<Longrightarrow> ge_forward en \<notin> graphs_of c n"
  shows "serves D (snd (compaction_begin D m policy c)) n E d"
  using assms(1) serves_heap [OF assms(1)] assms(2)
  by (auto simp: compaction_begin_def entry_of_def Let_def case_prod_beta split: option.splits)

lemma serves_compaction_swap:
  assumes "serves D c n E d" "m \<noteq> n"
  shows "serves D (compaction_swap m e g c) n E d"
  by (rule serves_frame [OF assms(1) extends_compaction_swap])
    (use compaction_swap_props(2,3) [OF serves_wf [OF assms(1)] refl] assms(2) in simp_all)

lemma serves_compact_other:
  assumes s: "serves D c n E d" and m: "m \<noteq> n" "\<And>en. entry_of c m = Some en \<Longrightarrow> ge_forward en \<notin> graphs_of c n"
  shows "serves D (snd (compact_if_needed D m policy c)) n E d"
proof -
  obtain r c1 where b: "compaction_begin D m policy c = (r, c1)" by fastforce
  have "serves D (snd (compaction_begin D m policy c)) n E d" using s m(2) by (rule serves_compaction_begin)
  then have c1: "serves D c1 n E d" by (simp add: b)
  have swapped: "serves D (compaction_swap m e g' c2) n E d"
    if "r = Ok (Compacted e g)" "compaction_replay D e g c1 = (g', c2)" for e g g' c2
  proof -
    note r = that
    obtain h where e: "catalog_entry c m = Some e" "c1 = c\<lparr>gc_heap := h\<rparr>"
      using b r(1) by (fastforce simp: compaction_begin_def Let_def case_prod_beta map_res_Ok_iff
          split: option.splits if_splits)
    then have "ge_forward (gc_entries c1 e) \<notin> graphs_of c1 n"
      using m(2) by (simp add: entry_of_def graphs_of_def catalog_entry_def)
    from serves_heap [OF c1 this] r(2) have "serves D c2 n E d"
      by (auto simp: compaction_replay_def Let_def case_prod_beta)
    then show ?thesis using m(1) by (rule serves_compaction_swap)
  qed
  then show ?thesis
    using c1 by (auto simp: compact_if_needed_def b split: res.splits compaction.splits prod.splits)
qed

lemma serves_register_edges:
  assumes "serves D c n E d" "n \<notin> graph_name ont ` set es"
  shows "serves D (snd (register_edges A D S ont as_of es c)) n E d"
  using assms
proof (induction es arbitrary: c)
  case (Cons e es)
  have step: "serves D (register_projected (graph_name ont e) built c) n E d" for built
    by (rule serves_frame [OF Cons.prems(1) extends_projected])
      (use register_projected_props(2,4) [OF serves_wf [OF Cons.prems(1)] refl] Cons.prems(2) in auto)
  show ?case
    using Cons.IH [OF step] Cons.prems by (auto simp: Let_def case_prod_beta split: res.splits)
qed simp

lemma serves_ontology:
  assumes "serves D c n E d" "n \<notin> graph_name ont ` set (on_edges ont)"
  shows "serves D (snd (register_ontology_graphs_as_of A D S ont as_of c)) n E d"
  using assms serves_register_edges [OF assms, of A S as_of]
  by (simp add: register_ontology_graphs_as_of_def split: res.splits)

lemma serves_deregister:
  assumes "serves D c n E d" "m \<noteq> n"
  shows "serves D (snd (deregister m c)) n E d"
proof (rule serves_frame [OF assms(1) extends_deregister])
  show "entry_of (snd (deregister m c)) n = entry_of c n" using assms(2) by (simp add: entry_of_deregister)
qed (simp add: deregister_def)

lemma quiet_call_serves: "quiet_call dbg A D S n c c' \<Longrightarrow> serves D c n E d \<Longrightarrow> serves D c' n E d"
proof (induction rule: quiet_call.induct)
  case (quiet_write a c ops)
  then show ?case by (simp add: apply_writes_def serves_heap)
next
  case (quiet_compact m c policy)
  then show ?case by (cases "m = n") (simp_all add: serves_compact serves_compact_other)
next
  case (quiet_compaction_replay c e g)
  then show ?case by (simp add: compaction_replay_def Let_def case_prod_beta serves_heap)
qed (simp_all add: serves_alloc serves_reverse serves_traverse serves_compaction_begin
    serves_compaction_swap serves_ontology serves_deregister register_def register_with_reverse_def
    register_with_dictionary_def entry_new_def serves_put entry_fits_def)

lemma quiet_calls_serve: "(quiet_call dbg A D S n)\<^sup>*\<^sup>* c c' \<Longrightarrow> serves D c n E d \<Longrightarrow> serves D c' n E d"
  by (induction rule: rtranclp_induct) (auto intro: quiet_call_serves)

section \<open>Properties\<close>

text \<open>What is served answers queries, in both directions.\<close>

definition query_edges :: "traversal_direction \<Rightarrow> edge_key set \<Rightarrow> edge_key set" where
  "query_edges dir E = (if dir = Incoming then E\<inverse> else E)"

lemma served_query:
  assumes A: "arrow_laws A" and s: "serves D c n E d"
    and call: "traverse_call c args n v hops None dir" "unat hops \<le> u32_max"
    and v: "NodeId v \<in> Field E" and dir: "dir = Outgoing \<or> dir = Incoming"
  shows "\<exists>ids ds. run_query A P D dbg args c = Ok (rows_batch ids ds) \<and> distinct ids \<and>
    (\<forall>w k. (w, k) \<in> set (zip ids ds) \<longleftrightarrow> unat k \<le> unat hops \<and>
       (NodeId v, NodeId w) \<in> query_edges dir E ^^ unat k \<and>
       (\<forall>i < unat k. (NodeId v, NodeId w) \<notin> query_edges dir E ^^ i))"
proof -
  obtain en where en: "wf_catalog c" "entry_of c n = Some en"
    "wf_graph D (gc_heap c (ge_forward en))" "compactable D (gc_heap c (ge_forward en))"
    "graph_edges D (gc_heap c (ge_forward en)) = E"
    "\<And>v. v \<in> Field E \<Longrightarrow> graph_contains (gc_heap c (ge_forward en)) v"
    "\<And>a. ge_reverse en = Some a \<Longrightarrow> transpose D (gc_heap c (ge_forward en)) = Ok (gc_heap c a)"
    using serves_entry [OF s] by blast
  show ?thesis
  proof (cases "dir = Incoming")
    case False
    then have dir: "dir = Outgoing" using dir by simp
    have "reach_distance D (gc_heap c (ge_forward en))
        {s. s = NodeId v \<and> graph_contains (gc_heap c (ge_forward en)) s} k w \<longleftrightarrow>
      (NodeId v, w) \<in> E ^^ k \<and> (\<forall>i < k. (NodeId v, w) \<notin> E ^^ i)" for k w
      using en(6) [OF v] en(5) by (auto simp: reach_distance_def)
    moreover obtain t ids ds where "graph_traverse dbg D args c = (Ok t, c)"
      "traversal_execute A P D (table_exec c t) 0 = Ok (rows_batch ids ds)" "distinct ids"
      "\<And>w k. (w, k) \<in> set (zip ids ds) \<longleftrightarrow> unat k \<le> unat hops \<and>
         reach_distance D (gc_heap c (ge_forward en))
           {s. s = NodeId v \<and> graph_contains (gc_heap c (ge_forward en)) s} (unat k) (NodeId w)"
      using traverse_rows [OF A en(2) refl en(3,4,7) call(1) [unfolded dir] call(2), of dbg P] by blast
    ultimately show ?thesis
      by (intro exI [of _ ids] exI [of _ ds]) (simp add: dir query_edges_def run_query_def)
  next
    case True
    from incoming_call_distances [OF A en(1,2,7) refl en(3,4) call(1) [unfolded True] call(2), of P dbg] v True
    show ?thesis by (simp add: en(5) query_edges_def converse_relpow)
  qed
qed

lemma traverse_call_cong:
  assumes "catalog_dictionary c' name = catalog_dictionary c name" "traverse_call c args name n hops cap dir"
  shows "traverse_call c' args name n hops cap dir"
  using assms by (simp add: traverse_call_iff denotes_start_iff)

lemma serves_dictionary: "serves D c n E d \<Longrightarrow> catalog_dictionary c n = d"
  by (auto simp: serves_def catalog_dictionary_def Let_def split: option.splits)


lemma example_serves:
  "serves list_dash example_catalog ''g'' (graph_edges list_dash example_graph) None"
proof -
  have "unat (as_u64 a) < 3 \<and> unat (as_u64 b) < 3" if "(a, b) \<in> graph_edges list_dash example_graph" for a b
  proof -
    have "(a, b) \<in> base_edges example_graph \<or> (a, b) = (NodeId 2, NodeId 0)"
      using that by (auto simp: graph_edges_def) (auto simp: example_graph_def list_dash_laws split: if_splits)
    then show ?thesis
      using base_edges_bound [OF wf_graphD(1) [OF wf_example_graph], of a b] by (auto simp: example_graph_def)
  qed
  then have "graph_contains example_graph v" if "v \<in> Field (graph_edges list_dash example_graph)" for v
    using that by (auto simp: graph_contains_iff Field_def example_graph_def)
  then show ?thesis
    by (simp add: serves_def example_catalog_props wf_example_graph compactable_example entry_new_def Let_def)
qed

lemma example_live_edge: "(NodeId 0, NodeId 2) \<in> graph_edges list_dash example_graph"
  by (simp add: graph_edges_def base_edges_def example_graph_rows node_of_u32_def)
    (simp add: example_graph_def list_dash_laws)


section \<open>Planning while the catalog changes\<close>

text \<open>
  A query reads the registry when it resolves a start key, when it gets the graph and when it
  gets the transpose; between these reads it holds no lock.  What other threads do in between
  is given by \<open>f\<close> and \<open>h\<close>; without other threads this is \<open>graph_traverse\<close>.
\<close>

definition graph_traverse_between ::
  "expr_debug \<Rightarrow> ('m, 's) dash \<Rightarrow> expr list \<Rightarrow> (('m, 's) catalog \<Rightarrow> ('m, 's) catalog) \<Rightarrow>
   (('m, 's) catalog \<Rightarrow> ('m, 's) catalog) \<Rightarrow> ('m, 's) catalog \<Rightarrow> traversal_table df_result \<times> ('m, 's) catalog" where
  "graph_traverse_between dbg D args f h c0 =
     (case parse_arguments dbg c0 args of
        Err e \<Rightarrow> (Err e, c0)
      | Panic \<Rightarrow> (Panic, c0)
      | Ok (gname, start_node, max_hops, max_nodes, direction) \<Rightarrow>
          (let c1 = f c0
           in case ok_or (catalog_get c1 gname) (unknown_graph c1 gname) of
                Err e \<Rightarrow> (Err e, c1)
              | Panic \<Rightarrow> (Panic, c1)
              | Ok graph \<Rightarrow>
                  (let (r, c2) = reverse_for D gname direction (h c1)
                   in (bind_res r (\<lambda>rev_graph.
                       map_res (\<lambda>max_depth.
                           traversal_table_new graph rev_graph
                             (traversal_spec_default\<lparr>ts_start := [node_new start_node], ts_max_depth := max_depth,
                                ts_max_nodes := max_nodes, ts_direction := direction\<rparr>))
                         (ok_or (u32_of_u64 max_hops) (DfPlan ''graph_traverse: max_hops exceeds u32''))),
                       c2))))"

lemma graph_traverse_alone: "graph_traverse_between dbg D args id id c = graph_traverse dbg D args c"
  by (cases "parse_arguments dbg c args")
    (auto simp: graph_traverse_between_def graph_traverse_def Let_def split: res.splits prod.splits)

text \<open>
  When the name is registered anew after the start key has been resolved, the planned table
  pairs the old identifier of the key with the new graph; if the new dictionary numbers its
  keys differently, the traversal starts from the node of another key or of none.
\<close>

theorem replanned_key_mismatch:
  assumes "wf_catalog c" "catalog_dictionary c name = Some d1" "id_of d1 x = Some i"
    and "a < gc_next_graph c" "wf_dictionary d2" "id_of d2 x \<noteq> Some i" "unat hops \<le> u32_max"
    and "denotes_text name_arg name" "denotes_text key_arg x" "denotes_int hops_arg hops"
  shows "\<exists>t c'. graph_traverse_between dbg D [name_arg, key_arg, hops_arg]
      (register_with_dictionary name a d2) id c = (Ok t, c') \<and>
    tt_graph t = a \<and> catalog_dictionary c' name = Some d2 \<and>
    ts_start (tt_spec t) = [NodeId i] \<and> key_of d2 i \<noteq> Some x"
proof -
  let ?c1 = "register_with_dictionary name a d2 c"
  have "traverse_call c ([name_arg, key_arg, hops_arg] @ []) name i hops None Outgoing"
    using assms(2,3,8-10) by (intro call start_key no_options)
  then have parse: "parse_arguments dbg c [name_arg, key_arg, hops_arg] = Ok (name, i, hops, None, Outgoing)"
    by (simp add: parse_arguments_iff)
  have e: "entry_of ?c1 name = Some \<lparr>ge_forward = a, ge_reverse = None, ge_dictionary = Some d2\<rparr>"
    by (simp add: register_with_dictionary_def entry_of_put [OF assms(1)])
  then have "catalog_get ?c1 name = Some a" "catalog_dictionary ?c1 name = Some d2"
    "Option.bind (entry_of ?c1 name) ge_reverse = None"
    by (simp_all add: catalog_get_def catalog_dictionary_def)
  moreover have "u32_of_u64 hops = Some (ucast hops)" using assms(7) by (simp add: u32_of_u64_def)
  moreover have "key_of d2 i \<noteq> Some x" using key_of_id [OF assms(5)] assms(6) by simp
  ultimately show ?thesis
    by (simp add: graph_traverse_between_def parse reverse_for_def traversal_table_new_def node_new_def)
qed

theorem replanned_key_mismatch_witness:
  "\<exists>t c'. graph_traverse_between (\<lambda>_. []) list_dash [Literal (ScUtf8 (Some ''g'')), Literal (ScUtf8 (Some ''a'')), Literal (ScInt64 (Some 1))]
      (register_with_dictionary ''g'' 0 (snd (intern_all [''b'', ''a''] dictionary_new))) id
      (register_with_dictionary ''g'' 0 (snd (intern_all [''a'', ''b''] dictionary_new))
         (catalog_new (\<lambda>_. example_graph) 1)) = (Ok t, c') \<and>
    ts_start (tt_spec t) = [NodeId 0] \<and> key_of (snd (intern_all [''b'', ''a''] dictionary_new)) 0 = Some ''b''"
proof -
  let ?d1 = "snd (intern_all [''a'', ''b''] dictionary_new)" and ?d2 = "snd (intern_all [''b'', ''a''] dictionary_new)"
  let ?c = "register_with_dictionary ''g'' 0 ?d1 (catalog_new (\<lambda>_. example_graph) 1) ::
      ((edge_key \<times> edge_data) list, edge_key list) catalog"
  have fits: "entry_fits (catalog_new (\<lambda>_. example_graph) 1 :: ((edge_key \<times> edge_data) list, edge_key list) catalog)
      \<lparr>ge_forward = 0, ge_reverse = None, ge_dictionary = Some ?d1\<rparr>"
    by (simp add: entry_fits_def catalog_new_def)
  have wf: "wf_catalog ?c"
    unfolding register_with_dictionary_def by (rule wf_put_entry [OF wf_catalog_new fits])
  have dict: "catalog_dictionary ?c ''g'' = Some ?d1"
    by (simp add: catalog_dictionary_def register_with_dictionary_def entry_of_put)
  have next_graph: "0 < gc_next_graph ?c"
    by (simp add: register_with_dictionary_def put_entry_def catalog_new_def)
  have ids: "id_of ?d1 ''a'' = Some 0" "id_of ?d2 ''a'' \<noteq> Some 0"
    "key_of ?d2 0 = Some ''b''"
    by (simp_all add: get_or_insert_def dictionary_new_def id_of_def key_of_def get_vec_def)
  have "wf_dictionary ?d2"
    using intern_all_spec [OF wf_dictionary_new _ prod.collapse [symmetric], of "[''b'', ''a'']"]
    by (simp add: dictionary_new_def)
  moreover have "unat (1 :: u64) \<le> u32_max" "denotes_text (Literal (ScUtf8 (Some ''g''))) ''g''"
    "denotes_text (Literal (ScUtf8 (Some ''a''))) ''a''" "denotes_int (Literal (ScInt64 (Some 1))) 1"
    by (simp_all add: u32_max_def)
  ultimately show ?thesis
    using replanned_key_mismatch [OF wf dict ids(1) next_graph _ ids(2)] ids(3) by blast
qed

end
