(* ===== verification/Provider.thy ===== *)
theory Provider
  imports Loader
begin

text \<open>
  The table provider (\<open>provider.rs\<close>): the merged edge list of an ontology as a table, and
  traversals over the graph of all its edges.  The graph is shared with readers (\<open>Arc\<close>) but
  replaced as a whole, so the provider holds it as a value.
\<close>

section \<open>State\<close>

record ('m, 's) provider =
  pv_ontology :: ontology
  pv_graph :: "('m, 's) csr_graph"
  pv_schema :: schema
  pv_edge_batches :: "record_batch list"
  pv_materialized :: bool

definition edge_list_schema :: schema where
  "edge_list_schema = [field_new ''source'' DtUInt64 False, field_new ''target'' DtUInt64 False,
     field_new ''label'' DtUtf8 False]"

definition provider_new :: "('m, 's) dash \<Rightarrow> ontology \<Rightarrow> ('m, 's) provider" where
  "provider_new D ont = \<lparr>pv_ontology = ont, pv_graph = graph_empty D, pv_schema = edge_list_schema,
     pv_edge_batches = [], pv_materialized = False\<rparr>"

definition provider_node_labels :: "('m, 's) provider \<Rightarrow> string list" where
  "provider_node_labels p = node_labels (pv_ontology p)"

definition provider_edge_labels :: "('m, 's) provider \<Rightarrow> string list" where
  "provider_edge_labels p = edge_labels (pv_ontology p)"

definition provider_statistics :: "layout \<Rightarrow> ('m, 's) dash \<Rightarrow> ('m, 's) provider \<Rightarrow> graph_statistics" where
  "provider_statistics L D p = statistics L D (pv_graph p)"

definition is_materialized :: "('m, 's) provider \<Rightarrow> bool" where
  "is_materialized p = pv_materialized p"

section \<open>Schemas by label\<close>

fun id_data_type :: "id_type \<Rightarrow> data_type" where
  "id_data_type IdU32 = DtUInt32"
| "id_data_type IdU64 = DtUInt64"
| "id_data_type IdString = DtUInt64"
| "id_data_type IdU128 = DtFixedSizeBinary 16"

definition provider_id_type :: "('m, 's) provider \<Rightarrow> data_type" where
  "provider_id_type p = id_data_type (os_default_node_id_type (on_settings (pv_ontology p)))"

definition property_fields :: "string list \<Rightarrow> schema" where
  "property_fields ps = map (\<lambda>prop. field_new prop DtUtf8 True) ps"

definition node_schema :: "('m, 's) provider \<Rightarrow> string \<Rightarrow> schema option" where
  "node_schema p l = map_option (\<lambda>n.
     [field_new ''node_id'' (provider_id_type p) False, field_new ''label'' DtUtf8 False] @
     property_fields (nd_properties n)) (ontology_node (pv_ontology p) l)"

definition edge_schema :: "('m, 's) provider \<Rightarrow> string \<Rightarrow> schema option" where
  "edge_schema p l = map_option (\<lambda>e.
     [field_new ''source_id'' (provider_id_type p) False, field_new ''target_id'' (provider_id_type p) False,
      field_new ''label'' DtUtf8 False] @
     (if ed_weight_column e \<noteq> None then [field_new ''weight'' DtFloat64 True] else []) @
     property_fields (ed_properties e)) (ontology_edge (pv_ontology p) l)"

section \<open>Materialization\<close>

definition pair_projection :: "edge_definition \<Rightarrow> sql_expr list" where
  "pair_projection edge =
     [SqlAlias (SqlCast (SqlCol (ed_from_column edge)) DtUInt64) ''source'',
      SqlAlias (SqlCast (SqlCol (ed_to_column edge)) DtUInt64) ''target'']"

definition id_values :: "record_batch \<Rightarrow> usize \<Rightarrow> string \<Rightarrow> u64 option list query_result" where
  "id_values b i kind =
     bind_res (index_vec (batch_columns b) i) (\<lambda>c.
       ok_or (as_uint64 c) (ExecutionFailed ''GraphTableProvider::materialize''
         (kind @ '' column did not cast to UInt64'')))"

definition pair_row ::
  "u64 option list \<Rightarrow> u64 option list \<Rightarrow> u64 list \<times> u64 list \<Rightarrow> usize \<Rightarrow>
   (u64 list \<times> u64 list) query_result" where
  "pair_row ss ts st i =
     bind_res (index_vec ss i) (\<lambda>s. case s of None \<Rightarrow> Ok st | Some x \<Rightarrow>
     bind_res (index_vec ts i) (\<lambda>t. case t of None \<Rightarrow> Ok st | Some y \<Rightarrow>
     Ok (fst st @ [x], snd st @ [y])))"

definition pair_batch ::
  "u64 list \<times> u64 list \<Rightarrow> record_batch \<Rightarrow> (u64 list \<times> u64 list) query_result" where
  "pair_batch st b =
     bind_res (id_values b 0 ''source'') (\<lambda>ss.
     bind_res (id_values b 1 ''target'') (\<lambda>ts.
     fold_res (pair_row ss ts) st [0..<batch_rows b]))"

text \<open>The sources and targets of one edge definition.\<close>

definition edge_pairs ::
  "('d, 'p, 'st) session \<Rightarrow> edge_definition \<Rightarrow> (u64 list \<times> u64 list) query_result" where
  "edge_pairs S edge =
     bind_res (map_err QeDataFusion (ss_table S (ed_source edge))) (\<lambda>df.
     bind_res (map_err QeDataFusion (ss_select S (pair_projection edge) df)) (\<lambda>df1.
     bind_res (map_err QeDataFusion (ss_collect S df1)) (\<lambda>batches.
     fold_res pair_batch ([], []) batches)))"

definition edge_columns :: "string \<Rightarrow> u64 list \<Rightarrow> u64 list \<Rightarrow> arrow_array list" where
  "edge_columns l sources targets =
     [UInt64Array (map Some sources), UInt64Array (map Some targets),
      StringArray (replicate (length sources) (Some l))]"

definition materialize_edge ::
  "arrow \<Rightarrow> ('d, 'p, 'st) session \<Rightarrow> (u64 \<times> u64) list \<times> record_batch list \<Rightarrow> edge_definition \<Rightarrow>
   ((u64 \<times> u64) list \<times> record_batch list) query_result" where
  "materialize_edge A S = (\<lambda>(all_edges, batches) edge.
     bind_res (edge_pairs S edge) (\<lambda>(sources, targets).
     bind_res (map_err QeArrow (aw_try_new A edge_list_schema (edge_columns (ed_label edge) sources targets)))
       (\<lambda>b. Ok (all_edges @ zip sources targets, batches @ [b]))))"

text \<open>The provider is changed at the very end.\<close>

definition materialize ::
  "arrow \<Rightarrow> ('m, 's) dash \<Rightarrow> ('d, 'p, 'st) session \<Rightarrow> ('m, 's) provider \<Rightarrow>
   unit query_result \<times> ('m, 's) provider" where
  "materialize A D S p =
     (case bind_res (map_err QeOntology (validate_or_error (pv_ontology p))) (\<lambda>_.
           bind_res (fold_res (materialize_edge A S) ([], []) (on_edges (pv_ontology p)))
             (\<lambda>(all_edges, batches).
           map_res (\<lambda>g. (g, batches)) (map_err QeGraph (build D (with_edges all_edges builder_new)))))
      of
        Ok (g, batches) \<Rightarrow>
          (Ok (), p\<lparr>pv_graph := g, pv_edge_batches := batches, pv_materialized := True\<rparr>)
      | Err e \<Rightarrow> (Err e, p)
      | Panic \<Rightarrow> (Panic, p))"

section \<open>Plans\<close>

definition create_traversal_plan ::
  "('m, 's) provider \<Rightarrow> traversal_spec \<Rightarrow> ('m, 's) traversal_exec query_result" where
  "create_traversal_plan p spec =
     (if \<not> pv_materialized p
      then Err (PlanGenerationFailed ''Graph must be materialized before traversal'')
      else Ok (traversal_exec_new (pv_graph p) spec))"

text \<open>The engine's scan of batches in memory, and its limit.\<close>

record 'p memory_engine =
  me_scan :: "record_batch list list \<Rightarrow> schema \<Rightarrow> usize list option \<Rightarrow> 'p df_result"
  me_limit :: "usize \<Rightarrow> usize option \<Rightarrow> 'p \<Rightarrow> 'p"

definition provider_scan ::
  "'p memory_engine \<Rightarrow> ('m, 's) provider \<Rightarrow> usize list option \<Rightarrow> usize option \<Rightarrow> 'p df_result" where
  "provider_scan E p projection limit =
     (if \<not> pv_materialized p
      then Err (DfPlan ''GraphTableProvider is not materialized; call materialize(ctx) first'')
      else
        bind_res (me_scan E [pv_edge_batches p] (pv_schema p) projection) (\<lambda>plan.
        Ok (case limit of None \<Rightarrow> plan | Some fetch \<Rightarrow> me_limit E 0 (Some fetch) plan)))"

section \<open>What is materialized\<close>

text \<open>The pairs that a list of batches holds; \<open>None\<close> when a column has another type.\<close>

definition batch_pairs :: "record_batch \<Rightarrow> (u64 \<times> u64) list option" where
  "batch_pairs b =
     (case (id_values b 0 ''source'', id_values b 1 ''target'') of
        (Ok ss, Ok ts) \<Rightarrow>
          if length ss = batch_rows b \<and> length ts = batch_rows b
          then Some (map fst (concat (map (row_edge ss ts None) [0..<batch_rows b]))) else None
      | _ \<Rightarrow> None)"

fun batches_pairs :: "record_batch list \<Rightarrow> (u64 \<times> u64) list option" where
  "batches_pairs [] = Some []"
| "batches_pairs (b # bs) =
     (case (batch_pairs b, batches_pairs bs) of
        (Some ps, Some qs) \<Rightarrow> Some (ps @ qs) | _ \<Rightarrow> None)"

definition push_pairs :: "u64 list \<times> u64 list \<Rightarrow> (u64 \<times> u64) list \<Rightarrow> u64 list \<times> u64 list" where
  "push_pairs st ps = (fst st @ map fst ps, snd st @ map snd ps)"

lemma pair_rows_Ok:
  assumes "\<And>i. i \<in> set js \<Longrightarrow> i < length ss \<and> i < length ts"
  shows "fold_res (pair_row ss ts) st js =
    Ok (push_pairs st (map fst (concat (map (row_edge ss ts None) js))))"
  using assms
proof (induction js arbitrary: st)
  case (Cons i js)
  have "pair_row ss ts st i = Ok (push_pairs st (map fst (row_edge ss ts None i)))"
    using Cons.prems by (auto simp: pair_row_def push_pairs_def row_edge_def split: option.splits)
  then show ?case using Cons by (simp add: push_pairs_def)
qed (simp add: push_pairs_def)

lemma pair_batch_Ok:
  assumes "batch_pairs b = Some ps"
  shows "pair_batch st b = Ok (push_pairs st ps)"
proof -
  obtain ss ts where c: "id_values b 0 ''source'' = Ok ss" "id_values b 1 ''target'' = Ok ts"
    "length ss = batch_rows b" "length ts = batch_rows b"
    "ps = map fst (concat (map (row_edge ss ts None) [0..<batch_rows b]))"
    using assms by (auto simp: batch_pairs_def split: res.splits if_splits)
  then have "fold_res (pair_row ss ts) st [0..<batch_rows b] = Ok (push_pairs st ps)"
    by (simp only: c(5), intro pair_rows_Ok) simp
  then show ?thesis using c(1,2) by (simp add: pair_batch_def)
qed

lemma pair_batches_Ok:
  assumes "batches_pairs bs = Some ps"
  shows "fold_res pair_batch st bs = Ok (push_pairs st ps)"
  using assms
proof (induction bs arbitrary: st ps)
  case (Cons b bs)
  then obtain xs ys where "batch_pairs b = Some xs" "batches_pairs bs = Some ys" "ps = xs @ ys"
    by (auto split: option.splits)
  with Cons.IH show ?case by (simp add: pair_batch_Ok push_pairs_def)
qed (simp add: push_pairs_def)

text \<open>What the query of an edge definition collects.\<close>

definition collects_pairs :: "('d, 'p, 'st) session \<Rightarrow> edge_definition \<Rightarrow> (u64 \<times> u64) list \<Rightarrow> bool" where
  "collects_pairs S edge ps \<longleftrightarrow>
     (\<exists>bs. bind_res (ss_table S (ed_source edge)) (\<lambda>df.
        bind_res (ss_select S (pair_projection edge) df) (ss_collect S)) = Ok bs \<and>
        batches_pairs bs = Some ps)"

lemma edge_pairs_Ok:
  assumes "collects_pairs S edge ps"
  shows "edge_pairs S edge = Ok (map fst ps, map snd ps)"
  using assms
  by (auto simp: collects_pairs_def edge_pairs_def bind_res_Ok_iff pair_batches_Ok push_pairs_def)

definition edge_batch :: "string \<Rightarrow> (u64 \<times> u64) list \<Rightarrow> record_batch" where
  "edge_batch l ps = \<lparr>batch_schema = edge_list_schema,
     batch_columns = edge_columns l (map fst ps) (map snd ps), batch_rows = length ps\<rparr>"

lemma edge_batch_Ok:
  assumes "arrow_laws A"
  shows "aw_try_new A edge_list_schema (edge_columns l (map fst ps) (map snd ps)) = Ok (edge_batch l ps)"
proof -
  have "batch_fits edge_list_schema (edge_columns l (map fst ps) (map snd ps))"
    by (auto simp: batch_fits_def edge_list_schema_def edge_columns_def field_new_def)
  from try_new_fits [OF assms this] show ?thesis by (simp add: edge_batch_def edge_columns_def)
qed

lemma materialize_edges_Ok:
  assumes "arrow_laws A" "\<And>e. e \<in> set es \<Longrightarrow> collects_pairs S e (pairs e)"
  shows "fold_res (materialize_edge A S) st es =
    Ok (fst st @ concat (map pairs es), snd st @ map (\<lambda>e. edge_batch (ed_label e) (pairs e)) es)"
  using assms(2)
proof (induction es arbitrary: st)
  case (Cons e es)
  have "materialize_edge A S st e =
      Ok (fst st @ pairs e, snd st @ [edge_batch (ed_label e) (pairs e)])"
    using Cons.prems [of e]
    by (cases st) (simp add: materialize_edge_def edge_pairs_Ok edge_batch_Ok [OF assms(1)] zip_map_fst_snd)
  then show ?case using Cons by simp
qed simp

section \<open>Properties\<close>

definition merged_pairs :: "(edge_definition \<Rightarrow> (u64 \<times> u64) list) \<Rightarrow> ontology \<Rightarrow> (u64 \<times> u64) list" where
  "merged_pairs pairs ont = concat (map pairs (on_edges ont))"

definition small_pairs :: "(u64 \<times> u64) list \<Rightarrow> bool" where
  "small_pairs ps \<longleftrightarrow> length ps \<le> u32_max \<and> (\<forall>(a, b) \<in> set ps. unat a < u32_max \<and> unat b < u32_max)"

definition pair_rows :: "(u64 \<times> u64) list \<Rightarrow> ((u64 \<times> u64) \<times> f32) list" where
  "pair_rows ps = map (\<lambda>p. (p, f32_one)) ps"

lemma pair_rows_props:
  "with_edges ps builder_new = rows_builder default_shard_bytes False (pair_rows ps)"
  "small_pairs ps \<Longrightarrow> small_ids (pair_rows ps)"
  "map (\<lambda>r. NodeId (snd (fst r))) (row_targets (pair_rows ps) v) =
     map (NodeId \<circ> snd) (filter (\<lambda>p. fst p = v) ps)"
  "fst ` set (pair_rows ps) = set ps" "length (pair_rows ps) = length ps"
  by (auto simp: rows_builder_def pair_rows_def with_shard_size_def builder_new_def comp_def
      csr_build_config_default_def default_shard_size_def small_pairs_def small_ids_def row_targets_def
      filter_map image_image)

lemma materialize_Ok:
  assumes "arrow_laws A" "dash_laws D" "validate_or_error (pv_ontology p) = Ok ()"
    and "\<And>e. e \<in> set (on_edges (pv_ontology p)) \<Longrightarrow> collects_pairs S e (pairs e)"
    and "small_pairs (merged_pairs pairs (pv_ontology p))"
  obtains g where "materialize A D S p = (Ok (), p\<lparr>pv_graph := g,
      pv_edge_batches := map (\<lambda>e. edge_batch (ed_label e) (pairs e)) (on_edges (pv_ontology p)),
      pv_materialized := True\<rparr>)"
    "wf_graph D g" "compactable D g" "edge_count g = length (merged_pairs pairs (pv_ontology p))"
    "\<And>v. neighbor_list D g (NodeId v) =
       map (NodeId \<circ> snd) (filter (\<lambda>q. fst q = v) (merged_pairs pairs (pv_ontology p)))"
    "graph_edges D g = (\<lambda>(a, b). (NodeId a, NodeId b)) ` set (merged_pairs pairs (pv_ontology p))"
    "\<And>a b. (a, b) \<in> set (merged_pairs pairs (pv_ontology p)) \<Longrightarrow>
       graph_contains g (NodeId a) \<and> graph_contains g (NodeId b)"
proof -
  let ?ps = "merged_pairs pairs (pv_ontology p)"
  have small: "small_ids (pair_rows ?ps)" "default_shard_bytes \<le> usize_max"
    using pair_rows_props(2) [OF assms(5)] by (simp_all add: usize_max_def)
  obtain g where g: "build D (rows_builder default_shard_bytes False (pair_rows ?ps)) = Ok g" "wf_graph D g"
    "delta g = delta_new D" "edge_count g = length (pair_rows ?ps)"
    "\<And>v. neighbor_list D g (NodeId v) = map (\<lambda>r. NodeId (snd (fst r))) (row_targets (pair_rows ?ps) v)"
    "\<And>r. r \<in> set (pair_rows ?ps) \<Longrightarrow> graph_contains g (NodeId (fst (fst r))) \<and> graph_contains g (NodeId (snd (fst r)))"
    by (rule rows_graph [OF small assms(2), of False]) (rule that, assumption+)
  have "fold_res (materialize_edge A S) ([], []) (on_edges (pv_ontology p)) =
      Ok (?ps, map (\<lambda>e. edge_batch (ed_label e) (pairs e)) (on_edges (pv_ontology p)))"
    using materialize_edges_Ok [OF assms(1,4), of "on_edges (pv_ontology p)" "([], [])"]
    by (simp add: merged_pairs_def)
  then have m: "materialize A D S p = (Ok (), p\<lparr>pv_graph := g,
      pv_edge_batches := map (\<lambda>e. edge_batch (ed_label e) (pairs e)) (on_edges (pv_ontology p)),
      pv_materialized := True\<rparr>)"
    using g(1) assms(3) by (simp add: materialize_def pair_rows_props(1))
  have edge: "(NodeId a, NodeId b) \<in> graph_edges D g \<longleftrightarrow> (a, b) \<in> set ?ps" for a b
    using in_row_targets [of b "pair_rows ?ps" a, folded g(5)] set_neighbor_list [OF assms(2), of g "NodeId a"]
    by (simp add: pair_rows_props(4))
  have "q \<in> graph_edges D g \<longleftrightarrow> q \<in> (\<lambda>(a, b). (NodeId a, NodeId b)) ` set ?ps" for q
    using edge by (cases "fst q"; cases "snd q"; cases q) force
  then have edges: "graph_edges D g = (\<lambda>(a, b). (NodeId a, NodeId b)) ` set ?ps" by blast
  have "graph_contains g (NodeId a) \<and> graph_contains g (NodeId b)" if "(a, b) \<in> set ?ps" for a b
    using g(6) [of "((a, b), f32_one)"] that by (simp add: pair_rows_def)
  moreover have "compactable D g" using built_compactable [OF small assms(2) g(1)] .
  ultimately show thesis
    using that [OF m g(2)] g(4,5) edges by (simp add: pair_rows_props(3,5))
qed

text \<open>
  C29: materializing is all or nothing: it succeeds with a provider of the same ontology and
  table schema that is materialized, or it fails, or panics, and the provider is what it was.
\<close>

theorem materialize_atomic:
  "case materialize A D S p of
     (Ok _, p') \<Rightarrow> is_materialized p' \<and> pv_ontology p' = pv_ontology p \<and> pv_schema p' = pv_schema p \<and>
       length (pv_edge_batches p') = length (on_edges (pv_ontology p))
   | (_, p') \<Rightarrow> p' = p"
proof -
  have len: "length batches = length (snd st) + length es"
    if "fold_res (materialize_edge A S) st es = Ok (all_edges, batches)" for st es all_edges batches
    using that
  proof (induction es arbitrary: st)
    case (Cons e es)
    then obtain st' where "materialize_edge A S st e = Ok st'" "length (snd st') = Suc (length (snd st))"
      by (cases st) (auto simp: materialize_edge_def bind_res_Ok_iff)
    with Cons show ?case by auto
  qed simp
  show ?thesis
    by (auto simp: materialize_def is_materialized_def bind_res_Ok_iff map_res_Ok_iff dest!: len
        split: res.splits prod.splits)
qed

text \<open>
  C27: what materializing serves: for a valid ontology the scan serves one batch per edge
  definition, with the sources and targets of its rows without null ends, in order, and its
  label on every row; the graph holds exactly the edges of all batches together.
\<close>

theorem materialized_edge_list:
  assumes "arrow_laws A" "dash_laws D" "validate_or_error (pv_ontology p) = Ok ()"
    and "\<And>e. e \<in> set (on_edges (pv_ontology p)) \<Longrightarrow> collects_pairs S e (pairs e)"
    and "small_pairs (merged_pairs pairs (pv_ontology p))"
  shows "\<exists>p'. materialize A D S p = (Ok (), p') \<and> wf_graph D (pv_graph p') \<and>
    provider_scan E p' projection None =
      me_scan E [map (\<lambda>e. \<lparr>batch_schema = edge_list_schema,
        batch_columns = [UInt64Array (map (Some \<circ> fst) (pairs e)), UInt64Array (map (Some \<circ> snd) (pairs e)),
          StringArray (replicate (length (pairs e)) (Some (ed_label e)))],
        batch_rows = length (pairs e)\<rparr>) (on_edges (pv_ontology p))] (pv_schema p) projection \<and>
    edge_count (pv_graph p') = sum_list (map (length \<circ> pairs) (on_edges (pv_ontology p))) \<and>
    neighbors D (pv_graph p') (NodeId v) =
      Ok (map (NodeId \<circ> snd) (filter (\<lambda>q. fst q = v) (concat (map pairs (on_edges (pv_ontology p))))))"
proof -
  obtain g where g: "materialize A D S p = (Ok (), p\<lparr>pv_graph := g,
      pv_edge_batches := map (\<lambda>e. edge_batch (ed_label e) (pairs e)) (on_edges (pv_ontology p)),
      pv_materialized := True\<rparr>)"
    "wf_graph D g" "edge_count g = length (merged_pairs pairs (pv_ontology p))"
    "\<And>v. neighbor_list D g (NodeId v) =
       map (NodeId \<circ> snd) (filter (\<lambda>q. fst q = v) (merged_pairs pairs (pv_ontology p)))"
    by (rule materialize_Ok [OF assms]) (assumption, rule that, assumption+)
  have "neighbors D g (NodeId v) =
      Ok (map (NodeId \<circ> snd) (filter (\<lambda>q. fst q = v) (merged_pairs pairs (pv_ontology p))))"
    using neighbors_Ok [OF wf_graphD(1) [OF g(2)]] g(4) by simp
  then show ?thesis
    using g(1-3)
    by (simp add: provider_scan_def edge_batch_def [abs_def] edge_columns_def merged_pairs_def
        length_concat comp_def)
qed

definition pair_batch_example :: record_batch where
  "pair_batch_example = example_batch [Some 0, None, Some 1] [Some 1, Some 7, Some 2]"

abbreviation pair_session :: "(unit, unit, unit) session" where
  "pair_session \<equiv> example_session [pair_batch_example] [] []"

lemma pair_session_collects: "collects_pairs pair_session e [(0, 1), (1, 2)]"
  by (simp add: collects_pairs_def example_session_def batch_pairs_def pair_batch_example_def
      example_batch_def id_values_def row_edge_def upt_rec)

definition example_provider :: "((edge_key \<times> edge_data) list, edge_key list) provider" where
  "example_provider = provider_new list_dash (example_ontology ''B'' None)"

lemma example_provider_props:
  "validate_or_error (pv_ontology example_provider) = Ok ()"
  "small_pairs (merged_pairs (\<lambda>_. [(0, 1), (1, 2)]) (pv_ontology example_provider))"
  "map (NodeId \<circ> snd) (filter (\<lambda>q. fst q = (1 :: u64)) (concat (map (\<lambda>_. [(0, 1), (1, 2)])
     (on_edges (pv_ontology example_provider))))) = [NodeId 2]"
  using example_ontology_valid
  by (simp_all add: example_provider_def provider_new_def small_pairs_def merged_pairs_def
      example_ontology_def u32_max_def)

theorem materialized_edge_list_witness:
  "\<exists>p'. materialize list_arrow list_dash pair_session example_provider = (Ok (), p') \<and>
     neighbors list_dash (pv_graph p') (NodeId 1) = Ok [NodeId 2]"
proof -
  have "\<exists>p'. materialize list_arrow list_dash pair_session example_provider = (Ok (), p') \<and>
      neighbors list_dash (pv_graph p') (NodeId 1) = Ok (map (NodeId \<circ> snd) (filter (\<lambda>q. fst q = (1 :: u64))
        (concat (map (\<lambda>_. [(0, 1), (1, 2)]) (on_edges (pv_ontology example_provider))))))"
    using materialized_edge_list [where v = 1 and S = pair_session and p = example_provider
        and pairs = "\<lambda>_. [(0, 1), (1, 2)]" and projection = None
        and E = "\<lparr>me_scan = \<lambda>_ _ _. Ok (), me_limit = \<lambda>_ _ q. q\<rparr>",
        OF list_arrow_laws list_dash_laws example_provider_props(1) pair_session_collects
          example_provider_props(2)]
    by blast
  then show ?thesis unfolding example_provider_props(3) .
qed

text \<open>
  C28: a materialized provider answers traversals over all edges together: the plan of an
  outgoing traversal without a cap returns the nodes within the depth limit of a start that
  the graph contains, each once, in order of depth and at their shortest distance along the
  rows of all edge definitions; before materializing, no plan is made.
\<close>

theorem provider_traversal_rows:
  assumes "arrow_laws A" "dash_laws D" "validate_or_error (pv_ontology p) = Ok ()"
    and "\<And>e. e \<in> set (on_edges (pv_ontology p)) \<Longrightarrow> collects_pairs S e (pairs e)"
    and "small_pairs (merged_pairs pairs (pv_ontology p))"
    and "ts_algorithm spec = AlgorithmBfs" "ts_direction spec = Outgoing" "ts_max_nodes spec = None"
    and "R = (\<lambda>(a, b). (NodeId a, NodeId b)) ` set (merged_pairs pairs (pv_ontology p))"
  shows "\<exists>p' ex ids ds. materialize A D S p = (Ok (), p') \<and> create_traversal_plan p' spec = Ok ex \<and>
    traversal_execute A P D ex 0 = Ok (rows_batch ids ds) \<and> distinct ids \<and> sorted (map unat ds) \<and>
    (\<forall>v k. (v, k) \<in> set (zip ids ds) \<longleftrightarrow> k \<le> ts_max_depth spec \<and>
       (\<exists>s \<in> set (ts_start spec). graph_contains (pv_graph p') s \<and> (s, NodeId v) \<in> R ^^ unat k) \<and>
       (\<forall>m < unat k. \<forall>s \<in> set (ts_start spec).
          graph_contains (pv_graph p') s \<longrightarrow> (s, NodeId v) \<notin> R ^^ m)) \<and>
    (\<not> is_materialized p \<longrightarrow> create_traversal_plan p spec =
       Err (PlanGenerationFailed ''Graph must be materialized before traversal''))"
proof -
  obtain g where g: "materialize A D S p = (Ok (), p\<lparr>pv_graph := g,
      pv_edge_batches := map (\<lambda>e. edge_batch (ed_label e) (pairs e)) (on_edges (pv_ontology p)),
      pv_materialized := True\<rparr>)"
    "wf_graph D g" "compactable D g" "edge_count g = length (merged_pairs pairs (pv_ontology p))"
    "\<And>v. neighbor_list D g (NodeId v) =
       map (NodeId \<circ> snd) (filter (\<lambda>q. fst q = v) (merged_pairs pairs (pv_ontology p)))"
    "graph_edges D g = (\<lambda>(a, b). (NodeId a, NodeId b)) ` set (merged_pairs pairs (pv_ontology p))"
    by (rule materialize_Ok [OF assms(1-5)]) (assumption, rule that, assumption+)
  let ?p' = "p\<lparr>pv_graph := g,
      pv_edge_batches := map (\<lambda>e. edge_batch (ed_label e) (pairs e)) (on_edges (pv_ontology p)),
      pv_materialized := True\<rparr>"
  let ?ex = "\<lparr>te_graph = g, te_reverse = None, te_spec = spec\<rparr>"
  have plan: "create_traversal_plan ?p' spec = Ok ?ex"
    by (simp add: create_traversal_plan_def traversal_exec_new_def)
  obtain ids ds where rows: "traversal_execute A P D ?ex 0 = Ok (rows_batch ids ds)" "distinct ids"
    "sorted (map unat ds)" "\<And>v k. (v, k) \<in> set (zip ids ds) \<longleftrightarrow> k \<le> ts_max_depth spec \<and>
       reach_distance D g {s \<in> set (ts_start spec). graph_contains g s} (unat k) (NodeId v)"
    using outgoing_rows [where rev_graph = None and P = P,
        OF assms(1) compactable_searchable [OF g(2,3)] assms(6-8)] by blast
  have "\<not> is_materialized p \<longrightarrow> create_traversal_plan p spec =
       Err (PlanGenerationFailed ''Graph must be materialized before traversal'')"
    by (simp add: create_traversal_plan_def is_materialized_def)
  moreover have "(v, k) \<in> set (zip ids ds) \<longleftrightarrow> k \<le> ts_max_depth spec \<and>
       (\<exists>s \<in> set (ts_start spec). graph_contains g s \<and> (s, NodeId v) \<in> R ^^ unat k) \<and>
       (\<forall>m < unat k. \<forall>s \<in> set (ts_start spec). graph_contains g s \<longrightarrow> (s, NodeId v) \<notin> R ^^ m)" for v k
    using rows(4) [of v k] by (auto simp: reach_distance_def g(6) assms(9))
  ultimately show ?thesis
    using g(1) plan rows(1-3)
    by (intro exI [of _ ?p'] exI [of _ ?ex] exI [of _ ids] exI [of _ ds]) simp
qed

theorem provider_traversal_rows_witness:
  "\<exists>p' ex ids ds. materialize list_arrow list_dash pair_session example_provider = (Ok (), p') \<and>
     create_traversal_plan p' (example_spec Outgoing) = Ok ex \<and>
     traversal_execute list_arrow example_platform list_dash ex 0 = Ok (rows_batch ids ds) \<and> distinct ids"
proof -
  have "ts_algorithm (example_spec Outgoing) = AlgorithmBfs"
    "ts_direction (example_spec Outgoing) = Outgoing" "ts_max_nodes (example_spec Outgoing) = None"
    by (simp_all add: example_spec_def)
  from provider_traversal_rows [where P = example_platform,
      OF list_arrow_laws list_dash_laws example_provider_props(1)
      pair_session_collects example_provider_props(2) this refl]
  show ?thesis by blast
qed

end
