(* ===== verification/Iceberg.thy ===== *)
theory Iceberg
  imports Registration
begin

text \<open>
  Iceberg tables as tables of a session (\<open>iceberg_ext.rs\<close>): registering one at its current
  snapshot or pinned to a snapshot, and what pinning is for: graphs projected from a pinned
  table can be reproduced.
\<close>

section \<open>The operations\<close>

text \<open>
  What the code calls: the two constructors of the table provider, whose errors are known by
  their text, and the registration of a provider in a session context, which returns a
  provider it replaces.  A snapshot is named by a signed 64-bit number.
\<close>

record ('cx, 't, 'tp) iceberg =
  ib_try_new_from_table :: "'t \<Rightarrow> (string, 'tp) res"
  ib_try_new_from_table_snapshot :: "'t \<Rightarrow> 64 word \<Rightarrow> (string, 'tp) res"
  ib_register_table :: "string \<Rightarrow> 'tp \<Rightarrow> 'cx \<Rightarrow> 'tp option df_result \<times> 'cx"

definition external :: "string \<Rightarrow> df_error" where
  "external e = DfExternalIceberg e"

definition register_iceberg_table ::
  "('cx, 't, 'tp) iceberg \<Rightarrow> string \<Rightarrow> 't \<Rightarrow> 'cx \<Rightarrow> unit df_result \<times> 'cx" where
  "register_iceberg_table I name table cx =
     (case map_err external (ib_try_new_from_table I table) of
        Err e \<Rightarrow> (Err e, cx)
      | Panic \<Rightarrow> (Panic, cx)
      | Ok provider \<Rightarrow>
          (let (r, cx') = ib_register_table I name provider cx in (map_res (\<lambda>_. ()) r, cx')))"

definition register_iceberg_table_snapshot ::
  "('cx, 't, 'tp) iceberg \<Rightarrow> string \<Rightarrow> 't \<Rightarrow> 64 word \<Rightarrow> 'cx \<Rightarrow> unit df_result \<times> 'cx" where
  "register_iceberg_table_snapshot I name table snapshot_id cx =
     (case map_err external (ib_try_new_from_table_snapshot I table snapshot_id) of
        Err e \<Rightarrow> (Err e, cx)
      | Panic \<Rightarrow> (Panic, cx)
      | Ok provider \<Rightarrow>
          (let (r, cx') = ib_register_table I name provider cx in (map_res (\<lambda>_. ()) r, cx')))"

section \<open>What registering does\<close>

text \<open>
  A context has a map of tables; registering under a free name adds to it, and under a name in
  use fails and leaves the context as it is.
\<close>

definition registers_tables ::
  "('cx, 't, 'tp) iceberg \<Rightarrow> ('cx \<Rightarrow> string \<Rightarrow> 'tp option) \<Rightarrow> bool" where
  "registers_tables I tables \<longleftrightarrow> (\<forall>name p cx.
     if tables cx name = None
     then \<exists>cx'. ib_register_table I name p cx = (Ok None, cx') \<and> tables cx' = (tables cx)(name \<mapsto> p)
     else \<exists>e. ib_register_table I name p cx = (Err e, cx))"

lemma register_provider:
  assumes "registers_tables I tables"
  shows "if tables cx name = None
    then \<exists>cx'. (case ib_register_table I name p cx of (r, x) \<Rightarrow> (map_res (\<lambda>_. ()) r, x)) = (Ok (), cx') \<and>
      tables cx' = (tables cx)(name \<mapsto> p)
    else \<exists>e. (case ib_register_table I name p cx of (r, x) \<Rightarrow> (map_res (\<lambda>_. ()) r, x)) = (Err e, cx)"
proof (cases "tables cx name = None")
  case True
  with assms obtain cx' where "ib_register_table I name p cx = (Ok None, cx')"
    "tables cx' = (tables cx)(name \<mapsto> p)"
    unfolding registers_tables_def by metis
  with True show ?thesis by simp
next
  case False
  with assms obtain e where "ib_register_table I name p cx = (Err e, cx)"
    unfolding registers_tables_def by metis
  with False show ?thesis by simp
qed

text \<open>
  Registering succeeds exactly when the provider can be made and the name is free; then the
  provider is the table of that name and no other table changes.  On an error the context is
  as before, and an error of the constructor is passed on as an external one.
\<close>

lemma register_iceberg_table_snapshot_spec:
  assumes "registers_tables I tables"
  shows "case ib_try_new_from_table_snapshot I t i of
      Err e \<Rightarrow> register_iceberg_table_snapshot I name t i cx = (Err (DfExternalIceberg e), cx)
    | Panic \<Rightarrow> register_iceberg_table_snapshot I name t i cx = (Panic, cx)
    | Ok p \<Rightarrow>
        if tables cx name = None
        then \<exists>cx'. register_iceberg_table_snapshot I name t i cx = (Ok (), cx') \<and>
          tables cx' = (tables cx)(name \<mapsto> p)
        else \<exists>e. register_iceberg_table_snapshot I name t i cx = (Err e, cx)"
  using register_provider [OF assms, of cx name]
  by (cases "ib_try_new_from_table_snapshot I t i")
    (simp_all add: register_iceberg_table_snapshot_def external_def)

lemma register_iceberg_table_spec:
  assumes "registers_tables I tables"
  shows "case ib_try_new_from_table I t of
      Err e \<Rightarrow> register_iceberg_table I name t cx = (Err (DfExternalIceberg e), cx)
    | Panic \<Rightarrow> register_iceberg_table I name t cx = (Panic, cx)
    | Ok p \<Rightarrow>
        if tables cx name = None
        then \<exists>cx'. register_iceberg_table I name t cx = (Ok (), cx') \<and>
          tables cx' = (tables cx)(name \<mapsto> p)
        else \<exists>e. register_iceberg_table I name t cx = (Err e, cx)"
  using register_provider [OF assms, of cx name]
  by (cases "ib_try_new_from_table I t") (simp_all add: register_iceberg_table_def external_def)

section \<open>Pinned tables\<close>

text \<open>
  What the session answers to an edge's query is a matter of the rows of its table: for the
  given edge, the frame the loader asks for has the rows \<open>keyed\<close> or \<open>numbered\<close>.
\<close>

definition answers_by_rows ::
  "arrow \<Rightarrow> ('d, 'p, 'st) session \<Rightarrow> ontology \<Rightarrow> string option \<Rightarrow> edge_definition \<Rightarrow>
   key_row list \<Rightarrow> ((u64 \<times> u64) \<times> f32) list \<Rightarrow> bool" where
  "answers_by_rows A S ont as_of edge keyed numbered \<longleftrightarrow>
     (if needs_dictionary ont edge
      then \<exists>df bs. edge_query S (dictionary_projection edge) edge as_of = Ok df \<and>
        ss_collect S df = Ok bs \<and> batches_keys edge bs = Some keyed
      else drives_streams S \<and>
        (\<exists>df s evs. edge_query S (numeric_projection ont edge) edge as_of = Ok df \<and>
           scans S df s evs \<and>
           input_edges A (edge_build_config (ss_cpus S) edge) s evs = Some numbered))"

lemma build_with_dictionary_rows:
  assumes "edge_query S (dictionary_projection edge) edge as_of = Ok df"
    and "ss_collect S df = Ok bs" "batches_keys edge bs = Some rows"
  shows "build_edge_graph_with_dictionary D S edge as_of =
    (let st = fold (push_key_row (weighted_edge edge)) rows interned_new
     in map_res (\<lambda>g. (g, ie_dictionary st)) (map_err DfExternal (build D (interned_builder edge st))))"
  by (simp add: build_edge_graph_with_dictionary_def edge_query_bind assms(1,2)
      intern_batches_Ok [OF assms(3)] Let_def)

text \<open>Two sessions with the same rows give the same graph and dictionary.\<close>

lemma same_rows_same_graph:
  fixes S S' :: "('d, 'p, ('m, 's) stream_state) session"
  assumes "arrow_laws A" "dash_laws D" "small_ids numbered"
    and "answers_by_rows A S ont as_of edge keyed numbered"
    and "answers_by_rows A S' ont as_of edge keyed numbered"
  shows "project_edge A D S ont as_of edge = project_edge A D S' ont as_of edge"
proof (cases "needs_dictionary ont edge")
  case True
  then obtain df bs df' bs' where
    "edge_query S (dictionary_projection edge) edge as_of = Ok df" "ss_collect S df = Ok bs"
    "batches_keys edge bs = Some keyed"
    "edge_query S' (dictionary_projection edge) edge as_of = Ok df'" "ss_collect S' df' = Ok bs'"
    "batches_keys edge bs' = Some keyed"
    using assms(4,5) unfolding answers_by_rows_def by auto
  then have "build_edge_graph_with_dictionary D S edge as_of =
      build_edge_graph_with_dictionary D S' edge as_of"
    by (simp add: build_with_dictionary_rows)
  then show ?thesis using True by (simp add: project_edge_def)
next
  case False
  have "default_shard_bytes \<le> usize_max" by (simp add: usize_max_def)
  then obtain g where g: "build D (rows_builder default_shard_bytes (weighted_edge edge) numbered) = Ok g"
    by (rule rows_graph [OF assms(3) _ assms(2)])
  have "build_edge_graph A D T ont edge as_of = Ok g"
    if "answers_by_rows A T ont as_of edge keyed numbered"
    for T :: "('d, 'p, ('m, 's) stream_state) session"
    using that False build_edge_graph_Ok [OF assms(1,2) _ _ _ _ assms(3) g]
    unfolding answers_by_rows_def by auto
  then show ?thesis using False assms(4,5) by (simp add: project_edge_def)
qed

text \<open>Registration sees the session through the projected edges only.\<close>

lemma same_projections_same_catalog:
  assumes "\<And>e. e \<in> set (on_edges ont) \<Longrightarrow> project_edge A D S ont as_of e = project_edge A D S' ont as_of e"
  shows "register_ontology_graphs_as_of A D S ont as_of c = register_ontology_graphs_as_of A D S' ont as_of c"
proof -
  have "register_edges A D S ont as_of es c = register_edges A D S' ont as_of es c"
    if "set es \<subseteq> set (on_edges ont)" for es c
    using that assms by (induction es arbitrary: c) (auto split: res.splits)
  from this [OF subset_refl] show ?thesis
    by (simp add: register_ontology_graphs_as_of_def split: res.splits)
qed

text \<open>
  Pinned tables make graph builds reproducible: when snapshots do not change, registering an
  ontology in two contexts in which every edge's source table was pinned to the same snapshot
  gives the same names, graphs and dictionaries, whatever was appended to the tables in
  between.  The snapshot that a source is pinned to is \<open>pin\<close>, and what it holds \<open>content\<close>.
\<close>

inductive pinned_context ::
  "('cx, 't, 'tp) iceberg \<Rightarrow> (string \<Rightarrow> 't \<Rightarrow> bool) \<Rightarrow> (string \<Rightarrow> 64 word) \<Rightarrow> 'cx \<Rightarrow> string set \<Rightarrow> 'cx \<Rightarrow> bool"
  for I history pin cx where
  pinned_none: "pinned_context I history pin cx {} cx"
| pinned_snapshot: "pinned_context I history pin cx names cx1 \<Longrightarrow> history name t \<Longrightarrow>
    register_iceberg_table_snapshot I name t (pin name) cx1 = (Ok (), cx2) \<Longrightarrow>
    pinned_context I history pin cx (insert name names) cx2"
| pinned_current: "pinned_context I history pin cx names cx1 \<Longrightarrow>
    register_iceberg_table I name t cx1 = (r, cx2) \<Longrightarrow> pinned_context I history pin cx names cx2"

lemma pinned_context_tables:
  assumes "pinned_context I history pin cx names cx'" "registers_tables I tables" "name \<in> names"
  shows "\<exists>t p. history name t \<and> ib_try_new_from_table_snapshot I t (pin name) = Ok p \<and>
    tables cx' name = Some p"
  using assms(1,3)
proof (induction rule: pinned_context.induct)
  case (pinned_snapshot names cx1 n t cx2)
  obtain p where p: "ib_try_new_from_table_snapshot I t (pin n) = Ok p" "tables cx1 n = None"
      "tables cx2 = (tables cx1)(n \<mapsto> p)"
    using register_iceberg_table_snapshot_spec [OF assms(2), where t = t and i = "pin n" and name = n and cx = cx1]
      pinned_snapshot.hyps(3)
    by (auto split: res.splits if_splits)
  show ?case
  proof (cases "name = n")
    case True
    then show ?thesis using p pinned_snapshot.hyps(2) by auto
  next
    case False
    then show ?thesis using p(3) pinned_snapshot by auto
  qed
next
  case (pinned_current names cx1 n t r cx2)
  have "tables cx2 name = tables cx1 name" if "tables cx1 name \<noteq> None"
    using register_iceberg_table_spec [OF assms(2), where t = t and name = n and cx = cx1]
      pinned_current.hyps(2) that
    by (cases "n = name") (auto split: res.splits if_splits)
  with pinned_current show ?case by auto
qed simp

lemma pinned_graphs_reproducible:
  fixes sess :: "'cx \<Rightarrow> ('d, 'p, ('m, 's) stream_state) session"
    and I :: "('cx, 't, 'tp) iceberg"
  assumes "arrow_laws A" "dash_laws D" "registers_tables I tables"
    and immutable: "\<And>name t p. history name t \<Longrightarrow> ib_try_new_from_table_snapshot I t (pin name) = Ok p \<Longrightarrow>
      reads p = content name"
    and answers: "\<And>cx e p. e \<in> set (on_edges ont) \<Longrightarrow> tables cx (ed_source e) = Some p \<Longrightarrow>
      reads p = content (ed_source e) \<Longrightarrow> answers_by_rows A (sess cx) ont as_of e (keyed e) (numbered e)"
    and small: "\<And>e. e \<in> set (on_edges ont) \<Longrightarrow> small_ids (numbered e)"
    and pinned: "pinned_context I history pin cx1 names1 cx1'" "pinned_context I history pin cx2 names2 cx2'"
      "ed_source ` set (on_edges ont) \<subseteq> names1" "ed_source ` set (on_edges ont) \<subseteq> names2"
  shows "register_ontology_graphs_as_of A D (sess cx1') ont as_of c =
    register_ontology_graphs_as_of A D (sess cx2') ont as_of c"
proof (rule same_projections_same_catalog)
  fix e assume e: "e \<in> set (on_edges ont)"
  have rows: "answers_by_rows A (sess cx') ont as_of e (keyed e) (numbered e)"
    if "pinned_context I history pin cx names cx'" "ed_source ` set (on_edges ont) \<subseteq> names" for cx names cx'
  proof -
    have "ed_source e \<in> names" using that(2) e by blast
    from pinned_context_tables [OF that(1) assms(3) this] obtain t p where
      p: "history (ed_source e) t" "ib_try_new_from_table_snapshot I t (pin (ed_source e)) = Ok p"
        "tables cx' (ed_source e) = Some p"
      by blast
    show ?thesis using answers [OF e p(3)] immutable [OF p(1,2)] .
  qed
  show "project_edge A D (sess cx1') ont as_of e = project_edge A D (sess cx2') ont as_of e"
    using same_rows_same_graph [OF assms(1,2) small [OF e] rows [OF pinned(1,3)] rows [OF pinned(2,4)]] .
qed

section \<open>An instance\<close>

text \<open>
  A table is the list of its snapshots, each a list of batches, the last one current; a
  provider is the batches it reads, and a context a map of providers.
\<close>

definition list_iceberg ::
  "(string \<rightharpoonup> record_batch list, record_batch list list, record_batch list) iceberg" where
  "list_iceberg =
     \<lparr>ib_try_new_from_table = (\<lambda>t. if t = [] then Err ''no snapshot'' else Ok (last t)),
      ib_try_new_from_table_snapshot = (\<lambda>t i. if unat i < length t then Ok (t ! unat i) else Err ''no snapshot''),
      ib_register_table = (\<lambda>name p cx. if cx name = None then (Ok None, cx(name \<mapsto> p))
        else (Err (DfExecution ''table exists''), cx))\<rparr>"

definition lake_session ::
  "(string \<rightharpoonup> record_batch list) \<Rightarrow> (record_batch list, unit, 'st) session" where
  "lake_session cx =
     \<lparr>ss_table = (\<lambda>n. ok_or (cx n) (DfPlan ''no table'')), ss_filter = (\<lambda>_. Ok), ss_select = (\<lambda>_. Ok),
      ss_plan = (\<lambda>_. Ok ()),
      ss_coalesce = (\<lambda>_. \<lparr>ip_partitions = 1, ip_schema = [], ip_execute = Ok []\<rparr>),
      ss_collect = Ok, ss_drive = drive_all, ss_elapsed_millis = 0, ss_cpus = 1\<rparr>"

lemma list_iceberg_registers: "registers_tables list_iceberg (\<lambda>cx. cx)"
  by (simp add: registers_tables_def list_iceberg_def)

text \<open>
  The table of the example is pinned to its first snapshot, once when it is the only one and
  once after another was appended, in a context that also has the current table.
\<close>

lemma pinned_example:
  fixes c :: "((edge_key \<times> edge_data) list, edge_key list) catalog"
  shows "\<exists>cx1 cx2.
    register_iceberg_table_snapshot list_iceberg ''t'' [[key_batch]] 0 Map.empty = (Ok (), cx1) \<and>
    register_iceberg_table_snapshot list_iceberg ''t'' [[key_batch], [key_batch, key_batch]] 0
      (Map.empty(''u'' \<mapsto> [key_batch, key_batch])) = (Ok (), cx2) \<and>
    register_ontology_graphs_as_of list_arrow list_dash (lake_session cx1) string_ontology None c =
      register_ontology_graphs_as_of list_arrow list_dash (lake_session cx2) string_ontology None c"
proof -
  let ?I = list_iceberg and ?t1 = "[[key_batch]]" and ?t2 = "[[key_batch], [key_batch, key_batch]]"
  let ?history = "\<lambda>(_ :: string) t. t = ?t1 \<or> t = ?t2" and ?pin = "\<lambda>_ :: string. 0 :: 64 word"
  let ?u = "Map.empty(''u'' \<mapsto> [key_batch, key_batch])"
  have u: "register_iceberg_table ?I ''u'' ?t2 Map.empty = (Ok (), ?u)"
    and r1: "register_iceberg_table_snapshot ?I ''t'' ?t1 0 Map.empty = (Ok (), [''t'' \<mapsto> [key_batch]])"
    and r2: "register_iceberg_table_snapshot ?I ''t'' ?t2 0 ?u = (Ok (), ?u(''t'' \<mapsto> [key_batch]))"
    by (simp_all add: register_iceberg_table_def register_iceberg_table_snapshot_def list_iceberg_def)
  have e: "on_edges string_ontology = [example_edge ''B'' None]" "ed_source (example_edge ''B'' None) = ''t''"
    by (simp_all add: string_ontology_props example_edge_def)
  have c1: "pinned_context ?I ?history ?pin Map.empty {''t''} [''t'' \<mapsto> [key_batch]]"
    using pinned_snapshot [where history = ?history and pin = ?pin, OF pinned_none _ r1] by simp
  have c2: "pinned_context ?I ?history ?pin Map.empty {''t''} (?u(''t'' \<mapsto> [key_batch]))"
    using pinned_snapshot [where history = ?history and pin = ?pin, OF pinned_current [OF pinned_none u] _ r2]
    by simp
  have answers: "answers_by_rows list_arrow (lake_session cx) string_ontology None f key_batch_rows []"
    if "f \<in> set (on_edges string_ontology)" "cx (ed_source f) = Some p" "p = [key_batch]"
    for cx p f
    using that key_batch_props(1) [of "example_edge ''B'' None"]
    by (simp add: answers_by_rows_def string_ontology_props edge_query_def lake_session_def
        apply_temporal_filter_def example_edge_def)
  have "register_ontology_graphs_as_of list_arrow list_dash (lake_session [''t'' \<mapsto> [key_batch]])
        string_ontology None c =
      register_ontology_graphs_as_of list_arrow list_dash (lake_session (?u(''t'' \<mapsto> [key_batch])))
        string_ontology None c"
    by (rule pinned_graphs_reproducible [where sess = lake_session and tables = "\<lambda>cx. cx"
          and reads = "\<lambda>p. p" and content = "\<lambda>_. [key_batch]" and keyed = "\<lambda>_. key_batch_rows"
          and numbered = "\<lambda>_. []", OF list_arrow_laws list_dash_laws list_iceberg_registers _ answers _ c1 c2])
      (auto simp: list_iceberg_def small_ids_def e split: if_splits)
  with r1 r2 show ?thesis by blast
qed

end
