(* ===== verification/Core_Tests.thy ===== *)
theory Core_Tests
  imports Compaction Bitset Dobfs Circuit_Breaker Generators
begin

text \<open>
  The unit tests of \<open>fusiongraph-core\<close>, run on the model: each test is the function its code
  is, with an assertion that fails and an \<open>unwrap\<close> of an error as panics, and passes when it
  returns.  The concurrent maps are those of \<open>list_dash\<close>.
\<close>

section \<open>Tests and how they are run\<close>

text \<open>The assertions of a test, in order; each can itself panic.\<close>

fun asserts :: "bool result list \<Rightarrow> unit result" where
  "asserts [] = Ok ()"
| "asserts (r # rs) = bind_res r (\<lambda>b. if b then asserts rs else Panic)"

definition assert_eq :: "'a result \<Rightarrow> 'a \<Rightarrow> bool result" where
  "assert_eq r x = map_res (\<lambda>y. y = x) r"

fun unwrap_err :: "'a result \<Rightarrow> graph_error result" where
  "unwrap_err (Err e) = Ok e"
| "unwrap_err _ = Panic"

text \<open>
  To run a test the simplifier unfolds the operations from the outside in: a continuation and
  a branch are left alone until the value they wait for is there.
\<close>

named_theorems run \<open>the operations, unfolded to run a test\<close>

lemma bind_res_weak: "m = m' \<Longrightarrow> bind_res m f = bind_res m' f" by simp

lemma map_res_weak: "m = m' \<Longrightarrow> map_res f m = map_res f m'" by simp

lemma res_case_weak: "m = m' \<Longrightarrow> case_res f g h m = case_res f g h m'" by simp

lemma prod_case_weak: "m = m' \<Longrightarrow> case_prod f m = case_prod f m'" by simp

lemma let_weak: "m = m' \<Longrightarrow> Let m f = Let m' f" by simp

lemma fold_res_weak: "s = s' \<Longrightarrow> xs = xs' \<Longrightarrow> fold_res f s xs = fold_res f s' xs'" by simp

declare Let_def [run]

lemmas lazily = fold_res_weak bind_res_weak map_res_weak res_case_weak prod_case_weak let_weak
  option.case_cong_weak list.case_cong_weak circuit_state.case_cong_weak

lemma replicate_run [run]: "replicate n x = (if n = 0 then [] else x # replicate (n - 1) x)"
  by (cases n) simp_all

lemma update_run [run]: "(x # xs)[n := y] = (if n = 0 then y # xs else x # xs[n - 1 := y])"
  by (cases n) simp_all

lemma word_one_run [run]:
  "numeral n \<le> (1 :: 'w::len word) \<longleftrightarrow> unat (numeral n :: 'w word) \<le> 1"
  "numeral n < (1 :: 'w::len word) \<longleftrightarrow> unat (numeral n :: 'w word) < 1"
  "(1 :: 'w::len word) \<le> numeral n \<longleftrightarrow> 1 \<le> unat (numeral n :: 'w word)"
  "(1 :: 'w::len word) < numeral n \<longleftrightarrow> 1 < unat (numeral n :: 'w word)"
  by (simp_all add: word_le_nat_alt word_less_nat_alt)

lemma show_digits_run [run]:
  "show_digits base fuel n =
     (if fuel = 0 then [] else if n < base then [''0123456789abcdef'' ! n]
      else show_digits base (fuel - 1) (n div base) @ [''0123456789abcdef'' ! (n mod base)])"
  by (cases fuel) simp_all

lemma list_dash_run [run]:
  "dm_new list_dash = []" "dm_insert list_dash = AList.update" "dm_remove list_dash = AList.delete"
  "dm_contains_key list_dash m k = (map_of m k \<noteq> None)" "dm_iter list_dash = AList.clearjunk"
  "dm_len list_dash m = length (AList.clearjunk m)" "dm_is_empty list_dash m = (m = [])"
  "dm_clear list_dash m = []" "ds_new list_dash = []" "ds_insert list_dash k s = s @ [k]"
  "ds_remove list_dash = removeAll" "ds_contains list_dash s k = (k \<in> set s)" "ds_iter list_dash = remdups"
  "ds_len list_dash s = length (remdups s)" "ds_is_empty list_dash s = (s = [])" "ds_clear list_dash s = []"
  by (simp_all add: list_dash_def)

text \<open>So in this theory; its end restores the simplifier's defaults.\<close>

declare lazily [cong] if_split [split del]

section \<open>Identifiers and errors\<close>

definition test_node_id_roundtrip :: "unit result" where [run]:
  "test_node_id_roundtrip = (let i = node_new 42 in
     asserts [Ok (as_u64 i = 42), Ok (node_of_u64 42 = i)])"

definition test_node_id_display :: "unit result" where [run]:
  "test_node_id_display = asserts [Ok (node_display (node_new 123) = ''Node(123)'')]"

definition test_error_codes_match_format :: "unit result" where [run]:
  "test_error_codes_match_format = asserts (concat (map (\<lambda>e. let code = error_code e in
       [Ok (take 3 code = ''FG-''), Ok (10 \<le> length code)])
     [OutOfMemory 100 50, NodeNotFound (node_new 1), ShardCorruption 0 123 456]))"

definition test_fatal_errors_identified :: "unit result" where [run]:
  "test_fatal_errors_identified =
     (let fatal = ShardCorruption 0 0 1; non_fatal = NodeNotFound (node_new 1)
      in asserts [Ok (error_is_fatal fatal), Ok (error_severity fatal = Fatal),
           Ok (\<not> error_is_fatal non_fatal)])"

definition test_retryable_errors_identified :: "unit result" where [run]:
  "test_retryable_errors_identified =
     asserts [Ok (error_is_retryable (OutOfMemory 100 50)),
       Ok (\<not> error_is_retryable (InvalidEdge (node_new 0) (node_new 1)))]"

definition test_subsystems_correct :: "unit result" where [run]:
  "test_subsystems_correct =
     asserts [Ok (error_subsystem (OutOfMemory 0 0) = ''CSR''),
       Ok (error_subsystem (DeltaOverflow 0 0) = ''DLT''),
       Ok (error_subsystem (NodeNotFound (node_new 0)) = ''TRV'')]"

lemma types_and_errors_tests:
  "test_node_id_roundtrip = Ok ()" "test_node_id_display = Ok ()"
  "test_error_codes_match_format = Ok ()" "test_fatal_errors_identified = Ok ()"
  "test_retryable_errors_identified = Ok ()" "test_subsystems_correct = Ok ()"
  by (simp_all add: node_new_def node_of_u64_def node_display_def show_nat_def error_is_fatal_def run)

section \<open>Shards\<close>

definition make_test_shard :: "csr_shard result" where [run]:
  "make_test_shard = shard_new 0 (0, 3) [0, 2, 3, 3] [1, 2, 2] None"

definition test_shard_basics :: "unit result" where [run]:
  "test_shard_basics = bind_res make_test_shard (\<lambda>sh.
     asserts [Ok (shard_id sh = 0), Ok (shard_node_count sh = 3), Ok (shard_edge_count sh = 3)])"

definition test_shard_contains :: "unit result" where [run]:
  "test_shard_contains = bind_res make_test_shard (\<lambda>sh.
     asserts [Ok (shard_contains sh 0), Ok (shard_contains sh 2), Ok (\<not> shard_contains sh 3)])"

definition test_shard_out_degree :: "unit result" where [run]:
  "test_shard_out_degree = bind_res make_test_shard (\<lambda>sh.
     asserts [assert_eq (shard_out_degree sh 0) 2, assert_eq (shard_out_degree sh 1) 1,
       assert_eq (shard_out_degree sh 2) 0])"

definition test_shard_neighbor_range :: "unit result" where [run]:
  "test_shard_neighbor_range = bind_res make_test_shard (\<lambda>sh.
     asserts [assert_eq (shard_neighbor_range sh 0) (0, 2), assert_eq (shard_neighbor_range sh 1) (2, 3),
       assert_eq (shard_neighbor_range sh 2) (3, 3)])"

definition test_shard_checksum_consistent :: "(hash_write list \<Rightarrow> u64) \<Rightarrow> unit result" where [run]:
  "test_shard_checksum_consistent hasher = bind_res make_test_shard (\<lambda>sh.
     let c1 = shard_checksum hasher sh; c2 = shard_checksum hasher sh in asserts [Ok (c1 = c2)])"

lemmas shards_run [run] = shard_new_def shard_node_count_def shard_edge_count_def shard_contains_def
  shard_out_degree_def shard_neighbor_range_def shard_neighbor_slice_def shard_col_index_def
  shard_has_weights_def shard_weight_def index_vec_def get_vec_def slice_vec_def sub_usize_def
  assert_eq_def

lemma shard_tests:
  "test_shard_basics = Ok ()" "test_shard_contains = Ok ()" "test_shard_out_degree = Ok ()"
  "test_shard_neighbor_range = Ok ()" "test_shard_checksum_consistent hasher = Ok ()"
  by (simp_all add: run)

section \<open>The delta layer\<close>

type_synonym list_delta = "((edge_key \<times> edge_data) list, edge_key list) delta_layer"

abbreviation new_delta :: list_delta where
  "new_delta \<equiv> delta_new list_dash"

abbreviation put_edge :: "u64 \<Rightarrow> u64 \<Rightarrow> list_delta \<Rightarrow> list_delta" where
  "put_edge f t d \<equiv> delta_insert list_dash (NodeId f) (NodeId t) edge_data_default d"

abbreviation drop_edge :: "u64 \<Rightarrow> u64 \<Rightarrow> list_delta \<Rightarrow> list_delta" where
  "drop_edge f t d \<equiv> delta_delete list_dash (NodeId f) (NodeId t) d"

definition test_insert_and_query :: "unit result" where [run]:
  "test_insert_and_query = (let d = put_edge 0 1 new_delta in
     asserts [Ok (delta_has_insertion list_dash d (NodeId 0) (NodeId 1)),
       Ok (\<not> delta_has_insertion list_dash d (NodeId 1) (NodeId 0)),
       Ok (delta_insertion_count list_dash d = 1)])"

definition test_delete_creates_tombstone :: "unit result" where [run]:
  "test_delete_creates_tombstone = (let d = drop_edge 0 1 new_delta in
     asserts [Ok (delta_is_deleted list_dash d (NodeId 0) (NodeId 1)),
       Ok (\<not> delta_is_deleted list_dash d (NodeId 1) (NodeId 0)),
       Ok (delta_deletion_count list_dash d = 1)])"

definition test_insert_removes_tombstone :: "unit result" where [run]:
  "test_insert_removes_tombstone = (let d = drop_edge 0 1 new_delta; d' = put_edge 0 1 d in
     asserts [Ok (delta_is_deleted list_dash d (NodeId 0) (NodeId 1)),
       Ok (\<not> delta_is_deleted list_dash d' (NodeId 0) (NodeId 1)),
       Ok (delta_has_insertion list_dash d' (NodeId 0) (NodeId 1))])"

definition test_delete_removes_insertion :: "unit result" where [run]:
  "test_delete_removes_insertion = (let d = put_edge 0 1 new_delta; d' = drop_edge 0 1 d in
     asserts [Ok (delta_has_insertion list_dash d (NodeId 0) (NodeId 1)),
       Ok (\<not> delta_has_insertion list_dash d' (NodeId 0) (NodeId 1)),
       Ok (delta_is_deleted list_dash d' (NodeId 0) (NodeId 1))])"

definition test_delta_neighbors_iteration :: "unit result" where [run]:
  "test_delta_neighbors_iteration =
     (let d = put_edge 1 2 (put_edge 0 2 (put_edge 0 1 new_delta));
          ns = delta_neighbors list_dash d (NodeId 0)
      in asserts [Ok (length ns = 2), Ok (NodeId 1 \<in> set ns), Ok (NodeId 2 \<in> set ns)])"

lemmas delta_run [run] = delta_new_def delta_insert_def delta_delete_def delta_is_deleted_def
  delta_has_insertion_def delta_neighbors_def delta_len_def delta_is_empty_def delta_insertion_count_def
  delta_deletion_count_def delta_snapshot_insertions_def delta_snapshot_deletions_def
  delta_drain_insertions_def delta_drain_deletions_def edge_data_default_def map_filter_simps

lemma delta_tests:
  "test_insert_and_query = Ok ()" "test_delete_creates_tombstone = Ok ()"
  "test_insert_removes_tombstone = Ok ()" "test_delete_removes_insertion = Ok ()"
  "test_delta_neighbors_iteration = Ok ()"
  by (simp_all add: run)

section \<open>The bit set\<close>

definition test_new_bitset_is_empty :: "unit result" where [run]:
  "test_new_bitset_is_empty = (let b = bitset_new 100 in
     asserts [Ok (bitset_capacity b = 100), Ok (bitset_count_ones b = 0)])"

definition test_and_set_works :: "unit result" where [run]:
  "test_and_set_works =
     bind_res (bitset_test_and_set (bitset_new 100) 42) (\<lambda>(first, b1).
     bind_res (bitset_test_and_set b1 42) (\<lambda>(second, b2).
     asserts [Ok first, Ok (\<not> second), bitset_test b2 42]))"

definition test_set_and_test :: "unit result" where [run]:
  "test_set_and_test =
     bind_res (fold_res bitset_set (bitset_new 1000) [0, 63, 64, 999]) (\<lambda>b.
     asserts [bitset_test b 0, bitset_test b 63, bitset_test b 64, bitset_test b 999,
       map_res Not (bitset_test b 1), map_res Not (bitset_test b 500)])"

definition test_clear_resets_all :: "unit result" where [run]:
  "test_clear_resets_all =
     bind_res (fold_res bitset_set (bitset_new 200) [0..<200]) (\<lambda>b.
     asserts [Ok (bitset_count_ones b = 200), Ok (bitset_count_ones (bitset_clear b) = 0)])"

definition test_out_of_bounds_returns_false :: "unit result" where [run]:
  "test_out_of_bounds_returns_false = (let b = bitset_new 10 in
     asserts [map_res Not (bitset_test b 100),
       map_res (\<lambda>(new, _). \<not> new) (bitset_test_and_set b 100)])"

lemma popcount_run [run]: "popcount n w = (if n = 0 then 0 else of_bool (bit w (n - 1)) + popcount (n - 1) w)"
  by (cases n) simp_all

lemmas bitset_run [run] = bitset_new_def bitset_capacity_def bitset_test_def bitset_test_and_set_def
  bitset_set_def bitset_clear_def bitset_count_ones_def div_ceil_def shl1_def set_vec_def

lemma bitset_tests:
  "test_new_bitset_is_empty = Ok ()" "test_and_set_works = Ok ()" "test_set_and_test = Ok ()"
  "test_out_of_bounds_returns_false = Ok ()"
  by (simp_all add: run)+

section \<open>The circuit breaker\<close>

text \<open>The clock of the test machine, and a breaker with the defaults but for one threshold.\<close>

definition with_failure_threshold :: "u64 \<Rightarrow> circuit_breaker" where
  "with_failure_threshold n = circuit_new (circuit_breaker_config_default\<lparr>failure_threshold := n\<rparr>)"

text \<open>Failures one after the other, each reading the clock.\<close>

definition fail_times :: "clock list \<Rightarrow> circuit_breaker \<Rightarrow> circuit_breaker result" where
  "fail_times cs b = fold_res (\<lambda>b c. let (r, b') = record_failure c b in map_res (\<lambda>_. b') r) b cs"

definition test_starts_closed :: "clock \<Rightarrow> unit result" where [run]:
  "test_starts_closed c = (let b = circuit_with_defaults in
     asserts [Ok (breaker_state b = CircuitClosed), Ok (is_Ok (fst (circuit_check c b)))])"

definition test_opens_after_failures :: "clock \<Rightarrow> clock \<Rightarrow> clock \<Rightarrow> clock \<Rightarrow> unit result" where [run]:
  "test_opens_after_failures c1 c2 c3 c4 =
     bind_res (fail_times [c1, c2] (with_failure_threshold 3)) (\<lambda>b.
     bind_res (fail_times [c3] b) (\<lambda>b'.
     asserts [Ok (breaker_state b = CircuitClosed), Ok (breaker_state b' = CircuitIsOpen),
       Ok (\<not> is_Ok (fst (circuit_check c4 b')))]))"

definition test_success_resets_failure_count :: "clock \<Rightarrow> clock \<Rightarrow> unit result" where [run]:
  "test_success_resets_failure_count c1 c2 =
     bind_res (fail_times [c1, c2] (with_failure_threshold 3)) (\<lambda>b.
     let (r, b') = record_success b in bind_res r (\<lambda>_.
     asserts [Ok (circuit_failure_count b = 2), Ok (circuit_failure_count b' = 0)]))"

definition test_reset_closes_circuit :: "clock \<Rightarrow> clock \<Rightarrow> unit result" where [run]:
  "test_reset_closes_circuit c1 c2 =
     bind_res (fail_times [c1] (with_failure_threshold 1)) (\<lambda>b.
     let b' = circuit_reset b in
     asserts [Ok (breaker_state b = CircuitIsOpen), Ok (breaker_state b' = CircuitClosed),
       Ok (is_Ok (fst (circuit_check c2 b')))])"

definition test_half_open_closes_on_success :: "clock \<Rightarrow> clock \<Rightarrow> unit result" where [run]:
  "test_half_open_closes_on_success c1 c2 =
     (let b = circuit_new \<lparr>failure_threshold = 1, reset_timeout = duration_zero, success_threshold = 2\<rparr>
      in bind_res (fail_times [c1] b) (\<lambda>b1.
         let (r2, b2) = circuit_check c2 b1; (r3, b3) = record_success b2; (r4, b4) = record_success b3
         in bind_res r3 (\<lambda>_. bind_res r4 (\<lambda>_.
            asserts [Ok (breaker_state b1 = CircuitIsOpen), Ok (is_Ok r2), Ok (breaker_state b2 = CircuitHalfOpen),
              Ok (breaker_state b3 = CircuitHalfOpen), Ok (breaker_state b4 = CircuitClosed)]))))"

definition test_half_open_opens_on_failure :: "clock \<Rightarrow> unit result" where [run]:
  "test_half_open_opens_on_failure c =
     (let b = circuit_with_defaults\<lparr>cb_state := circuit_state_raw CircuitHalfOpen\<rparr>
      in bind_res (fail_times [c] b) (\<lambda>b'. asserts [Ok (breaker_state b' = CircuitIsOpen)]))"

definition test_open_failures_do_not_extend_reset_timeout :: "clock \<Rightarrow> clock \<Rightarrow> unit result" where [run]:
  "test_open_failures_do_not_extend_reset_timeout c1 c2 =
     bind_res (fail_times [c1] (with_failure_threshold 1)) (\<lambda>b.
     bind_res (fail_times [c2] b) (\<lambda>b'.
     asserts [Ok (circuit_failure_count b' = circuit_failure_count b),
       Ok (cb_last_failure_time b' = cb_last_failure_time b)]))"

definition test_circuit_open_error_is_retryable :: "unit result" where [run]:
  "test_circuit_open_error_is_retryable =
     asserts [Ok (error_is_retryable CircuitOpen), Ok (error_code CircuitOpen = ''FG-SYS-E001'')]"

lemmas breaker_run [run] = circuit_new_def circuit_breaker_config_default_def circuit_with_defaults_def
  with_failure_threshold_def fail_times_def breaker_state_def circuit_state_of_def circuit_check_def
  record_failure_def record_success_def circuit_reset_def circuit_failure_count_def compare_exchange_def
  timeout_elapsed_def reset_timeout_millis_def as_millis_def duration_zero_def add_word_def

text \<open>
  The tests pass whatever the clock shows, except that the one that expects an open circuit
  to refuse must run within the thirty seconds of the default timeout.
\<close>

lemma breaker_tests:
  "test_starts_closed c1 = Ok ()" "test_success_resets_failure_count c1 c2 = Ok ()"
  "test_reset_closes_circuit c1 c2 = Ok ()" "test_half_open_closes_on_success c1 c2 = Ok ()"
  "test_half_open_opens_on_failure c1 = Ok ()"
  "test_open_failures_do_not_extend_reset_timeout c1 c2 = Ok ()"
  "test_circuit_open_error_is_retryable = Ok ()"
  by (simp_all add: run)+

lemma opens_after_failures_test:
  assumes "saturating_sub (now_millis c4) (now_millis c3) < 30000"
  shows "test_opens_after_failures c1 c2 c3 c4 = Ok ()"
proof -
  have early: "(30000 \<le> saturating_sub (now_millis c4) (now_millis c3)) = False"
    using assms by (simp add: not_le)
  show ?thesis
    by (simp add: run early)+
qed

declare lazily [cong del] if_split [split]

text \<open>The test that marks two hundred indices follows from the laws of the bit set.\<close>

lemma clear_resets_all_test: "test_clear_resets_all = Ok ()"
proof -
  obtain s where "fold_res bitset_set (bitset_new 200) [0..<200] = Ok s" "bitset_count_ones s = 200"
    using bitset_set_all [of "[0..<200]" 200] by auto
  then show ?thesis by (simp add: test_clear_resets_all_def del: upt_Suc)
qed

section \<open>Concurrent insertions\<close>

text \<open>
  Four threads insert a thousand edges each.  Their steps run in an order that keeps the order of
  each thread, and nothing else is known of it.
\<close>

fun interleavings :: "'a list list \<Rightarrow> 'a list set" where
  "interleavings [] = {[]}"
| "interleavings (t # ts) = (\<Union>ms \<in> interleavings ts. shuffles t ms)"

definition inserting_thread :: "nat \<Rightarrow> delta_micro list" where
  "inserting_thread t = concat (map (\<lambda>i.
     op_micros (Insert (NodeId (of_nat (t * 1000 + i))) (NodeId (of_nat i)) edge_data_default)) [0..<1000])"

definition test_concurrent_access :: "('m, 's) dash \<Rightarrow> delta_micro list \<Rightarrow> unit result" where
  "test_concurrent_access D steps =
     asserts [Ok (delta_insertion_count D (fold (micro_step D) steps (delta_new D)) = 4000)]"

lemma set_interleavings: "ms \<in> interleavings ts \<Longrightarrow> set ms = (\<Union>t \<in> set ts. set t)"
  by (induction ts arbitrary: ms) (auto simp: set_shuffles)

lemma keys_inserted:
  assumes "dash_laws D" "\<forall>m \<in> set ms. \<forall>k. m \<noteq> RemoveInsertion k"
  shows "dom (inserted D (fold (micro_step D) ms d)) =
    dom (inserted D d) \<union> {k. \<exists>x. AddInsertion k x \<in> set ms}"
  using assms(2)
proof (induction ms arbitrary: d)
  case (Cons m ms)
  then show ?case
    by (cases m) (auto simp: inserted_micro [OF assms(1)] simp del: micro_step.simps)
qed simp

lemma inserted_by_thread:
  "{k. \<exists>x. AddInsertion k x \<in> set (inserting_thread t)} =
    (\<lambda>i. (\<lambda>(t, i). (NodeId (of_nat (t * 1000 + i)), NodeId (of_nat i))) (t, i)) ` {..<1000}"
  by (force simp: inserting_thread_def)

lemma test_concurrent_access:
  assumes "dash_laws D" "steps \<in> interleavings (map inserting_thread [0..<4])"
  shows "test_concurrent_access D steps = Ok ()"
proof -
  let ?key = "\<lambda>n. (NodeId (of_nat n), NodeId (of_nat (n mod 1000))) :: edge_key"
  let ?pair = "\<lambda>(t, i). (NodeId (of_nat (t * 1000 + i)), NodeId (of_nat i)) :: edge_key"
  let ?d = "fold (micro_step D) steps (delta_new D)"
  have all: "set steps = (\<Union>t \<in> {..<4}. set (inserting_thread t))"
    using set_interleavings [OF assms(2)] by (simp add: atLeast_upt)
  have "dom (inserted D ?d) = {k. \<exists>x. AddInsertion k x \<in> set steps}"
    using keys_inserted [OF assms(1), of steps "delta_new D"] assms(1) all
    by (auto simp: inserting_thread_def)
  also have "\<dots> = (\<Union>t \<in> {..<4}. (\<lambda>i. ?pair (t, i)) ` {..<1000})"
    unfolding all inserted_by_thread [symmetric] by blast
  also have "\<dots> = ?pair ` ({..<4} \<times> {..<1000})" by force
  also have "\<dots> = ?key ` {..<4000}"
  proof -
    have "n \<in> (\<lambda>(t, i). t * 1000 + i) ` ({..<4} \<times> {..<1000})" if "n < 4000" for n :: nat
      using that by (intro image_eqI [of _ _ "(n div 1000, n mod 1000)"]) auto
    then have "{..<4000} = (\<lambda>(t, i). t * 1000 + i) ` ({..<4} \<times> {..<1000 :: nat})" by auto
    then have "?key ` {..<4000} = (\<lambda>p. ?key ((\<lambda>(t, i). t * 1000 + i) p)) ` ({..<4} \<times> {..<1000})"
      by (simp only: image_image)
    also have "\<dots> = ?pair ` ({..<4} \<times> {..<1000})" by (rule image_cong) auto
    finally show ?thesis by simp
  qed
  finally have "dom (inserted D ?d) = ?key ` {..<4000}" .
  moreover have "inj_on ?key {..<4000}"
    by (rule inj_onI) (auto simp: unat_of_nat word_unat_eq_iff)
  ultimately have "card (dom (inserted D ?d)) = 4000" by (simp add: card_image)
  then have "length (dm_iter D (insertions ?d)) = 4000"
    using distinct_card [OF dash_lawsD(1) [OF assms(1)], of "insertions ?d"]
    by (simp add: inserted_def dom_map_of_conv_image_fst)
  then show ?thesis
    using assms(1) by (simp add: test_concurrent_access_def delta_insertion_count_def dash_lawsD)
qed

end
