(* ===== verification/Graph_Tests.thy ===== *)
theory Graph_Tests
  imports Core_Tests
begin

text \<open>
  The unit tests of \<open>csr.rs\<close>, \<open>csr/builder.rs\<close>, \<open>traversal/bfs.rs\<close> and \<open>traversal/dobfs.rs\<close>.
  A search runs on an arbitrary platform.
\<close>

section \<open>Running graphs\<close>

type_synonym list_graph = "((edge_key \<times> edge_data) list, edge_key list) csr_graph"

abbreviation graph_of :: "(u64 \<times> u64) list \<Rightarrow> list_graph result" where
  "graph_of es \<equiv> from_edges list_dash es"

abbreviation on_delta ::
  "(list_delta \<Rightarrow> list_delta) \<Rightarrow> list_graph \<Rightarrow> list_graph" where
  "on_delta f g \<equiv> g\<lparr>delta := f (delta g)\<rparr>"

abbreviation edge_in :: "list_graph \<Rightarrow> u64 \<Rightarrow> u64 \<Rightarrow> bool result" where
  "edge_in g f t \<equiv> has_edge list_dash g (NodeId f) (NodeId t)"

lemmas builder_run [run] = from_edges_def build_def with_edges_def with_weighted_edges_def with_shard_size_def
  builder_new_def csr_build_config_default_def default_shard_size_def sort_edges_def max_node_id_def
  u32_max_def usize_max_def build_csr_arrays_def count_degrees_def cumulate_degrees_def
  edge_src_index_def checked_add_def place_edge_def u32_of_u64_def partition_into_shards_def
  shrink_shard.simps target_nodes_per_shard_def calculate_shard_memory_def
  extract_shard_def saturating_mul_def saturating_add_def sub_word_def add_usize_def enumerate_eq_zip
  upt_rec graph_empty_def node_new_def

lemma selected_filter_run [run]:
  "be_filter_unvisited_into (select_backend P) ns visited out = scalar_filter_into ns visited out"
  by (simp add: selected.filter_law scalar_filter_into_eq)

lemmas search_run [run] = bfs_def bfs_bounded_def bfs_multi_def bfs_bounded_with_backend_def
  bfs_expand_def bfs_record_def visited_new_def visited_test_and_set_def bfs_result_empty_def
  scalar_filter_into_def word_test_def result_node_count_def result_contains_def find_position_def depth_of_def

text \<open>The delta sizes the policies of the tests are asked about.\<close>

lemma delta_half [run]:
  "f64_ge (f64_of_usize (Suc 0)) (f64_mul (f64_of_usize (Suc (Suc (Suc (Suc 0))))) 0x3FE0000000000000) = False"
  "f64_ge (f64_of_usize (Suc (Suc 0))) (f64_mul (f64_of_usize (Suc (Suc (Suc (Suc 0))))) 0x3FE0000000000000) = True"
proof -
  have nums: "Suc 0 = 1" "Suc (Suc 0) = 2" "Suc (Suc (Suc (Suc 0))) = 4" by simp_all
  show "f64_ge (f64_of_usize (Suc 0)) (f64_mul (f64_of_usize (Suc (Suc (Suc (Suc 0))))) 0x3FE0000000000000) = False"
    "f64_ge (f64_of_usize (Suc (Suc 0))) (f64_mul (f64_of_usize (Suc (Suc (Suc (Suc 0))))) 0x3FE0000000000000) = True"
    unfolding nums by (simp_all add: float_compute)
qed

lemmas compaction_run [run] = compact_def transpose_def scan_row_def scan_base_def scan_insertions_def
  emit_edge_def emit_reversed_def should_compact_def u64_of_usize_def

lemmas graph_run [run] = graph_contains_def node_index_def graph_shard_count_def partition_point_def
  global_to_shard_def shard_for_def shard_to_global_def base_neighbor_slice_def base_iter_new_def
  base_iter_empty_def base_next_def base_neighbors_def base_find.simps neighbor_next_def
  neighbors_iter_def neighbor_collect.simps neighbors_def out_degree_def has_edge_def
  node_of_u32_def base_contains_def

text \<open>
  Recursion that could unfold without end waits for its arguments: these equations join in a
  second round.
\<close>

lemmas loops = partition_loop.simps bfs_loop.simps dobfs_loop.simps scan_word.simps

declare lazily [cong] if_split [split del]

section \<open>Graphs\<close>

definition test_empty_graph :: "unit result" where [run]:
  "test_empty_graph = (let g = graph_empty list_dash in
     asserts [Ok (node_count g = 0), Ok (edge_count g = 0), Ok (\<not> graph_contains g (NodeId 0))])"

definition test_from_edges :: "unit result" where [run]:
  "test_from_edges = bind_res (graph_of [(0, 1), (0, 2), (1, 2)]) (\<lambda>g.
     asserts [Ok (3 \<le> node_count g), Ok (edge_count g = 3), Ok (graph_contains g (NodeId 0)),
       edge_in g 0 1, edge_in g 0 2, map_res Not (edge_in g 2 0)])"

definition test_neighbors_iteration :: "unit result" where [run]:
  "test_neighbors_iteration = bind_res (graph_of [(0, 1), (0, 2), (0, 3)]) (\<lambda>g.
     asserts [assert_eq (map_res length (neighbors list_dash g (NodeId 0))) 3])"

definition test_shard_indexing_roundtrip :: "unit result" where [run]:
  "test_shard_indexing_roundtrip = bind_res (graph_of [(0, 1), (1, 2), (2, 3)]) (\<lambda>g.
     case global_to_shard g (NodeId 1) of
       Some (shard_idx, offset) \<Rightarrow> asserts [Ok (shard_to_global g shard_idx offset = Some (NodeId 1))]
     | None \<Rightarrow> Ok ())"

definition test_neighbors_deduplicate_delta_edges_against_base :: "unit result" where [run]:
  "test_neighbors_deduplicate_delta_edges_against_base = bind_res (graph_of [(0, 1), (0, 2)]) (\<lambda>g.
     let g' = on_delta (put_edge 0 3 \<circ> put_edge 0 2) g in
     asserts [assert_eq (neighbors list_dash g' (NodeId 0)) [NodeId 1, NodeId 2, NodeId 3]])"

definition test_out_degree_ignores_tombstones_for_non_base_edges :: "unit result" where [run]:
  "test_out_degree_ignores_tombstones_for_non_base_edges = bind_res (graph_of [(0, 1), (0, 2)]) (\<lambda>g.
     asserts [assert_eq (out_degree list_dash (on_delta (drop_edge 0 99) g) (NodeId 0)) 2])"

definition test_out_degree_does_not_double_count_delta_duplicates :: "unit result" where [run]:
  "test_out_degree_does_not_double_count_delta_duplicates = bind_res (graph_of [(0, 1)]) (\<lambda>g.
     asserts [assert_eq (out_degree list_dash (on_delta (put_edge 0 1) g) (NodeId 0)) 1])"

text \<open>Base \<open>0 \<rightarrow> 1 \<rightarrow> 2 \<rightarrow> 3\<close>; the delta inserts \<open>3 \<rightarrow> 4\<close> and deletes \<open>1 \<rightarrow> 2\<close>.\<close>

definition dirty_graph :: "list_graph result" where [run]:
  "dirty_graph = map_res (on_delta (drop_edge 1 2 \<circ> put_edge 3 4)) (graph_of [(0, 1), (1, 2), (2, 3)])"

definition test_compact_materializes_delta_and_empties_it :: "unit result" where [run]:
  "test_compact_materializes_delta_and_empties_it = bind_res dirty_graph (\<lambda>g.
     bind_res (expect_ok (fst (compact list_dash g))) (\<lambda>compacted.
     asserts [Ok (delta_is_empty list_dash (delta compacted)), edge_in compacted 3 4,
       map_res Not (edge_in compacted 1 2), Ok (edge_count compacted = 3)]))"

definition test_compact_preserves_traversal_semantics :: "platform \<Rightarrow> unit result" where [run]:
  "test_compact_preserves_traversal_semantics P = bind_res dirty_graph (\<lambda>g.
     bind_res (bfs P list_dash g (NodeId 0) 10) (\<lambda>before.
     bind_res (expect_ok (fst (compact list_dash g))) (\<lambda>compacted.
     bind_res (bfs P list_dash compacted (NodeId 0) 10) (\<lambda>after.
     asserts [Ok (r_visited before = r_visited after), Ok (r_depths before = r_depths after)]))))"

definition test_compact_skips_delta_duplicates_of_base_edges :: "unit result" where [run]:
  "test_compact_skips_delta_duplicates_of_base_edges = bind_res (graph_of [(0, 1)]) (\<lambda>g.
     bind_res (expect_ok (fst (compact list_dash (on_delta (put_edge 0 1) g)))) (\<lambda>compacted.
     asserts [Ok (edge_count compacted = 1)]))"

text \<open>The weights are \<open>2.5\<close> and \<open>0.5\<close> in single and \<open>9.0\<close> in double precision.\<close>

definition test_compact_preserves_weights :: "unit result" where [run]:
  "test_compact_preserves_weights =
     bind_res (expect_ok (build list_dash
       (with_weighted_edges [(0, 1, 0x40200000), (1, 2, 0x3F000000)] builder_new))) (\<lambda>g.
     let g' = on_delta (delta_insert list_dash (NodeId 2) (NodeId 3)
           \<lparr>weight = Some 0x4022000000000000, label = None\<rparr>) g
     in bind_res (expect_ok (fst (compact list_dash g'))) (\<lambda>compacted.
        bind_res (case global_to_shard compacted (NodeId 0) of Some p \<Rightarrow> Ok p | None \<Rightarrow> Panic)
          (\<lambda>(shard_idx, offset).
        bind_res (index_vec (shards compacted) shard_idx) (\<lambda>sh.
        bind_res (shard_neighbor_range sh offset) (\<lambda>(start, _).
        asserts [Ok (edge_count compacted = 3), Ok (shard_weight sh start = Some 0x40200000)])))))"

text \<open>The ratios are \<open>0.5\<close> and \<open>10.0\<close>.\<close>

definition test_should_compact_respects_thresholds :: "unit result" where [run]:
  "test_should_compact_respects_thresholds =
     bind_res (graph_of [(0, 1), (1, 2), (2, 3), (3, 4)]) (\<lambda>g.
     let policy = \<lparr>max_delta_entries = 3, max_delta_ratio = 0x3FE0000000000000\<rparr>;
         g1 = on_delta (drop_edge 0 1) g; g2 = on_delta (put_edge 4 5) g1;
         strict = \<lparr>max_delta_entries = 2, max_delta_ratio = 0x4024000000000000\<rparr>
     in asserts [Ok (\<not> should_compact list_dash g policy), Ok (\<not> should_compact list_dash g1 policy),
          Ok (should_compact list_dash g2 policy), Ok (should_compact list_dash g2 strict)])"

definition test_transpose_reverses_edges :: "unit result" where [run]:
  "test_transpose_reverses_edges = bind_res (graph_of [(0, 1), (0, 2), (1, 2)]) (\<lambda>g.
     bind_res (expect_ok (transpose list_dash g)) (\<lambda>r.
     asserts [Ok (edge_count r = 3), edge_in r 1 0, edge_in r 2 0, edge_in r 2 1,
       map_res Not (edge_in r 0 1)]))"

definition test_transpose_applies_delta_mutations :: "unit result" where [run]:
  "test_transpose_applies_delta_mutations = bind_res dirty_graph (\<lambda>g.
     bind_res (expect_ok (transpose list_dash g)) (\<lambda>r.
     asserts [edge_in r 4 3, map_res Not (edge_in r 2 1), edge_in r 1 0]))"

definition test_transpose_enables_incoming_traversal :: "platform \<Rightarrow> unit result" where [run]:
  "test_transpose_enables_incoming_traversal P = bind_res (graph_of [(0, 1), (1, 2), (2, 3)]) (\<lambda>g.
     bind_res (expect_ok (transpose list_dash g)) (\<lambda>rev_graph.
     bind_res (bfs P list_dash rev_graph (NodeId 3) 10) (\<lambda>r.
     asserts [Ok (result_node_count r = 4), assert_eq (depth_of r (NodeId 0)) (Some 3)])))"

definition test_double_transpose_is_identity_topology :: "unit result" where [run]:
  "test_double_transpose_is_identity_topology =
     (let edges = [(0, 1), (0, 2), (1, 3), (2, 3), (3, 4)]
      in bind_res (graph_of edges) (\<lambda>g.
         bind_res (bind_res (expect_ok (transpose list_dash g)) (\<lambda>r. expect_ok (transpose list_dash r))) (\<lambda>r.
         asserts (Ok (edge_count r = length edges) # map (\<lambda>(f, t). edge_in r f t) edges))))"

lemma csr_tests:
  "test_empty_graph = Ok ()"
  "test_from_edges = Ok ()"
  "test_neighbors_iteration = Ok ()"
  "test_shard_indexing_roundtrip = Ok ()"
  "test_neighbors_deduplicate_delta_edges_against_base = Ok ()"
  "test_out_degree_ignores_tombstones_for_non_base_edges = Ok ()"
  "test_out_degree_does_not_double_count_delta_duplicates = Ok ()"
  "test_compact_materializes_delta_and_empties_it = Ok ()"
  "test_compact_preserves_traversal_semantics P = Ok ()"
  "test_compact_skips_delta_duplicates_of_base_edges = Ok ()"
  "test_compact_preserves_weights = Ok ()"
  "test_should_compact_respects_thresholds = Ok ()"
  "test_transpose_reverses_edges = Ok ()"
  "test_transpose_applies_delta_mutations = Ok ()"
  "test_transpose_enables_incoming_traversal P = Ok ()"
  "test_double_transpose_is_identity_topology = Ok ()"
  by ((simp add: run)+, (simp only: loops cong: lazily if_weak_cong)?)+

section \<open>The builder\<close>

text \<open>The edges \<open>i \<rightarrow> i + 1\<close> of a chain, and a chain in shards of at most a number of bytes.\<close>

definition chain_edges :: "nat \<Rightarrow> (u64 \<times> u64) list" where [run]:
  "chain_edges n = map (\<lambda>i. (of_nat i, of_nat i + 1)) [0..<n]"

definition sharded :: "usize \<Rightarrow> (u64 \<times> u64) list \<Rightarrow> list_graph result" where [run]:
  "sharded bytes es = expect_ok (build list_dash (with_edges es (with_shard_size bytes builder_new)))"

text \<open>The assertion that a node in a shard is found again at its address.\<close>

definition address_roundtrip :: "list_graph \<Rightarrow> u64 \<Rightarrow> bool" where [run]:
  "address_roundtrip g n =
     (case global_to_shard g (NodeId n) of
        Some (shard_idx, offset) \<Rightarrow> shard_to_global g shard_idx offset = Some (NodeId n)
      | None \<Rightarrow> True)"

definition test_build_empty :: "unit result" where [run]:
  "test_build_empty = bind_res (expect_ok (build list_dash builder_new)) (\<lambda>g.
     asserts [Ok (node_count g = 0), Ok (edge_count g = 0)])"

definition test_build_simple :: "unit result" where [run]:
  "test_build_simple = bind_res (graph_of [(0, 1), (0, 2), (1, 2)]) (\<lambda>g.
     asserts [Ok (node_count g = 3), Ok (edge_count g = 3)])"

text \<open>The weights are \<open>1.0\<close>, \<open>2.0\<close> and \<open>0.5\<close>.\<close>

definition test_build_weighted :: "unit result" where [run]:
  "test_build_weighted = bind_res (expect_ok (build list_dash (with_weighted_edges
       [(0, 1, 0x3F800000), (0, 2, 0x40000000), (1, 2, 0x3F000000)] builder_new))) (\<lambda>g.
     asserts [Ok (edge_count g = 3)])"

definition test_build_unsorted_edges :: "unit result" where [run]:
  "test_build_unsorted_edges = bind_res (graph_of [(2, 3), (0, 1), (1, 2)]) (\<lambda>g.
     asserts [Ok (node_count g = 4), Ok (edge_count g = 3)])"

definition test_build_rejects_node_ids_beyond_u32 :: "unit result" where [run]:
  "test_build_rejects_node_ids_beyond_u32 =
     bind_res (unwrap_err (build list_dash (with_edges [(0, 0xFFFFFFFF + 1)] builder_new))) (\<lambda>e.
     asserts [Ok (e = InvalidEdge (node_new 0) (node_new (0xFFFFFFFF + 1)))])"

definition test_shard_partitioning_creates_multiple_shards :: "unit result" where [run]:
  "test_shard_partitioning_creates_multiple_shards = bind_res (sharded 32 (chain_edges 20)) (\<lambda>g.
     asserts [Ok (1 < graph_shard_count g)])"

definition test_global_to_shard_roundtrip_single_shard :: "unit result" where [run]:
  "test_global_to_shard_roundtrip_single_shard = bind_res (graph_of [(0, 1), (1, 2), (2, 3)]) (\<lambda>g.
     asserts (map (\<lambda>n. Ok (address_roundtrip g n)) [0, 1, 2, 3]))"

definition test_global_to_shard_roundtrip_multiple_shards :: "unit result" where [run]:
  "test_global_to_shard_roundtrip_multiple_shards = bind_res (sharded 64 (chain_edges 50)) (\<lambda>g.
     asserts (map (\<lambda>n. Ok (global_to_shard g (NodeId (of_nat n)) \<noteq> None \<and> address_roundtrip g (of_nat n)))
       [0..<51]))"

definition test_cross_shard_neighbor_access :: "unit result" where [run]:
  "test_cross_shard_neighbor_access =
     bind_res (sharded 64 ([(0, 10), (0, 20), (0, 30), (0, 40)] @ tl (chain_edges 50))) (\<lambda>g.
     bind_res (neighbors list_dash g (NodeId 0)) (\<lambda>ns.
     asserts (map (\<lambda>n. Ok (NodeId n \<in> set ns)) [10, 20, 30, 40])))"

definition test_shard_boundary_nodes_handled_correctly :: "unit result" where [run]:
  "test_shard_boundary_nodes_handled_correctly = bind_res (sharded 128 (chain_edges 100)) (\<lambda>g.
     bind_res (fold_res (\<lambda>covered sh. if fst (node_range sh) = covered then Ok (snd (node_range sh)) else Panic)
       0 (shards g)) (\<lambda>covered.
     asserts [Ok (1 \<le> graph_shard_count g), Ok (covered = node_count g)]))"

definition test_shard_partitioning_preserves_edge_count :: "unit result" where [run]:
  "test_shard_partitioning_preserves_edge_count =
     (let edges = concat (map (\<lambda>i. [(of_nat i, of_nat i + 1), (of_nat i, of_nat i + 2)]) [0..<100])
      in bind_res (sharded 64 edges) (\<lambda>g.
         asserts [Ok (sum_list (map shard_edge_count (shards g)) = length edges)]))"

definition test_global_to_shard_returns_none_for_invalid_node :: "unit result" where [run]:
  "test_global_to_shard_returns_none_for_invalid_node = bind_res (graph_of [(0, 1), (1, 2)]) (\<lambda>g.
     asserts [Ok (global_to_shard g (NodeId 100) = None)])"

definition test_shard_to_global_returns_none_for_invalid_shard :: "unit result" where [run]:
  "test_shard_to_global_returns_none_for_invalid_shard = bind_res (graph_of [(0, 1), (1, 2)]) (\<lambda>g.
     asserts [Ok (shard_to_global g 999 0 = None)])"

definition test_shard_to_global_returns_none_for_invalid_offset :: "unit result" where [run]:
  "test_shard_to_global_returns_none_for_invalid_offset = bind_res (graph_of [(0, 1), (1, 2)]) (\<lambda>g.
     bind_res (index_vec (shards g) 0) (\<lambda>sh.
     asserts [Ok (shard_to_global g 0 (shard_node_count sh) = None)]))"

text \<open>The weight of edge \<open>i\<close> is \<open>f32::from(i) * 0.1\<close>, a product given as \<open>tenth\<close>.\<close>

definition test_weighted_graph_shard_partitioning :: "(nat \<Rightarrow> f32) \<Rightarrow> unit result" where [run]:
  "test_weighted_graph_shard_partitioning tenth =
     bind_res (expect_ok (build list_dash (with_weighted_edges
         (map (\<lambda>i. (of_nat i, of_nat i + 1, tenth i)) [0..<50]) (with_shard_size 128 builder_new)))) (\<lambda>g.
     asserts (map (\<lambda>n. Ok (address_roundtrip g (of_nat n))) [0..<51]))"

lemma builder_tests:
  "test_build_empty = Ok ()"
  "test_build_simple = Ok ()"
  "test_build_weighted = Ok ()"
  "test_build_unsorted_edges = Ok ()"
  "test_build_rejects_node_ids_beyond_u32 = Ok ()"
  "test_shard_partitioning_creates_multiple_shards = Ok ()"
  "test_global_to_shard_roundtrip_single_shard = Ok ()"
  "test_global_to_shard_returns_none_for_invalid_node = Ok ()"
  "test_shard_to_global_returns_none_for_invalid_shard = Ok ()"
  "test_shard_to_global_returns_none_for_invalid_offset = Ok ()"
  by ((simp add: run)+, (simp only: loops cong: lazily if_weak_cong)?)+

declare lazily [cong del] if_split [split]

text \<open>The larger tests follow from what is proved of every built graph.\<close>

lemma address_roundtrip_holds: "address_roundtrip g n"
proof (cases "global_to_shard g (NodeId n)")
  case (Some p)
  then obtain k off where p: "global_to_shard g (NodeId n) = Some (k, off)" by (cases p) simp
  have "shard_to_global g k off = Some (NodeId n)"
    using global_to_shard_bounds [OF p] unsigned_less [of n, where 'a = nat]
    by (simp add: shard_to_global_def get_vec_def u64_of_usize_def node_new_def)
  with p show ?thesis by (simp add: address_roundtrip_def)
qed (simp add: address_roundtrip_def)

lemma asserts_all: "(\<And>x. x \<in> set xs \<Longrightarrow> P x) \<Longrightarrow> asserts (map (\<lambda>x. Ok (P x)) xs) = Ok ()"
  by (induction xs) auto

lemma sharded_graph:
  assumes "\<forall>(a, b) \<in> set es. unat a < u32_max \<and> unat b < u32_max" "length es \<le> u32_max"
    "bytes \<le> usize_max"
  obtains g where "sharded bytes es = Ok g" "wf_graph list_dash g" "edge_count g = length es"
    "\<And>e. e \<in> set es \<Longrightarrow> unat (snd e) < node_count g"
    "\<And>v. neighbors list_dash g (NodeId v) = Ok (map (\<lambda>e. NodeId (snd e)) (filter (\<lambda>e. fst e = v) es))"
proof -
  let ?b = "with_edges es (with_shard_size bytes builder_new)"
  have b: "b_edges ?b = es" "built_edges ?b = map (\<lambda>e. (e, None)) es" "cfg_shard_size (config ?b) = bytes"
    by (simp_all add: built_edges_def with_edges_def with_shard_size_def builder_new_def
        csr_build_config_default_def)
  have ok: "buildable ?b" using assms by (auto simp: buildable_def b)
  then obtain g where g: "build list_dash ?b = Ok g" "wf_graph list_dash g"
    "node_count g = built_node_count ?b" "edge_count g = length (built_edges ?b)"
    by (rule build_spec [OF _ list_dash_laws]) blast
  have "unat (snd e) < node_count g" if "e \<in> set es" for e
  proof -
    have "e \<in> set (b_edges (sort_edges ?b))" using that by (simp add: sort_edges_props(4) b image_comp)
    from max_node_id_ge [OF this] that show ?thesis
      by (auto simp: g(3) built_node_count_def b word_le_nat_alt less_Suc_eq_le)
  qed
  moreover have "neighbors list_dash g (NodeId v) = Ok (map (\<lambda>e. NodeId (snd e)) (filter (\<lambda>e. fst e = v) es))" for v
    using neighbors_Ok [OF wf_graphD(1) [OF g(2)]] build_neighbor_list [OF ok list_dash_laws g(1), of v]
    by (simp add: edges_from_def b filter_map comp_def)
  ultimately show thesis using g b by (intro that [of g]) (simp_all add: sharded_def)
qed

lemma chain_edges_small:
  assumes "n < u32_max"
  shows "\<forall>(a, b) \<in> set (chain_edges n). unat a < u32_max \<and> unat b < u32_max"
    "length (chain_edges n) \<le> u32_max"
proof -
  have "unat (of_nat i :: u64) = i" "unat (of_nat i + 1 :: u64) = Suc i" if "i < n" for i
    using that assms by (simp_all add: unat_of_nat u32_max_def unat_word_ariths)
  then show "\<forall>(a, b) \<in> set (chain_edges n). unat a < u32_max \<and> unat b < u32_max"
    "length (chain_edges n) \<le> u32_max"
    using assms by (auto simp: chain_edges_def)
qed

lemma test_global_to_shard_roundtrip_multiple_shards:
  "test_global_to_shard_roundtrip_multiple_shards = Ok ()"
proof -
  obtain g where g: "sharded 64 (chain_edges 50) = Ok g" "wf_graph list_dash g"
    "\<And>e. e \<in> set (chain_edges 50) \<Longrightarrow> unat (snd e) < node_count g"
    by (rule sharded_graph [OF chain_edges_small, of 50 64]) (auto simp: u32_max_def usize_max_def)
  have "(49, 50) \<in> set (chain_edges 50)"
    by (auto simp: chain_edges_def image_iff intro!: bexI [of _ 49])
  from g(3) [OF this] have n: "50 < node_count g" by simp
  have "global_to_shard g (NodeId (of_nat i)) \<noteq> None" if "i \<in> set [0..<51]" for i
    using global_to_shard_Some [OF wf_graphD(1) [OF g(2)], of "NodeId (of_nat i)"] that n
    by (auto simp: unat_of_nat)
  then have "asserts (map (\<lambda>i. Ok (global_to_shard g (NodeId (of_nat i)) \<noteq> None \<and>
      address_roundtrip g (of_nat i))) [0..<51]) = Ok ()"
    by (intro asserts_all conjI address_roundtrip_holds)
  then show ?thesis by (simp add: test_global_to_shard_roundtrip_multiple_shards_def g(1))
qed

lemma test_cross_shard_neighbor_access: "test_cross_shard_neighbor_access = Ok ()"
proof -
  let ?es = "[(0, 10), (0, 20), (0, 30), (0, 40)] @ tl (chain_edges 50)"
  have "set ?es \<subseteq> {(0, 10), (0, 20), (0, 30), (0, 40)} \<union> set (chain_edges 50)" "length ?es = 53"
    by (auto simp: chain_edges_def dest: list.set_sel(2) [rotated])
  then have "\<forall>(a, b) \<in> set ?es. unat a < u32_max \<and> unat b < u32_max" "length ?es \<le> u32_max"
    using chain_edges_small(1) [of 50] by (auto simp: u32_max_def)
  then obtain g where g: "sharded 64 ?es = Ok g"
    "\<And>v. neighbors list_dash g (NodeId v) = Ok (map (\<lambda>e. NodeId (snd e)) (filter (\<lambda>e. fst e = v) ?es))"
    by (rule sharded_graph [of ?es 64]) (auto simp: usize_max_def)
  have "asserts (map (\<lambda>n. Ok (NodeId n \<in> set (map (\<lambda>e. NodeId (snd e)) (filter (\<lambda>e. fst e = 0) ?es))))
      [10, 20, 30, 40]) = Ok ()"
    by (intro asserts_all) force
  then show ?thesis by (simp only: test_cross_shard_neighbor_access_def g bind_res.simps)
qed

lemma cover_without_gaps:
  "shards_cover i s shs n \<Longrightarrow>
   fold_res (\<lambda>covered sh. if fst (node_range sh) = covered then Ok (snd (node_range sh)) else Panic) s shs =
     (Ok n :: usize result)"
  by (induction i s shs n rule: shards_cover.induct) auto

lemma test_shard_boundary_nodes_handled_correctly: "test_shard_boundary_nodes_handled_correctly = Ok ()"
proof -
  obtain g where g: "sharded 128 (chain_edges 100) = Ok g" "wf_graph list_dash g" "edge_count g = 100"
    by (rule sharded_graph [OF chain_edges_small, of 100 128])
      (auto simp: u32_max_def usize_max_def chain_edges_def)
  have "shards_cover 0 0 (shards g) (node_count g)"
    using wf_graphD(1) [OF g(2)] by (simp add: wf_base_def)
  from cover_without_gaps [OF this] show ?thesis
    using g(2,3) by (cases "shards g = []")
      (auto simp: test_shard_boundary_nodes_handled_correctly_def g(1) graph_shard_count_def wf_graph_def
        Suc_le_eq)
qed

lemma test_weighted_graph_shard_partitioning: "test_weighted_graph_shard_partitioning tenth = Ok ()"
proof -
  let ?es = "map (\<lambda>i. (of_nat i, of_nat i + 1, tenth i)) [0..<50] :: (u64 \<times> u64 \<times> f32) list"
  let ?b = "with_weighted_edges ?es (with_shard_size 128 builder_new)"
  have b: "b_edges ?b = chain_edges 50" "cfg_shard_size (config ?b) = 128"
    "length (built_edges ?b) = length ?es"
    by (simp_all add: with_weighted_edges_eq with_shard_size_def builder_new_def
        csr_build_config_default_def chain_edges_def built_edges_def comp_def del: upt_Suc)
  have "buildable ?b"
    using chain_edges_small [of 50] unfolding buildable_def b
    by (auto simp: usize_max_def u32_max_def chain_edges_def)
  then obtain g where "build list_dash ?b = Ok g"
    by (rule build_spec [OF _ list_dash_laws]) blast
  moreover have "asserts (map (\<lambda>n. Ok (address_roundtrip g (of_nat n))) [0..<51]) = Ok ()"
    by (intro asserts_all address_roundtrip_holds)
  ultimately show ?thesis by (simp add: test_weighted_graph_shard_partitioning_def)
qed

lemma test_shard_partitioning_preserves_edge_count: "test_shard_partitioning_preserves_edge_count = Ok ()"
proof -
  let ?es = "concat (map (\<lambda>i. [(of_nat i, of_nat i + 1), (of_nat i, of_nat i + 2)]) [0..<100]) :: (u64 \<times> u64) list"
  have "\<forall>(a, b) \<in> set ?es. unat a < u32_max \<and> unat b < u32_max"
    by (auto simp: u32_max_def unat_word_ariths unat_of_nat)
  moreover have "length ?es = 200" by (simp add: length_concat comp_def sum_list_triv)
  ultimately obtain g where g: "sharded 64 ?es = Ok g" "wf_graph list_dash g" "edge_count g = length ?es"
    by (elim sharded_graph [of ?es 64]) (auto simp: u32_max_def usize_max_def)
  then show ?thesis
    by (simp add: test_shard_partitioning_preserves_edge_count_def Let_def wf_graph_def del: upt_Suc)
qed

end
