(* ===== verification/Dobfs_Transpose.thy ===== *)
theory Dobfs_Transpose
  imports Traversal_Exec
begin

text \<open>
  The direction-optimising search (\<open>traversal/dobfs.rs\<close>) is called with a graph and a transpose
  that has to match it.  Here it is run on what the library makes: a graph as the builder
  leaves it has exactly the nodes its edges span, so the graph that \<open>transpose\<close> (\<open>csr.rs\<close>) builds
  has the same counts, and the search accepts the pair.
\<close>

section \<open>A built graph and its transpose\<close>

text \<open>
  The node count of a built graph is one more than the largest identifier on an edge.
\<close>

definition spans :: "edge_key set \<Rightarrow> nat \<Rightarrow> bool" where
  "spans R n \<longleftrightarrow> (\<forall>v \<in> Field R. unat (as_u64 v) < n) \<and>
     (n = 0 \<or> (\<exists>v \<in> Field R. Suc (unat (as_u64 v)) = n))"

lemma spans_unique: "spans R m \<Longrightarrow> spans R n \<Longrightarrow> m = n"
  unfolding spans_def by (metis Suc_leI le_antisym not_less_zero)

lemma spans_converse [simp]: "spans (R\<inverse>) n = spans R n"
  by (simp add: spans_def)

lemma build_spans:
  assumes "buildable b" "dash_laws D" "build D b = Ok g"
    and "cfg_include_weights (config b) \<Longrightarrow> length (b_weights b) = length (b_edges b)"
  shows "spans (graph_edges D g) (node_count g)"
proof -
  obtain g' where "build D b = Ok g'" "node_count g' = built_node_count b"
    using build_spec [OF assms(1,2)] by metis
  then have n: "node_count g = built_node_count b" using assms(3) by simp
  let ?es = "b_edges (sort_edges b)"
  have es: "set ?es = set (b_edges b)"
    using map_fst_built_edges [of b] assms(4) sort_edges_props(4) [of b] by (metis image_set)
  have "(NodeId x, NodeId y) \<in> graph_edges D g \<longleftrightarrow> (x, y) \<in> set ?es" for x y
  proof -
    have "(NodeId x, NodeId y) \<in> graph_edges D g \<longleftrightarrow> NodeId y \<in> set (neighbor_list D g (NodeId x))"
      using set_neighbor_list [OF assms(2), of g "NodeId x"] by simp
    also have "\<dots> \<longleftrightarrow> (x, y) \<in> fst ` set (built_edges b)"
      by (force simp: build_neighbor_list [OF assms(1-3)] edges_from_def)
    finally show ?thesis by (simp add: sort_edges_props(4))
  qed
  then have "(\<exists>y. (NodeId x, NodeId y) \<in> graph_edges D g \<or> (NodeId y, NodeId x) \<in> graph_edges D g) \<longleftrightarrow>
      x \<in> fst ` set ?es \<union> snd ` set ?es" for x
    by force
  moreover have "NodeId x \<in> Field R \<longleftrightarrow> (\<exists>y. (NodeId x, NodeId y) \<in> R \<or> (NodeId y, NodeId x) \<in> R)"
    for x and R :: "edge_key set"
    unfolding Field_def Domain_iff Range_iff Un_iff by (metis node_id.exhaust)
  ultimately have F: "v \<in> Field (graph_edges D g) \<longleftrightarrow> as_u64 v \<in> fst ` set ?es \<union> snd ` set ?es" for v
    by (metis node_id.collapse)
  show ?thesis
  proof (cases "b_edges b = []")
    case True
    then show ?thesis using es F by (simp add: spans_def n built_node_count_def)
  next
    case False
    then have ne: "?es \<noteq> []" using es by auto
    have "unat (as_u64 v) < node_count g" if "v \<in> Field (graph_edges D g)" for v
    proof -
      obtain e where "e \<in> set ?es" "as_u64 v = fst e \<or> as_u64 v = snd e" using \<open>v \<in> _\<close> F by auto
      with max_node_id_ge [OF this(1)] False show ?thesis
        by (auto simp: n built_node_count_def word_le_nat_alt less_Suc_eq_le)
    qed
    moreover have "\<exists>v \<in> Field (graph_edges D g). Suc (unat (as_u64 v)) = node_count g"
      using max_node_id_in [OF ne] False F [of "NodeId (max_node_id ?es)"]
      by (intro bexI [of _ "NodeId (max_node_id ?es)"]) (simp_all add: n built_node_count_def)
    ultimately show ?thesis by (simp add: spans_def)
  qed
qed

lemma collected_all:
  assumes "wf_graph D g" "delta_is_empty D (delta g)"
  shows "length (collected D g) = edge_count g"
proof -
  have empty: "inserted D (delta g) = Map.empty" "deleted D (delta g) = {}"
    using assms(2) wf_graphD(3) [OF assms(1)] by (simp_all add: delta_is_empty_iff)
  then have "dm_iter D (insertions (delta g)) = []"
    by (auto simp: inserted_def)
  moreover have "length (scanned_node g {} (\<lambda>a b w. ((a, b), w)) v) = length (base_row g (NodeId (of_nat v)))" for v
    by (simp add: scanned_node_row length_row_weights_or_one [OF wf_graphD(1) [OF assms(1)]])
  ultimately show ?thesis
    using sum_base_rows [OF assms(1)] by (simp add: collected_def empty(2) length_concat comp_def)
qed

text \<open>A graph without mutations, as built, has the counts of its transpose.\<close>

lemma own_transpose:
  assumes "wf_graph D g" "compactable D g" "delta_is_empty D (delta g)"
    and "spans (graph_edges D g) (node_count g)" "transpose D g = Ok r"
  shows "dense_graph D g" "dense_graph D r" "transposed g r" "edge_count g = edge_count r"
    "delta_is_empty D (delta r)"
proof -
  note laws = wf_graphD(3) [OF assms(1)]
  note t = transpose_edges [OF assms(1,2,5)]
  note b = transpose_builds [OF assms(1,2)]
  have "spans (graph_edges D r) (node_count r)"
    using build_spans [OF b(2) laws, of r] b(1) assms(5) by (simp add: built_edges_plain)
  then have n: "node_count g = node_count r"
    using spans_unique [OF assms(4)] by (simp add: t(4))
  obtain r' where "transpose D g = Ok r'" "edge_count r' = length (collected D g)"
    using build_spec [OF b(2) laws] b(1,3) by metis
  then show e: "edge_count g = edge_count r" using assms(5) collected_all [OF assms(1,3)] by simp
  show d: "delta_is_empty D (delta r)" using t(2) laws by (simp add: delta_is_empty_iff)
  show "dense_graph D g" "dense_graph D r" "transposed g r"
    using transpose_fits(1) [OF assms(1,2,5)] n e d assms(3) by (auto simp: reverse_fits_def)
qed

section \<open>Property\<close>

text \<open>
  C11: the direction-optimising search is the ordinary search: for every graph the builder
  builds, with the transpose that \<open>transpose\<close> makes of it, the search returns (without panic, for
  every start and depth limit and whichever directions the heuristic chooses) a result with
  the same nodes at the same depths, the same maximal depth and, level by level, the same
  nodes with the same multiplicity as \<open>bfs\<close>; and once the graph has been mutated it returns
  exactly what \<open>bfs\<close> returns.
\<close>

theorem dobfs_on_transpose:
  assumes "dash_laws D" "buildable b"
    and "cfg_include_weights (config b) \<Longrightarrow> length (b_weights b) = length (b_edges b)"
  shows "\<exists>f r. build D b = Ok f \<and> transpose D f = Ok r \<and>
    (\<forall>start md. \<exists>x y. bfs_direction_optimized P D f r start md = Ok x \<and> bfs P D f start md = Ok y \<and>
       map mset (r_levels x) = map mset (r_levels y) \<and>
       mset (zip (r_visited x) (r_depths x)) = mset (zip (r_visited y) (r_depths y)) \<and>
       r_depths x = r_depths y \<and> r_max_depth_reached x = r_max_depth_reached y) \<and>
    (\<forall>d start md. \<not> delta_is_empty D d \<longrightarrow>
       bfs_direction_optimized P D (f\<lparr>delta := d\<rparr>) r start md = bfs P D (f\<lparr>delta := d\<rparr>) start md)"
proof -
  obtain f where f: "build D b = Ok f" "wf_graph D f" "delta f = delta_new D"
    using build_spec [OF assms(2,1)] by metis
  have c: "compactable D f" by (rule buildable_compactable [OF assms(2,1) f(1)])
  then obtain r where r: "transpose D f = Ok r" using transpose_Ok [OF f(2)] by metis
  have "delta_is_empty D (delta f)" using f(3) assms(1) by (simp add: delta_is_empty_iff)
  note own = own_transpose [OF f(2) c this build_spans [OF assms(2,1) f(1) assms(3)] r]
  have "bfs_direction_optimized P D (f\<lparr>delta := d\<rparr>) r start md = bfs P D (f\<lparr>delta := d\<rparr>) start md"
    if "\<not> delta_is_empty D d" for d start md
    using own(3-5) that by (simp add: bfs_direction_optimized_def transposed_def)
  then show ?thesis using f(1) r dobfs_agrees [OF own] by blast
qed

theorem dobfs_on_transpose_witness:
  "\<exists>f r x. build list_dash (with_edges [(0, 1), (1, 2)] builder_new) = Ok f \<and>
     transpose list_dash f = Ok r \<and>
     bfs_direction_optimized example_platform list_dash f r (NodeId 0) 4 = Ok x"
proof -
  have "buildable (with_edges [(0, 1), (1, 2)] builder_new)"
    by (simp add: buildable_def built_edges_plain default_shard_size_def usize_max_def u32_max_def)
  from dobfs_on_transpose [OF list_dash_laws this, of example_platform] show ?thesis
    by (simp add: built_edges_plain) blast
qed

end
