(* ===== verification/Search_Tests.thy ===== *)
theory Search_Tests
  imports Graph_Tests Dobfs_Transpose "HOL-Library.Sublist"
begin

text \<open>
  The unit tests of \<open>traversal/bfs.rs\<close>, \<open>traversal/dobfs.rs\<close>, \<open>traversal/simd.rs\<close> and
  \<open>gen.rs\<close>, on every platform.  The smaller ones are run; those that compare two searches or
  two filters pass because the searches and the filters are proved to agree.
\<close>

declare lazily [cong] if_split [split del]

section \<open>Breadth-first search\<close>

lemmas backend_run [run] = scalar_backend_def

text \<open>\<open>0 \<rightarrow> 1 \<rightarrow> 3\<close>, \<open>0 \<rightarrow> 2 \<rightarrow> 4\<close> and \<open>1 \<rightarrow> 4\<close>.\<close>

definition make_test_graph :: "list_graph result" where [run]:
  "make_test_graph = graph_of [(0, 1), (0, 2), (1, 3), (1, 4), (2, 4)]"

definition test_bfs_from_root :: "platform \<Rightarrow> unit result" where [run]:
  "test_bfs_from_root P = bind_res make_test_graph (\<lambda>g.
     bind_res (bfs P list_dash g (NodeId 0) 10) (\<lambda>r.
     asserts [Ok (result_node_count r = 5), Ok (result_contains r (NodeId 0)), Ok (result_contains r (NodeId 4)),
       assert_eq (depth_of r (NodeId 0)) (Some 0), assert_eq (depth_of r (NodeId 1)) (Some 1),
       assert_eq (depth_of r (NodeId 2)) (Some 1), assert_eq (depth_of r (NodeId 3)) (Some 2),
       assert_eq (depth_of r (NodeId 4)) (Some 2)]))"

definition test_bfs_respects_max_depth :: "platform \<Rightarrow> unit result" where [run]:
  "test_bfs_respects_max_depth P = bind_res make_test_graph (\<lambda>g.
     bind_res (bfs P list_dash g (NodeId 0) 1) (\<lambda>r.
     asserts [Ok (result_node_count r = 3), Ok (result_contains r (NodeId 0)), Ok (result_contains r (NodeId 1)),
       Ok (result_contains r (NodeId 2)), Ok (\<not> result_contains r (NodeId 3)),
       Ok (\<not> result_contains r (NodeId 4))]))"

definition test_bfs_depth_zero :: "platform \<Rightarrow> unit result" where [run]:
  "test_bfs_depth_zero P = bind_res make_test_graph (\<lambda>g.
     bind_res (bfs P list_dash g (NodeId 0) 0) (\<lambda>r.
     asserts [Ok (result_node_count r = 1), Ok (result_contains r (NodeId 0))]))"

definition test_bfs_nonexistent_start :: "platform \<Rightarrow> unit result" where [run]:
  "test_bfs_nonexistent_start P = bind_res make_test_graph (\<lambda>g.
     bind_res (bfs P list_dash g (NodeId 999) 10) (\<lambda>r. asserts [Ok (result_node_count r = 0)]))"

definition test_bfs_levels :: "platform \<Rightarrow> unit result" where [run]:
  "test_bfs_levels P = bind_res make_test_graph (\<lambda>g.
     bind_res (bfs P list_dash g (NodeId 0) 10) (\<lambda>r.
     asserts [Ok (length (r_levels r) = 3), assert_eq (index_vec (r_levels r) 0) [NodeId 0],
       map_res (\<lambda>level. NodeId 1 \<in> set level) (index_vec (r_levels r) 1),
       map_res (\<lambda>level. NodeId 2 \<in> set level) (index_vec (r_levels r) 1)]))"

definition test_bfs_multi_starts :: "platform \<Rightarrow> unit result" where [run]:
  "test_bfs_multi_starts P = bind_res (graph_of [(0, 2), (1, 2), (2, 3)]) (\<lambda>g.
     bind_res (bfs_multi P list_dash g [NodeId 0, NodeId 1] 10) (\<lambda>r.
     asserts [Ok (result_contains r (NodeId 0)), Ok (result_contains r (NodeId 1)),
       Ok (result_contains r (NodeId 2)), Ok (result_contains r (NodeId 3)),
       assert_eq (depth_of r (NodeId 2)) (Some 1)]))"

definition test_bfs_bounded_caps_visited_nodes :: "platform \<Rightarrow> unit result" where [run]:
  "test_bfs_bounded_caps_visited_nodes P = bind_res make_test_graph (\<lambda>g.
     bind_res (bfs_bounded P list_dash g [NodeId 0] 10 (Some 2)) (\<lambda>r.
     asserts [Ok (result_node_count r = 2)]))"

definition test_bfs_slow_path_applies_delta_insertions_and_tombstones :: "platform \<Rightarrow> unit result" where [run]:
  "test_bfs_slow_path_applies_delta_insertions_and_tombstones P = bind_res make_test_graph (\<lambda>g.
     bind_res (bfs P list_dash (on_delta (drop_edge 0 2 \<circ> put_edge 4 5) g) (NodeId 0) 10) (\<lambda>r.
     asserts [Ok (result_contains r (NodeId 5)), Ok (\<not> result_contains r (NodeId 2)),
       assert_eq (depth_of r (NodeId 5)) (Some 3)]))"

definition test_fast_path_matches_slow_path_semantics :: "platform \<Rightarrow> unit result" where [run]:
  "test_fast_path_matches_slow_path_semantics P =
     (let base_edges = [(0, 1), (0, 2), (1, 3), (1, 4), (2, 4)]
      in bind_res (graph_of base_edges) (\<lambda>fast.
         bind_res (graph_of (take 4 base_edges)) (\<lambda>slow.
         bind_res (bfs P list_dash fast (NodeId 0) 10) (\<lambda>fast_result.
         bind_res (bfs P list_dash (on_delta (put_edge 2 4) slow) (NodeId 0) 10) (\<lambda>slow_result.
         asserts (Ok (result_node_count fast_result = result_node_count slow_result) #
           map (\<lambda>n. bind_res (depth_of fast_result n) (\<lambda>d. assert_eq (depth_of slow_result n) d))
             (r_visited fast_result)))))))"

definition test_explicit_backend_matches_default :: "platform \<Rightarrow> unit result" where [run]:
  "test_explicit_backend_matches_default P = bind_res make_test_graph (\<lambda>g.
     bind_res (bfs P list_dash g (NodeId 0) 10) (\<lambda>default_result.
     bind_res (bfs_bounded_with_backend list_dash g [NodeId 0] 10 None scalar_backend) (\<lambda>scalar_result.
     asserts [Ok (r_visited default_result = r_visited scalar_result),
       Ok (r_depths default_result = r_depths scalar_result),
       Ok (r_edges_examined default_result = r_edges_examined scalar_result)])))"

lemma bfs_tests:
  "test_bfs_from_root P = Ok ()" "test_bfs_respects_max_depth P = Ok ()" "test_bfs_depth_zero P = Ok ()"
  "test_bfs_nonexistent_start P = Ok ()" "test_bfs_levels P = Ok ()" "test_bfs_multi_starts P = Ok ()"
  "test_bfs_bounded_caps_visited_nodes P = Ok ()"
  "test_bfs_slow_path_applies_delta_insertions_and_tombstones P = Ok ()"
  "test_fast_path_matches_slow_path_semantics P = Ok ()" "test_explicit_backend_matches_default P = Ok ()"
  by ((simp add: run)+, (simp only: loops cong: lazily if_weak_cong)?)+

section \<open>Direction-optimising search\<close>

text \<open>Levels are compared as sets.\<close>

definition assert_equivalent :: "platform \<Rightarrow> list_graph \<Rightarrow> node_id \<Rightarrow> u32 \<Rightarrow> unit result" where
  "assert_equivalent P g start max_depth =
     bind_res (expect_ok (transpose list_dash g)) (\<lambda>rev_graph.
     bind_res (bfs P list_dash g start max_depth) (\<lambda>reference.
     bind_res (expect_ok (bfs_direction_optimized P list_dash g rev_graph start max_depth)) (\<lambda>hybrid.
     asserts ([Ok (result_node_count hybrid = result_node_count reference),
         Ok (r_max_depth_reached hybrid = r_max_depth_reached reference),
         Ok (length (r_levels hybrid) = length (r_levels reference))] @
       map (\<lambda>(h, r). Ok (set h = set r)) (zip (r_levels hybrid) (r_levels reference)) @
       map (\<lambda>n. bind_res (depth_of reference n) (assert_eq (depth_of hybrid n))) (r_visited reference)))))"

definition test_matches_bfs_on_small_topologies :: "platform \<Rightarrow> unit result" where
  "test_matches_bfs_on_small_topologies P =
     bind_res (graph_of [(0, 1), (1, 2), (2, 3)]) (\<lambda>chain.
     bind_res (assert_equivalent P chain (node_new 0) 10) (\<lambda>_.
     bind_res (graph_of (map (\<lambda>i. (0, of_nat i)) [1..<64])) (\<lambda>star.
     bind_res (assert_equivalent P star (node_new 0) 10) (\<lambda>_.
     bind_res (graph_of [(0, 1), (0, 2), (1, 3), (2, 3), (3, 4)]) (\<lambda>diamond.
     assert_equivalent P diamond (node_new 0) 10)))))"

definition test_matches_bfs_on_uniform_graph :: "platform \<Rightarrow> unit result" where
  "test_matches_bfs_on_uniform_graph P = bind_res (uniform 2000 6 0xACE) (\<lambda>edges.
     bind_res (graph_of edges) (\<lambda>g. assert_equivalent P g (node_new 0) 10))"

definition test_matches_bfs_on_rmat_hub :: "platform \<Rightarrow> unit result" where
  "test_matches_bfs_on_rmat_hub P = bind_res (rmat 12 8 0xACE) (\<lambda>edges.
     bind_res (graph_of edges) (\<lambda>g. assert_equivalent P g (node_new 0) 10))"

definition test_dobfs_respects_max_depth :: "platform \<Rightarrow> unit result" where
  "test_dobfs_respects_max_depth P = bind_res (uniform 500 4 7) (\<lambda>edges.
     bind_res (graph_of edges) (\<lambda>g. assert_equivalent P g (node_new 0) 2))"

definition test_nonexistent_start_is_empty :: "platform \<Rightarrow> unit result" where [run]:
  "test_nonexistent_start_is_empty P = bind_res (graph_of [(0, 1)]) (\<lambda>g.
     bind_res (expect_ok (transpose list_dash g)) (\<lambda>rev_graph.
     bind_res (expect_ok (bfs_direction_optimized P list_dash g rev_graph (node_new 99) 5)) (\<lambda>r.
     asserts [Ok (result_node_count r = 0)])))"

definition test_forward_delta_falls_back_to_merged_bfs :: "platform \<Rightarrow> unit result" where [run]:
  "test_forward_delta_falls_back_to_merged_bfs P = bind_res (graph_of [(0, 1), (1, 2)]) (\<lambda>g.
     bind_res (expect_ok (transpose list_dash g)) (\<lambda>rev_graph.
     bind_res (expect_ok (bfs_direction_optimized P list_dash (on_delta (put_edge 2 3) g) rev_graph
         (node_new 0) 10)) (\<lambda>r.
     asserts [Ok (result_contains r (node_new 3))])))"

text \<open>The error and the code its text contains.\<close>

definition is_invalid_traversal :: "graph_error \<Rightarrow> bool" where [run]:
  "is_invalid_traversal e = (case e of InvalidTraversal _ \<Rightarrow> True | _ \<Rightarrow> False)"

definition test_mismatched_reverse_is_rejected :: "platform \<Rightarrow> unit result" where [run]:
  "test_mismatched_reverse_is_rejected P = bind_res (graph_of [(0, 1), (1, 2)]) (\<lambda>g.
     bind_res (graph_of [(0, 1)]) (\<lambda>wrong.
     bind_res (unwrap_err (bfs_direction_optimized P list_dash g wrong (node_new 0) 5)) (\<lambda>e.
     asserts [Ok (is_invalid_traversal e), Ok (sublist ''FG-TRV-E002'' (error_display e))])))"

definition test_reverse_with_delta_is_rejected :: "platform \<Rightarrow> unit result" where [run]:
  "test_reverse_with_delta_is_rejected P = bind_res (graph_of [(0, 1), (1, 2)]) (\<lambda>g.
     bind_res (expect_ok (transpose list_dash g)) (\<lambda>rev_graph.
     bind_res (unwrap_err (bfs_direction_optimized P list_dash g (on_delta (put_edge 5 6) rev_graph)
         (node_new 0) 5)) (\<lambda>e.
     asserts [Ok (is_invalid_traversal e)])))"

lemmas dobfs_run [run] = bfs_direction_optimized_def

lemma starts_with_code [run]:
  "sublist ''FG-TRV-E002'' (error_display (InvalidTraversal s)) = True"
  by (simp add: prefix_imp_sublist)

lemma dobfs_tests:
  "test_nonexistent_start_is_empty P = Ok ()" "test_forward_delta_falls_back_to_merged_bfs P = Ok ()"
  "test_mismatched_reverse_is_rejected P = Ok ()" "test_reverse_with_delta_is_rejected P = Ok ()"
  by ((simp add: run)+, (simp only: loops cong: lazily if_weak_cong)?)+

declare lazily [cong del] if_split [split]

text \<open>The comparisons hold for every graph the builder builds.\<close>

lemma asserts_append: "asserts (rs @ ss) = bind_res (asserts rs) (\<lambda>_. asserts ss)"
proof (induction rs)
  case (Cons r rs)
  then show ?case by (cases r) auto
qed simp

lemma asserts_Ok: "(\<And>r. r \<in> set rs \<Longrightarrow> r = Ok True) \<Longrightarrow> asserts rs = Ok ()"
proof (induction rs)
  case (Cons r rs)
  have "r = Ok True" by (rule Cons.prems) simp
  moreover have "asserts rs = Ok ()" by (rule Cons.IH) (simp add: Cons.prems)
  ultimately show ?case by simp
qed simp

lemma depth_of_zip:
  assumes "distinct (r_visited r)" "length (r_visited r) = length (r_depths r)"
    and "(v, d) \<in> set (zip (r_visited r) (r_depths r))"
  shows "depth_of r v = Ok (Some d)"
proof -
  from assms(3) obtain i where i: "i < length (r_visited r)" "v = r_visited r ! i" "d = r_depths r ! i"
    by (auto simp: in_set_zip)
  with find_position_nth [OF assms(1) i(1)] assms(2) show ?thesis
    by (simp add: depth_of_def index_vec_Ok)
qed

lemma small_graph:
  assumes "\<forall>(a, b) \<in> set es. unat a < u32_max \<and> unat b < u32_max" "length es \<le> u32_max"
  obtains g where "graph_of es = Ok g" "wf_graph list_dash g" "compactable list_dash g"
    "delta_is_empty list_dash (delta g)" "spans (graph_edges list_dash g) (node_count g)"
proof -
  let ?b = "with_edges es builder_new"
  have b: "buildable ?b" using assms
    by (auto simp: buildable_def built_edges_plain default_shard_size_def usize_max_def)
  obtain g where g: "build list_dash ?b = Ok g" "wf_graph list_dash g" "delta g = delta_new list_dash"
    using build_spec [OF b list_dash_laws] by metis
  have "spans (graph_edges list_dash g) (node_count g)"
    by (rule build_spans [OF b list_dash_laws g(1)])
      (simp add: with_edges_def builder_new_def csr_build_config_default_def)
  moreover have "delta_is_empty list_dash (delta g)"
    using g(3) list_dash_laws by (simp add: delta_is_empty_iff)
  ultimately show thesis
    using that g(1,2) buildable_compactable [OF b list_dash_laws g(1)] by (simp add: from_edges_def)
qed

lemma assert_equivalent_holds:
  assumes g: "wf_graph list_dash g" "compactable list_dash g" "delta_is_empty list_dash (delta g)"
    "spans (graph_edges list_dash g) (node_count g)"
  shows "assert_equivalent P g start md = Ok ()"
proof -
  obtain r where r: "transpose list_dash g = Ok r" using transpose_Ok [OF g(1,2)] by metis
  note own = own_transpose [OF g r]
  obtain x y where xy: "bfs_direction_optimized P list_dash g r start md = Ok x"
    "bfs P list_dash g start md = Ok y" "map mset (r_levels x) = map mset (r_levels y)"
    "mset (r_visited x) = mset (r_visited y)" "r_depths x = r_depths y"
    "r_max_depth_reached x = r_max_depth_reached y"
    "mset (zip (r_visited x) (r_depths x)) = mset (zip (r_visited y) (r_depths y))"
    using dobfs_agrees [OF own] by blast
  have "searchable list_dash g"
    using g(1,3) list_dash_laws by (simp add: searchable_def delta_is_empty_def delta_insertion_count_def dash_lawsD)
  from bfs_multi_order [OF this, of P "[start]" md] obtain y' where
    "bfs_multi P list_dash g [start] md = Ok y'"
    "r_visited y' = map fst (search_order list_dash g [start] md)"
    "map unat (r_depths y') = map snd (search_order list_dash g [start] md)" .
  then have y: "r_visited y = map fst (search_order list_dash g [start] md)"
    "length (r_visited y) = length (r_depths y)"
    using xy(2) by (auto simp: bfs_def bfs_multi_def dest: map_eq_imp_length_eq)
  have dist: "distinct (r_visited y)"
    using y(1) distinct_search_order [where n = "length (search_order list_dash g [start] md)"
        and D = list_dash and g = g and starts = "[start]" and md = md] by simp
  then have dx: "distinct (r_visited x)" "length (r_visited x) = length (r_depths x)"
    using xy(4,5) y(2) mset_eq_length [OF xy(4)] mset_eq_imp_distinct_iff [OF xy(4)] by simp_all
  have depths: "bind_res (depth_of y n) (assert_eq (depth_of x n)) = Ok True" if n: "n \<in> set (r_visited y)" for n
  proof -
    obtain d where d: "(n, d) \<in> set (zip (r_visited y) (r_depths y))"
      by (rule in_set_impl_in_set_zip1 [OF y(2) n])
    then have "(n, d) \<in> set (zip (r_visited x) (r_depths x))" using mset_eq_setD [OF xy(7)] by simp
    with d show ?thesis
      using depth_of_zip dist y(2) dx by (simp add: assert_eq_def)
  qed
  have levels: "set h = set l" if "(h, l) \<in> set (zip (r_levels x) (r_levels y))" for h l
  proof -
    from that obtain i where "i < length (r_levels x)" "i < length (r_levels y)"
      "h = r_levels x ! i" "l = r_levels y ! i" by (auto simp: in_set_zip)
    then have "mset h = mset l" using arg_cong [OF xy(3), of "\<lambda>xs. xs ! i"] by simp
    then show ?thesis by (rule mset_eq_setD)
  qed
  have "asserts (map (\<lambda>(h, r). Ok (set h = set r)) (zip (r_levels x) (r_levels y))) = Ok ()"
    by (rule asserts_Ok) (auto dest: levels)
  moreover have "asserts (map (\<lambda>n. bind_res (depth_of y n) (assert_eq (depth_of x n))) (r_visited y)) = Ok ()"
    by (rule asserts_Ok) (auto simp: depths)
  moreover have "length (r_levels x) = length (r_levels y)" using map_eq_imp_length_eq [OF xy(3)] .
  ultimately show ?thesis
    using xy(1,2,6) mset_eq_length [OF xy(4)] r
    by (simp add: assert_equivalent_def asserts_append result_node_count_def)
qed

lemma equivalent_small:
  assumes "\<forall>(a, b) \<in> set es. unat a < u32_max \<and> unat b < u32_max" "length es \<le> u32_max"
  shows "bind_res (graph_of es) (\<lambda>g. assert_equivalent P g start md) = Ok ()"
    and "bind_res (graph_of es) (\<lambda>g. bind_res (assert_equivalent P g start md) (\<lambda>_. r)) = r"
  by (rule small_graph [OF assms], simp add: assert_equivalent_holds)+

lemma test_matches_bfs_on_small_topologies: "test_matches_bfs_on_small_topologies P = Ok ()"
proof -
  let ?star = "map (\<lambda>i. (0, of_nat i)) [1..<64] :: (u64 \<times> u64) list"
  have "\<forall>(a, b) \<in> set ?star. unat a < u32_max \<and> unat b < u32_max"
    by (auto simp: u32_max_def unat_of_nat)
  then show ?thesis unfolding test_matches_bfs_on_small_topologies_def
    by (simp add: equivalent_small u32_max_def)
qed

lemma equivalent_uniform:
  assumes "unat nodes * unat degree \<le> u32_max" "unat nodes \<le> u32_max"
  shows "bind_res (uniform nodes degree seed) (\<lambda>es.
    bind_res (graph_of es) (\<lambda>g. assert_equivalent P g start md)) = Ok ()"
proof -
  obtain es where es: "uniform nodes degree seed = (Ok es :: (u64 \<times> u64) list result)"
    "length es = unat nodes * unat degree" "\<And>a b. (a, b) \<in> set es \<Longrightarrow> a < nodes \<and> b < nodes"
    by (rule uniform_Ok [of nodes degree seed]) (use assms(1) in \<open>simp add: u32_max_def\<close>, blast)
  have "\<forall>(a, b) \<in> set es. unat a < u32_max \<and> unat b < u32_max"
    using es(3) assms(2) by (force simp: word_less_nat_alt)
  with equivalent_small(1) [of es] es(1,2) assms(1) show ?thesis by simp
qed

lemma test_matches_bfs_on_rmat_hub: "test_matches_bfs_on_rmat_hub P = Ok ()"
proof -
  let ?es = "rmat_edges 12 (8 * 2 ^ 12) 0xACE"
  have "rmat 12 8 0xACE = (Ok ?es :: (u64 \<times> u64) list result)"
    by (simp add: rmat_def usize_of_u64_def usize_max_def Let_def)
  moreover have "\<forall>(a, b) \<in> set ?es. unat a < u32_max \<and> unat b < u32_max" "length ?es \<le> u32_max"
    using rmat_edges_shape [of 12 "8 * 2 ^ 12" "0xACE"] by (auto simp: u32_max_def)
  ultimately show ?thesis
    unfolding test_matches_bfs_on_rmat_hub_def by (simp only: bind_res.simps equivalent_small)
qed

lemma dobfs_uniform_tests:
  "test_matches_bfs_on_uniform_graph P = Ok ()" "test_dobfs_respects_max_depth P = Ok ()"
  unfolding test_matches_bfs_on_uniform_graph_def test_dobfs_respects_max_depth_def
  by (rule equivalent_uniform; simp add: u32_max_def)+

section \<open>The visited filters\<close>

definition make_visited :: "u32 list \<Rightarrow> usize \<Rightarrow> u64 list result" where
  "make_visited marked capacity_words = fold_res (\<lambda>words b.
       bind_res (index_vec words (unat (b div 64))) (\<lambda>w.
       Ok (words[unat (b div 64) := w OR shl1 (unat (b mod 64))])))
     (replicate capacity_words 0) marked"

fun pseudo_random_indices :: "nat \<Rightarrow> u32 \<Rightarrow> u64 \<Rightarrow> u32 list" where
  "pseudo_random_indices 0 maximum seed = []"
| "pseudo_random_indices (Suc n) maximum seed =
     (let seed' = xorshift seed in ucast (seed' mod ucast maximum) # pseudo_random_indices n maximum seed')"

definition test_scalar_filters_visited :: "unit result" where
  "test_scalar_filters_visited = bind_res (make_visited [1, 64, 130] 3) (\<lambda>visited.
     asserts [Ok (filter_unvisited scalar_backend [0, 1, 63, 64, 65, 130, 191] visited = [0, 63, 65, 191])])"

definition test_scalar_out_of_range_indices_are_dropped :: "unit result" where
  "test_scalar_out_of_range_indices_are_dropped = bind_res (make_visited [] 1) (\<lambda>visited.
     asserts [Ok (filter_unvisited scalar_backend [10, 64, 200] visited = [10])])"

definition test_set_visited_batch_roundtrip :: "unit result" where
  "test_set_visited_batch_roundtrip = (let visited = set_visited_batch [3, 64, 200] (replicate 4 0) in
     asserts [Ok (filter_unvisited scalar_backend [3, 4, 64, 200, 201] visited = [4, 201])])"

definition platform_backend :: "platform \<Rightarrow> simd_backend" where
  "platform_backend P = (if target_arch P = Aarch64 then neon_backend else select_backend P)"

definition test_platform_backend_matches_scalar_reference :: "platform \<Rightarrow> unit result" where
  "test_platform_backend_matches_scalar_reference P = asserts (map (\<lambda>size.
     let neighbors = pseudo_random_indices size 4096 (0xF00D + of_nat size);
         visited_bits = pseudo_random_indices (size div 2 + 1) 4096 (0xBEEF + of_nat size)
     in bind_res (make_visited visited_bits 64) (\<lambda>visited.
        Ok (filter_unvisited (platform_backend P) neighbors visited =
            filter_unvisited scalar_backend neighbors visited)))
     [0, 1, 3, 4, 5, 8, 9, 100, 1000, 1003])"

definition test_platform_backend_handles_out_of_range :: "platform \<Rightarrow> unit result" where
  "test_platform_backend_handles_out_of_range P = bind_res (make_visited [1] 1) (\<lambda>visited.
     asserts [Ok (filter_unvisited (platform_backend P) [0, 1, 2, 100, 4000, 63, 5, 6] visited =
       filter_unvisited scalar_backend [0, 1, 2, 100, 4000, 63, 5, 6] visited)])"

definition test_backend_selection_returns_valid_backend :: "platform \<Rightarrow> unit result" where
  "test_backend_selection_returns_valid_backend P = (let backend = select_backend P in
     asserts [Ok (be_name backend \<noteq> []), Ok (1 \<le> be_batch_size backend),
       Ok (backend_name P = be_name backend)])"

definition test_node_id_dense_index_roundtrip :: "unit result" where
  "test_node_id_dense_index_roundtrip =
     asserts [Ok (node_id_to_dense_index (node_new 42) = Some 42),
       Ok (node_id_to_dense_index (node_new 0xFFFFFFFFFFFFFFFF) = None), Ok (dense_index_to_node_id 7 = node_new 7)]"

lemma filters_agree: "filter_unvisited (platform_backend P) = filter_unvisited scalar_backend"
  by (simp add: fun_eq_iff platform_backend_def neon.filter_no_out selected.filter_no_out scalar.filter_no_out)

lemma make_visited_Ok:
  assumes "\<forall>b \<in> set bs. unat b div 64 < n"
  shows "\<exists>ws. make_visited bs n = Ok ws"
proof -
  have "\<exists>ws'. fold_res (\<lambda>words b. bind_res (index_vec words (unat (b div 64))) (\<lambda>w.
       Ok (words[unat (b div 64) := w OR shl1 (unat (b mod 64))]))) ws bs = (Ok ws' :: u64 list result)"
    if "length ws = n" for ws
    using that assms by (induction bs arbitrary: ws) (simp_all add: index_vec_Ok)
  from this [of "replicate n 0"] show ?thesis by (auto simp: make_visited_def)
qed

lemma pseudo_random_below:
  assumes "b \<in> set (pseudo_random_indices n maximum seed)" "0 < maximum"
  shows "unat b < unat maximum"
  using assms(1)
proof (induction n arbitrary: seed)
  case (Suc n)
  have "unat (xorshift seed mod ucast maximum) < unat maximum"
    using assms(2) by (simp add: unat_mod_distrib unsigned_ucast_eq word_less_nat_alt)
  then show ?case
    using Suc le_less_trans [OF take_bit_nat_less_eq_self] by (auto simp: Let_def unsigned_ucast_eq)
qed simp

lemma scalar_filter_tests:
  "test_scalar_filters_visited = Ok ()" "test_scalar_out_of_range_indices_are_dropped = Ok ()"
  "test_set_visited_batch_roundtrip = Ok ()" "test_node_id_dense_index_roundtrip = Ok ()"
  by (simp_all add: test_scalar_filters_visited_def test_scalar_out_of_range_indices_are_dropped_def
      test_set_visited_batch_roundtrip_def test_node_id_dense_index_roundtrip_def make_visited_def
      node_id_to_dense_index_def dense_index_to_node_id_def u32_of_u64_def
      filter_unvisited_def run)

lemma test_platform_backend_matches_scalar_reference:
  "test_platform_backend_matches_scalar_reference P = Ok ()"
proof -
  have "\<exists>ws. make_visited (pseudo_random_indices n 4096 seed) 64 = Ok ws" for n seed
    using pseudo_random_below [of _ n 4096 seed] by (intro make_visited_Ok) fastforce
  then have "bind_res (make_visited (pseudo_random_indices n 4096 seed) 64) (\<lambda>_. Ok True) = Ok True" for n seed
    by (metis bind_res.simps(1))
  then show ?thesis
    unfolding test_platform_backend_matches_scalar_reference_def filters_agree Let_def
    by (intro asserts_Ok) (auto simp del: pseudo_random_indices.simps)
qed

lemma platform_backend_tests:
  "test_platform_backend_handles_out_of_range P = Ok ()"
  "test_backend_selection_returns_valid_backend P = Ok ()"
proof -
  obtain ws where "make_visited [1] 1 = Ok ws" by (simp add: make_visited_def run)
  then show "test_platform_backend_handles_out_of_range P = Ok ()"
    by (simp add: test_platform_backend_handles_out_of_range_def filters_agree)
  show "test_backend_selection_returns_valid_backend P = Ok ()"
    by (cases "target_arch P") (simp_all add: test_backend_selection_returns_valid_backend_def
        select_backend_def backend_name_def avx512_backend_def avx2_backend_def scalar_backend_def)
qed

section \<open>The generators\<close>

definition test_uniform_shape :: "unit result" where
  "test_uniform_shape = bind_res (uniform 100 4 42) (\<lambda>edges.
     asserts [Ok (length edges = 400), Ok (list_all (\<lambda>(s, t). s < 100 \<and> t < 100) edges)])"

definition test_uniform_is_deterministic :: "unit result" where
  "test_uniform_is_deterministic =
     asserts [bind_res (uniform 50 3 7) (assert_eq (uniform 50 3 7)),
       bind_res (uniform 50 3 8) (\<lambda>r. map_res Not (assert_eq (uniform 50 3 7) r))]"

definition test_rmat_shape :: "unit result" where
  "test_rmat_shape = bind_res (rmat 10 8 42) (\<lambda>edges.
     asserts [Ok (length edges = 8 * 2 ^ 10), Ok (list_all (\<lambda>(s, t). s < 1024 \<and> t < 1024) edges)])"

definition test_rmat_is_deterministic :: "unit result" where
  "test_rmat_is_deterministic = asserts [bind_res (rmat 8 4 1) (assert_eq (rmat 8 4 1))]"

lemma test_uniform_shape: "test_uniform_shape = Ok ()"
proof -
  obtain es where "uniform 100 4 42 = (Ok es :: (u64 \<times> u64) list result)"
    "length es = unat (100 :: u64) * unat (4 :: u64)" "\<And>a b. (a, b) \<in> set es \<Longrightarrow> a < 100 \<and> b < 100"
    by (rule uniform_Ok [of 100 4 42]) (simp, blast)
  then show ?thesis by (auto simp: test_uniform_shape_def list_all_iff)
qed

lemma rmat_Ok: "unat scale < 64 \<Longrightarrow> k * 2 ^ unat scale \<le> usize_max \<Longrightarrow>
    rmat scale k seed = Ok (rmat_edges (unat scale) (k * 2 ^ unat scale) seed)"
  by (simp add: rmat_def Let_def push_bit_eq_mult unat_exp word_le_nat_alt)

lemma test_rmat_shape: "test_rmat_shape = Ok ()"
  using rmat_edges_shape [of 10 "8 * 2 ^ 10" 42]
  by (auto simp: test_rmat_shape_def rmat_Ok usize_max_def list_all_iff word_less_nat_alt)

lemma first_edge: "hd (uniform_rows nodes (Suc k) (src # srcs) seed) = (src, xorshift seed mod nodes)"
  by (simp add: Let_def split: prod.splits)

lemma deterministic_tests: "test_uniform_is_deterministic = Ok ()" "test_rmat_is_deterministic = Ok ()"
proof -
  have "uniform 50 3 seed = (Ok (uniform_rows 50 3 (map of_nat [0..<50]) seed) :: (u64 \<times> u64) list result)" for seed
    by (simp add: uniform_def)
  moreover have "hd (uniform_rows 50 3 (map of_nat [0..<50]) seed) = (0, xorshift seed mod 50)" for seed
    using first_edge [of 50 2 0 "map of_nat [1..<50]" seed]
    by (simp only: upt_conv_Cons list.map of_nat_0 numeral_3_eq_3 numeral_2_eq_2) simp
  moreover have "xorshift 7 mod 50 \<noteq> xorshift 8 mod 50" by (simp add: xorshift_def Let_def)
  ultimately show "test_uniform_is_deterministic = Ok ()"
    by (auto simp: test_uniform_is_deterministic_def assert_eq_def dest: arg_cong [of _ _ hd])
  show "test_rmat_is_deterministic = Ok ()"
    by (simp add: test_rmat_is_deterministic_def assert_eq_def rmat_Ok usize_max_def)
qed

end
