(* ===== verification/Query_Tests.thy ===== *)
theory Query_Tests
  imports Search_Tests Csr_Exec Dictionary Traverse_Udtf
begin

text \<open>
  The unit tests of \<open>fusiongraph-datafusion\<close> that need no query engine but its streams and
  batches: \<open>dictionary.rs\<close>, \<open>exec/csr_builder.rs\<close>, \<open>exec/graph_traversal.rs\<close> and \<open>udtf.rs\<close>.
  The batch library is \<open>list_arrow\<close>; the clock and the number of processors are arbitrary.
\<close>

section \<open>Running streams and batches\<close>

fun unwrap :: "('e, 'a) res \<Rightarrow> 'a result" where
  "unwrap (Ok x) = Ok x"
| "unwrap _ = Panic"

fun unwrap_error :: "('e, 'a) res \<Rightarrow> 'e result" where
  "unwrap_error (Err e) = Ok e"
| "unwrap_error _ = Panic"

fun unwrap_option :: "'a option \<Rightarrow> 'a result" where
  "unwrap_option (Some x) = Ok x"
| "unwrap_option None = Panic"

text \<open>The text of an engine error contains its message.\<close>

fun df_message :: "df_error \<Rightarrow> string" where
  "df_message (DfExecution m) = m"
| "df_message (DfPlan m) = m"
| "df_message (DfNotImplemented m) = m"
| "df_message (DfArrow m) = m"
| "df_message (DfExternal e) = error_display e"
| "df_message (DfExternalIceberg m) = m"
| "df_message (DfContext m e) = m @ df_message e"
| "df_message (DfOther m) = m"

definition mentions :: "df_error \<Rightarrow> string \<Rightarrow> bool" where
  "mentions e needle \<longleftrightarrow> sublist needle (df_message e)"

text \<open>A value of a column of identifiers, which panics on another type and out of range.\<close>

definition u64_values :: "record_batch \<Rightarrow> usize \<Rightarrow> u64 option list result" where
  "u64_values b i = bind_res (index_vec (batch_columns b) i) (\<lambda>c. unwrap_option (as_uint64 c))"

definition u64_value :: "record_batch \<Rightarrow> usize \<Rightarrow> usize \<Rightarrow> u64 result" where
  "u64_value b i n = bind_res (u64_values b i) (\<lambda>vs. bind_res (index_vec vs n) unwrap_option)"

text \<open>
  A plan over batches in memory yields the batches of its partition.  Awaiting the next item of
  the building stream polls it until it is ready; each pending poll has used up an answer of
  the input.
\<close>

definition memory_plan :: "schema \<Rightarrow> record_batch list list \<Rightarrow> input_plan" where
  "memory_plan s partitions = \<lparr>ip_partitions = length partitions, ip_schema = s,
     ip_execute = bind_res (index_vec partitions 0) (\<lambda>batches. Ok (map (\<lambda>b. Ready (Some (Ok b))) batches))\<rparr>"

type_synonym list_sinks = "((edge_key \<times> edge_data) list, edge_key list) sinks"

lemma poll_pending:
  "poll_next A D ms st = (Pending, st') \<Longrightarrow> length (bs_input (fst st')) < length (bs_input (fst st))"
  by (cases st; cases "bs_input (fst st)")
    (auto simp: poll_next_def extract_edges_def Let_def split: if_splits poll.splits option.splits
      res.splits prod.splits)

function next_item ::
  "arrow \<Rightarrow> ('m, 's) dash \<Rightarrow> nat \<Rightarrow> build_stream \<times> ('m, 's) sinks \<Rightarrow>
   record_batch df_result option \<times> build_stream \<times> ('m, 's) sinks" where
  "next_item A D ms st =
     (case poll_next A D ms st of (p, st') \<Rightarrow>
        case p of Ready r \<Rightarrow> (r, st') | Pending \<Rightarrow> next_item A D ms st')"
  by pat_completeness auto
termination
  by (relation "measure (\<lambda>(A, D, ms, st). length (bs_input (fst st)))")
    (auto dest: poll_pending [OF sym])

declare next_item.simps [simp del]

definition next_batch ::
  "nat \<Rightarrow> build_stream \<times> list_sinks \<Rightarrow> (record_batch df_result \<times> build_stream \<times> list_sinks) result" where
  "next_batch ms st = (case next_item list_arrow list_dash ms st of (item, st') \<Rightarrow>
     map_res (\<lambda>r. (r, st')) (unwrap_option item))"

definition is_finished :: "nat \<Rightarrow> build_stream \<times> list_sinks \<Rightarrow> bool" where
  "is_finished ms st \<longleftrightarrow> fst (next_item list_arrow list_dash ms st) = None"

declare lazily [cong] poll.case_cong_weak [cong] if_split [split del]

section \<open>The dictionary\<close>

definition test_interning_is_deterministic_and_reversible :: "unit result" where [run]:
  "test_interning_is_deterministic_and_reversible =
     (let (i0, d1) = get_or_insert ''alice'' dictionary_new; (i1, d2) = get_or_insert ''bob'' d1;
          (i2, d3) = get_or_insert ''alice'' d2
      in asserts [Ok (i0 = 0), Ok (i1 = 1), Ok (i2 = 0), Ok (id_of d3 ''bob'' = Some 1),
           Ok (id_of d3 ''carol'' = None), Ok (key_of d3 0 = Some ''alice''), Ok (key_of d3 9 = None),
           Ok (dictionary_len d3 = 2)])"

definition test_batch_roundtrip :: "unit result" where [run]:
  "test_batch_roundtrip =
     (let d = snd (get_or_insert ''b'' (snd (get_or_insert ''a'' dictionary_new)))
      in bind_res (unwrap (to_batch list_arrow d)) (\<lambda>b.
         asserts [Ok (batch_rows b = 2), Ok (batch_schema b = dictionary_schema)]))"

lemma list_arrow_run [run]:
  "aw_try_new list_arrow s cols = (if batch_fits s cols
     then Ok \<lparr>batch_schema = s, batch_columns = cols, batch_rows = array_length (hd cols)\<rparr>
     else Err ''invalid batch'')"
  "aw_index_of list_arrow s n = (let i = length (takeWhile (\<lambda>f. field_name f \<noteq> n) s)
     in if i < length s then Some i else None)"
  by (simp_all add: list_arrow_def)

lemmas dictionary_run [run] = get_or_insert_def dictionary_new_def id_of_def key_of_def dictionary_len_def
  to_batch_def dictionary_schema_def batch_fits_def field_new_def usize_of_u64_def
  usize_max_def

lemma dictionary_tests:
  "test_interning_is_deterministic_and_reversible = Ok ()" "test_batch_roundtrip = Ok ()"
  by (simp_all add: run)

section \<open>The building operator\<close>

definition create_named_edge_batch :: "string \<Rightarrow> string \<Rightarrow> u64 list \<Rightarrow> u64 list \<Rightarrow> record_batch result" where [run]:
  "create_named_edge_batch source_name target_name sources targets =
     unwrap (aw_try_new list_arrow [field_new source_name DtUInt64 False, field_new target_name DtUInt64 False]
       [UInt64Array (map Some sources), UInt64Array (map Some targets)])"

definition create_edge_batch :: "u64 list \<Rightarrow> u64 list \<Rightarrow> record_batch result" where [run]:
  "create_edge_batch sources targets = create_named_edge_batch ''source'' ''target'' sources targets"

definition create_wrong_type_batch :: "record_batch result" where [run]:
  "create_wrong_type_batch = unwrap (aw_try_new list_arrow
     [field_new ''source'' (DtOther ''Int32'') False, field_new ''target'' DtUInt64 False]
     [OtherArray (DtOther ''Int32'') (replicate 3 True), UInt64Array (map Some [1, 2, 3])])"

text \<open>Executing the operator over one partition with these batches, and its first item.\<close>

definition start_build ::
  "build_exec_config \<Rightarrow> record_batch list \<Rightarrow> list_sinks \<Rightarrow> (build_stream \<times> list_sinks) result" where [run]:
  "start_build cfg batches sinks =
     bind_res (index_vec batches 0) (\<lambda>b.
     bind_res (unwrap (csr_builder_execute
       (csr_builder_exec_new (memory_plan (batch_schema b) [batches]) cfg) 0)) (\<lambda>stream.
     Ok (stream, sinks)))"

definition first_statistics :: "nat \<Rightarrow> build_stream \<times> list_sinks \<Rightarrow> (record_batch \<times> build_stream \<times> list_sinks) result" where [run]:
  "first_statistics ms st = bind_res (next_batch ms st) (\<lambda>(r, st'). map_res (\<lambda>b. (b, st')) (unwrap r))"

definition first_error :: "nat \<Rightarrow> build_stream \<times> list_sinks \<Rightarrow> (df_error \<times> build_stream \<times> list_sinks) result" where [run]:
  "first_error ms st = bind_res (next_batch ms st) (\<lambda>(r, st'). map_res (\<lambda>e. (e, st')) (unwrap_error r))"

abbreviation no_sinks :: list_sinks where
  "no_sinks \<equiv> \<lambda>_. None"

definition test_csr_builder_exec :: "usize \<Rightarrow> nat \<Rightarrow> unit result" where [run]:
  "test_csr_builder_exec cpus ms = bind_res (create_edge_batch [0, 0, 1, 2] [1, 2, 2, 3]) (\<lambda>batch.
     bind_res (start_build (build_exec_config_default cpus) [batch] no_sinks) (\<lambda>st.
     bind_res (first_statistics ms st) (\<lambda>(b, _).
     asserts [Ok (batch_rows b = 1), assert_eq (u64_value b 0 0) 4, assert_eq (u64_value b 1 0) 4])))"

definition test_csr_builder_empty :: "usize \<Rightarrow> nat \<Rightarrow> unit result" where [run]:
  "test_csr_builder_empty cpus ms =
     (let s = [field_new ''source'' DtUInt64 False, field_new ''target'' DtUInt64 False]
      in bind_res (unwrap (csr_builder_execute
           (csr_builder_exec_new (memory_plan s [[]]) (build_exec_config_default cpus)) 0)) (\<lambda>stream.
         bind_res (first_statistics ms (stream, no_sinks)) (\<lambda>(b, _).
         asserts [assert_eq (u64_value b 0 0) 0])))"

definition test_csr_builder_custom_column_names :: "usize \<Rightarrow> nat \<Rightarrow> unit result" where [run]:
  "test_csr_builder_custom_column_names cpus ms =
     bind_res (create_named_edge_batch ''src_id'' ''dst_id'' [0, 0, 1, 2] [1, 2, 2, 3]) (\<lambda>batch.
     bind_res (start_build ((build_exec_config_default cpus)\<lparr>xc_source_column := ''src_id'',
         xc_target_column := ''dst_id''\<rparr>) [batch] no_sinks) (\<lambda>st.
     bind_res (first_statistics ms st) (\<lambda>(b, _).
     asserts [assert_eq (u64_value b 0 0) 4, assert_eq (u64_value b 1 0) 4])))"

definition test_csr_builder_missing_source_column_errors :: "usize \<Rightarrow> nat \<Rightarrow> unit result" where [run]:
  "test_csr_builder_missing_source_column_errors cpus ms =
     bind_res (create_edge_batch [0, 1] [1, 2]) (\<lambda>batch.
     bind_res (start_build ((build_exec_config_default cpus)\<lparr>xc_source_column := ''src''\<rparr>) [batch] no_sinks) (\<lambda>st.
     bind_res (first_error ms st) (\<lambda>(e, st').
     asserts [Ok (mentions e (''Source column '' @ quoted ''src'' @ '' not found in input schema'')),
       Ok (is_finished ms st')])))"

definition test_csr_builder_wrong_column_type_errors :: "usize \<Rightarrow> nat \<Rightarrow> unit result" where [run]:
  "test_csr_builder_wrong_column_type_errors cpus ms =
     bind_res create_wrong_type_batch (\<lambda>batch.
     bind_res (start_build (build_exec_config_default cpus) [batch] no_sinks) (\<lambda>st.
     bind_res (first_error ms st) (\<lambda>(e, st').
     asserts [Ok (mentions e (''Source column '' @ quoted ''source'' @ '' must be UInt64'')),
       Ok (is_finished ms st')])))"

definition test_csr_builder_memory_limit_errors :: "usize \<Rightarrow> nat \<Rightarrow> unit result" where [run]:
  "test_csr_builder_memory_limit_errors cpus ms = bind_res (create_edge_batch [0, 1, 2] [1, 2, 3]) (\<lambda>batch.
     bind_res (start_build ((build_exec_config_default cpus)\<lparr>xc_memory_limit := Some (16 * 2)\<rparr>)
         [batch] no_sinks) (\<lambda>st.
     bind_res (first_error ms st) (\<lambda>(e, st').
     asserts [Ok (mentions e ''edge buffer exceeded memory limit''), Ok (is_finished ms st')])))"

definition test_csr_builder_rejects_non_zero_output_partition :: "usize \<Rightarrow> unit result" where [run]:
  "test_csr_builder_rejects_non_zero_output_partition cpus = bind_res (create_edge_batch [0] [1]) (\<lambda>batch.
     bind_res (unwrap_error (csr_builder_execute (csr_builder_exec_new
         (memory_plan (batch_schema batch) [[batch]]) (build_exec_config_default cpus)) 1)) (\<lambda>e.
     asserts [Ok (mentions e ''CSRBuilderExec produces a single output partition'')]))"

definition test_csr_builder_requires_single_input_partition :: "usize \<Rightarrow> unit result" where [run]:
  "test_csr_builder_requires_single_input_partition cpus =
     bind_res (create_edge_batch [0] [1]) (\<lambda>batch_one. bind_res (create_edge_batch [1] [2]) (\<lambda>batch_two.
     bind_res (unwrap_error (csr_builder_execute (csr_builder_exec_new
         (memory_plan (batch_schema batch_one) [[batch_one], [batch_two]])
         (build_exec_config_default cpus)) 0)) (\<lambda>e.
     asserts [Ok (mentions e ''CSRBuilderExec requires a single input partition'')])))"

text \<open>The operator's name and children are constants of its plan and not asked for.\<close>

definition test_datafusion_integration_multi_batch :: "usize \<Rightarrow> nat \<Rightarrow> unit result" where [run]:
  "test_datafusion_integration_multi_batch cpus ms =
     bind_res (create_edge_batch [0, 0, 1] [1, 2, 2]) (\<lambda>batch1.
     bind_res (create_edge_batch [2, 3, 3] [3, 4, 5]) (\<lambda>batch2.
     bind_res (create_edge_batch [4, 5] [5, 0]) (\<lambda>batch3.
     bind_res (start_build ((build_exec_config_default cpus)\<lparr>xc_shard_size := 64 * 1024 * 1024\<rparr>)
         [batch1, batch2, batch3] no_sinks) (\<lambda>st.
     bind_res (first_statistics ms st) (\<lambda>(b, st').
     let names = map field_name (batch_schema b)
     in asserts [Ok (length names = 4), Ok (''node_count'' \<in> set names), Ok (''edge_count'' \<in> set names),
          Ok (''shard_count'' \<in> set names), Ok (''build_time_ms'' \<in> set names),
          assert_eq (u64_value b 0 0) 6, assert_eq (u64_value b 1 0) 8, Ok (is_finished ms st')])))))"

definition test_csr_builder_reports_graph_metadata :: "usize \<Rightarrow> nat \<Rightarrow> unit result" where [run]:
  "test_csr_builder_reports_graph_metadata cpus ms = bind_res (create_edge_batch [0, 0, 1, 2] [1, 2, 2, 3]) (\<lambda>batch.
     bind_res (start_build (build_exec_config_default cpus) [batch] no_sinks) (\<lambda>st.
     bind_res (first_statistics ms st) (\<lambda>(b, _).
     asserts [assert_eq (u64_value b 0 0) 4, map_res (\<lambda>n. 1 \<le> n) (u64_value b 2 0)])))"

text \<open>Collecting a stream: its batches, or its first error.\<close>

definition test_graph_sink_enables_traversal_pipeline :: "platform \<Rightarrow> usize \<Rightarrow> nat \<Rightarrow> unit result" where [run]:
  "test_graph_sink_enables_traversal_pipeline P cpus ms =
     bind_res (create_edge_batch [0, 1, 2, 1] [1, 2, 3, 3]) (\<lambda>batch.
     bind_res (start_build ((build_exec_config_default cpus)\<lparr>xc_graph_sink := Some 0\<rparr>) [batch]
         (new_graph_sink 0 no_sinks)) (\<lambda>st.
     bind_res (first_statistics ms st) (\<lambda>(_, st').
     bind_res (unwrap_option (snd st' 0)) (\<lambda>g.
     let spec = traversal_spec_default\<lparr>ts_start := [node_new 0], ts_max_depth := 2\<rparr>
     in bind_res (unwrap (traversal_execute list_arrow P list_dash (traversal_exec_new g spec) 0)) (\<lambda>b.
        asserts [Ok (is_finished ms st'), Ok (node_count g = 4), Ok (edge_count g = 4), Ok (batch_rows b = 4)])))))"

lemmas stream_run [run] = csr_builder_execute_def csr_builder_exec_new_def build_stream_new_def memory_plan_def
  build_exec_config_default_def next_batch_def is_finished_def poll_next_def extract_edges_def
  extract_columns_def find_column_def id_column_values_def weight_column_values_def extract_row_def
  extract_rows.simps enforce_memory_limit_def edge_buffer_bytes_def memory_limit_error_def
  build_csr_def stream_builder_def stats_columns_def stats_schema_def sink_set_def new_graph_sink_def
  u64_value_def u64_values_def mentions_def

lemma sublist_run [run]:
  "sublist xs [] = (xs = [])" "sublist xs (y # ys) = (prefix xs (y # ys) \<or> sublist xs ys)"
  by (auto simp: sublist_Cons_right)

lemmas traversal_run [run] = traversal_execute_def validate_spec_def traversal_exec_new_def traversal_spec_default_def
  collect_bfs_rows_def search_graphs_def run_search_def output_schema_def incoming_needs_reverse_def

lemmas stream_loops = loops next_item.simps

lemma csr_builder_tests:
  "test_csr_builder_exec cpus ms = Ok ()" "test_csr_builder_empty cpus ms = Ok ()"
  "test_csr_builder_custom_column_names cpus ms = Ok ()"
  "test_csr_builder_missing_source_column_errors cpus ms = Ok ()"
  "test_csr_builder_wrong_column_type_errors cpus ms = Ok ()"
  "test_csr_builder_memory_limit_errors cpus ms = Ok ()"
  "test_csr_builder_rejects_non_zero_output_partition cpus = Ok ()"
  "test_csr_builder_requires_single_input_partition cpus = Ok ()"
  "test_datafusion_integration_multi_batch cpus ms = Ok ()"
  "test_csr_builder_reports_graph_metadata cpus ms = Ok ()"
  "test_graph_sink_enables_traversal_pipeline P cpus ms = Ok ()"
  by ((simp add: run)+, (simp only: stream_loops cong: lazily poll.case_cong_weak if_weak_cong)?)+

section \<open>The traversal operator\<close>

text \<open>\<open>0 \<rightarrow> 1 \<rightarrow> 2\<close> and \<open>0 \<rightarrow> 3\<close>, and a traversal from \<open>0\<close>.\<close>

definition build_test_graph :: "list_graph result" where [run]:
  "build_test_graph = unwrap (build list_dash (with_edges [(0, 1), (1, 2), (0, 3)] builder_new))"

definition traverse_from_0 ::
  "platform \<Rightarrow> u32 \<Rightarrow> usize option \<Rightarrow> traversal_algorithm \<Rightarrow> traversal_direction \<Rightarrow> record_batch df_result result" where [run]:
  "traverse_from_0 P depth cap alg dir = map_res (\<lambda>g. traversal_execute list_arrow P list_dash
     (traversal_exec_new g \<lparr>ts_start = [node_new 0], ts_max_depth = depth, ts_max_nodes = cap,
        ts_algorithm = alg, ts_direction = dir\<rparr>) 0) build_test_graph"

fun as_uint32 :: "arrow_array \<Rightarrow> u32 option list option" where
  "as_uint32 (UInt32Array xs) = Some xs"
| "as_uint32 _ = None"

fun as_id_lists :: "arrow_array \<Rightarrow> u64 list option list option" where
  "as_id_lists (UInt64ListArray xs) = Some xs"
| "as_id_lists _ = None"

definition u32_values :: "record_batch \<Rightarrow> usize \<Rightarrow> u32 option list result" where [run]:
  "u32_values b i = bind_res (index_vec (batch_columns b) i) (\<lambda>c. unwrap_option (as_uint32 c))"

definition test_output_schema_fields :: "unit result" where [run]:
  "test_output_schema_fields = (let names = map field_name output_schema
     in asserts [Ok (length names = 3), Ok (''node_id'' \<in> set names), Ok (''depth'' \<in> set names)])"

definition test_execute_returns_traversal_results :: "platform \<Rightarrow> unit result" where [run]:
  "test_execute_returns_traversal_results P = bind_res (traverse_from_0 P 2 None AlgorithmBfs Outgoing) (\<lambda>r.
     bind_res (unwrap r) (\<lambda>b. bind_res (u64_values b 0) (\<lambda>node_ids.
     asserts [Ok (3 \<le> batch_rows b), Ok (Some 0 \<in> set node_ids), Ok (Some 1 \<in> set node_ids)])))"

definition test_execute_respects_max_depth :: "platform \<Rightarrow> unit result" where [run]:
  "test_execute_respects_max_depth P = bind_res (traverse_from_0 P 1 None AlgorithmBfs Outgoing) (\<lambda>r.
     bind_res (unwrap r) (\<lambda>b. bind_res (u32_values b 1) (\<lambda>depths.
     asserts (map (\<lambda>d. Ok (d \<le> 1)) (List.map_filter id depths)))))"

definition test_execute_rejects_non_bfs_algorithm :: "platform \<Rightarrow> unit result" where [run]:
  "test_execute_rejects_non_bfs_algorithm P = bind_res (traverse_from_0 P 2 None AlgorithmDfs Outgoing) (\<lambda>r.
     bind_res (unwrap_error r) (\<lambda>e. asserts [Ok (mentions e ''only supports BFS traversal'')]))"

definition test_execute_rejects_non_outgoing_direction :: "platform \<Rightarrow> unit result" where [run]:
  "test_execute_rejects_non_outgoing_direction P = bind_res (traverse_from_0 P 2 None AlgorithmBfs Incoming) (\<lambda>r.
     bind_res (unwrap_error r) (\<lambda>e.
     asserts [Ok (mentions e ''incoming traversal requires the transposed graph'')]))"

definition test_execute_enforces_max_nodes :: "platform \<Rightarrow> unit result" where [run]:
  "test_execute_enforces_max_nodes P = bind_res (traverse_from_0 P 3 (Some 2) AlgorithmBfs Outgoing) (\<lambda>r.
     bind_res (unwrap r) (\<lambda>b. asserts [Ok (batch_rows b = 2)]))"

definition test_execute_returns_null_paths_until_parent_tracking_exists :: "platform \<Rightarrow> unit result" where [run]:
  "test_execute_returns_null_paths_until_parent_tracking_exists P =
     bind_res (traverse_from_0 P 2 None AlgorithmBfs Outgoing) (\<lambda>r. bind_res (unwrap r) (\<lambda>b.
     bind_res (index_vec (batch_columns b) 2) (\<lambda>c. bind_res (unwrap_option (as_id_lists c)) (\<lambda>paths.
     asserts [Ok (length paths = batch_rows b), Ok (count_list paths None = batch_rows b)]))))"

lemma traversal_operator_tests:
  "test_output_schema_fields = Ok ()" "test_execute_returns_traversal_results P = Ok ()"
  "test_execute_respects_max_depth P = Ok ()" "test_execute_rejects_non_bfs_algorithm P = Ok ()"
  "test_execute_rejects_non_outgoing_direction P = Ok ()" "test_execute_enforces_max_nodes P = Ok ()"
  "test_execute_returns_null_paths_until_parent_tracking_exists P = Ok ()"
  by ((simp add: run)+, (simp only: loops cong: lazily if_weak_cong)?)+

section \<open>The catalog and its table functions\<close>

type_synonym list_catalog = "((edge_key \<times> edge_data) list, edge_key list) catalog"

text \<open>\<open>0 \<rightarrow> 1 \<rightarrow> 2 \<rightarrow> 3\<close> and \<open>1 \<rightarrow> 3\<close>, shared, and a catalog with it.\<close>

definition test_graph :: "list_graph result" where [run]:
  "test_graph = graph_of [(0, 1), (1, 2), (2, 3), (1, 3)]"

definition empty_catalog :: list_catalog where [run]:
  "empty_catalog = catalog_new (\<lambda>_. graph_empty list_dash) 0"

definition register_test_graph :: "list_catalog \<Rightarrow> (graph_addr option \<times> list_catalog) result" where [run]:
  "register_test_graph c = map_res (\<lambda>g. let (a, c') = alloc_graph g c in register ''g'' a c') test_graph"

definition setup_catalog :: "list_catalog result" where [run]:
  "setup_catalog = map_res snd (register_test_graph empty_catalog)"

text \<open>
  The literals of a statement are integers of 64 bits and strings.  A query plans the call and
  executes the plan; its rows are identifiers with depths.
\<close>

abbreviation int_arg :: "64 word \<Rightarrow> expr" where
  "int_arg n \<equiv> Literal (ScInt64 (Some n))"

abbreviation str_arg :: "string \<Rightarrow> expr" where
  "str_arg s \<equiv> Literal (ScUtf8 (Some s))"

definition query_rows ::
  "platform \<Rightarrow> expr_debug \<Rightarrow> expr list \<Rightarrow> list_catalog \<Rightarrow> (u64 \<times> u32) list result" where [run]:
  "query_rows P dbg args c = (case graph_traverse dbg list_dash args c of (t, c') \<Rightarrow>
     bind_res (unwrap t) (\<lambda>t. bind_res (unwrap (traversal_execute list_arrow P list_dash (table_exec c' t) 0)) (\<lambda>b.
     bind_res (u64_values b 0) (\<lambda>ids. bind_res (u32_values b 1) (\<lambda>depths.
     Ok (zip (List.map_filter id ids) (List.map_filter id depths)))))))"

definition query_error :: "expr_debug \<Rightarrow> expr list \<Rightarrow> list_catalog \<Rightarrow> df_error result" where [run]:
  "query_error dbg args c = unwrap_error (fst (graph_traverse dbg list_dash args c))"

definition test_sql_traversal_returns_expected_nodes :: "platform \<Rightarrow> expr_debug \<Rightarrow> unit result" where [run]:
  "test_sql_traversal_returns_expected_nodes P dbg = bind_res setup_catalog (\<lambda>c.
     bind_res (query_rows P dbg [str_arg ''g'', int_arg 0, int_arg 2] c) (\<lambda>rows.
     asserts [Ok (length rows = 4), Ok (sort (map fst rows) = [0, 1, 2, 3])]))"

definition test_sql_where_clause_filters_depth :: "platform \<Rightarrow> expr_debug \<Rightarrow> unit result" where [run]:
  "test_sql_where_clause_filters_depth P dbg = bind_res setup_catalog (\<lambda>c.
     bind_res (query_rows P dbg [str_arg ''g'', int_arg 0, int_arg 2] c) (\<lambda>all_rows.
     let rows = filter (\<lambda>(_, d). 0 < d) all_rows
     in asserts (Ok (length rows = 3) # map (\<lambda>(_, d). Ok (0 < d)) rows)))"

definition test_sql_limit_is_applied :: "platform \<Rightarrow> expr_debug \<Rightarrow> unit result" where [run]:
  "test_sql_limit_is_applied P dbg = bind_res setup_catalog (\<lambda>c.
     bind_res (query_rows P dbg [str_arg ''g'', int_arg 0, int_arg 2] c) (\<lambda>all_rows.
     asserts [Ok (length (take 2 all_rows) = 2)]))"

definition test_sql_max_nodes_argument_caps_traversal :: "platform \<Rightarrow> expr_debug \<Rightarrow> unit result" where [run]:
  "test_sql_max_nodes_argument_caps_traversal P dbg = bind_res setup_catalog (\<lambda>c.
     bind_res (query_rows P dbg [str_arg ''g'', int_arg 0, int_arg 3, int_arg 2] c) (\<lambda>rows.
     asserts [Ok (length rows = 2)]))"

definition test_unknown_graph_lists_available_names :: "expr_debug \<Rightarrow> unit result" where [run]:
  "test_unknown_graph_lists_available_names dbg = bind_res setup_catalog (\<lambda>c.
     bind_res (query_error dbg [str_arg ''missing'', int_arg 0, int_arg 2] c) (\<lambda>e.
     asserts [Ok (mentions e (''no graph named '' @ quoted ''missing'')),
       Ok (mentions e [CHR 0x22, CHR ''g'', CHR 0x22])]))"

definition test_wrong_argument_count_errors :: "expr_debug \<Rightarrow> unit result" where [run]:
  "test_wrong_argument_count_errors dbg = bind_res setup_catalog (\<lambda>c.
     bind_res (query_error dbg [str_arg ''g''] c) (\<lambda>e. asserts [Ok (mentions e ''expects 3 to 5 arguments'')]))"

definition test_non_string_graph_name_errors :: "expr_debug \<Rightarrow> unit result" where [run]:
  "test_non_string_graph_name_errors dbg = bind_res setup_catalog (\<lambda>c.
     bind_res (query_error dbg [int_arg 42, int_arg 0, int_arg 2] c) (\<lambda>e.
     asserts [Ok (mentions e ''must be a string literal'')]))"

definition test_negative_start_node_errors :: "expr_debug \<Rightarrow> unit result" where [run]:
  "test_negative_start_node_errors dbg = bind_res setup_catalog (\<lambda>c.
     bind_res (query_error dbg [str_arg ''g'', int_arg (- 1), int_arg 2] c) (\<lambda>e.
     asserts [Ok (mentions e ''must be a non-negative integer literal'')]))"

definition test_sql_incoming_direction_finds_ancestors :: "platform \<Rightarrow> expr_debug \<Rightarrow> unit result" where [run]:
  "test_sql_incoming_direction_finds_ancestors P dbg = bind_res setup_catalog (\<lambda>c.
     bind_res (query_rows P dbg [str_arg ''g'', int_arg 3, int_arg 5, str_arg ''in''] c) (\<lambda>rows.
     asserts [Ok (length rows = 4), Ok (sort (map fst rows) = [0, 1, 2, 3])]))"

definition test_sql_direction_as_fifth_argument_with_max_nodes :: "platform \<Rightarrow> expr_debug \<Rightarrow> unit result" where [run]:
  "test_sql_direction_as_fifth_argument_with_max_nodes P dbg = bind_res setup_catalog (\<lambda>c.
     bind_res (query_rows P dbg [str_arg ''g'', int_arg 3, int_arg 5, int_arg 2, str_arg ''in''] c) (\<lambda>rows.
     asserts [Ok (length rows = 2)]))"

definition test_sql_invalid_direction_errors :: "expr_debug \<Rightarrow> unit result" where [run]:
  "test_sql_invalid_direction_errors dbg = bind_res setup_catalog (\<lambda>c.
     bind_res (query_error dbg [str_arg ''g'', int_arg 0, int_arg 2, str_arg ''sideways''] c) (\<lambda>e.
     asserts [Ok (mentions e (''direction must be '' @ quoted ''out'' @ '' or '' @ quoted ''in''))]))"

definition test_outgoing_result_is_unchanged_with_resident_reverse :: "platform \<Rightarrow> expr_debug \<Rightarrow> unit result" where [run]:
  "test_outgoing_result_is_unchanged_with_resident_reverse P dbg = bind_res setup_catalog (\<lambda>c.
     let args = [str_arg ''g'', int_arg 0, int_arg 2]
     in bind_res (query_rows P dbg args c) (\<lambda>plain.
        case catalog_reverse list_dash ''g'' c of (r, c') \<Rightarrow>
        bind_res (unwrap r) (\<lambda>a. bind_res (unwrap_option a) (\<lambda>_.
        bind_res (query_rows P dbg args c') (\<lambda>hybrid.
        asserts [Ok (length plain = length hybrid), Ok (sort (map fst plain) = sort (map fst hybrid))])))))"

definition test_register_with_reverse_prebuilds_transpose :: "unit result" where [run]:
  "test_register_with_reverse_prebuilds_transpose = bind_res test_graph (\<lambda>g.
     bind_res (unwrap (transpose list_dash g)) (\<lambda>r.
     let (a, c1) = alloc_graph g empty_catalog; (b, c2) = alloc_graph r c1
     in bind_res (unwrap_option (entry_of (register_with_reverse ''g'' a b c2) ''g'')) (\<lambda>entry.
        asserts [Ok (ge_reverse entry \<noteq> None)])))"

text \<open>The ratio is \<open>10.0\<close>.\<close>

definition test_compact_if_needed_swaps_entry_and_preserves_topology :: "unit result" where [run]:
  "test_compact_if_needed_swaps_entry_and_preserves_topology = bind_res setup_catalog (\<lambda>c0.
     bind_res (unwrap_option (catalog_get c0 ''g'')) (\<lambda>a.
     let c1 = c0\<lparr>gc_heap := (gc_heap c0)(a := on_delta (drop_edge 0 1 \<circ> put_edge 3 4) (gc_heap c0 a))\<rparr>;
         lax = \<lparr>max_delta_entries = 100, max_delta_ratio = 0x4024000000000000\<rparr>;
         strict = \<lparr>max_delta_entries = 1, max_delta_ratio = 0x4024000000000000\<rparr>
     in case compact_if_needed list_dash ''g'' lax c1 of (r1, c2) \<Rightarrow>
        case compact_if_needed list_dash ''g'' strict c2 of (r2, c3) \<Rightarrow>
        bind_res (unwrap_option (catalog_get c3 ''g'')) (\<lambda>b.
        let compacted = gc_heap c3 b
        in asserts [map_res Not (unwrap r1), unwrap r2, Ok (delta_is_empty list_dash (delta compacted)),
             edge_in compacted 3 4, map_res Not (edge_in compacted 0 1),
             map_res Not (unwrap (fst (compact_if_needed list_dash ''missing'' strict c3)))])))"

definition test_catalog_register_get_deregister :: "unit result" where [run]:
  "test_catalog_register_get_deregister =
     bind_res (register_test_graph empty_catalog) (\<lambda>(r1, c1).
     bind_res (register_test_graph c1) (\<lambda>(r2, c2).
     case deregister ''g'' c2 of (r3, c3) \<Rightarrow>
     asserts [Ok (catalog_get empty_catalog ''g'' = None), Ok (r1 = None), Ok (catalog_get c1 ''g'' \<noteq> None),
       Ok (catalog_names c1 = [''g'']), Ok (r2 \<noteq> None), Ok (r3 \<noteq> None), Ok (catalog_get c3 ''g'' = None),
       Ok (catalog_names c3 = [])]))"

lemmas catalog_run [run] = catalog_new_def alloc_graph_def entry_new_def put_entry_def catalog_entry_def
  entry_of_def catalog_get_def catalog_dictionary_def register_def register_with_reverse_def deregister_def
  catalog_names_def catalog_reverse_def compaction_begin_def compaction_replay_def compaction_swap_def
  compact_if_needed_def map_filter_simps

lemmas udtf_run [run] = parse_string_def u64_of_signed_def bad_integer_def debug_names_def
  traversal_table_new_def parse_start_node_def parse_fourth_def parse_fifth_def parse_direction_def
  unknown_graph_def parse_arguments_def reverse_for_def graph_traverse_def table_exec_def quoted_def
  debug_char_def with_reverse_def

lemma catalog_tests:
  "test_register_with_reverse_prebuilds_transpose = Ok ()"
  "test_catalog_register_get_deregister = Ok ()"
  by ((simp add: run)+, (simp only: loops cong: lazily if_weak_cong)?)+

lemma query_tests:
  "test_sql_traversal_returns_expected_nodes P dbg = Ok ()"
  "test_sql_where_clause_filters_depth P dbg = Ok ()"
  "test_sql_limit_is_applied P dbg = Ok ()"
  "test_sql_max_nodes_argument_caps_traversal P dbg = Ok ()"
  by ((simp add: run)+, (simp only: loops cong: lazily if_weak_cong)?)+

lemma query_error_tests:
  "test_unknown_graph_lists_available_names dbg = Ok ()"
  "test_wrong_argument_count_errors dbg = Ok ()"
  "test_non_string_graph_name_errors dbg = Ok ()"
  "test_negative_start_node_errors dbg = Ok ()"
  "test_sql_invalid_direction_errors dbg = Ok ()"
  by ((simp add: run)+, (simp only: loops cong: lazily if_weak_cong)?)+

lemmas dobfs_loop_run [run] = ALPHA_def BETA_def dense_test_bit_def dense_set_bit_def dense_clear_bit_def
  trailing_zeros_def dense_index_def unvisited_word_def bottom_up_level_def dense_mark_def top_down_node_def
  top_down_level_def dobfs_record_def go_bottom_up_def dobfs_expand_def

lemma delta_tenfold [run]:
  "f64_ge (f64_of_usize (Suc (Suc 0))) (f64_mul (f64_of_usize (Suc (Suc (Suc (Suc 0))))) 0x4024000000000000) = False"
proof -
  have nums: "Suc (Suc 0) = 2" "Suc (Suc (Suc (Suc 0))) = 4" by simp_all
  show ?thesis unfolding nums by (simp add: float_compute)
qed

lemma reverse_and_compaction_tests:
  "test_compact_if_needed_swaps_entry_and_preserves_topology = Ok ()"
  "test_sql_direction_as_fifth_argument_with_max_nodes P dbg = Ok ()"
  "test_sql_incoming_direction_finds_ancestors P dbg = Ok ()"
  "test_outgoing_result_is_unchanged_with_resident_reverse P dbg = Ok ()"
  by ((simp add: run)+, (simp only: loops cong: lazily if_weak_cong)?)+

declare lazily [cong del] poll.case_cong_weak [cong del] if_split [split]

end
