(* ===== verification/Memory_Session.thy ===== *)
theory Memory_Session
  imports Registration Provider
begin

text \<open>
  A query engine over tables in memory, in as much as the loader and the provider use one: the
  expressions they write are evaluated row by row, with the three-valued logic of SQL.  It is
  an instance of what is assumed of a session, and what the tests of both run on.
\<close>

section \<open>Tables\<close>

text \<open>A cell is a value or null; a row has its cells by column name.\<close>

datatype cell = CellInt int | CellText string | CellF64 f64 | CellU64 u64 | CellF32 f32

type_synonym row = "(string \<times> cell option) list"

record frame =
  fr_fields :: "(string \<times> data_type) list"
  fr_rows :: "row list"

definition cell_of :: "row \<Rightarrow> string \<Rightarrow> cell option" where
  "cell_of r c = Option.bind (map_of r c) id"

definition text_cell :: "row \<Rightarrow> string \<Rightarrow> string option" where
  "text_cell r c = (case cell_of r c of Some (CellText s) \<Rightarrow> Some s | _ \<Rightarrow> None)"

definition frame_of :: "(string \<times> data_type) list \<Rightarrow> cell option list list \<Rightarrow> frame" where
  "frame_of fs rows = \<lparr>fr_fields = fs, fr_rows = map (zip (map fst fs)) rows\<rparr>"

section \<open>Expressions\<close>

definition is_digit :: "char \<Rightarrow> bool" where
  "is_digit c \<longleftrightarrow> c \<in> set ''0123456789''"

definition digit_value :: "char \<Rightarrow> nat" where
  "digit_value c = length (takeWhile (\<lambda>d. d \<noteq> c) ''0123456789'')"

text \<open>Casts between the types that occur; a text is a number when it is digits only.\<close>

fun cast_cell :: "data_type \<Rightarrow> cell \<Rightarrow> cell df_result" where
  "cast_cell DtUInt64 (CellInt i) =
     (if 0 \<le> i \<and> i < 2 ^ 64 then Ok (CellU64 (of_int i)) else Err (DfArrow ''value out of range''))"
| "cast_cell DtUInt64 (CellU64 n) = Ok (CellU64 n)"
| "cast_cell DtUInt64 (CellText s) =
     (let n = fold (\<lambda>c n. 10 * n + digit_value c) s 0
      in if s \<noteq> [] \<and> list_all is_digit s \<and> n < 2 ^ 64 then Ok (CellU64 (of_nat n))
         else Err (DfArrow ''not a number''))"
| "cast_cell DtUtf8 (CellText s) = Ok (CellText s)"
| "cast_cell DtFloat32 (CellF64 x) = Ok (CellF32 (f32_of_f64 x))"
| "cast_cell DtFloat32 (CellF32 x) = Ok (CellF32 x)"
| "cast_cell _ _ = Err (DfNotImplemented ''cast'')"

text \<open>Values; of the patterns, the one that deletes all but digits.\<close>

fun sql_cell :: "sql_expr \<Rightarrow> row \<Rightarrow> cell option df_result" where
  "sql_cell (SqlCol c) r = Ok (cell_of r c)"
| "sql_cell (SqlText s) r = Ok (Some (CellText s))"
| "sql_cell (SqlAlias e _) r = sql_cell e r"
| "sql_cell (SqlCast e t) r =
     bind_res (sql_cell e r) (\<lambda>v. case v of None \<Rightarrow> Ok None | Some x \<Rightarrow> map_res Some (cast_cell t x))"
| "sql_cell (SqlRegexpReplace e pattern replacement flags) r =
     (if pattern = SqlText ''[^0-9]'' \<and> replacement = SqlText [] \<and> flags = Some (SqlText ''g'')
      then bind_res (sql_cell e r) (\<lambda>v. case v of
          None \<Rightarrow> Ok None
        | Some (CellText s) \<Rightarrow> Ok (Some (CellText (filter is_digit s)))
        | _ \<Rightarrow> Err (DfPlan ''not a text''))
      else Err (DfNotImplemented ''pattern''))"
| "sql_cell _ r = Err (DfNotImplemented ''expression'')"

text \<open>Predicates; texts compare by their bytes.\<close>

fun sql_true :: "sql_expr \<Rightarrow> row \<Rightarrow> bool option" where
  "sql_true (SqlLtEq (SqlCol col) (SqlText t)) r = map_option (\<lambda>v. v \<le> t) (text_cell r col)"
| "sql_true (SqlGt (SqlCol col) (SqlText t)) r = map_option (\<lambda>v. v > t) (text_cell r col)"
| "sql_true (SqlIsNull (SqlCol col)) r = Some (text_cell r col = None)"
| "sql_true (SqlOr a b) r =
     (if sql_true a r = Some True \<or> sql_true b r = Some True then Some True
      else if sql_true a r = None \<or> sql_true b r = None then None else Some False)"
| "sql_true _ r = None"

fun expr_columns :: "sql_expr \<Rightarrow> string list" where
  "expr_columns (SqlCol c) = [c]"
| "expr_columns (SqlText _) = []"
| "expr_columns (SqlCast e _) = expr_columns e"
| "expr_columns (SqlAlias e _) = expr_columns e"
| "expr_columns (SqlRegexpReplace e p r f) = expr_columns e"
| "expr_columns (SqlLtEq a b) = expr_columns a @ expr_columns b"
| "expr_columns (SqlGt a b) = expr_columns a @ expr_columns b"
| "expr_columns (SqlIsNull e) = expr_columns e"
| "expr_columns (SqlOr a b) = expr_columns a @ expr_columns b"

fun expr_field :: "sql_expr \<Rightarrow> string \<times> data_type" where
  "expr_field (SqlAlias e n) = (n, snd (expr_field e))"
| "expr_field (SqlCast e t) = (fst (expr_field e), t)"
| "expr_field (SqlCol c) = (c, DtOther c)"
| "expr_field _ = ([], DtUtf8)"

section \<open>Data frames\<close>

definition has_columns :: "sql_expr list \<Rightarrow> frame \<Rightarrow> unit df_result" where
  "has_columns es f = (case filter (\<lambda>c. c \<notin> fst ` set (fr_fields f)) (concat (map expr_columns es)) of
     [] \<Rightarrow> Ok () | c # _ \<Rightarrow> Err (DfPlan (''no field named '' @ c)))"

definition frame_filter :: "sql_expr \<Rightarrow> frame \<Rightarrow> frame df_result" where
  "frame_filter e f = bind_res (has_columns [e] f) (\<lambda>_.
     Ok (f\<lparr>fr_rows := filter (\<lambda>r. sql_true e r = Some True) (fr_rows f)\<rparr>))"

definition frame_select :: "sql_expr list \<Rightarrow> frame \<Rightarrow> frame df_result" where
  "frame_select es f =
     bind_res (has_columns es f) (\<lambda>_.
     bind_res (map_list_res (\<lambda>r. map_list_res (\<lambda>e. sql_cell e r) es) (fr_rows f)) (\<lambda>rows.
     Ok (frame_of (map expr_field es) rows)))"

definition u64_cell :: "cell option \<Rightarrow> u64 option" where
  "u64_cell v = (case v of Some (CellU64 x) \<Rightarrow> Some x | _ \<Rightarrow> None)"

definition f32_cell :: "cell option \<Rightarrow> f32 option" where
  "f32_cell v = (case v of Some (CellF32 x) \<Rightarrow> Some x | _ \<Rightarrow> None)"

definition column_array :: "row list \<Rightarrow> string \<times> data_type \<Rightarrow> arrow_array" where
  "column_array rows = (\<lambda>(n, t). case t of
     DtUInt64 \<Rightarrow> UInt64Array (map (\<lambda>r. u64_cell (cell_of r n)) rows)
   | DtUtf8 \<Rightarrow> StringArray (map (\<lambda>r. text_cell r n) rows)
   | DtFloat32 \<Rightarrow> Float32Array (map (\<lambda>r. f32_cell (cell_of r n)) rows)
   | _ \<Rightarrow> OtherArray t (map (\<lambda>r. cell_of r n \<noteq> None) rows))"

definition frame_schema :: "frame \<Rightarrow> schema" where
  "frame_schema f = map (\<lambda>(n, t). field_new n t True) (fr_fields f)"

definition frame_batch :: "frame \<Rightarrow> record_batch" where
  "frame_batch f = \<lparr>batch_schema = frame_schema f, batch_columns = map (column_array (fr_rows f)) (fr_fields f),
     batch_rows = length (fr_rows f)\<rparr>"

section \<open>The session\<close>

definition memory_session ::
  "(string \<times> frame) list \<Rightarrow> nat \<Rightarrow> usize \<Rightarrow> (frame, frame, 'st) session" where
  "memory_session tables elapsed_millis cpus =
     \<lparr>ss_table = (\<lambda>name. case map_of tables name of
        Some f \<Rightarrow> Ok f | None \<Rightarrow> Err (DfPlan (''table '' @ quoted name @ '' not found''))),
      ss_filter = frame_filter, ss_select = frame_select, ss_plan = Ok,
      ss_coalesce = (\<lambda>f. \<lparr>ip_partitions = 1, ip_schema = frame_schema f,
        ip_execute = Ok [Ready (Some (Ok (frame_batch f)))]\<rparr>),
      ss_collect = (\<lambda>f. Ok [frame_batch f]), ss_drive = drive_all,
      ss_elapsed_millis = elapsed_millis, ss_cpus = cpus\<rparr>"

lemma memory_session_drives: "drives_streams (memory_session tables ms cpus)"
  using drive_stream_polls by (fastforce simp: drives_streams_def memory_session_def drive_all_def)

lemma memory_session_filters:
  "filter_laws (memory_session tables ms cpus) fr_rows text_cell (\<lambda>t. t) sql_true"
  by (auto simp: filter_laws_def memory_session_def frame_filter_def bind_res_Ok_iff)

lemma memory_session_scans:
  "scans (memory_session tables ms cpus) f (frame_schema f) [Ready (Some (Ok (frame_batch f)))]"
  by (simp add: scans_def memory_session_def)

end
