(* ===== verification/Loader_Tests.thy ===== *)
theory Loader_Tests
  imports Query_Tests Memory_Session
begin

text \<open>
  The unit tests of \<open>fusiongraph-ontology\<close>, but for those on random input, and of the loader and
  the table provider of \<open>fusiongraph-datafusion\<close>.  They start from the ontologies their texts
  denote, and their session is \<open>memory_session\<close>.
\<close>

declare lazily [cong] poll.case_cong_weak [cong] if_split [split del]

section \<open>Ontologies\<close>

text \<open>Definitions with the fields a text gives; the others have their defaults.\<close>

definition toml_node :: "string \<Rightarrow> string \<Rightarrow> string \<Rightarrow> node_definition" where [run]:
  "toml_node l source id_column = \<lparr>nd_label = l, nd_source = source, nd_id_column = SingleColumn id_column,
     nd_id_transform = Passthrough, nd_properties = [], nd_filter = None\<rparr>"

definition toml_edge ::
  "string \<Rightarrow> string \<Rightarrow> string \<times> string \<Rightarrow> string \<times> string \<Rightarrow> edge_definition" where [run]:
  "toml_edge l source origin target = \<lparr>ed_label = l, ed_source = source, ed_from_node = fst origin,
     ed_from_column = snd origin, ed_to_node = fst target, ed_to_column = snd target, ed_properties = [],
     ed_weight_column = None, ed_weight_default = default_weight, ed_implicit = False,
     ed_skip_null_targets = default_true, ed_valid_from_column = None, ed_valid_to_column = None,
     ed_partition_column = None\<rparr>"

definition toml_ontology ::
  "string option \<Rightarrow> node_definition list \<Rightarrow> edge_definition list \<Rightarrow> ontology" where [run]:
  "toml_ontology name nodes edges = read_ontology
     \<lparr>of_ontology = map_option (\<lambda>n. \<lparr>mf_name = Some n, mf_version = None, mf_description = None\<rparr>) name,
      of_settings = None, of_nodes = Some nodes, of_edges = Some edges, of_properties = None\<rparr>"

definition has_error :: "ontology \<Rightarrow> string \<Rightarrow> bool" where [run]:
  "has_error ont code \<longleftrightarrow> list_ex (\<lambda>e. ve_code e = code) (vr_errors (validate ont))"

definition test_id_column_single :: "unit result" where [run]:
  "test_id_column_single = asserts [Ok (id_column_columns (SingleColumn ''user_id'') = [''user_id''])]"

definition test_id_column_composite :: "unit result" where [run]:
  "test_id_column_composite = asserts
     [Ok (id_column_columns (CompositeColumns [''account_id'', ''region''] ''::'') = [''account_id'', ''region''])]"

definition test_default_settings :: "unit result" where [run]:
  "test_default_settings = (let s = ontology_settings_default in
     asserts [Ok (os_default_node_id_type s = IdU64), Ok (os_edge_direction s = Directed),
       Ok (\<not> os_allow_self_loops s), Ok (os_allow_parallel_edges s)])"

definition valid_ontology :: ontology where [run]:
  "valid_ontology = toml_ontology None [toml_node ''User'' ''users'' ''id'', toml_node ''Group'' ''groups'' ''id'']
     [toml_edge ''BELONGS_TO'' ''memberships'' (''User'', ''user_id'') (''Group'', ''group_id'')]"

definition test_valid_ontology_passes :: "unit result" where [run]:
  "test_valid_ontology_passes = asserts [Ok (is_valid (validate valid_ontology))]"

definition test_duplicate_node_label_fails :: "unit result" where [run]:
  "test_duplicate_node_label_fails =
     (let ont = toml_ontology None [toml_node ''User'' ''users'' ''id'', toml_node ''User'' ''users2'' ''id''] []
      in asserts [Ok (\<not> is_valid (validate ont)), Ok (has_error ont ''FG-ONT-E004'')])"

definition test_dangling_edge_fails :: "unit result" where [run]:
  "test_dangling_edge_fails =
     (let ont = toml_ontology None [toml_node ''User'' ''users'' ''id'']
        [toml_edge ''BELONGS_TO'' ''memberships'' (''User'', ''user_id'') (''NonExistent'', ''group_id'')]
      in asserts [Ok (\<not> is_valid (validate ont)), Ok (has_error ont ''FG-ONT-E003'')])"

definition test_temporal_without_partition_warns :: "unit result" where [run]:
  "test_temporal_without_partition_warns =
     (let ont = toml_ontology None [toml_node ''User'' ''users'' ''id'', toml_node ''Resource'' ''resources'' ''id'']
        [(toml_edge ''ACCESSED'' ''access_logs'' (''User'', ''user_id'') (''Resource'', ''resource_id''))
           \<lparr>ed_valid_from_column := Some ''event_time''\<rparr>];
        r = validate ont
      in asserts [Ok (is_valid r), Ok (has_warnings r),
           Ok (list_ex (\<lambda>w. vw_code w = ''FG-ONT-W002'') (vr_warnings r))])"

definition test_validate_or_error_preserves_dangling_edge_context :: "unit result" where [run]:
  "test_validate_or_error_preserves_dangling_edge_context =
     (let ont = toml_ontology None [toml_node ''User'' ''users'' ''id'']
        [toml_edge ''BELONGS_TO'' ''memberships'' (''User'', ''user_id'') (''Group'', ''group_id'')]
      in bind_res (unwrap_error (validate_or_error ont)) (\<lambda>e.
         asserts [Ok (e = DanglingEdge ''BELONGS_TO'' ''Group'')]))"

definition test_validate_or_error_preserves_duplicate_label_context :: "unit result" where [run]:
  "test_validate_or_error_preserves_duplicate_label_context =
     (let ont = toml_ontology None [toml_node ''User'' ''users'' ''id'', toml_node ''User'' ''users_archive'' ''id''] []
      in bind_res (unwrap_error (validate_or_error ont)) (\<lambda>e.
         asserts [Ok (e = DuplicateLabel ''node'' ''User'')]))"

definition test_computed_property_with_both_targets_fails :: "unit result" where [run]:
  "test_computed_property_with_both_targets_fails =
     (let ont = (toml_ontology None [toml_node ''User'' ''users'' ''id'']
        [toml_edge ''BELONGS_TO'' ''memberships'' (''User'', ''user_id'') (''User'', ''manager_id'')])
        \<lparr>on_properties := [\<lparr>cp_name = ''weight'', cp_node = Some ''User'', cp_edge = Some ''BELONGS_TO'',
           cp_expression = ''1'', cp_materialized = False\<rparr>]\<rparr>
      in bind_res (unwrap_error (validate_or_error ont)) (\<lambda>e.
         asserts [Ok (e = InvalidComputedPropertyTarget ''weight'' (Some ''User'') (Some ''BELONGS_TO''))]))"

definition test_computed_property_without_target_fails :: "unit result" where [run]:
  "test_computed_property_without_target_fails =
     (let ont = (toml_ontology None [toml_node ''User'' ''users'' ''id''] [])
        \<lparr>on_properties := [\<lparr>cp_name = ''risk_score'', cp_node = None, cp_edge = None,
           cp_expression = ''42'', cp_materialized = False\<rparr>]\<rparr>
      in asserts [Ok (has_error ont ''FG-ONT-E007'')])"

lemmas ontology_run [run] = id_column_columns_def ontology_settings_default_def default_true_def
  read_ontology_def read_meta_def ontology_meta_default_def default_version_def is_valid_def has_warnings_def
  validate_def check_duplicates.simps duplicate_error_def check_dangling_def dangling_error_def
  check_property_def check_partition_def validate_or_error_def ontology_name_def ontology_node_def
  ontology_edge_def node_labels_def edge_labels_def

lemma ontology_tests:
  "test_id_column_single = Ok ()" "test_id_column_composite = Ok ()" "test_default_settings = Ok ()"
  "test_valid_ontology_passes = Ok ()" "test_duplicate_node_label_fails = Ok ()"
  "test_dangling_edge_fails = Ok ()" "test_temporal_without_partition_warns = Ok ()"
  "test_validate_or_error_preserves_dangling_edge_context = Ok ()"
  "test_validate_or_error_preserves_duplicate_label_context = Ok ()"
  "test_computed_property_with_both_targets_fails = Ok ()"
  "test_computed_property_without_target_fails = Ok ()"
  by (simp_all add: run)+

section \<open>Parsing\<close>

text \<open>The tests of \<open>parser.rs\<close>, on any text that the reader reads as the ontology the test writes.\<close>

definition example_toml :: ontology where [run]:
  "example_toml = (toml_ontology (Some ''test_graph'')
     [(toml_node ''User'' ''iceberg.iam.users'' ''user_id'')\<lparr>nd_properties := [''email'', ''name'']\<rparr>,
      toml_node ''Group'' ''iceberg.iam.groups'' ''group_id'']
     [toml_edge ''BELONGS_TO'' ''iceberg.iam.user_groups'' (''User'', ''user_id'') (''Group'', ''group_id'')])
     \<lparr>on_settings := read_settings \<lparr>sf_default_node_id_type = Some IdU64, sf_edge_direction = Some Directed,
        sf_allow_self_loops = None, sf_allow_parallel_edges = None\<rparr>\<rparr>"

definition test_parse_valid_toml :: "reader \<Rightarrow> string \<Rightarrow> unit result" where [run]:
  "test_parse_valid_toml R content = bind_res (unwrap (parse_toml R content)) (\<lambda>ont.
     asserts [Ok (ontology_name ont = ''test_graph''), Ok (node_labels ont = [''User'', ''Group'']),
       Ok (edge_labels ont = [''BELONGS_TO''])])"

definition test_parse_node_properties :: "reader \<Rightarrow> string \<Rightarrow> unit result" where [run]:
  "test_parse_node_properties R content = bind_res (unwrap (parse_toml R content)) (\<lambda>ont.
     bind_res (unwrap_option (ontology_node ont ''User'')) (\<lambda>user.
     asserts [Ok (nd_properties user = [''email'', ''name''])]))"

definition test_parse_edge_references :: "reader \<Rightarrow> string \<Rightarrow> unit result" where [run]:
  "test_parse_edge_references R content = bind_res (unwrap (parse_toml R content)) (\<lambda>ont.
     bind_res (unwrap_option (ontology_edge ont ''BELONGS_TO'')) (\<lambda>e.
     asserts [Ok (ed_from_node e = ''User''), Ok (ed_to_node e = ''Group'')]))"

definition test_parse_invalid_toml :: "reader \<Rightarrow> unit result" where [run]:
  "test_parse_invalid_toml R = bind_res (unwrap_error (parse_toml R ''this is not valid toml {{{'')) (\<lambda>_. Ok ())"

definition test_parse_json_format :: "reader \<Rightarrow> string \<Rightarrow> unit result" where [run]:
  "test_parse_json_format R content = bind_res (unwrap (parse_json R content)) (\<lambda>ont.
     asserts [Ok (ontology_name ont = ''test''), Ok (node_labels ont = [''Node''])])"

lemmas parser_run [run] = parse_toml_def parse_json_def read_settings_def

lemma parser_tests:
  assumes "R content = Ok example_toml" "R ''this is not valid toml {{{'' = Err e"
    and "J document = Ok (toml_ontology (Some ''test'') [toml_node ''Node'' ''table'' ''id''] [])"
  shows "test_parse_valid_toml R content = Ok ()" "test_parse_node_properties R content = Ok ()"
    "test_parse_edge_references R content = Ok ()" "test_parse_invalid_toml R = Ok ()"
    "test_parse_json_format J document = Ok ()"
  using assms by (simp_all add: run)+

section \<open>The loader\<close>

abbreviation list_session ::
  "(string \<times> frame) list \<Rightarrow> nat \<Rightarrow> usize \<Rightarrow> (frame, frame, build_stream \<times> list_sinks) session" where
  "list_session \<equiv> memory_session"

abbreviation register_graphs ::
  "(frame, frame, build_stream \<times> list_sinks) session \<Rightarrow> ontology \<Rightarrow> list_catalog \<Rightarrow>
   string list df_result \<times> list_catalog" where
  "register_graphs \<equiv> register_ontology_graphs list_arrow list_dash"

text \<open>The names and the catalog after a registration that succeeds.\<close>

definition registered :: "'a df_result \<times> list_catalog \<Rightarrow> ('a \<times> list_catalog) result" where [run]:
  "registered r = (case r of (x, c) \<Rightarrow> map_res (\<lambda>x. (x, c)) (unwrap x))"

definition graph_in :: "list_catalog \<Rightarrow> string \<Rightarrow> list_graph result" where [run]:
  "graph_in c name = map_res (gc_heap c) (unwrap_option (catalog_get c name))"

definition iam_ontology :: ontology where [run]:
  "iam_ontology = toml_ontology (Some ''iam_graph'')
     [toml_node ''Role'' ''roles'' ''role_id'', toml_node ''Policy'' ''policies'' ''policy_id'']
     [toml_edge ''CAN_ASSUME'' ''role_assumptions'' (''Role'', ''role_id'') (''Role'', ''assumed_role_id''),
      toml_edge ''HAS_POLICY'' ''role_policies'' (''Role'', ''role_id'') (''Policy'', ''policy_id'')]"

definition edge_table :: "string \<Rightarrow> string \<Rightarrow> (int \<times> int) list \<Rightarrow> frame" where [run]:
  "edge_table from_name to_name edges = frame_of [(from_name, DtOther ''Int64''), (to_name, DtOther ''Int64'')]
     (map (\<lambda>(f, t). [Some (CellInt f), Some (CellInt t)]) edges)"

text \<open>\<open>0 \<rightarrow> 1 \<rightarrow> 2\<close> between roles, and role \<open>0\<close> has policy \<open>10\<close>.\<close>

definition iam_tables :: "(string \<times> frame) list" where [run]:
  "iam_tables = [(''role_assumptions'', edge_table ''role_id'' ''assumed_role_id'' [(0, 1), (1, 2)]),
     (''role_policies'', edge_table ''role_id'' ''policy_id'' [(0, 10)])]"

definition test_registers_one_graph_per_edge_definition :: "nat \<Rightarrow> usize \<Rightarrow> unit result" where [run]:
  "test_registers_one_graph_per_edge_definition ms cpus =
     bind_res (registered (register_graphs (list_session iam_tables ms cpus) iam_ontology empty_catalog)) (\<lambda>(names, c).
     asserts [Ok (names = [''iam_graph.CAN_ASSUME'', ''iam_graph.HAS_POLICY'']), Ok (catalog_names c = names)])"

definition test_registered_graphs_are_queryable_via_sql ::
  "platform \<Rightarrow> expr_debug \<Rightarrow> nat \<Rightarrow> usize \<Rightarrow> unit result" where [run]:
  "test_registered_graphs_are_queryable_via_sql P dbg ms cpus =
     bind_res (registered (register_graphs (list_session iam_tables ms cpus) iam_ontology empty_catalog)) (\<lambda>(_, c).
     bind_res (query_rows P dbg [str_arg ''iam_graph.CAN_ASSUME'', int_arg 0, int_arg 2] c) (\<lambda>rows.
     asserts [Ok (length rows = 3), Ok (sort (map fst rows) = [0, 1, 2])]))"

definition with_first_edge :: "(edge_definition \<Rightarrow> edge_definition) \<Rightarrow> ontology \<Rightarrow> ontology result" where [run]:
  "with_first_edge f ont = (case on_edges ont of
     [] \<Rightarrow> Panic | e # es \<Rightarrow> Ok (ont\<lparr>on_edges := f e # es\<rparr>))"

definition test_missing_source_table_errors_with_edge_context :: "nat \<Rightarrow> usize \<Rightarrow> unit result" where [run]:
  "test_missing_source_table_errors_with_edge_context ms cpus =
     bind_res (with_first_edge (\<lambda>e. e\<lparr>ed_source := ''nonexistent_table''\<rparr>) iam_ontology) (\<lambda>ont.
     bind_res (unwrap_error (fst (register_graphs (list_session iam_tables ms cpus) ont empty_catalog))) (\<lambda>e.
     asserts [Ok (mentions e ''CAN_ASSUME''), Ok (mentions e ''nonexistent_table'')]))"

definition test_invalid_ontology_fails_before_any_build :: "nat \<Rightarrow> usize \<Rightarrow> unit result" where [run]:
  "test_invalid_ontology_fails_before_any_build ms cpus =
     bind_res (with_first_edge (\<lambda>e. e\<lparr>ed_from_node := ''Ghost''\<rparr>) iam_ontology) (\<lambda>ont.
     case register_graphs (list_session iam_tables ms cpus) ont empty_catalog of (r, c) \<Rightarrow>
     bind_res (unwrap_error r) (\<lambda>e.
     asserts [Ok (mentions e ''ontology validation failed''), Ok (catalog_names c = [])]))"

definition test_unnamed_ontology_uses_bare_edge_label :: "unit result" where [run]:
  "test_unnamed_ontology_uses_bare_edge_label =
     (let ont = iam_ontology\<lparr>on_ontology := (on_ontology iam_ontology)\<lparr>om_name := []\<rparr>\<rparr>
      in bind_res (index_vec (on_edges ont) 0) (\<lambda>e. asserts [Ok (graph_name ont e = ''CAN_ASSUME'')]))"

text \<open>The scores are \<open>2.5\<close> and \<open>0.5\<close>.\<close>

definition test_weighted_edges_project_into_weighted_csr :: "nat \<Rightarrow> usize \<Rightarrow> unit result" where [run]:
  "test_weighted_edges_project_into_weighted_csr ms cpus =
     (let scored = frame_of [(''src'', DtOther ''Int64''), (''dst'', DtOther ''Int64''), (''score'', DtFloat64)]
            [[Some (CellInt 0), Some (CellInt 1), Some (CellF64 0x4004000000000000)],
             [Some (CellInt 1), Some (CellInt 2), Some (CellF64 0x3FE0000000000000)]];
          ont = toml_ontology (Some ''w'') [toml_node ''N'' ''scored_edges'' ''src'']
            [(toml_edge ''SCORED'' ''scored_edges'' (''N'', ''src'') (''N'', ''dst''))\<lparr>ed_weight_column := Some ''score''\<rparr>]
      in bind_res (registered (register_graphs (list_session [(''scored_edges'', scored)] ms cpus) ont empty_catalog)) (\<lambda>(_, c).
         bind_res (graph_in c ''w.SCORED'') (\<lambda>g.
         bind_res (unwrap_option (global_to_shard g (node_new 0))) (\<lambda>(shard_idx, offset).
         bind_res (index_vec (shards g) shard_idx) (\<lambda>sh.
         bind_res (shard_neighbor_range sh offset) (\<lambda>(start, _).
         asserts [Ok (edge_count g = 2), Ok (list_ex shard_has_weights (shards g)),
           Ok (shard_weight sh start = Some 0x40200000)]))))))"

lemma scores_in_single_precision [run]:
  "f32_of_f64 0x4004000000000000 = 0x40200000" "f32_of_f64 0x3FE0000000000000 = 0x3F000000"
  by (simp_all add: float_compute)

text \<open>\<open>0 \<rightarrow> 1\<close> valid all of 2025, \<open>1 \<rightarrow> 2\<close> from 2026 onwards.\<close>

definition grants_table :: frame where [run]:
  "grants_table = frame_of
     [(''src'', DtOther ''Int64''), (''dst'', DtOther ''Int64''), (''valid_from'', DtUtf8), (''valid_to'', DtUtf8)]
     [[Some (CellInt 0), Some (CellInt 1), Some (CellText ''2025-01-01''), Some (CellText ''2026-01-01'')],
      [Some (CellInt 1), Some (CellInt 2), Some (CellText ''2026-01-01''), None]]"

definition grants_ontology :: ontology where [run]:
  "grants_ontology = toml_ontology (Some ''t'') [toml_node ''N'' ''grants'' ''src'']
     [(toml_edge ''GRANTS'' ''grants'' (''N'', ''src'') (''N'', ''dst''))
        \<lparr>ed_valid_from_column := Some ''valid_from'', ed_valid_to_column := Some ''valid_to''\<rparr>]"

definition grants_as_of :: "nat \<Rightarrow> usize \<Rightarrow> string option \<Rightarrow> list_graph result" where [run]:
  "grants_as_of ms cpus as_of =
     bind_res (registered (register_ontology_graphs_as_of list_arrow list_dash
       (list_session [(''grants'', grants_table)] ms cpus) grants_ontology as_of empty_catalog)) (\<lambda>(_, c).
     graph_in c ''t.GRANTS'')"

definition test_temporal_as_of_filters_edges :: "nat \<Rightarrow> usize \<Rightarrow> unit result" where [run]:
  "test_temporal_as_of_filters_edges ms cpus =
     bind_res (grants_as_of ms cpus (Some ''2025-06-15'')) (\<lambda>g1.
     bind_res (grants_as_of ms cpus (Some ''2026-06-15'')) (\<lambda>g2.
     bind_res (grants_as_of ms cpus None) (\<lambda>g3.
     asserts [Ok (edge_count g1 = 1), Ok (edge_count g2 = 1), edge_in g2 1 2, Ok (edge_count g3 = 2)])))"

lemmas session_run [run] = memory_session_def frame_of_def frame_filter_def frame_select_def has_columns_def
  frame_schema_def frame_batch_def column_array_def cell_of_def text_cell_def u64_cell_def f32_cell_def
  drive_all_def is_digit_def digit_value_def

lemmas loader_run [run] = register_ontology_graphs_def register_ontology_graphs_as_of_def register_edges.simps
  register_projected_def project_edge_def projection_context_def build_edge_graph_def graph_name_def
  needs_dictionary_def numeric_id_expr_def filter_from_def filter_to_def apply_temporal_filter_def
  weight_projection_def numeric_projection_def edge_build_config_def weight_or_one_def

lemmas session_loops = stream_loops drive_stream.simps

lemma loader_tests:
  "test_registers_one_graph_per_edge_definition ms cpus = Ok ()"
  "test_registered_graphs_are_queryable_via_sql P dbg ms cpus = Ok ()"
  "test_missing_source_table_errors_with_edge_context ms cpus = Ok ()"
  "test_invalid_ontology_fails_before_any_build ms cpus = Ok ()"
  "test_unnamed_ontology_uses_bare_edge_label = Ok ()"
  "test_weighted_edges_project_into_weighted_csr ms cpus = Ok ()"
  by ((simp add: run)+, (simp only: session_loops cong: lazily poll.case_cong_weak if_weak_cong)?)+

lemma temporal_test: "test_temporal_as_of_filters_edges ms cpus = Ok ()"
  by ((simp add: run)+, (simp only: session_loops cong: lazily poll.case_cong_weak if_weak_cong)?)+

text \<open>\<open>alice \<rightarrow> bob \<rightarrow> carol\<close> and \<open>alice \<rightarrow> carol\<close>.\<close>

definition follows_tables :: "(string \<times> frame) list" where [run]:
  "follows_tables = [(''follows'', frame_of [(''follower'', DtUtf8), (''followee'', DtUtf8)]
     (map (\<lambda>(f, t). [Some (CellText f), Some (CellText t)])
        [(''alice'', ''bob''), (''bob'', ''carol''), (''alice'', ''carol'')]))]"

definition social_ontology :: ontology where [run]:
  "social_ontology = (toml_ontology (Some ''social'') [toml_node ''User'' ''follows'' ''follower'']
     [toml_edge ''FOLLOWS'' ''follows'' (''User'', ''follower'') (''User'', ''followee'')])
     \<lparr>on_settings := ontology_settings_default\<lparr>os_default_node_id_type := IdString\<rparr>\<rparr>"

definition register_social :: "nat \<Rightarrow> usize \<Rightarrow> (string list \<times> list_catalog) result" where [run]:
  "register_social ms cpus =
     registered (register_graphs (list_session follows_tables ms cpus) social_ontology empty_catalog)"

text \<open>
  \<open>graph_nodes\<close> as rows of identifiers and keys, and the join of a traversal with them, in the
  order of depth and key.
\<close>

definition rows_engine :: "((edge_key \<times> edge_data) list, edge_key list, unit, record_batch list list) engine" where [run]:
  "rows_engine = \<lparr>en_column = (\<lambda>_ _. Err (DfNotImplemented [])), en_traversal = (\<lambda>_. ()),
     en_project = (\<lambda>_ _. Ok ()), en_limit = (\<lambda>_ _ _. ()), en_mem_table = (\<lambda>_ batches. Ok batches)\<rparr>"

definition node_rows :: "expr_debug \<Rightarrow> string \<Rightarrow> list_catalog \<Rightarrow> (u64 \<times> string) list result" where [run]:
  "node_rows dbg name c = bind_res (unwrap (graph_nodes dbg list_arrow rows_engine c [str_arg name])) (\<lambda>batches.
     bind_res (index_vec (concat batches) 0) (\<lambda>b. bind_res (u64_values b 0) (\<lambda>ids.
     bind_res (index_vec (batch_columns b) 1) (\<lambda>k. bind_res (unwrap_option (as_strings k)) (\<lambda>keys.
     Ok (zip (List.map_filter id ids) (List.map_filter id keys)))))))"

definition joined_keys :: "(u64 \<times> u32) list \<Rightarrow> (u64 \<times> string) list \<Rightarrow> (string \<times> u32) list" where [run]:
  "joined_keys rows nodes = sort_key snd (sort_key fst
     (concat (map (\<lambda>(n, d). map (\<lambda>(_, k). (k, d)) (filter (\<lambda>(m, _). m = n) nodes)) rows)))"

definition test_string_keyed_ontology_builds_dictionary_graph ::
  "platform \<Rightarrow> expr_debug \<Rightarrow> nat \<Rightarrow> usize \<Rightarrow> unit result" where [run]:
  "test_string_keyed_ontology_builds_dictionary_graph P dbg ms cpus =
     bind_res (register_social ms cpus) (\<lambda>(names, c).
     bind_res (unwrap_option (catalog_dictionary c ''social.FOLLOWS'')) (\<lambda>dict.
     bind_res (query_rows P dbg [str_arg ''social.FOLLOWS'', str_arg ''alice'', int_arg 3] c) (\<lambda>rows.
     bind_res (node_rows dbg ''social.FOLLOWS'' c) (\<lambda>nodes.
     asserts [Ok (names = [''social.FOLLOWS'']), Ok (dictionary_len dict = 3), Ok (id_of dict ''alice'' = Some 0),
       Ok (key_of dict 2 = Some ''carol''),
       Ok (map fst (joined_keys rows nodes) = [''alice'', ''bob'', ''carol''])]))))"

definition test_unknown_string_start_node_errors :: "expr_debug \<Rightarrow> nat \<Rightarrow> usize \<Rightarrow> unit result" where [run]:
  "test_unknown_string_start_node_errors dbg ms cpus = bind_res (register_social ms cpus) (\<lambda>(_, c).
     bind_res (query_error dbg [str_arg ''social.FOLLOWS'', str_arg ''mallory'', int_arg 3] c) (\<lambda>e.
     asserts [Ok (mentions e (quoted ''mallory'' @ '' not found''))]))"

definition test_string_start_without_dictionary_errors :: "expr_debug \<Rightarrow> nat \<Rightarrow> usize \<Rightarrow> unit result" where [run]:
  "test_string_start_without_dictionary_errors dbg ms cpus =
     bind_res (registered (register_graphs (list_session iam_tables ms cpus) iam_ontology empty_catalog)) (\<lambda>(_, c).
     bind_res (query_error dbg [str_arg ''iam_graph.CAN_ASSUME'', str_arg ''alice'', int_arg 3] c) (\<lambda>e.
     asserts [Ok (mentions e ''no node-key dictionary'')]))"

definition test_extract_numeric_transform_parses_prefixed_ids :: "nat \<Rightarrow> usize \<Rightarrow> unit result" where [run]:
  "test_extract_numeric_transform_parses_prefixed_ids ms cpus =
     (let prefixed = frame_of [(''src'', DtUtf8), (''dst'', DtUtf8)]
            [[Some (CellText ''user_0''), Some (CellText ''user_1'')],
             [Some (CellText ''user_1''), Some (CellText ''user_2'')]];
          ont = toml_ontology (Some ''p'') [(toml_node ''U'' ''prefixed'' ''src'')\<lparr>nd_id_transform := ExtractNumeric\<rparr>]
            [toml_edge ''E'' ''prefixed'' (''U'', ''src'') (''U'', ''dst'')]
      in bind_res (registered (register_graphs (list_session [(''prefixed'', prefixed)] ms cpus) ont empty_catalog)) (\<lambda>(_, c).
         bind_res (graph_in c ''p.E'') (\<lambda>g.
         asserts [Ok (catalog_dictionary c ''p.E'' = None), edge_in g 0 1, edge_in g 1 2])))"

text \<open>The ratio is \<open>10.0\<close>.\<close>

definition test_dictionary_survives_compaction_swap :: "nat \<Rightarrow> usize \<Rightarrow> unit result" where [run]:
  "test_dictionary_survives_compaction_swap ms cpus = bind_res (register_social ms cpus) (\<lambda>(_, c).
     bind_res (unwrap_option (catalog_get c ''social.FOLLOWS'')) (\<lambda>a.
     let c1 = c\<lparr>gc_heap := (gc_heap c)(a := on_delta (put_edge 2 0) (gc_heap c a))\<rparr>;
         strict = \<lparr>max_delta_entries = 1, max_delta_ratio = 0x4024000000000000\<rparr>
     in case compact_if_needed list_dash ''social.FOLLOWS'' strict c1 of (r, c2) \<Rightarrow>
        bind_res (unwrap_option (catalog_dictionary c2 ''social.FOLLOWS'')) (\<lambda>dict.
        bind_res (graph_in c2 ''social.FOLLOWS'') (\<lambda>compacted.
        asserts [unwrap r, Ok (id_of dict ''alice'' = Some 0), edge_in compacted 2 0]))))"

lemmas dictionary_loader_run [run] = dictionary_projection_def interned_new_def key_column_def key_weights_def
  push_interned_def intern_row_def intern_batch_def interned_builder_def build_edge_graph_with_dictionary_def
  register_with_dictionary_def graph_nodes_def no_dictionary_def

lemma string_key_tests:
  "test_string_keyed_ontology_builds_dictionary_graph P dbg ms cpus = Ok ()"
  "test_unknown_string_start_node_errors dbg ms cpus = Ok ()"
  "test_string_start_without_dictionary_errors dbg ms cpus = Ok ()"
  "test_extract_numeric_transform_parses_prefixed_ids ms cpus = Ok ()"
  "test_dictionary_survives_compaction_swap ms cpus = Ok ()"
  by ((simp add: run)+, (simp only: session_loops cong: lazily poll.case_cong_weak if_weak_cong)?)+

section \<open>The table provider\<close>

definition follows_ontology :: ontology where [run]:
  "follows_ontology = toml_ontology None
     [(toml_node ''User'' ''users'' ''id'')\<lparr>nd_properties := [''name'', ''email'']\<rparr>]
     [(toml_edge ''FOLLOWS'' ''follows'' (''User'', ''follower_id'') (''User'', ''followee_id''))
        \<lparr>ed_properties := [''since'']\<rparr>]"

definition test_ontology_with_id_type :: "id_type \<Rightarrow> ontology" where [run]:
  "test_ontology_with_id_type t =
     follows_ontology\<lparr>on_settings := (on_settings follows_ontology)\<lparr>os_default_node_id_type := t\<rparr>\<rparr>"

abbreviation new_provider :: "ontology \<Rightarrow> ((edge_key \<times> edge_data) list, edge_key list) provider" where
  "new_provider ont \<equiv> provider_new list_dash ont"

definition field_names :: "schema \<Rightarrow> string list" where [run]:
  "field_names s = map field_name s"

definition assert_id_fields :: "schema \<Rightarrow> data_type \<Rightarrow> bool result list" where [run]:
  "assert_id_fields s expected = map (\<lambda>f. Ok (field_type f = expected))
     (filter (\<lambda>f. field_name f \<in> {''node_id'', ''source_id'', ''target_id''}) s)"

definition test_provider_creation :: "unit result" where [run]:
  "test_provider_creation = (let p = new_provider follows_ontology in
     asserts [Ok (provider_node_labels p = [''User'']), Ok (\<not> is_materialized p)])"

definition test_provider_schema :: "unit result" where [run]:
  "test_provider_schema = (let s = pv_schema (new_provider follows_ontology) in
     asserts [Ok (length s = 3), assert_eq (map_res field_name (index_vec s 0)) ''source'',
       assert_eq (map_res field_name (index_vec s 2)) ''label''])"

definition test_node_schema_returns_correct_fields :: "unit result" where [run]:
  "test_node_schema_returns_correct_fields =
     bind_res (unwrap_option (node_schema (new_provider follows_ontology) ''User'')) (\<lambda>s.
     asserts (map (\<lambda>n. Ok (n \<in> set (field_names s))) [''node_id'', ''label'', ''name'', ''email'']))"

definition test_node_schema_returns_none_for_unknown :: "unit result" where [run]:
  "test_node_schema_returns_none_for_unknown =
     asserts [Ok (node_schema (new_provider follows_ontology) ''Unknown'' = None)]"

definition test_edge_schema_returns_correct_fields :: "unit result" where [run]:
  "test_edge_schema_returns_correct_fields =
     bind_res (unwrap_option (edge_schema (new_provider follows_ontology) ''FOLLOWS'')) (\<lambda>s.
     asserts (map (\<lambda>n. Ok (n \<in> set (field_names s))) [''source_id'', ''target_id'', ''label'', ''since'']))"

definition assert_id_types :: "id_type \<Rightarrow> data_type \<Rightarrow> unit result" where [run]:
  "assert_id_types t expected = (let p = new_provider (test_ontology_with_id_type t) in
     bind_res (unwrap_option (node_schema p ''User'')) (\<lambda>ns.
     bind_res (unwrap_option (edge_schema p ''FOLLOWS'')) (\<lambda>es.
     asserts (assert_id_fields ns expected @ assert_id_fields es expected))))"

definition test_schemas_map_string_ids_to_hashed_uint64 :: "unit result" where [run]:
  "test_schemas_map_string_ids_to_hashed_uint64 = assert_id_types IdString DtUInt64"

definition test_schemas_map_u128_ids_to_fixed_size_binary :: "unit result" where [run]:
  "test_schemas_map_u128_ids_to_fixed_size_binary = assert_id_types IdU128 (DtFixedSizeBinary 16)"

definition test_edge_schema_returns_none_for_unknown :: "unit result" where [run]:
  "test_edge_schema_returns_none_for_unknown =
     asserts [Ok (edge_schema (new_provider follows_ontology) ''UNKNOWN'' = None)]"

text \<open>\<open>1 \<rightarrow> 2 \<rightarrow> 3\<close> and \<open>1 \<rightarrow> 3\<close>.\<close>

definition follows_table :: "(string \<times> frame) list" where [run]:
  "follows_table = [(''follows'', edge_table ''follower_id'' ''followee_id'' [(1, 2), (2, 3), (1, 3)])]"

definition materialized ::
  "nat \<Rightarrow> usize \<Rightarrow> ((edge_key \<times> edge_data) list, edge_key list) provider result" where [run]:
  "materialized ms cpus =
     (case materialize list_arrow list_dash (list_session follows_table ms cpus) (new_provider follows_ontology)
      of (r, p) \<Rightarrow> map_res (\<lambda>_. p) (unwrap r))"

definition test_materialize_builds_graph_and_edge_list :: "layout \<Rightarrow> nat \<Rightarrow> usize \<Rightarrow> unit result" where [run]:
  "test_materialize_builds_graph_and_edge_list L ms cpus = bind_res (materialized ms cpus) (\<lambda>p.
     asserts [Ok (is_materialized p), Ok (st_edge_count (provider_statistics L list_dash p) = 3),
       edge_in (pv_graph p) 1 2])"

text \<open>A scan of batches in memory, and the count of its rows with a label and a source.\<close>

definition batches_engine :: "record_batch list memory_engine" where [run]:
  "batches_engine = \<lparr>me_scan = (\<lambda>partitions _ _. Ok (concat partitions)), me_limit = (\<lambda>_ _ plan. plan)\<rparr>"

definition labelled_sources :: "record_batch \<Rightarrow> (u64 option \<times> string option) list result" where [run]:
  "labelled_sources b = bind_res (u64_values b 0) (\<lambda>ss.
     bind_res (index_vec (batch_columns b) 2) (\<lambda>c. bind_res (unwrap_option (as_strings c)) (\<lambda>ls.
     Ok (zip ss ls))))"

definition test_scan_serves_labeled_edge_list_via_sql :: "nat \<Rightarrow> usize \<Rightarrow> unit result" where [run]:
  "test_scan_serves_labeled_edge_list_via_sql ms cpus = bind_res (materialized ms cpus) (\<lambda>p.
     bind_res (unwrap (provider_scan batches_engine p None None)) (\<lambda>batches.
     bind_res (map_list_res labelled_sources batches) (\<lambda>rows.
     asserts [Ok (count_list (concat rows) (Some 1, Some ''FOLLOWS'') = 2)])))"

definition test_scan_before_materialize_errors :: "unit result" where [run]:
  "test_scan_before_materialize_errors =
     bind_res (unwrap_error (provider_scan batches_engine (new_provider follows_ontology) None None)) (\<lambda>e.
     asserts [Ok (mentions e ''not materialized'')])"

definition from_1 :: traversal_spec where [run]:
  "from_1 = \<lparr>ts_start = [NodeId 1], ts_max_depth = 3, ts_max_nodes = None, ts_algorithm = AlgorithmBfs,
     ts_direction = Outgoing\<rparr>"

definition test_create_traversal_plan_requires_materialization :: "unit result" where [run]:
  "test_create_traversal_plan_requires_materialization =
     bind_res (unwrap_error (create_traversal_plan (new_provider follows_ontology) from_1)) (\<lambda>e.
     asserts [Ok (case e of PlanGenerationFailed _ \<Rightarrow> True | _ \<Rightarrow> False)])"

definition test_create_traversal_plan_executes_bfs :: "platform \<Rightarrow> nat \<Rightarrow> usize \<Rightarrow> unit result" where [run]:
  "test_create_traversal_plan_executes_bfs P ms cpus = bind_res (materialized ms cpus) (\<lambda>p.
     bind_res (unwrap (create_traversal_plan p from_1)) (\<lambda>plan.
     bind_res (unwrap (traversal_execute list_arrow P list_dash plan 0)) (\<lambda>b.
     asserts [Ok (batch_rows b = 3)])))"

lemmas provider_run [run] = edge_list_schema_def provider_new_def provider_node_labels_def is_materialized_def
  provider_id_type_def property_fields_def node_schema_def edge_schema_def pair_projection_def id_values_def
  pair_row_def pair_batch_def edge_pairs_def edge_columns_def materialize_edge_def materialize_def
  create_traversal_plan_def provider_scan_def provider_statistics_def statistics_def

lemma provider_tests:
  "test_provider_creation = Ok ()" "test_provider_schema = Ok ()"
  "test_node_schema_returns_correct_fields = Ok ()" "test_node_schema_returns_none_for_unknown = Ok ()"
  "test_edge_schema_returns_correct_fields = Ok ()" "test_schemas_map_string_ids_to_hashed_uint64 = Ok ()"
  "test_schemas_map_u128_ids_to_fixed_size_binary = Ok ()" "test_edge_schema_returns_none_for_unknown = Ok ()"
  "test_scan_before_materialize_errors = Ok ()" "test_create_traversal_plan_requires_materialization = Ok ()"
  by (simp_all add: run)+

lemma materialized_provider_tests:
  "test_materialize_builds_graph_and_edge_list L ms cpus = Ok ()"
  "test_scan_serves_labeled_edge_list_via_sql ms cpus = Ok ()"
  "test_create_traversal_plan_executes_bfs P ms cpus = Ok ()"
  by ((simp add: run)+, (simp only: session_loops cong: lazily poll.case_cong_weak if_weak_cong)?)+

declare lazily [cong del] poll.case_cong_weak [cong del] if_split [split]

end
