(* ===== verification/Ffi.thy ===== *)
theory Ffi
  imports Arrow
begin

text \<open>
  The C data interface crate (\<open>fusiongraph-ffi\<close>): record batches exported as struct arrays
  and imported again.  The library's conversion between arrays and C structures is a
  parameter; memory ownership across the interface is not modelled.
\<close>

section \<open>Errors and statistics\<close>

datatype ffi_error = FfiArrow string | FfiNullPointer string | FfiInvalidSchema

type_synonym 'a ffi_result = "(ffi_error, 'a) res"

fun ffi_error_display :: "ffi_error \<Rightarrow> string" where
  "ffi_error_display (FfiArrow e) = ''FG-FFI-E001: Arrow error: '' @ e"
| "ffi_error_display (FfiNullPointer function) = ''FG-FFI-E002: Null pointer passed to '' @ function"
| "ffi_error_display FfiInvalidSchema = ''FG-FFI-E003: Invalid Arrow schema''"

record ffi_stats =
  nodes_visited :: u64
  edges_traversed :: u64
  execution_time_us :: u64

definition ffi_stats_default :: ffi_stats where
  "ffi_stats_default = \<lparr>nodes_visited = 0, edges_traversed = 0, execution_time_us = 0\<rparr>"

text \<open>The result structure that C clients receive; a null error pointer is \<open>None\<close>.\<close>

record ('a, 'f) ffi_graph_result =
  fr_array :: 'a
  fr_schema :: 'f
  fr_error :: "string option"
  fr_stats :: ffi_stats

section \<open>Conversions\<close>

text \<open>A struct array: its fields, its columns, and which of its rows are valid, if not all are.\<close>

record struct_array =
  sa_fields :: schema
  sa_columns :: "arrow_array list"
  sa_validity :: "bool list option"
  sa_length :: usize

datatype array_data = StructData struct_array | PlainData arrow_array

record ('a, 'f) ffi =
  ff_from :: "'a \<Rightarrow> 'f \<Rightarrow> (string, array_data) res"
  ff_to :: "array_data \<Rightarrow> (string, 'a \<times> 'f) res"

text \<open>What is exported can be imported again.\<close>

definition ffi_laws :: "('a, 'f) ffi \<Rightarrow> bool" where
  "ffi_laws F \<longleftrightarrow> (\<forall>x a f. ff_to F x = Ok (a, f) \<longrightarrow> ff_from F a f = Ok x)"

definition import_record_batch :: "arrow \<Rightarrow> ('a, 'f) ffi \<Rightarrow> 'a \<Rightarrow> 'f \<Rightarrow> record_batch ffi_result" where
  "import_record_batch A F a f =
     bind_res (map_err FfiArrow (ff_from F a f)) (\<lambda>x. case x of
       PlainData _ \<Rightarrow> Err FfiInvalidSchema
     | StructData sa \<Rightarrow> map_err FfiArrow (aw_try_new A (sa_fields sa) (sa_columns sa)))"

text \<open>\<open>StructArray::from\<close> a batch: every row is valid.\<close>

definition struct_of_batch :: "record_batch \<Rightarrow> struct_array" where
  "struct_of_batch b = \<lparr>sa_fields = batch_schema b, sa_columns = batch_columns b, sa_validity = None,
     sa_length = batch_rows b\<rparr>"

definition export_record_batch :: "('a, 'f) ffi \<Rightarrow> record_batch \<Rightarrow> ('a \<times> 'f) ffi_result" where
  "export_record_batch F b = map_err FfiArrow (ff_to F (StructData (struct_of_batch b)))"

section \<open>Properties\<close>

definition wf_batch :: "record_batch \<Rightarrow> bool" where
  "wf_batch b \<longleftrightarrow> batch_fits (batch_schema b) (batch_columns b) \<and>
     batch_rows b = array_length (hd (batch_columns b))"

text \<open>
  a batch survives the interface: importing what a well-formed batch was exported as gives
  the batch back.
\<close>

theorem export_import_roundtrip:
  assumes "arrow_laws A" "ffi_laws F" "wf_batch b" "export_record_batch F b = Ok (a, f)"
  shows "import_record_batch A F a f = Ok b"
proof -
  have "ff_to F (StructData (struct_of_batch b)) = Ok (a, f)"
    using assms(4) by (simp add: export_record_batch_def)
  then have "ff_from F a f = Ok (StructData (struct_of_batch b))"
    using assms(2) by (simp add: ffi_laws_def)
  moreover have "aw_try_new A (batch_schema b) (batch_columns b) = Ok b"
    using assms(1,3) by (simp add: wf_batch_def try_new_fits)
  ultimately show ?thesis by (simp add: import_record_batch_def struct_of_batch_def)
qed

text \<open>An interface that hands the data over as it is.\<close>

definition plain_ffi :: "(array_data, unit) ffi" where
  "plain_ffi = \<lparr>ff_from = (\<lambda>a _. Ok a), ff_to = (\<lambda>x. Ok (x, ()))\<rparr>"

lemma plain_ffi_laws: "ffi_laws plain_ffi"
  by (simp add: ffi_laws_def plain_ffi_def)

definition example_ids_batch :: record_batch where
  "example_ids_batch = \<lparr>batch_schema = [field_new ''id'' DtUInt64 False],
     batch_columns = [UInt64Array [Some 1, Some 2]], batch_rows = 2\<rparr>"

theorem export_import_roundtrip_witness:
  "\<exists>a f. export_record_batch plain_ffi example_ids_batch = Ok (a, f) \<and>
     import_record_batch list_arrow plain_ffi a f = Ok example_ids_batch"
proof -
  have "wf_batch example_ids_batch"
    by (simp add: wf_batch_def example_ids_batch_def batch_fits_def field_new_def)
  moreover obtain a f where "export_record_batch plain_ffi example_ids_batch = Ok (a, f)"
    by (simp add: export_record_batch_def plain_ffi_def)
  ultimately show ?thesis using export_import_roundtrip [OF list_arrow_laws plain_ffi_laws] by blast
qed

text \<open>
  Importing does not look at the validity of the struct's rows: rows that are null as a whole
  come back as ordinary rows.
\<close>

theorem import_ignores_validity:
  assumes "ff_from F a f = Ok (StructData sa)" "ff_from F a' f' = Ok (StructData (sa\<lparr>sa_validity := v\<rparr>))"
  shows "import_record_batch A F a' f' = import_record_batch A F a f"
  using assms by (simp add: import_record_batch_def)

theorem import_ignores_validity_witness:
  "import_record_batch list_arrow plain_ffi
     (StructData ((struct_of_batch example_ids_batch)\<lparr>sa_validity := Some [False, False]\<rparr>)) () =
   import_record_batch list_arrow plain_ffi (StructData (struct_of_batch example_ids_batch)) ()"
  using import_ignores_validity [of plain_ffi "StructData (struct_of_batch example_ids_batch)" "()"
      "struct_of_batch example_ids_batch"] by (simp add: plain_ffi_def)

end
