(* ===== verification/Ffi_Tests.thy ===== *)
theory Ffi_Tests
  imports Ffi Query_Tests
begin

text \<open>
  The unit tests of \<open>fusiongraph-ffi\<close>, over any conversion that hands out what it takes back.
\<close>

definition exports :: "('a, 'f) ffi \<Rightarrow> bool" where
  "exports F \<longleftrightarrow> ffi_laws F \<and> (\<forall>x. \<exists>p. ff_to F x = Ok p)"

lemma plain_ffi_exports: "exports plain_ffi"
  by (simp add: exports_def plain_ffi_laws) (simp add: plain_ffi_def)

text \<open>Values that the tests never read, all of them present.\<close>

abbreviation values_of :: "string \<Rightarrow> nat \<Rightarrow> arrow_array" where
  "values_of t n \<equiv> OtherArray (DtOther t) (replicate n True)"

definition create_test_batch :: "record_batch result" where
  "create_test_batch = unwrap (aw_try_new list_arrow
     [field_new ''id'' (DtOther ''Int64'') False, field_new ''name'' DtUtf8 False]
     [values_of ''Int64'' 3, StringArray (map Some [''a'', ''b'', ''c''])])"

definition create_weighted_batch :: "record_batch result" where
  "create_weighted_batch = unwrap (aw_try_new list_arrow
     [field_new ''source'' DtUInt64 False, field_new ''target'' DtUInt64 False,
      field_new ''weight'' (DtOther ''Float64'') True]
     [UInt64Array (map Some [0, 0, 1, 2, 3]), UInt64Array (map Some [1, 2, 2, 3, 4]), values_of ''Float64'' 5])"

text \<open>Exporting and importing again.\<close>

definition sent_back :: "('a, 'f) ffi \<Rightarrow> record_batch \<Rightarrow> record_batch result" where
  "sent_back F b = bind_res (unwrap (export_record_batch F b)) (\<lambda>(a, f).
     unwrap (import_record_batch list_arrow F a f))"

definition test_export_succeeds :: "('a, 'f) ffi \<Rightarrow> unit result" where
  "test_export_succeeds F = bind_res create_test_batch (\<lambda>b. asserts [Ok (is_Ok (export_record_batch F b))])"

definition test_export_import_roundtrip :: "('a, 'f) ffi \<Rightarrow> unit result" where
  "test_export_import_roundtrip F = bind_res create_test_batch (\<lambda>original.
     bind_res (sent_back F original) (\<lambda>imported.
     asserts [Ok (batch_rows original = batch_rows imported),
       Ok (length (batch_columns original) = length (batch_columns imported))]))"

definition test_roundtrip_edge_batch :: "('a, 'f) ffi \<Rightarrow> unit result" where
  "test_roundtrip_edge_batch F = bind_res create_weighted_batch (\<lambda>original.
     bind_res (sent_back F original) (\<lambda>imported.
     asserts ([Ok (batch_rows original = batch_rows imported),
         Ok (length (batch_columns original) = length (batch_columns imported))] @
       map (\<lambda>i. bind_res (u64_value original 0 i) (assert_eq (u64_value imported 0 i))) [0..<batch_rows original])))"

definition test_roundtrip_empty_batch :: "('a, 'f) ffi \<Rightarrow> unit result" where
  "test_roundtrip_empty_batch F =
     bind_res (unwrap (aw_try_new list_arrow [field_new ''id'' (DtOther ''Int64'') False] [values_of ''Int64'' 0])) (\<lambda>original.
     bind_res (sent_back F original) (\<lambda>imported.
     asserts [Ok (batch_rows imported = 0), Ok (length (batch_columns imported) = 1)]))"

definition test_roundtrip_large_batch :: "('a, 'f) ffi \<Rightarrow> unit result" where
  "test_roundtrip_large_batch F = (let n = 10000 in
     bind_res (unwrap (aw_try_new list_arrow
       [field_new ''id'' DtUInt64 False, field_new ''value'' (DtOther ''Float64'') False]
       [UInt64Array (map (\<lambda>i. Some (of_nat i)) [0..<n]), values_of ''Float64'' n])) (\<lambda>original.
     bind_res (sent_back F original) (\<lambda>imported.
     asserts [Ok (batch_rows imported = n), assert_eq (u64_value imported 0 0) 0,
       assert_eq (u64_value imported 0 (n - 1)) (of_nat (n - 1))])))"

definition test_multiple_roundtrips :: "('a, 'f) ffi \<Rightarrow> unit result" where
  "test_multiple_roundtrips F = bind_res create_test_batch (\<lambda>original.
     fold_res (\<lambda>u _. bind_res (sent_back F original) (\<lambda>_. Ok u)) () [0..<5])"

definition test_stats_default :: "unit result" where
  "test_stats_default = (let s = ffi_stats_default in
     asserts [Ok (nodes_visited s = 0), Ok (edges_traversed s = 0), Ok (execution_time_us s = 0)])"

lemma test_stats_default: "test_stats_default = Ok ()"
  by (simp add: test_stats_default_def ffi_stats_default_def)

lemma sent_back_same:
  assumes "exports F" "wf_batch b"
  shows "sent_back F b = Ok b" "is_Ok (export_record_batch F b)"
proof -
  obtain a f where e: "export_record_batch F b = Ok (a, f)"
    using assms(1) unfolding exports_def export_record_batch_def by (metis map_err.simps(1) surj_pair)
  then show "is_Ok (export_record_batch F b)" by simp
  show "sent_back F b = Ok b"
    using export_import_roundtrip [OF list_arrow_laws _ assms(2) e] assms(1) e
    by (simp add: sent_back_def exports_def)
qed

lemma made_batch:
  assumes "batch_fits s cols"
  shows "wf_batch \<lparr>batch_schema = s, batch_columns = cols, batch_rows = array_length (hd cols)\<rparr>"
    "unwrap (aw_try_new list_arrow s cols) =
      Ok \<lparr>batch_schema = s, batch_columns = cols, batch_rows = array_length (hd cols)\<rparr>"
  using assms by (simp_all add: wf_batch_def try_new_fits [OF list_arrow_laws])

lemma ffi_batch_tests:
  assumes "exports F"
  shows "test_export_succeeds F = Ok ()" "test_export_import_roundtrip F = Ok ()"
    "test_multiple_roundtrips F = Ok ()"
proof -
  have "batch_fits [field_new ''id'' (DtOther ''Int64'') False, field_new ''name'' DtUtf8 False]
      [values_of ''Int64'' 3, StringArray (map Some [''a'', ''b'', ''c''])]"
    by (simp add: batch_fits_def field_new_def)
  from made_batch [OF this] obtain b where b: "create_test_batch = Ok b" "wf_batch b"
    unfolding create_test_batch_def by blast
  note same = sent_back_same [OF assms b(2)]
  show "test_export_succeeds F = Ok ()" "test_export_import_roundtrip F = Ok ()"
    using same by (simp_all add: test_export_succeeds_def test_export_import_roundtrip_def b(1))
  have "fold_res (\<lambda>u _. bind_res (sent_back F b) (\<lambda>_. Ok u)) () is = Ok ()" for "is" :: "nat list"
    by (induction "is") (simp_all add: same)
  then show "test_multiple_roundtrips F = Ok ()" by (simp add: test_multiple_roundtrips_def b(1))
qed

lemma test_roundtrip_edge_batch:
  assumes "exports F"
  shows "test_roundtrip_edge_batch F = Ok ()"
proof -
  let ?s = "[field_new ''source'' DtUInt64 False, field_new ''target'' DtUInt64 False,
      field_new ''weight'' (DtOther ''Float64'') True]"
  let ?cols = "[UInt64Array (map Some [0, 0, 1, 2, 3]), UInt64Array (map Some [1, 2, 2, 3, 4]), values_of ''Float64'' 5]"
  have fits: "batch_fits ?s ?cols" by (simp add: batch_fits_def field_new_def)
  show ?thesis
    unfolding test_roundtrip_edge_batch_def create_weighted_batch_def made_batch(2) [OF fits] bind_res.simps
      sent_back_same(1) [OF assms made_batch(1) [OF fits]]
    by (simp add: u64_value_def u64_values_def assert_eq_def index_vec_def upt_rec)
qed

lemma test_roundtrip_empty_batch:
  assumes "exports F"
  shows "test_roundtrip_empty_batch F = Ok ()"
proof -
  have fits: "batch_fits [field_new ''id'' (DtOther ''Int64'') False] [values_of ''Int64'' 0]"
    by (simp add: batch_fits_def field_new_def)
  show ?thesis
    unfolding test_roundtrip_empty_batch_def made_batch(2) [OF fits] bind_res.simps
      sent_back_same(1) [OF assms made_batch(1) [OF fits]]
    by simp
qed

lemma test_roundtrip_large_batch:
  assumes "exports F"
  shows "test_roundtrip_large_batch F = Ok ()"
proof -
  let ?s = "[field_new ''id'' DtUInt64 False, field_new ''value'' (DtOther ''Float64'') False]"
  have fits: "batch_fits ?s [UInt64Array (map (\<lambda>i. Some (of_nat i)) [0..<n]), values_of ''Float64'' n]" for n
    by (auto simp: batch_fits_def field_new_def)
  have "u64_value \<lparr>batch_schema = ?s,
      batch_columns = [UInt64Array (map (\<lambda>i. Some (of_nat i)) [0..<n]), values_of ''Float64'' n], batch_rows = n\<rparr> 0 i =
      Ok (of_nat i)" if "i < n" for i n
    using that by (simp add: u64_value_def u64_values_def index_vec_def)
  then show ?thesis
    unfolding test_roundtrip_large_batch_def Let_def made_batch(2) [OF fits] bind_res.simps
      sent_back_same(1) [OF assms made_batch(1) [OF fits]]
    by (simp add: assert_eq_def del: upt_Suc)
qed

end
