(* ===== verification/Spec2Isabelle.thy ===== *)
theory Spec2Isabelle
  imports Compaction Bitset Dobfs Circuit_Breaker Generators Ontology Dictionary Traversal_Exec
    Csr_Exec Sessions Provider Iceberg Loader_Tests Ffi_Tests
begin

text \<open>
  A model of FusionGraph: an in-memory graph store in compressed sparse rows with a mutable
  delta layer, breadth-first searches over it, an ontology that says which tables are graphs,
  and the query-engine integration that builds, registers and traverses these graphs.

  \<^bold>\<open>The parts and how they interact.\<close>  A builder sorts an edge list into shards (\<open>csr/builder.rs\<close>,
  \<open>csr/shard.rs\<close>); the graph (\<open>csr.rs\<close>) is the shards and a delta layer (\<open>delta.rs\<close>) of inserted
  edges and tombstones, which neighbour iteration overlays and compaction folds back into
  shards through the builder.  The searches (\<open>traversal/bfs.rs\<close>, \<open>traversal/dobfs.rs\<close>) mark
  nodes in bit sets (\<open>traversal/bitset.rs\<close>) and filter neighbour slices with vector kernels
  (\<open>traversal/simd.rs\<close>).  A validated ontology (\<open>fusiongraph-ontology\<close>) tells the loader
  (\<open>loader.rs\<close>) which columns to query; a polling stream (\<open>exec/csr_builder.rs\<close>) or an
  interning loop over a key dictionary (\<open>dictionary.rs\<close>) turns the rows into a graph; the
  catalog (\<open>udtf.rs\<close>) names it; the table functions parse their arguments and plan the
  traversal operator (\<open>exec/graph_traversal.rs\<close>); the table provider (\<open>provider.rs\<close>) serves all
  edges of an ontology as one table and one graph, and \<open>iceberg_ext.rs\<close> makes snapshots of Iceberg
  tables the tables the loader reads.

  \<^bold>\<open>Theories.\<close>  In each, the definitions follow the order of the code and have its names; states
  are records with the fields of the structs.

  \<^item> \<open>Prelude\<close>: outcomes \<open>Ok\<close>, \<open>Err\<close> and \<open>Panic\<close> of a computation, checked arithmetic and indexing,
    loops with early return; \<open>Floats\<close>: the IEEE operations used, on bit patterns.
  \<^item> \<open>Errors\<close> (\<open>types.rs\<close>, \<open>error.rs\<close>), \<open>Delta\<close> (\<open>delta.rs\<close>), \<open>Shard\<close> (\<open>csr/shard.rs\<close>), \<open>Graph\<close> (\<open>csr.rs\<close>:
    addressing, iteration, lookups), \<open>Builder\<close> (\<open>csr/builder.rs\<close>), \<open>Compaction\<close> (\<open>csr.rs\<close>: \<open>compact\<close>,
    \<open>transpose\<close>).
  \<^item> \<open>Marking\<close> (bit sets in words, shared), \<open>Bitset\<close> (\<open>traversal/bitset.rs\<close>), \<open>Simd\<close>
    (\<open>traversal/simd.rs\<close>, down to the lanes), \<open>Reach\<close> (balls and shortest distances, free of any
    representation), \<open>Bfs\<close> (\<open>traversal/bfs.rs\<close>, \<open>traversal.rs\<close>), \<open>Dobfs\<close> (\<open>traversal/dobfs.rs\<close>).
  \<^item> \<open>Circuit_Breaker\<close> (\<open>circuit_breaker.rs\<close>), \<open>Generators\<close> (\<open>gen.rs\<close>), \<open>Ontology\<close> (\<open>schema.rs\<close>,
    \<open>error.rs\<close>, \<open>parser.rs\<close>, \<open>validation.rs\<close> of \<open>fusiongraph-ontology\<close>).
  \<^item> \<open>Arrow\<close> (columns and batches as data; \<open>error.rs\<close> of \<open>fusiongraph-datafusion\<close>), \<open>Dictionary\<close>
    (\<open>dictionary.rs\<close>), \<open>Traversal_Exec\<close> (\<open>exec/graph_traversal.rs\<close>), \<open>Csr_Exec\<close>
    (\<open>exec/csr_builder.rs\<close>), \<open>Catalog\<close> and \<open>Traverse_Udtf\<close> (\<open>udtf.rs\<close>), \<open>Loader\<close> and
    \<open>Registration\<close> (\<open>loader.rs\<close>), \<open>Sessions\<close> (calls of clients on a catalog in any order), \<open>Provider\<close> (\<open>provider.rs\<close>), \<open>Ffi\<close>
    (\<open>fusiongraph-ffi\<close>), \<open>Iceberg\<close> (\<open>iceberg_ext.rs\<close>), \<open>Dobfs_Transpose\<close> (\<open>traversal/dobfs.rs\<close> on the
    graphs \<open>csr.rs\<close> makes).
  \<^item> \<open>Memory_Session\<close>: a query engine over tables in memory, which meets what is assumed of a session.
  \<^item> \<open>Core_Tests\<close>, \<open>Graph_Tests\<close>, \<open>Search_Tests\<close> (\<open>fusiongraph-core\<close>), \<open>Query_Tests\<close>, \<open>Loader_Tests\<close>
    (\<open>fusiongraph-datafusion\<close>, \<open>fusiongraph-ontology\<close>) and \<open>Ffi_Tests\<close> (\<open>fusiongraph-ffi\<close>): the
    repository's unit tests as programs over the model, each proved to pass.  The definitions are
    so checked against what the repository itself says they compute.  A test is run by the
    simplifier on the collection \<open>run\<close>; one over large data follows from what is proved of all.

  \<^bold>\<open>Interfaces.\<close>  \<open>marked_set\<close> (in \<open>Marking\<close>) is what a search needs of its visited set, and is
  interpreted by the bit set, the tracker of \<open>bfs.rs\<close> and the words of \<open>dobfs.rs\<close>; \<open>edge_overlay\<close>
  (in \<open>Delta\<close>) is the last-writer-wins contract of the delta layer; \<open>lawful_backend\<close> (in \<open>Simd\<close>) is what
  a vector backend promises, interpreted by every backend; \<open>named_registry\<close> (in \<open>Catalog\<close>) is
  the contract of the catalog.

  \<^bold>\<open>What the lemmas show.\<close>  Building: the graph has exactly the given edges in order, shards
  stay within their bytes, bad identifiers are refused.  Overlay and compaction: iteration
  yields the live edges, compaction and transposition preserve or reverse them, and a search
  cannot tell a graph from its compaction.  Searching: every node within the limit once, at
  its shortest distance, on every backend, and direction-optimising search agrees.  Streams,
  loader and provider: the rows without null ends become the graph, however they are batched;
  errors stop where they occur and leave what the code leaves.  Catalog and queries: a name gives
  the graph, the transpose and the dictionary that its last registration gave; arguments are
  taken exactly when they mean a query (\<open>traverse_call\<close>, a relation independent of the parser), and
  a query from its arguments to its rows returns shortest distances, before and after compaction
  and whatever calls on other names and graphs come in between;
  \<open>registered_keys_are_queried\<close> composes all of this from the rows
  of a string-keyed table to the decoded answers; graphs projected from pinned
  snapshots are the same whenever they are built.  Several theorems show where the code falls
  short of its documentation: a mutation between replay and swap of a compaction is lost,
  readers during a compaction see neither insertions nor deletions, a failed compaction loses
  its mutations, a key resolved before its graph is registered anew starts elsewhere, a stale reading half-opens a circuit early, and
  importing a struct array drops its validity.

  \<^bold>\<open>References.\<close>  An \<open>Arc\<close> of a graph or an entry is an address into a store, so that holders of
  the same graph see each other's mutations; that addresses are below the next free one
  (\<open>wf_catalog\<close>) is a condition of this encoding, which the references of the code meet by their type.

  \<^bold>\<open>Bounds and termination.\<close>  A \<open>usize\<close> is a natural number with \<open>usize_max = 2^64 - 1\<close>; \<open>u32\<close> and
  \<open>u64\<close> are words; every overflow the code checks, and every one that would panic, is a branch
  of the model.  There is no fuel in loops of the code: recursion that is not structural has
  a measure (\<open>shrink_shard\<close>, \<open>partition_loop\<close>, \<open>neighbor_collect\<close>, the search loops); \<open>show_digits\<close>
  has twenty digits, enough for 64 bits.  \<open>stream_ends\<close> bounds the polls of the building stream.

  \<^bold>\<open>Parameters.\<close>  Libraries are arguments with their documented behaviour as named hypotheses:
  the concurrent maps (\<open>dash_laws\<close>), record batches (\<open>arrow_laws\<close>), the engine's streams
  (\<open>drives_streams\<close>) and filters (\<open>filter_laws\<close>), the C interface (\<open>ffi_laws\<close>), the tables of a
  session (\<open>registers_tables\<close>), and without
  hypotheses the platform's processor features, the checksum's hasher, the TOML and JSON
  readers, the clock, the remaining operations of a session and the debug text of an
  expression.  Each hypothesis is proved of a concrete instance, which the witnesses use.

  \<^bold>\<open>Not modelled.\<close>  Memory layout and reclamation, atomics weaker than sequentially consistent
  steps, poisoned locks, the serialisation derives, the plumbing of plan and table traits
  (\<open>as_any\<close>, properties, children), registering table functions with a session, ownership across
  the C interface; in the compaction of a registered graph, what other threads write while
  \<open>CsrGraph::compact\<close> runs: its draining of the tombstones, its draining of the insertions and its
  build are one step of \<open>compaction_begin\<close>, and writes come between that step, the replay and the
  swap; of the unit tests, the one that R-MAT graphs are skewed, whose twelve random
  steps for each of 32768 edges the kernel does not run, the one of a derived debug text and
  those on random input in \<open>parser.rs\<close>; benchmarks, examples and integration tests.
\<close>

section \<open>Building and searching\<close>

text \<open>The relation an edge list gives on nodes.\<close>

definition edge_relation :: "(u64 \<times> u64) list \<Rightarrow> edge_key set" where
  "edge_relation es = (\<lambda>(a, b). (NodeId a, NodeId b)) ` set es"

lemma in_edge_relation [simp]:
  "(NodeId a, NodeId b) \<in> edge_relation es \<longleftrightarrow> (a, b) \<in> set es"
  by (force simp: edge_relation_def)

lemma buildable_plain:
  assumes "\<forall>(a, b) \<in> set es. unat a < u32_max \<and> unat b < u32_max" "length es \<le> u32_max"
  shows "buildable (with_edges es builder_new)"
  using assms by (auto simp: buildable_def built_edges_plain default_shard_size_def usize_max_def
      case_prod_beta)

lemma from_edges_graph:
  assumes "\<forall>(a, b) \<in> set es. unat a < u32_max \<and> unat b < u32_max" "length es \<le> u32_max"
    and D: "dash_laws D"
  obtains g where "from_edges D es = Ok g" "wf_graph D g" "delta g = delta_new D"
    "graph_edges D g = edge_relation es"
    "\<And>n. n \<in> Field (edge_relation es) \<Longrightarrow> graph_contains g n"
proof -
  let ?b = "with_edges es builder_new"
  have ok: "buildable ?b" using assms(1,2) by (rule buildable_plain)
  obtain g where g: "build D ?b = Ok g" "wf_graph D g" "delta g = delta_new D"
    "node_count g = built_node_count ?b"
    using ok D by (rule build_spec)
  have nl: "neighbor_list D g (NodeId v) = map (\<lambda>e. NodeId (snd e)) (filter (\<lambda>e. fst e = v) es)" for v
    using build_neighbor_list [OF ok D g(1), of v]
    by (simp add: edges_from_def built_edges_plain filter_map comp_def)
  have "(a, b) \<in> graph_edges D g \<longleftrightarrow> (a, b) \<in> edge_relation es" for a b
    using set_neighbor_list [OF D, of g a] nl [of "as_u64 a"]
    by (cases a; cases b) (auto simp: image_iff set_eq_iff)
  then have edges: "graph_edges D g = edge_relation es" by auto
  have contains: "graph_contains g n" if n: "n \<in> Field (edge_relation es)" for n
  proof -
    obtain e where e: "e \<in> set es" "n = NodeId (fst e) \<or> n = NodeId (snd e)"
      using n by (force simp: Field_def edge_relation_def)
    then have "e \<in> set (b_edges (sort_edges ?b))"
      by (simp add: sort_edges_props(4) built_edges_plain image_comp)
    from max_node_id_ge [OF this] e show ?thesis
      by (auto simp: graph_contains_iff g(4) built_node_count_def word_le_nat_alt less_Suc_eq_le
          with_edges_def)
  qed
  show thesis using g edges contains by (intro that [of g]) (simp_all add: from_edges_def)
qed

text \<open>
  C4: building and searching together: from an edge list whose identifiers and length fit
  32 bits, \<open>from_edges\<close> gives a graph on which a search from nodes that occur in the list
  reports \<open>v\<close> at depth \<open>d\<close> exactly when \<open>d\<close> is within the limit and the shortest path
  along the given edges from a start to \<open>v\<close> has \<open>d\<close> edges.
\<close>

theorem built_graph_search:
  assumes "\<forall>(a, b) \<in> set es. unat a < u32_max \<and> unat b < u32_max" "length es \<le> u32_max"
    and "dash_laws D" "set ss \<subseteq> Field (edge_relation es)"
  shows "\<exists>g r. from_edges D es = Ok g \<and> bfs_multi P D g ss md = Ok r \<and>
    distinct (r_visited r) \<and>
    ((\<exists>i < length (r_visited r). r_visited r ! i = v \<and> r_depths r ! i = d) \<longleftrightarrow>
       d \<le> md \<and> (\<exists>s \<in> set ss. (s, v) \<in> edge_relation es ^^ unat d) \<and>
       (\<forall>e < unat d. \<forall>s \<in> set ss. (s, v) \<notin> edge_relation es ^^ e))"
proof -
  obtain g where g: "from_edges D es = Ok g" "wf_graph D g" "delta g = delta_new D"
    "graph_edges D g = edge_relation es"
    "\<And>n. n \<in> Field (edge_relation es) \<Longrightarrow> graph_contains g n"
    using from_edges_graph [OF assms(1,2,3)] by blast
  have s: "searchable D g"
    using g(2,3) assms(3) by (simp add: searchable_def delta_insertion_count_def delta_new_def
      dash_laws_def dash_map_laws_def)
  have ss: "{s \<in> set ss. graph_contains g s} = set ss" using assms(4) g(5) by auto
  obtain r where r: "bfs_multi P D g ss md = Ok r"
    "r_visited r = map fst (search_order D g ss md)"
    "map unat (r_depths r) = map snd (search_order D g ss md)"
    using s by (rule bfs_multi_order)
  have "distinct (r_visited r)"
    using r(2) distinct_search_order [of "length (search_order D g ss md)" D g ss md] by simp
  moreover have "(\<exists>i < length (r_visited r). r_visited r ! i = v \<and> r_depths r ! i = d) \<longleftrightarrow>
      d \<le> md \<and> reach_distance D g (set ss) (unat d) v"
    using search_order_spec [OF assms(3), of v "unat d" g ss md] r ss
      nth_pair_in_set [of "search_order D g ss md" "r_visited r" "r_depths r" v d]
    by (simp add: word_le_nat_alt)
  ultimately show ?thesis using g(1,4) r(1) by (auto simp: reach_distance_def)
qed

lemma field_example: "set [NodeId 0] \<subseteq> Field (edge_relation [(0, 1), (1, 2)])"
  by (auto simp: Field_def edge_relation_def)

theorem built_graph_search_witness:
  "\<exists>g r. from_edges list_dash [(0, 1), (1, 2)] = Ok g \<and>
     bfs_multi example_platform list_dash g [NodeId 0] 5 = Ok r \<and> distinct (r_visited r)"
proof -
  have "\<forall>(a, b) \<in> set [(0, 1), (1, 2 :: u64)]. unat (a :: u64) < u32_max \<and> unat b < u32_max"
    "length [(0, 1), (1 :: u64, 2 :: u64)] \<le> u32_max"
    by (simp_all add: u32_max_def)
  from built_graph_search [OF this list_dash_laws field_example, of example_platform 5 "NodeId 2" 2]
  show ?thesis by blast
qed

section \<open>Compaction and searching\<close>

text \<open>
  C5: compaction is invisible to a search: from starts that have a live edge, a bounded
  search visits the same nodes in the same order with the same depths, levels and maximal
  depth before and after, whatever the limits and the platform.
\<close>

theorem compaction_preserves_search:
  assumes "wf_graph D g" "compactable D g"
    and "\<forall>s \<in> set ss. graph_contains g s \<and> neighbors D g s \<noteq> Ok []"
  shows "\<exists>g' old r r'. compact D g = (Ok g', old) \<and>
    bfs_bounded P D g ss md cap = Ok r \<and> bfs_bounded P D g' ss md cap = Ok r' \<and>
    r_visited r = r_visited r' \<and> r_depths r = r_depths r' \<and> r_levels r = r_levels r' \<and>
    r_max_depth_reached r = r_max_depth_reached r'"
proof -
  note wf = wf_graphD [OF assms(1)]
  obtain g' d where g': "compact D g = (Ok g', g\<lparr>delta := d\<rparr>)" "wf_graph D g'"
    "delta g' = delta_new D" "\<And>a. neighbor_list D g' a = neighbor_list D g a"
    using compact_Ok [OF assms(1,2)] by metis
  have "graph_contains g' s" if "s \<in> set ss" for s
  proof -
    have "neighbor_list D g' s \<noteq> []"
      using that assms(3) g'(4) neighbors_Ok [OF wf(1)] by auto
    then have "base_row g' s \<noteq> []"
      using neighbor_list_no_delta [OF wf(3), of g' s] g'(3) wf(3) by auto
    then show ?thesis by (auto simp: base_row_def graph_contains_iff Let_def split: if_splits)
  qed
  then have "filter (graph_contains g') ss = ss" by (simp add: filter_id_conv)
  moreover have "filter (graph_contains g) ss = ss" using assms(3) by (simp add: filter_id_conv)
  moreover have "neighbor_list D g' = neighbor_list D g" using g'(4) by blast
  ultimately have "search_order D g ss md = search_order D g' ss md"
    by (simp add: search_order_def)
  from bfs_bounded_cong [OF assms(1) g'(2) this] g'(1) show ?thesis by blast
qed

theorem compaction_preserves_search_witness:
  "\<exists>g' old r r'. compact list_dash example_graph = (Ok g', old) \<and>
     bfs_bounded example_platform list_dash example_graph [NodeId 0] 3 (Some 2) = Ok r \<and>
     bfs_bounded example_platform list_dash g' [NodeId 0] 3 (Some 2) = Ok r' \<and> r_visited r = r_visited r'"
proof -
  have "(NodeId 0, NodeId 2) \<in> graph_edges list_dash example_graph"
    by (simp add: graph_edges_def base_edges_def example_graph_rows node_of_u32_def)
      (simp add: example_graph_def list_dash_laws)
  then have "neighbor_list list_dash example_graph (NodeId 0) \<noteq> []"
    using set_neighbor_list [OF list_dash_laws, of example_graph "NodeId 0"] by auto
  then have "\<forall>s \<in> set [NodeId 0]. graph_contains example_graph s \<and>
      neighbors list_dash example_graph s \<noteq> Ok []"
    using neighbors_Ok [OF wf_graphD(1) [OF wf_example_graph]]
    by (simp add: graph_contains_iff example_graph_def)
  from compaction_preserves_search [OF wf_example_graph compactable_example this, of example_platform 3 "Some 2"]
  show ?thesis by blast
qed

section \<open>Compaction and queries\<close>

text \<open>What the compaction of a registered graph leaves to queries from a node with a live edge.\<close>

lemma compacted_for_queries:
  assumes "wf_catalog c" "entry_of c name = Some en" "gc_heap c (ge_forward en) = g"
    and "wf_graph D g" "compactable D g" "should_compact D g policy"
    and "NodeId n \<in> Field (graph_edges D g)" "graph_contains g (NodeId n)"
  shows "\<exists>c' en' g'. compact_if_needed D name policy c = (Ok True, c') \<and> wf_catalog c' \<and>
    entry_of c' name = Some en' \<and> ge_reverse en' = None \<and> ge_dictionary en' = ge_dictionary en \<and>
    gc_heap c' (ge_forward en') = g' \<and> wf_graph D g' \<and> compactable D g' \<and> graph_edges D g' = graph_edges D g \<and>
    (\<forall>md. search_order D g [node_new n] md = search_order D g' [node_new n] md)"
proof -
  obtain c' en' where c': "compact_if_needed D name policy c = (Ok True, c')" "wf_catalog c'"
    "entry_of c' = (entry_of c)(name \<mapsto> en')" "ge_reverse en' = None" "ge_dictionary en' = ge_dictionary en"
    "wf_graph D (gc_heap c' (ge_forward en'))" "compactable D (gc_heap c' (ge_forward en'))"
    "graph_edges D (gc_heap c' (ge_forward en')) = graph_edges D g"
    "base_edges (gc_heap c' (ge_forward en')) = graph_edges D g"
    "\<And>a. neighbor_list D (gc_heap c' (ge_forward en')) a = neighbor_list D g a"
    by (rule compact_if_needed_Ok [OF assms(1-6)]) (rule that, assumption+)
  let ?g = "gc_heap c' (ge_forward en')"
  have "unat (as_u64 a) < node_count ?g \<and> unat (as_u64 b) < node_count ?g" if "(a, b) \<in> graph_edges D g" for a b
    using that base_edges_bound [OF wf_graphD(1) [OF c'(6)]] c'(9) by simp
  then have "unat (as_u64 (NodeId n)) < node_count ?g" using assms(7) unfolding Field_def by blast
  then have "graph_contains ?g (NodeId n)" by (simp add: graph_contains_iff)
  moreover have "neighbor_list D ?g = neighbor_list D g" using c'(10) by (simp add: fun_eq_iff)
  ultimately have "search_order D g [node_new n] md = search_order D ?g [node_new n] md" for md
    using assms(8) by (simp add: search_order_def node_new_def)
  with c' show ?thesis by (intro exI [of _ c'] exI [of _ en'] exI [of _ ?g]) simp
qed

text \<open>An outgoing query before and after: while there is a delta the memoised transpose is not used.\<close>

lemma outgoing_query_compacted:
  assumes "arrow_laws A" "gc_heap c (ge_forward en) = g" "gc_heap c' (ge_forward en') = g'"
    and "wf_graph D g" "wf_graph D g'" "\<And>md. search_order D g [node_new n] md = search_order D g' [node_new n] md"
    and "\<not> delta_is_empty D (delta g)" "ge_reverse en' = None"
    and "entry_of c name = Some en" "entry_of c' name = Some en'" "unat hops \<le> u32_max"
    and "traverse_call c args name n hops cap Outgoing" "traverse_call c' args name n hops cap Outgoing"
  shows "\<exists>b. run_query A P D dbg args c = Ok b \<and> run_query A P D dbg args c' = Ok b"
proof -
  let ?spec = "query_spec n hops cap Outgoing"
  have order: "search_order D g (ts_start ?spec) (ts_max_depth ?spec) =
      search_order D g' (ts_start ?spec) (ts_max_depth ?spec)"
    using assms(6) by simp
  have plain: "map_option (gc_heap c) (ge_reverse en) = None \<or> \<not> delta_is_empty D (delta g)"
    "map_option (gc_heap c') (ge_reverse en') = None \<or> \<not> delta_is_empty D (delta g')"
    using assms(7,8) by simp_all
  from outgoing_same_batch [OF assms(1,4,5) order plain query_spec_sel(1,2), of P]
  show ?thesis
    using traverse_outgoing_eq [OF assms(12,9,11), of dbg D] traverse_outgoing_eq [OF assms(13,10,11), of dbg D]
    by (simp add: run_query_def table_exec_eq assms(2,3))
qed

lemma rows_compared:
  assumes "\<exists>ids ds. B' ids ds \<and> distinct ids \<and> (\<forall>v d. (v, d) \<in> set (zip ids ds) \<longleftrightarrow> Q v d)"
    and "M \<Longrightarrow> \<exists>ids ds. B ids ds \<and> distinct ids \<and> (\<forall>v d. (v, d) \<in> set (zip ids ds) \<longleftrightarrow> Q v d)"
  shows "\<exists>ids' ds'. B' ids' ds' \<and> distinct ids' \<and> (\<forall>v d. (v, d) \<in> set (zip ids' ds') \<longleftrightarrow> Q v d) \<and>
    (M \<longrightarrow> (\<exists>ids ds. B ids ds \<and> distinct ids \<and> set (zip ids ds) = set (zip ids' ds')))"
proof -
  obtain ids' ds' where a: "B' ids' ds'" "distinct ids'" "\<And>p. p \<in> set (zip ids' ds') \<longleftrightarrow> Q (fst p) (snd p)"
    using assms(1) by auto
  have "\<exists>ids ds. B ids ds \<and> distinct ids \<and> set (zip ids ds) = set (zip ids' ds')" if M
    using assms(2) [OF that] a(3) by (auto simp: set_eq_iff)
  with a show ?thesis by (intro exI [of _ ids'] exI [of _ ds']) simp
qed

text \<open>
  C3: compaction is invisible to queries: when the registered graph is compacted, any call of
  \<open>graph_traverse\<close> from a node of its base with a live edge means afterwards what it meant before.
  If it is outgoing, with or without a cap, it returns the same batch before and after, whatever
  transpose has been memoised.  If it is incoming and has no cap, it returns afterwards exactly the
  nodes that reach the start over the live edges within the hops, each once, at the length of the
  shortest path, even when the transpose memoised before did not know the mutations that are folded
  in; and when that transpose was absent or current, it returned the same nodes with the same
  distances before.
\<close>

theorem compaction_preserves_queries:
  assumes "arrow_laws A" "wf_catalog c" "entry_of c name = Some en" "gc_heap c (ge_forward en) = g"
    and "wf_graph D g" "compactable D g" "should_compact D g policy"
    and "traverse_call c args name n hops cap dir" "unat hops \<le> u32_max"
    and "NodeId n \<in> Field (graph_edges D g)" "graph_contains g (NodeId n)"
  shows "\<exists>c'. compact_if_needed D name policy c = (Ok True, c') \<and>
    traverse_call c' args name n hops cap dir \<and>
    (dir = Outgoing \<longrightarrow> (\<exists>b. run_query A P D dbg args c = Ok b \<and> run_query A P D dbg args c' = Ok b)) \<and>
    (dir = Incoming \<and> cap = None \<longrightarrow> (\<exists>ids' ds'.
       run_query A P D dbg args c' = Ok (rows_batch ids' ds') \<and> distinct ids' \<and>
       (\<forall>v d. (v, d) \<in> set (zip ids' ds') \<longleftrightarrow> unat d \<le> unat hops \<and>
          (NodeId v, NodeId n) \<in> graph_edges D g ^^ unat d \<and>
          (\<forall>e < unat d. (NodeId v, NodeId n) \<notin> graph_edges D g ^^ e)) \<and>
       ((\<forall>r. ge_reverse en = Some r \<longrightarrow> transpose D g = Ok (gc_heap c r)) \<longrightarrow> (\<exists>ids ds.
          run_query A P D dbg args c = Ok (rows_batch ids ds) \<and> distinct ids \<and>
          set (zip ids ds) = set (zip ids' ds')))))"
proof -
  obtain c' en' g' where c': "compact_if_needed D name policy c = (Ok True, c')" "wf_catalog c'"
    "entry_of c' name = Some en'" "ge_reverse en' = None" "ge_dictionary en' = ge_dictionary en"
    "gc_heap c' (ge_forward en') = g'" "wf_graph D g'" "compactable D g'" "graph_edges D g' = graph_edges D g"
    "\<And>md. search_order D g [node_new n] md = search_order D g' [node_new n] md"
    using compacted_for_queries [OF assms(2-7,10,11)] by blast
  have "catalog_dictionary c' name = catalog_dictionary c name"
    using c'(3,5) assms(3) by (simp add: catalog_dictionary_def)
  then have call: "traverse_call c' args name n hops cap dir" by (rule traverse_call_cong [OF _ assms(8)])
  have live: "NodeId n \<in> Field (graph_edges D g')" using assms(10) c'(9) by simp
  have delta: "\<not> delta_is_empty D (delta g)"
    using assms(7) should_compact_empty [OF wf_graphD(3) [OF assms(5)], of g policy]
      delta_is_empty_iff [OF wf_graphD(3) [OF assms(5)]] by blast
  have outgoing: "\<exists>b. run_query A P D dbg args c = Ok b \<and> run_query A P D dbg args c' = Ok b"
    if "dir = Outgoing"
    by (rule outgoing_query_compacted [OF assms(1,4) c'(6) assms(5) c'(7,10) delta c'(4) assms(3) c'(3) assms(9)
          assms(8) [unfolded that] call [unfolded that]])
  have after: "\<exists>ids ds. run_query A P D dbg args c' = Ok (rows_batch ids ds) \<and> distinct ids \<and>
      (\<forall>v d. (v, d) \<in> set (zip ids ds) \<longleftrightarrow> unat d \<le> unat hops \<and>
         (NodeId v, NodeId n) \<in> graph_edges D g ^^ unat d \<and>
         (\<forall>e < unat d. (NodeId v, NodeId n) \<notin> graph_edges D g ^^ e))" if "dir = Incoming" "cap = None"
    using incoming_call_distances [OF assms(1) c'(2,3) _ c'(6-8) call [unfolded that] assms(9) live, of P dbg]
      c'(4) unfolding c'(9) by simp
  have before: "\<exists>ids ds. run_query A P D dbg args c = Ok (rows_batch ids ds) \<and> distinct ids \<and>
      (\<forall>v d. (v, d) \<in> set (zip ids ds) \<longleftrightarrow> unat d \<le> unat hops \<and>
         (NodeId v, NodeId n) \<in> graph_edges D g ^^ unat d \<and>
         (\<forall>e < unat d. (NodeId v, NodeId n) \<notin> graph_edges D g ^^ e))"
    if "dir = Incoming" "cap = None" "\<forall>r. ge_reverse en = Some r \<longrightarrow> transpose D g = Ok (gc_heap c r)"
    using incoming_call_distances [OF assms(1-3) _ assms(4-6) assms(8) [unfolded that(1,2)] assms(9,10), of P dbg]
      that(3) by blast
  show ?thesis
    by (intro exI [of _ c'] conjI impI c'(1) call outgoing rows_compared [OF after before]) simp_all
qed

theorem compaction_preserves_queries_witness:
  "\<exists>c' b ids ds. compact_if_needed list_dash ''g'' eager_policy example_catalog = (Ok True, c') \<and>
     run_query list_arrow example_platform list_dash (\<lambda>_. []) (example_arguments 0 ''out'') example_catalog = Ok b \<and>
     run_query list_arrow example_platform list_dash (\<lambda>_. []) (example_arguments 0 ''out'') c' = Ok b \<and>
     run_query list_arrow example_platform list_dash (\<lambda>_. []) (example_arguments 0 ''in'') c' = Ok (rows_batch ids ds) \<and>
     distinct ids"
proof -
  have calls: "traverse_call example_catalog (example_arguments 0 ''out'') ''g'' 0 3 None Outgoing"
    "traverse_call example_catalog (example_arguments 0 ''in'') ''g'' 0 3 None Incoming"
    by (rule example_call; simp add: direction_words_def)+
  have hops: "unat (3 :: u64) \<le> u32_max" by (simp add: u32_max_def)
  have live: "NodeId 0 \<in> Field (graph_edges list_dash example_graph)"
    using example_live_edge by (auto simp: Field_def)
  have contains: "graph_contains example_graph (NodeId 0)" by (simp add: graph_contains_iff example_graph_def)
  note query = compaction_preserves_queries [where dbg = "\<lambda>_. []" and P = example_platform,
      OF list_arrow_laws example_catalog_props(1,2) example_catalog_props(3)
      wf_example_graph compactable_example example_should_compact _ hops live contains]
  obtain c1 b where c1: "compact_if_needed list_dash ''g'' eager_policy example_catalog = (Ok True, c1)"
    "run_query list_arrow example_platform list_dash (\<lambda>_. []) (example_arguments 0 ''out'') example_catalog = Ok b"
    "run_query list_arrow example_platform list_dash (\<lambda>_. []) (example_arguments 0 ''out'') c1 = Ok b"
    using query [OF calls(1)] by auto
  obtain c2 ids ds where c2: "compact_if_needed list_dash ''g'' eager_policy example_catalog = (Ok True, c2)"
    "run_query list_arrow example_platform list_dash (\<lambda>_. []) (example_arguments 0 ''in'') c2 = Ok (rows_batch ids ds)"
    "distinct ids"
    using query [OF calls(2)] by auto
  have "c2 = c1" using c1(1) c2(1) by simp
  with c1 c2 show ?thesis by blast
qed

end
